(* ===== verification/Prelude.thy ===== *)
theory Prelude
  imports Main "HOL-Library.Word" "HOL-Library.Signed_Division"
begin

text \<open>
  Shared vocabulary of the development.  The programs are C and C++; a run of
  a function either returns a value or goes wrong.  Going wrong is a value of
  the type \<open>crash\<close>: a call of \<open>abort\<close>, a failed \<open>assert\<close>, an uncaught
  exception, a call of \<open>exit\<close>, an access still faulting when the attempts given to it run out, or one of the undefined behaviours the code can
  run into (index out of range, signed overflow, null or dangling pointer,
  invalid iterator, uninitialised pointer, division by zero).  A fallible operation returns
  \<open>crash + 'a\<close>, sequenced by \<open>bindE\<close>.  The predicate \<open>runs m P\<close> is total
  correctness: \<open>m\<close> returns, and its value satisfies \<open>P\<close>.
  Byte memory (\<open>mmap\<close> regions, files) is a function from offsets to bytes.
\<close>

section \<open>Results of C and C++ code\<close>

datatype crash =
    Abort
  | AssertFail
  | OutOfBounds
  | SignedOverflow
  | DivByZero
  | NullDeref
  | UseAfterFree
  | IteratorInvalid
  | BusError
  | UncaughtException
  | Uninitialised
  | ExitProcess int
  | Hangs

type_synonym 'a result = "crash + 'a"

definition bindE :: "'a result \<Rightarrow> ('a \<Rightarrow> 'b result) \<Rightarrow> 'b result" where
  "bindE m f = (case m of Inl e \<Rightarrow> Inl e | Inr x \<Rightarrow> f x)"

definition assertE :: "bool \<Rightarrow> unit result" where
  "assertE b = (if b then Inr () else Inl AssertFail)"

primrec foldE :: "('a \<Rightarrow> 's \<Rightarrow> 's result) \<Rightarrow> 'a list \<Rightarrow> 's \<Rightarrow> 's result" where
  "foldE f [] s = Inr s"
| "foldE f (x # xs) s = bindE (f x s) (foldE f xs)"

definition runs :: "'a result \<Rightarrow> ('a \<Rightarrow> bool) \<Rightarrow> bool" where
  "runs m P = (case m of Inl e \<Rightarrow> False | Inr x \<Rightarrow> P x)"

lemma bindE_simps [simp]:
  "bindE (Inr x) f = f x"
  "bindE (Inl e) f = Inl e"
  by (simp_all add: bindE_def)

lemma bindE_eq_Inr: "bindE m f = Inr y \<longleftrightarrow> (\<exists>x. m = Inr x \<and> f x = Inr y)"
  by (cases m) simp_all

lemma bindE_assoc: "bindE (bindE m f) g = bindE m (\<lambda>x. bindE (f x) g)"
  by (cases m) simp_all

lemma assertE_simps [simp]:
  "b \<Longrightarrow> assertE b = Inr ()"
  "\<not> b \<Longrightarrow> assertE b = Inl AssertFail"
  by (simp_all add: assertE_def)

lemma runs_simps [simp]:
  "runs (Inr x) P = P x"
  "runs (Inl e) P = False"
  by (simp_all add: runs_def)

lemma runs_iff: "runs m P \<longleftrightarrow> (\<exists>x. m = Inr x \<and> P x)"
  by (cases m) simp_all

lemma runs_bind: "runs (bindE m f) Q \<longleftrightarrow> runs m (\<lambda>x. runs (f x) Q)"
  by (cases m) simp_all

lemma runs_bindI: "runs m P \<Longrightarrow> (\<And>x. P x \<Longrightarrow> runs (f x) Q) \<Longrightarrow> runs (bindE m f) Q"
  by (cases m) simp_all

lemma runs_bind_pairI:
  "runs m (\<lambda>(a, b). P a b) \<Longrightarrow> (\<And>a b. P a b \<Longrightarrow> runs (f a b) Q) \<Longrightarrow>
   runs (bindE m (\<lambda>(a, b). f a b)) Q"
  by (cases m) auto

lemma runs_mono: "runs m P \<Longrightarrow> (\<And>x. P x \<Longrightarrow> Q x) \<Longrightarrow> runs m Q"
  by (cases m) simp_all

lemma runs_conj: "runs m P \<Longrightarrow> runs m Q \<Longrightarrow> runs m (\<lambda>x. P x \<and> Q x)"
  by (cases m) simp_all

text \<open>Partial correctness: if \<open>m\<close> returns, its value satisfies \<open>P\<close>.\<close>

definition safe :: "'a result \<Rightarrow> ('a \<Rightarrow> bool) \<Rightarrow> bool" where
  "safe m P = (case m of Inl e \<Rightarrow> True | Inr x \<Rightarrow> P x)"

lemma safe_simps [simp]:
  "safe (Inr x) P = P x"
  "safe (Inl e) P"
  by (simp_all add: safe_def)

lemma safe_bind: "safe (bindE m f) Q \<longleftrightarrow> safe m (\<lambda>x. safe (f x) Q)"
  by (cases m) simp_all

lemma safe_bindI: "safe m P \<Longrightarrow> (\<And>x. P x \<Longrightarrow> safe (f x) Q) \<Longrightarrow> safe (bindE m f) Q"
  by (cases m) simp_all

lemma safe_mono: "safe m P \<Longrightarrow> (\<And>x. P x \<Longrightarrow> Q x) \<Longrightarrow> safe m Q"
  by (cases m) simp_all

lemma safe_bind_pairI:
  "safe m (\<lambda>(a, b). P a b) \<Longrightarrow> (\<And>a b. P a b \<Longrightarrow> safe (f a b) Q) \<Longrightarrow>
   safe (bindE m (\<lambda>(a, b). f a b)) Q"
  by (cases m) auto

lemma safeD: "safe m P \<Longrightarrow> m = Inr x \<Longrightarrow> P x"
  by simp

lemma safe_trivial [simp]: "safe m (\<lambda>_. True)"
  by (cases m) simp_all

lemma runs_safe: "runs m P \<Longrightarrow> safe m P"
  by (cases m) simp_all

lemma runs_foldE:
  assumes "\<And>x s. x \<in> set xs \<Longrightarrow> I s \<Longrightarrow> runs (f x s) I" and "I s"
  shows "runs (foldE f xs s) I"
  using assms
proof (induction xs arbitrary: s)
  case Nil
  then show ?case by simp
next
  case (Cons x xs)
  have "runs (f x s) I" using Cons.prems by simp
  then show ?case
    by (simp add: runs_bind) (erule runs_mono, rule Cons.IH, use Cons.prems in auto)
qed

text \<open>
  A counting loop: the invariant speaks of the number of iterations done.
\<close>

lemma runs_foldE_upto:
  assumes "\<And>i s. i < n \<Longrightarrow> I i s \<Longrightarrow> runs (f i s) (I (Suc i))" and "I 0 s"
  shows "runs (foldE f [0..<n] s) (I n)"
proof -
  have "runs (foldE f [k..<n] t) (I n)" if "k \<le> n" "I k t" for k t
    using that
  proof (induction "n - k" arbitrary: k t)
    case 0
    then show ?case by simp
  next
    case (Suc d)
    then have k: "k < n" and d: "d = n - Suc k" by simp_all
    then have "[k..<n] = k # [Suc k..<n]" by (simp add: upt_conv_Cons)
    moreover have "runs (f k t) (I (Suc k))" using assms(1) k Suc.prems by simp
    then have "runs (f k t) (\<lambda>u. runs (foldE f [Suc k..<n] u) (I n))"
      by (rule runs_mono) (rule Suc.hyps(1) [OF d], use k in auto)
    ultimately show ?case by (simp add: runs_bind)
  qed
  then show ?thesis using assms(2) by simp
qed

section \<open>Machine integers\<close>

definition INT_MAX :: int where
  "INT_MAX = 2147483647"

text \<open>\<open>++\<close> on an \<open>int\<close>: the increment past \<open>INT_MAX\<close> is undefined.\<close>

definition int_inc :: "int \<Rightarrow> int result" where
  "int_inc x = (if x < INT_MAX then Inr (x + 1) else Inl SignedOverflow)"

lemma int_inc_ok [simp]: "x < INT_MAX \<Longrightarrow> int_inc x = Inr (x + 1)"
  by (simp add: int_inc_def)

text \<open>\<open>*\<close> on two \<open>int\<close> values.\<close>

definition int_mul :: "int \<Rightarrow> int \<Rightarrow> int result" where
  "int_mul x y = (if - INT_MAX - 1 \<le> x * y \<and> x * y \<le> INT_MAX then Inr (x * y) else Inl SignedOverflow)"

lemma int_mul_ok:
  assumes "0 \<le> p" "p < k" "0 \<le> n" "k * n \<le> INT_MAX"
  shows "int_mul p n = Inr (p * n)"
proof -
  have "p * n \<le> k * n" using assms by (intro mult_right_mono) auto
  then have "p * n \<le> INT_MAX" using assms by linarith
  moreover have "0 \<le> p * n" using assms by simp
  then have "- INT_MAX - 1 \<le> p * n" unfolding INT_MAX_def by linarith
  ultimately show ?thesis by (simp add: int_mul_def)
qed

text \<open>\<open>+\<close> on two \<open>int\<close> values.\<close>

definition int_add :: "int \<Rightarrow> int \<Rightarrow> int result" where
  "int_add x y = (if - INT_MAX - 1 \<le> x + y \<and> x + y \<le> INT_MAX then Inr (x + y) else Inl SignedOverflow)"

lemma int_add_ok: "- INT_MAX - 1 \<le> x + y \<Longrightarrow> x + y \<le> INT_MAX \<Longrightarrow> int_add x y = Inr (x + y)"
  by (simp add: int_add_def)

text \<open>\<open>%\<close> on operands that are not negative.\<close>

lemma smod_nonneg:
  fixes x y :: int
  assumes "0 \<le> x" "0 < y"
  shows "x smod y = x mod y" "0 \<le> x smod y" "x smod y < y"
proof -
  show m: "x smod y = x mod y"
    using assms by (simp add: signed_modulo_int_def signed_divide_int_def minus_div_mult_eq_mod [symmetric] sgn_if)
  then show "0 \<le> x smod y" "x smod y < y" using assms by simp_all
qed

section \<open>Vectors\<close>

text \<open>\<open>v[i]\<close> on a C++ \<open>vector\<close> or a C array, read and written.\<close>

definition vec_at :: "'a list \<Rightarrow> int \<Rightarrow> 'a result" where
  "vec_at xs i = (if 0 \<le> i \<and> i < int (length xs) then Inr (xs ! nat i) else Inl OutOfBounds)"

definition vec_set :: "'a list \<Rightarrow> int \<Rightarrow> 'a \<Rightarrow> 'a list result" where
  "vec_set xs i x = (if 0 \<le> i \<and> i < int (length xs) then Inr (xs[nat i := x]) else Inl OutOfBounds)"

lemma vec_at_ok [simp]: "0 \<le> i \<Longrightarrow> i < int (length xs) \<Longrightarrow> vec_at xs i = Inr (xs ! nat i)"
  by (simp add: vec_at_def)

lemma vec_set_ok [simp]: "0 \<le> i \<Longrightarrow> i < int (length xs) \<Longrightarrow> vec_set xs i x = Inr (xs[nat i := x])"
  by (simp add: vec_set_def)

lemma nth_list_update_int:
  "0 \<le> i \<Longrightarrow> 0 \<le> j \<Longrightarrow> i < int (length xs) \<Longrightarrow>
   xs[nat i := x] ! nat j = (if i = j then x else xs ! nat j)"
  by (auto simp: nth_list_update nat_eq_iff)

section \<open>Byte memory\<close>

type_synonym byte = "8 word"
type_synonym mem = "int \<Rightarrow> byte"

text \<open>A file, or a memory mapping: its length and its bytes.\<close>

record region =
  reg_len :: int
  reg_data :: mem

text \<open>Copy \<open>n\<close> bytes of \<open>src\<close> at \<open>soff\<close> to \<open>dst\<close> at \<open>doff\<close>.\<close>

definition copy_bytes :: "mem \<Rightarrow> int \<Rightarrow> mem \<Rightarrow> int \<Rightarrow> int \<Rightarrow> mem" where
  "copy_bytes dst doff src soff n =
     (\<lambda>i. if doff \<le> i \<and> i < doff + n then src (i - doff + soff) else dst i)"

text \<open>Two memories agree on the block of \<open>n\<close> bytes at \<open>o1\<close> and \<open>o2\<close>.\<close>

definition same_bytes :: "mem \<Rightarrow> int \<Rightarrow> mem \<Rightarrow> int \<Rightarrow> int \<Rightarrow> bool" where
  "same_bytes m1 o1 m2 o2 n \<longleftrightarrow> (\<forall>j. 0 \<le> j \<and> j < n \<longrightarrow> m1 (o1 + j) = m2 (o2 + j))"

lemma same_bytes_copy [simp]: "same_bytes (copy_bytes d a s b n) a s b n"
  by (simp add: same_bytes_def copy_bytes_def algebra_simps)

lemma same_bytes_refl [simp]: "same_bytes m a m a n"
  by (simp add: same_bytes_def)

lemma same_bytes_sym: "same_bytes m a m' b n \<Longrightarrow> same_bytes m' b m a n"
  by (simp add: same_bytes_def)

lemma same_bytes_trans:
  "same_bytes m a m' b n \<Longrightarrow> same_bytes m' b m'' c n \<Longrightarrow> same_bytes m a m'' c n"
  by (simp add: same_bytes_def)

lemma same_bytes_copy_left:
  "same_bytes s b m c n \<Longrightarrow> same_bytes (copy_bytes d a s b n) a m c n"
  by (rule same_bytes_trans [OF same_bytes_copy])

text \<open>Blocks of the same size at different indices do not overlap.\<close>

lemma block_disjoint:
  fixes f g :: int
  assumes "f \<noteq> g" "0 \<le> j" "j < n"
  shows "\<not> (f * n \<le> g * n + j \<and> g * n + j < f * n + n)"
proof (cases "f < g")
  case True
  then have "(f + 1) * n \<le> g * n" using assms by (intro mult_right_mono) auto
  then show ?thesis using assms by (simp add: algebra_simps)
next
  case False
  with assms have "(g + 1) * n \<le> f * n" by (intro mult_right_mono) auto
  then show ?thesis using assms by (simp add: algebra_simps)
qed

lemma same_bytes_copy_other:
  fixes f g :: int
  assumes "f \<noteq> g"
  shows "same_bytes (copy_bytes d (f * n) s b n) (g * n) m c n \<longleftrightarrow> same_bytes d (g * n) m c n"
  using block_disjoint [OF assms] by (auto simp: same_bytes_def copy_bytes_def)

lemma block_end:
  fixes f k n :: int
  assumes "f < k" "0 \<le> n"
  shows "f * n + n \<le> k * n"
proof -
  have "(f + 1) * n \<le> k * n" using assms by (intro mult_right_mono) auto
  then show ?thesis by (simp add: algebra_simps)
qed

lemma div_mod_block:
  fixes i n :: int
  assumes "0 < n"
  shows "i div n * n + i mod n = i" "0 \<le> i mod n" "i mod n < n"
  using assms by simp_all

lemma block_index_range:
  fixes i n k :: int
  assumes "0 < n" "0 \<le> i" "i < k * n"
  shows "0 \<le> i div n" "i div n < k"
proof -
  show "0 \<le> i div n" using assms by (simp add: pos_imp_zdiv_nonneg_iff)
  have "i div n * n \<le> i" using div_mod_block [OF assms(1), of i] by linarith
  then have "i div n * n < k * n" using assms by linarith
  then show "i div n < k" by (rule mult_right_less_imp_less) (use assms in simp)
qed

lemma block_offset:
  fixes p j n :: int
  assumes "0 \<le> j" "j < n"
  shows "(p * n + j) div n = p" "(p * n + j) mod n = j"
  using assms by simp_all

end
