(* ===== verification/VmDisk.thy ===== *)
theory VmDisk
  imports Prelude
begin

text \<open>
  The virtual disk of the paging project, \<open>project_3/disk.cpp\<close>: a file of
  \<open>nblocks\<close> blocks of \<open>BLOCK_SIZE\<close> bytes, read and written a block at a time.
  The system calls follow POSIX: \<open>pread\<close> and \<open>pwrite\<close> return the number of
  bytes moved, or -1 when the offset is negative or the caller's buffer is not
  wholly mapped; \<open>ftruncate\<close> refuses a negative length and extends with zeros.
\<close>

definition BLOCK_SIZE :: int where
  "BLOCK_SIZE = 4096"

section \<open>The system calls\<close>

definition os_ftruncate :: "region \<Rightarrow> int \<Rightarrow> region option" where
  "os_ftruncate f len =
     (if len < 0 then None
      else Some \<lparr>reg_len = len, reg_data = (\<lambda>i. if i < reg_len f then reg_data f i else 0)\<rparr>)"

definition pread_count :: "region \<Rightarrow> region \<Rightarrow> int \<Rightarrow> int \<Rightarrow> int \<Rightarrow> int" where
  "pread_count f buf boff count off =
     (if off < 0 \<or> boff < 0 \<or> reg_len buf < boff + count then -1
      else max 0 (min count (reg_len f - off)))"

definition pwrite_count :: "region \<Rightarrow> int \<Rightarrow> int \<Rightarrow> int \<Rightarrow> int" where
  "pwrite_count buf boff count off =
     (if off < 0 \<or> boff < 0 \<or> reg_len buf < boff + count then -1 else count)"

section \<open>The disk object\<close>

record vm_disk =
  d_block_size :: int
  d_nblocks :: int
  d_file :: region

text \<open>
  \<open>open_ok\<close> tells whether \<open>open\<close> gave a descriptor, \<open>old\<close> is what the file
  held.  \<open>None\<close> is the null pointer.
\<close>

definition vm_disk_open :: "bool \<Rightarrow> region \<Rightarrow> int \<Rightarrow> vm_disk option result" where
  "vm_disk_open open_ok old nblocks =
     (if \<not> open_ok then Inr None
      else bindE (int_mul nblocks BLOCK_SIZE) (\<lambda>len.
        case os_ftruncate old len of
          None \<Rightarrow> Inr None
        | Some f \<Rightarrow> Inr (Some \<lparr>d_block_size = BLOCK_SIZE, d_nblocks = nblocks, d_file = f\<rparr>)))"

definition vm_disk_write :: "vm_disk \<Rightarrow> int \<Rightarrow> region \<Rightarrow> int \<Rightarrow> vm_disk result" where
  "vm_disk_write d block buf boff =
     (if block < 0 \<or> block \<ge> d_nblocks d then Inl Abort
      else bindE (int_mul block (d_block_size d)) (\<lambda>off.
        let actual = pwrite_count buf boff (d_block_size d) off in
        if actual \<noteq> d_block_size d then Inl Abort
        else Inr (d\<lparr>d_file := \<lparr>reg_len = max (reg_len (d_file d)) (off + actual),
          reg_data = copy_bytes (reg_data (d_file d)) off (reg_data buf) boff actual\<rparr>\<rparr>)))"

definition vm_disk_read :: "vm_disk \<Rightarrow> int \<Rightarrow> region \<Rightarrow> int \<Rightarrow> region result" where
  "vm_disk_read d block buf boff =
     (if block < 0 \<or> block \<ge> d_nblocks d then Inl Abort
      else bindE (int_mul block (d_block_size d)) (\<lambda>off.
        let actual = pread_count (d_file d) buf boff (d_block_size d) off in
        if actual \<noteq> d_block_size d then Inl Abort
        else Inr (buf\<lparr>reg_data := copy_bytes (reg_data buf) boff (reg_data (d_file d)) off actual\<rparr>)))"

definition vm_disk_nblocks :: "vm_disk \<Rightarrow> int" where
  "vm_disk_nblocks d = d_nblocks d"

section \<open>Well-formed disks\<close>

definition disk_wf :: "vm_disk \<Rightarrow> bool" where
  "disk_wf d \<longleftrightarrow> d_block_size d = BLOCK_SIZE \<and> 0 \<le> d_nblocks d \<and>
     d_nblocks d * BLOCK_SIZE \<le> INT_MAX \<and> reg_len (d_file d) = d_nblocks d * BLOCK_SIZE"

definition disk_block_is :: "vm_disk \<Rightarrow> int \<Rightarrow> mem \<Rightarrow> int \<Rightarrow> bool" where
  "disk_block_is d b m off \<longleftrightarrow> same_bytes (reg_data (d_file d)) (b * BLOCK_SIZE) m off BLOCK_SIZE"

lemma disk_open_wf:
  assumes "0 \<le> nblocks" "nblocks * BLOCK_SIZE \<le> INT_MAX"
  shows "\<exists>d. vm_disk_open True old nblocks = Inr (Some d) \<and> disk_wf d \<and> d_nblocks d = nblocks"
proof -
  have "0 \<le> nblocks * BLOCK_SIZE" using assms by (simp add: BLOCK_SIZE_def)
  then have "int_mul nblocks BLOCK_SIZE = Inr (nblocks * BLOCK_SIZE)"
    using assms by (simp add: int_mul_def INT_MAX_def)
  with assms show ?thesis
    by (simp add: vm_disk_open_def os_ftruncate_def disk_wf_def BLOCK_SIZE_def)
qed

lemma vm_disk_write_runs:
  assumes "disk_wf d" "0 \<le> b" "b < d_nblocks d" "0 \<le> boff" "boff + BLOCK_SIZE \<le> reg_len buf"
  shows "runs (vm_disk_write d b buf boff) (\<lambda>d'. disk_wf d' \<and> d_nblocks d' = d_nblocks d \<and>
     d' = d\<lparr>d_file := (d_file d)\<lparr>reg_data :=
       copy_bytes (reg_data (d_file d)) (b * BLOCK_SIZE) (reg_data buf) boff BLOCK_SIZE\<rparr>\<rparr>)"
proof -
  have m: "int_mul b BLOCK_SIZE = Inr (b * BLOCK_SIZE)"
    using assms by (intro int_mul_ok [of _ "d_nblocks d"]) (auto simp: disk_wf_def BLOCK_SIZE_def)
  have e: "b * BLOCK_SIZE + BLOCK_SIZE \<le> d_nblocks d * BLOCK_SIZE"
    using assms by (intro block_end) (auto simp: BLOCK_SIZE_def)
  show ?thesis
    using assms m e
    by (simp add: vm_disk_write_def disk_wf_def pwrite_count_def max_def BLOCK_SIZE_def)
qed

lemma vm_disk_read_runs:
  assumes "disk_wf d" "0 \<le> b" "b < d_nblocks d" "0 \<le> boff" "boff + BLOCK_SIZE \<le> reg_len buf"
  shows "runs (vm_disk_read d b buf boff) (\<lambda>buf'. buf' = buf\<lparr>reg_data :=
     copy_bytes (reg_data buf) boff (reg_data (d_file d)) (b * BLOCK_SIZE) BLOCK_SIZE\<rparr>)"
proof -
  have m: "int_mul b BLOCK_SIZE = Inr (b * BLOCK_SIZE)"
    using assms by (intro int_mul_ok [of _ "d_nblocks d"]) (auto simp: disk_wf_def BLOCK_SIZE_def)
  have e: "b * BLOCK_SIZE + BLOCK_SIZE \<le> d_nblocks d * BLOCK_SIZE"
    using assms by (intro block_end) (auto simp: BLOCK_SIZE_def)
  show ?thesis
    using assms m e
    by (simp add: vm_disk_read_def disk_wf_def pread_count_def BLOCK_SIZE_def)
qed

text \<open>Reading a block gives back the last bytes written to it.\<close>

lemma disk_write_read:
  assumes "disk_wf d" "0 \<le> b" "b < d_nblocks d"
    and "0 \<le> so" "so + BLOCK_SIZE \<le> reg_len src" "0 \<le> dof" "dof + BLOCK_SIZE \<le> reg_len dst"
  shows "runs (vm_disk_write d b src so) (\<lambda>d'. runs (vm_disk_read d' b dst dof)
     (\<lambda>dst'. same_bytes (reg_data dst') dof (reg_data src) so BLOCK_SIZE))"
proof (rule runs_mono [OF vm_disk_write_runs [OF assms(1-5)]])
  fix d' assume d': "disk_wf d' \<and> d_nblocks d' = d_nblocks d \<and>
     d' = d\<lparr>d_file := (d_file d)\<lparr>reg_data :=
       copy_bytes (reg_data (d_file d)) (b * BLOCK_SIZE) (reg_data src) so BLOCK_SIZE\<rparr>\<rparr>"
  then have "runs (vm_disk_read d' b dst dof) (\<lambda>dst'. dst' = dst\<lparr>reg_data :=
     copy_bytes (reg_data dst) dof (reg_data (d_file d')) (b * BLOCK_SIZE) BLOCK_SIZE\<rparr>)"
    using assms by (intro vm_disk_read_runs) auto
  then show "runs (vm_disk_read d' b dst dof)
     (\<lambda>dst'. same_bytes (reg_data dst') dof (reg_data src) so BLOCK_SIZE)"
    by (rule runs_mono) (use d' in \<open>auto intro: same_bytes_copy_left\<close>)
qed

end
