(* ===== verification/VmPageTable.thy ===== *)
theory VmPageTable
  imports Prelude
begin

unbundle bit_operations_syntax

text \<open>
  The page table of \<open>project_3/page_table.cpp\<close>.  The table keeps a frame number
  and access bits per page; the same calls steer the hardware view of virtual
  memory: \<open>remap_file_pages\<close> makes a virtual page show a page of the backing
  file and \<open>mprotect\<close> sets its protection.  \<open>physmem\<close> maps the backing file
  from its start, so frame \<open>f\<close> is page \<open>f\<close> of the file.  \<open>pt_backing\<close> is
  that file (\<open>npages\<close> pages long), \<open>mmu_frame\<close> and \<open>mmu_prot\<close> are what the
  hardware uses for each virtual page.
\<close>

definition PAGE_SIZE :: int where "PAGE_SIZE = 4096"

definition PROT_NONE :: int where "PROT_NONE = 0"
definition PROT_READ :: int where "PROT_READ = 1"
definition PROT_WRITE :: int where "PROT_WRITE = 2"
definition PROT_EXEC :: int where "PROT_EXEC = 4"

lemmas prot_defs = PROT_NONE_def PROT_READ_def PROT_WRITE_def PROT_EXEC_def

record page_table =
  pt_npages :: int
  pt_nframes :: int
  page_mapping :: "int list"
  page_bits :: "int list"
  pt_backing :: region
  mmu_frame :: "int \<Rightarrow> int"
  mmu_prot :: "int \<Rightarrow> int"

section \<open>Operations\<close>

text \<open>
  \<open>fd\<close> is what \<open>open\<close> returned; \<open>junk\<close> is what \<open>new int[npages]\<close> happens
  to hold.  With a negative descriptor \<open>ftruncate\<close> and \<open>mmap\<close> fail
  and nothing is mapped.
\<close>

definition page_table_create :: "int \<Rightarrow> (nat \<Rightarrow> int) \<Rightarrow> int \<Rightarrow> int \<Rightarrow> page_table option result" where
  "page_table_create fd junk npages nframes =
     (if fd = 0 then Inr None
      else bindE (int_mul PAGE_SIZE npages) (\<lambda>flen.
           bindE (int_mul nframes PAGE_SIZE) (\<lambda>plen.
           Inr (Some \<lparr>pt_npages = npages, pt_nframes = nframes,
             page_mapping = map junk [0..<nat npages],
             page_bits = map (\<lambda>_. 0) [0..<nat npages],
             pt_backing = \<lparr>reg_len = (if fd < 0 then 0 else flen), reg_data = (\<lambda>_. 0)\<rparr>,
             mmu_frame = (\<lambda>p. p), mmu_prot = (\<lambda>_. PROT_NONE)\<rparr>))))"

definition page_table_set_entry :: "page_table \<Rightarrow> int \<Rightarrow> int \<Rightarrow> int \<Rightarrow> page_table result" where
  "page_table_set_entry pt page frame bits =
     (if page < 0 \<or> page \<ge> pt_npages pt then Inl Abort
      else if frame < 0 \<or> frame \<ge> pt_nframes pt then Inl Abort
      else bindE (vec_set (page_mapping pt) page frame) (\<lambda>pm.
           bindE (vec_set (page_bits pt) page bits) (\<lambda>pb.
           bindE (int_mul page PAGE_SIZE) (\<lambda>addr.
           Inr (pt\<lparr>page_mapping := pm, page_bits := pb,
             mmu_frame := (mmu_frame pt)(page := frame),
             mmu_prot := (mmu_prot pt)(page := bits)\<rparr>)))))"

definition page_table_get_entry :: "page_table \<Rightarrow> int \<Rightarrow> (int \<times> int) result" where
  "page_table_get_entry pt page =
     (if page < 0 \<or> page \<ge> pt_npages pt then Inl Abort
      else bindE (vec_at (page_mapping pt) page) (\<lambda>frame.
           bindE (vec_at (page_bits pt) page) (\<lambda>bits. Inr (frame, bits))))"

text \<open>The line printed for a page: page number, frame number and the three access letters.\<close>

definition bits_string :: "int \<Rightarrow> string" where
  "bits_string b =
     [if b AND PROT_READ \<noteq> 0 then CHR ''r'' else CHR ''-'',
      if b AND PROT_WRITE \<noteq> 0 then CHR ''w'' else CHR ''-'',
      if b AND PROT_EXEC \<noteq> 0 then CHR ''x'' else CHR ''-'']"

definition page_table_print_entry :: "page_table \<Rightarrow> int \<Rightarrow> (int \<times> int \<times> string) result" where
  "page_table_print_entry pt page =
     (if page < 0 \<or> page \<ge> pt_npages pt then Inl Abort
      else bindE (vec_at (page_bits pt) page) (\<lambda>b.
           bindE (vec_at (page_mapping pt) page) (\<lambda>frame. Inr (page, frame, bits_string b))))"

definition page_table_print :: "page_table \<Rightarrow> (int \<times> int \<times> string) list result" where
  "page_table_print pt =
     foldE (\<lambda>i out. bindE (page_table_print_entry pt (int i)) (\<lambda>l. Inr (out @ [l])))
       [0..<nat (pt_npages pt)] []"

definition page_table_get_nframes :: "page_table \<Rightarrow> int" where
  "page_table_get_nframes pt = pt_nframes pt"

definition page_table_get_npages :: "page_table \<Rightarrow> int" where
  "page_table_get_npages pt = pt_npages pt"

text \<open>The physical memory: the mapping of the backing file.\<close>

definition page_table_get_physmem :: "page_table \<Rightarrow> region" where
  "page_table_get_physmem pt = pt_backing pt"

section \<open>Well-formed tables\<close>

definition pt_wf :: "page_table \<Rightarrow> bool" where
  "pt_wf pt \<longleftrightarrow> 0 \<le> pt_npages pt \<and> 0 \<le> pt_nframes pt \<and>
     pt_npages pt * PAGE_SIZE \<le> INT_MAX \<and> pt_nframes pt * PAGE_SIZE \<le> INT_MAX \<and>
     int (length (page_mapping pt)) = pt_npages pt \<and>
     int (length (page_bits pt)) = pt_npages pt \<and>
     reg_len (pt_backing pt) = pt_npages pt * PAGE_SIZE \<and>
     (\<forall>p. 0 \<le> p \<and> p < pt_npages pt \<longrightarrow> mmu_prot pt p = page_bits pt ! nat p)"

definition set_entry_result :: "page_table \<Rightarrow> int \<Rightarrow> int \<Rightarrow> int \<Rightarrow> page_table" where
  "set_entry_result pt page frame bits =
     pt\<lparr>page_mapping := (page_mapping pt)[nat page := frame],
       page_bits := (page_bits pt)[nat page := bits],
       mmu_frame := (mmu_frame pt)(page := frame),
       mmu_prot := (mmu_prot pt)(page := bits)\<rparr>"

lemma page_table_set_entry_eq:
  assumes "pt_wf pt" "0 \<le> page" "page < pt_npages pt" "0 \<le> frame" "frame < pt_nframes pt"
  shows "page_table_set_entry pt page frame bits = Inr (set_entry_result pt page frame bits)"
proof -
  have "int_mul page PAGE_SIZE = Inr (page * PAGE_SIZE)"
    using assms by (intro int_mul_ok [of _ "pt_npages pt"]) (auto simp: pt_wf_def PAGE_SIZE_def)
  then show ?thesis
    using assms by (simp add: page_table_set_entry_def set_entry_result_def pt_wf_def)
qed

lemma set_entry_result_simps [simp]:
  "pt_npages (set_entry_result pt page frame bits) = pt_npages pt"
  "pt_nframes (set_entry_result pt page frame bits) = pt_nframes pt"
  "pt_backing (set_entry_result pt page frame bits) = pt_backing pt"
  "mmu_frame (set_entry_result pt page frame bits) = (mmu_frame pt)(page := frame)"
  "mmu_prot (set_entry_result pt page frame bits) = (mmu_prot pt)(page := bits)"
  by (simp_all add: set_entry_result_def)

lemma set_entry_result_wf:
  "pt_wf pt \<Longrightarrow> 0 \<le> page \<Longrightarrow> page < pt_npages pt \<Longrightarrow> pt_wf (set_entry_result pt page frame bits)"
  by (auto simp: pt_wf_def set_entry_result_def nth_list_update_int)

lemma set_entry_result_bits:
  "pt_wf pt \<Longrightarrow> 0 \<le> page \<Longrightarrow> page < pt_npages pt \<Longrightarrow> 0 \<le> q \<Longrightarrow>
   page_bits (set_entry_result pt page frame bits) ! nat q =
     (if q = page then bits else page_bits pt ! nat q)"
  by (auto simp: pt_wf_def set_entry_result_def nth_list_update_int)

lemma set_entry_result_mapping:
  "pt_wf pt \<Longrightarrow> 0 \<le> page \<Longrightarrow> page < pt_npages pt \<Longrightarrow> 0 \<le> q \<Longrightarrow>
   page_mapping (set_entry_result pt page frame bits) ! nat q =
     (if q = page then frame else page_mapping pt ! nat q)"
  by (auto simp: pt_wf_def set_entry_result_def nth_list_update_int)

lemma page_table_get_entry_eq:
  "pt_wf pt \<Longrightarrow> 0 \<le> page \<Longrightarrow> page < pt_npages pt \<Longrightarrow>
   page_table_get_entry pt page = Inr (page_mapping pt ! nat page, page_bits pt ! nat page)"
  by (simp add: page_table_get_entry_def pt_wf_def)

lemma page_table_create_wf:
  assumes "0 < fd" "0 \<le> npages" "0 \<le> nframes"
    and "npages * PAGE_SIZE \<le> INT_MAX" "nframes * PAGE_SIZE \<le> INT_MAX"
  shows "\<exists>pt. page_table_create fd junk npages nframes = Inr (Some pt) \<and> pt_wf pt \<and>
     pt_npages pt = npages \<and> pt_nframes pt = nframes \<and> (\<forall>p. mmu_prot pt p = PROT_NONE)"
proof -
  have "0 \<le> npages * PAGE_SIZE" "0 \<le> nframes * PAGE_SIZE"
    using assms by (simp_all add: PAGE_SIZE_def)
  then have "int_mul PAGE_SIZE npages = Inr (PAGE_SIZE * npages)"
    "int_mul nframes PAGE_SIZE = Inr (nframes * PAGE_SIZE)"
    using assms by (simp_all add: int_mul_def INT_MAX_def mult.commute)
  then show ?thesis
    using assms by (simp add: page_table_create_def pt_wf_def PROT_NONE_def mult.commute)
qed

text \<open>What was set is what is read back, and no other page's entry moves.\<close>

lemma set_entry_get_entry:
  assumes "pt_wf pt" "0 \<le> page" "page < pt_npages pt" "0 \<le> frame" "frame < pt_nframes pt"
    and "0 \<le> q" "q < pt_npages pt"
  shows "runs (page_table_set_entry pt page frame bits) (\<lambda>pt'. page_table_get_entry pt' q =
     (if q = page then Inr (frame, bits) else page_table_get_entry pt q))"
  using assms
  by (simp add: page_table_set_entry_eq page_table_get_entry_eq set_entry_result_wf
      set_entry_result_bits set_entry_result_mapping)

end
