(* ===== verification/VmCoreMap.thy ===== *)
theory VmCoreMap
  imports Prelude VmPageTable
begin

unbundle bit_operations_syntax

text \<open>
  The core map of \<open>project_3/coremap.cpp\<close>: one entry per physical frame with the
  page it holds (-1 when empty), the time stamp of its last load, and the used
  and dirty flags.  Time stamps are taken from the static 64-bit counter
  \<open>CoreMapEntry::num\<close>, which the operations that stamp an entry take and return.
\<close>

record core_map_entry =
  cm_frame :: int
  cm_page :: int
  cm_ts :: "64 word"
  cm_used :: bool
  cm_dirty :: bool

definition getTs :: "core_map_entry \<Rightarrow> 64 word" where [simp]:
  "getTs e = cm_ts e"

definition setTs :: "core_map_entry \<Rightarrow> 64 word \<Rightarrow> core_map_entry \<times> 64 word" where
  "setTs e num = (e\<lparr>cm_ts := num\<rparr>, num + 1)"

definition getFrameNumber :: "core_map_entry \<Rightarrow> int" where [simp]:
  "getFrameNumber e = cm_frame e"

definition setFrameNumber :: "int \<Rightarrow> core_map_entry \<Rightarrow> core_map_entry" where [simp]:
  "setFrameNumber n e = e\<lparr>cm_frame := n\<rparr>"

definition getPageNumber :: "core_map_entry \<Rightarrow> int" where [simp]:
  "getPageNumber e = cm_page e"

definition setPageNumber :: "int \<Rightarrow> core_map_entry \<Rightarrow> core_map_entry" where [simp]:
  "setPageNumber n e = e\<lparr>cm_page := n\<rparr>"

definition isUsed :: "core_map_entry \<Rightarrow> bool" where [simp]:
  "isUsed e = cm_used e"

definition setIsUsed :: "bool \<Rightarrow> core_map_entry \<Rightarrow> core_map_entry" where [simp]:
  "setIsUsed b e = e\<lparr>cm_used := b\<rparr>"

definition isDirty :: "core_map_entry \<Rightarrow> bool" where [simp]:
  "isDirty e = cm_dirty e"

definition setIsDirty :: "bool \<Rightarrow> core_map_entry \<Rightarrow> core_map_entry" where [simp]:
  "setIsDirty b e = e\<lparr>cm_dirty := b\<rparr>"

definition new_core_map_entry :: "int \<Rightarrow> 64 word \<Rightarrow> core_map_entry \<times> 64 word" where
  "new_core_map_entry frame_number num =
     setTs \<lparr>cm_frame = frame_number, cm_page = -1, cm_ts = 0, cm_used = True, cm_dirty = False\<rparr> num"

definition getPerms :: "core_map_entry \<Rightarrow> int" where
  "getPerms e = (if cm_dirty e then PROT_READ OR PROT_WRITE else PROT_READ)"

text \<open>The cast binds to 4, so the product is taken in 64-bit unsigned arithmetic.\<close>

definition isTooOld :: "core_map_entry \<Rightarrow> 64 word \<Rightarrow> int \<Rightarrow> bool" where
  "isTooOld e num totalFrames \<longleftrightarrow> 4 * word_of_int totalFrames \<le> num - cm_ts e"

definition assignNewPage :: "int \<Rightarrow> core_map_entry \<Rightarrow> 64 word \<Rightarrow> core_map_entry \<times> 64 word" where
  "assignNewPage page e num =
     (let (e', num') = setTs (setPageNumber page e) num
      in (setIsUsed True (setIsDirty False e'), num'))"

section \<open>Facts\<close>

lemma getPerms_eq: "getPerms e = (if cm_dirty e then 3 else 1)"
  by (simp add: getPerms_def prot_defs)

lemma getPerms_write: "getPerms e AND PROT_WRITE \<noteq> 0 \<longleftrightarrow> cm_dirty e"
  by (simp add: getPerms_def prot_defs)

lemma getPerms_nonzero [simp]: "getPerms e \<noteq> 0"
  by (simp add: getPerms_eq)

lemma assignNewPage_simps [simp]:
  "cm_page (fst (assignNewPage page e num)) = page"
  "cm_dirty (fst (assignNewPage page e num)) = False"
  "cm_used (fst (assignNewPage page e num)) = True"
  "cm_ts (fst (assignNewPage page e num)) = num"
  "cm_frame (fst (assignNewPage page e num)) = cm_frame e"
  "snd (assignNewPage page e num) = num + 1"
  by (simp_all add: assignNewPage_def setTs_def)

lemma isTooOld_iff:
  assumes "0 \<le> n" "n < 2 ^ 62" "cm_ts e \<le> num"
  shows "isTooOld e num n \<longleftrightarrow> 4 * n \<le> uint num - uint (cm_ts e)"
proof -
  have "uint (4 * word_of_int n :: 64 word) = 4 * n"
    using assms by (simp add: uint_word_ariths uint_word_of_int)
  moreover have "uint (num - cm_ts e) = uint num - uint (cm_ts e)"
    using assms(3) by (simp add: uint_minus_simple_alt)
  ultimately show ?thesis by (simp add: isTooOld_def word_le_def)
qed

end
