(* ===== verification/VmPolicy.thy ===== *)
theory VmPolicy
  imports VmDisk VmCoreMap
begin

unbundle bit_operations_syntax

text \<open>
  The globals of \<open>project_3/main.cpp\<close> and its three page replacement policies.
  \<open>rand\<close> is outside the program: the value it returns is an argument.  The
  policies only read the state, except that the FIFO policy pops its queue.
\<close>

section \<open>The globals\<close>

record vm_state =
  g_nframes :: int
  frame_queue :: "int list"
  page_faults :: int
  disk_reads :: int
  disk_writes :: int
  g_disk :: vm_disk
  core_map :: "core_map_entry list"
  cm_num :: "64 word"
  not_used :: "int list"
  pages_in_mem :: "int set"
  the_pt :: page_table
  pt_assigned :: bool
  vtalrm_blocked :: bool

text \<open>\<open>core_map[f]->g(...)\<close> for a member function \<open>g\<close> that changes the entry only.\<close>

definition update_entry :: "int \<Rightarrow> (core_map_entry \<Rightarrow> core_map_entry) \<Rightarrow> vm_state \<Rightarrow> vm_state result" where
  "update_entry f g s =
     bindE (vec_at (core_map s) f) (\<lambda>e.
     bindE (vec_set (core_map s) f (g e)) (\<lambda>cm. Inr (s\<lparr>core_map := cm\<rparr>)))"

section \<open>The policies\<close>

definition not_recently_used :: "int \<Rightarrow> vm_state \<Rightarrow> int list result" where
  "not_recently_used k s =
     bindE (foldE (\<lambda>i fs. bindE (vec_at (not_used s) (int i)) (\<lambda>n.
              Inr (if k \<le> n then fs @ [int i] else fs)))
            [0..<nat (g_nframes s)] [])
       (\<lambda>fs. Inr (if fs = [] then map int [0..<nat (g_nframes s)] else fs))"

definition filter_dirty :: "int list \<Rightarrow> vm_state \<Rightarrow> int list result" where
  "filter_dirty nru s =
     bindE (foldE (\<lambda>f cs. bindE (vec_at (core_map s) f) (\<lambda>e.
              Inr (if \<not> isDirty e \<or> isTooOld e (cm_num s) (g_nframes s) then cs @ [f] else cs)))
            nru [])
       (\<lambda>cs. Inr (if cs = [] then nru else cs))"

text \<open>The loop of \<open>get_fifo\<close> carries the frame found so far and \<open>local_min\<close>.\<close>

definition get_fifo :: "int list \<Rightarrow> vm_state \<Rightarrow> int result" where
  "get_fifo cands s =
     bindE (foldE (\<lambda>f (best, local_min). bindE (vec_at (core_map s) f) (\<lambda>e.
              Inr (if getTs e < local_min then (f, getTs e) else (best, local_min))))
            cands (-1, - 1))
       (\<lambda>(best, _). Inr best)"

definition get_frame_to_be_evicted_custom_policy :: "vm_state \<Rightarrow> (int \<times> vm_state) result" where
  "get_frame_to_be_evicted_custom_policy s =
     bindE (not_recently_used 1 s) (\<lambda>nru.
     bindE (filter_dirty nru s) (\<lambda>cs.
     bindE (get_fifo cs s) (\<lambda>f. Inr (f, s))))"

definition get_frame_to_be_evicted_random_policy :: "int \<Rightarrow> vm_state \<Rightarrow> (int \<times> vm_state) result" where
  "get_frame_to_be_evicted_random_policy r s =
     (if g_nframes s = 0 then Inl DivByZero else Inr (r smod g_nframes s, s))"

definition get_frame_to_be_evicted_fifo_policy :: "vm_state \<Rightarrow> (int \<times> vm_state) result" where
  "get_frame_to_be_evicted_fifo_policy s =
     (case frame_queue s of
        [] \<Rightarrow> Inl AssertFail
      | f # q \<Rightarrow> Inr (f, s\<lparr>frame_queue := q\<rparr>))"

section \<open>What the policies compute\<close>

text \<open>A loop that collects the elements satisfying a test.\<close>

lemma foldE_collect:
  assumes "\<And>x. x \<in> set xs \<Longrightarrow> g x = Inr (h x)"
  shows "foldE (\<lambda>x acc. bindE (g x) (\<lambda>v. Inr (if P x v then acc @ [x] else acc))) xs acc =
         Inr (acc @ filter (\<lambda>x. P x (h x)) xs)"
  using assms by (induction xs arbitrary: acc) auto

lemma foldE_collect_int:
  assumes "\<And>i. i < n \<Longrightarrow> g (int i) = Inr (h (int i))"
  shows "foldE (\<lambda>i acc. bindE (g (int i)) (\<lambda>v. Inr (if P (int i) v then acc @ [int i] else acc)))
           [0..<n] acc =
         Inr (acc @ filter (\<lambda>i. P i (h i)) (map int [0..<n]))"
proof -
  have "foldE (\<lambda>i acc. bindE (g (int i)) (\<lambda>v. Inr (if P (int i) v then acc @ [int i] else acc))) xs acc
      = Inr (acc @ filter (\<lambda>i. P i (h i)) (map int xs))" if "set xs \<subseteq> {0..<n}" for xs
    using that assms by (induction xs arbitrary: acc) auto
  then show ?thesis by simp
qed

text \<open>The frames of a state, in order.\<close>

definition all_frames :: "vm_state \<Rightarrow> int list" where
  "all_frames s = map int [0..<nat (g_nframes s)]"

lemma set_all_frames: "set (all_frames s) = {f. 0 \<le> f \<and> f < g_nframes s}"
proof -
  have "f \<in> int ` {0..<nat (g_nframes s)}" if "0 \<le> f" "f < g_nframes s" for f
    using that by (intro image_eqI [of _ _ "nat f"]) auto
  then show ?thesis by (auto simp: all_frames_def)
qed

definition or_all :: "'a list \<Rightarrow> 'a list \<Rightarrow> 'a list" where
  "or_all xs ys = (if xs = [] then ys else xs)"

lemma set_or_all: "set (or_all xs ys) = (if xs = [] then set ys else set xs)"
  by (simp add: or_all_def)

lemma not_recently_used_eq:
  assumes "int (length (not_used s)) = g_nframes s"
  shows "not_recently_used k s = Inr (or_all (filter (\<lambda>f. k \<le> not_used s ! nat f) (all_frames s)) (all_frames s))"
proof -
  have "foldE (\<lambda>i fs. bindE (vec_at (not_used s) (int i)) (\<lambda>n. Inr (if k \<le> n then fs @ [int i] else fs)))
      [0..<nat (g_nframes s)] [] = Inr ([] @ filter (\<lambda>f. k \<le> not_used s ! nat f) (all_frames s))"
    unfolding all_frames_def using assms by (intro foldE_collect_int) auto
  then show ?thesis by (simp add: not_recently_used_def or_all_def all_frames_def)
qed

definition evictable :: "vm_state \<Rightarrow> int \<Rightarrow> bool" where
  "evictable s f \<longleftrightarrow> (let e = core_map s ! nat f in \<not> cm_dirty e \<or> isTooOld e (cm_num s) (g_nframes s))"

lemma filter_dirty_eq:
  assumes "\<forall>f \<in> set fs. 0 \<le> f \<and> f < int (length (core_map s))"
  shows "filter_dirty fs s = Inr (or_all (filter (evictable s) fs) fs)"
proof -
  have "foldE (\<lambda>f cs. bindE (vec_at (core_map s) f) (\<lambda>e.
      Inr (if \<not> isDirty e \<or> isTooOld e (cm_num s) (g_nframes s) then cs @ [f] else cs))) fs [] =
    Inr ([] @ filter (\<lambda>f. \<not> isDirty (core_map s ! nat f) \<or>
      isTooOld (core_map s ! nat f) (cm_num s) (g_nframes s)) fs)"
    using assms by (intro foldE_collect) auto
  moreover have "(\<lambda>f. \<not> isDirty (core_map s ! nat f) \<or>
      isTooOld (core_map s ! nat f) (cm_num s) (g_nframes s)) = evictable s"
    by (simp add: fun_eq_iff evictable_def Let_def)
  ultimately show ?thesis by (simp add: filter_dirty_def or_all_def)
qed

text \<open>
  \<open>get_fifo\<close> finds a candidate with the least time stamp, provided some
  candidate's stamp is below the initial \<open>local_min\<close>, the largest 64-bit value.
\<close>

definition stamp :: "vm_state \<Rightarrow> int \<Rightarrow> 64 word" where
  "stamp s f = cm_ts (core_map s ! nat f)"

lemma get_fifo_loop:
  assumes "\<forall>f \<in> set fs. 0 \<le> f \<and> f < int (length (core_map s))"
  shows "runs (foldE (\<lambda>f (best, local_min). bindE (vec_at (core_map s) f) (\<lambda>e.
            Inr (if getTs e < local_min then (f, getTs e) else (best, local_min)))) fs (b0, m0))
     (\<lambda>(b, m). m \<le> m0 \<and> (\<forall>f \<in> set fs. m \<le> stamp s f) \<and>
        (m = m0 \<and> b = b0 \<or> b \<in> set fs \<and> m = stamp s b \<and> m < m0))"
  using assms
proof (induction fs arbitrary: b0 m0)
  case Nil
  then show ?case by simp
next
  case (Cons f fs)
  let ?st = "if stamp s f < m0 then (f, stamp s f) else (b0, m0)"
  have "runs (foldE (\<lambda>f (best, local_min). bindE (vec_at (core_map s) f) (\<lambda>e.
            Inr (if getTs e < local_min then (f, getTs e) else (best, local_min)))) fs (fst ?st, snd ?st))
     (\<lambda>(b, m). m \<le> snd ?st \<and> (\<forall>f \<in> set fs. m \<le> stamp s f) \<and>
        (m = snd ?st \<and> b = fst ?st \<or> b \<in> set fs \<and> m = stamp s b \<and> m < snd ?st))"
    using Cons.prems by (intro Cons.IH) auto
  then show ?case
    using Cons.prems by (auto simp: stamp_def split: if_splits elim!: runs_mono)
qed

lemma get_fifo_runs:
  assumes "\<forall>f \<in> set fs. 0 \<le> f \<and> f < int (length (core_map s))"
    and "\<exists>f \<in> set fs. stamp s f \<noteq> - 1"
  shows "runs (get_fifo fs s) (\<lambda>b. b \<in> set fs \<and> (\<forall>f \<in> set fs. stamp s b \<le> stamp s f))"
proof -
  obtain f where f: "f \<in> set fs" "stamp s f \<noteq> - 1" using assms(2) by auto
  then have f_max: "stamp s f < - 1" by (simp add: word_order.not_eq_extremum)
  show ?thesis
    unfolding get_fifo_def
  proof (rule runs_bindI [OF get_fifo_loop [OF assms(1)]])
    fix x :: "int \<times> 64 word"
    assume "case x of (b, m) \<Rightarrow> m \<le> - 1 \<and> (\<forall>f \<in> set fs. m \<le> stamp s f) \<and>
        (m = - 1 \<and> b = - 1 \<or> b \<in> set fs \<and> m = stamp s b \<and> m < - 1)"
    then show "runs (case x of (best, _) \<Rightarrow> Inr best)
      (\<lambda>b. b \<in> set fs \<and> (\<forall>f \<in> set fs. stamp s b \<le> stamp s f))"
      using f f_max by (auto split: prod.splits)
  qed
qed

end
