(* ===== verification/VmHandlers.thy ===== *)
theory VmHandlers
  imports VmPolicy
begin

unbundle bit_operations_syntax

text \<open>
  The page fault handlers and the timer handler of \<open>project_3/main.cpp\<close>, the
  signal handler of \<open>page_table.cpp\<close> that dispatches to them, and the machine
  they run on: a user access either goes through the hardware mapping or faults,
  in which case the instruction is restarted after the handler returns.
\<close>

section \<open>Helpers of the handlers\<close>

definition disableInterrupts :: "vm_state \<Rightarrow> vm_state" where
  "disableInterrupts s = s\<lparr>vtalrm_blocked := True\<rparr>"

definition enableInterrupts :: "vm_state \<Rightarrow> vm_state" where
  "enableInterrupts s = s\<lparr>vtalrm_blocked := False\<rparr>"

definition set_entry :: "int \<Rightarrow> int \<Rightarrow> int \<Rightarrow> vm_state \<Rightarrow> vm_state result" where
  "set_entry page frame bits s =
     bindE (page_table_set_entry (the_pt s) page frame bits) (\<lambda>pt. Inr (s\<lparr>the_pt := pt\<rparr>))"

definition assign_new_page :: "int \<Rightarrow> int \<Rightarrow> vm_state \<Rightarrow> vm_state result" where
  "assign_new_page f page s =
     bindE (vec_at (core_map s) f) (\<lambda>e.
     let (e', num') = assignNewPage page e (cm_num s) in
     bindE (vec_set (core_map s) f e') (\<lambda>cm. Inr (s\<lparr>core_map := cm, cm_num := num'\<rparr>)))"

definition is_page_in_memory :: "int \<Rightarrow> int \<Rightarrow> vm_state \<Rightarrow> bool" where
  "is_page_in_memory page bits s \<longleftrightarrow> page \<in> pages_in_mem s \<or> bits = PROT_READ"

definition set_perms :: "int \<Rightarrow> int \<Rightarrow> int \<Rightarrow> vm_state \<Rightarrow> vm_state result" where
  "set_perms page frame bits s =
     bindE (update_entry frame (setIsUsed True) s) (\<lambda>s.
     if bits = PROT_NONE then
       bindE (vec_at (core_map s) frame) (\<lambda>e.
       bindE (vec_set (not_used s) frame 0) (\<lambda>nu.
       set_entry page frame (getPerms e) (s\<lparr>not_used := nu\<rparr>)))
     else
       bindE (update_entry frame (setIsDirty True) s) (\<lambda>s.
       set_entry page frame (PROT_READ OR PROT_WRITE) s))"

definition read_from_disk_and_set_pt_entry :: "int \<Rightarrow> int \<Rightarrow> vm_state \<Rightarrow> vm_state result" where
  "read_from_disk_and_set_pt_entry page frame s =
     bindE (int_mul frame PAGE_SIZE) (\<lambda>addr.
     bindE (vm_disk_read (g_disk s) page (page_table_get_physmem (the_pt s)) addr) (\<lambda>mem.
     bindE (set_entry page frame PROT_READ (s\<lparr>the_pt := (the_pt s)\<lparr>pt_backing := mem\<rparr>\<rparr>)) (\<lambda>s.
     bindE (int_inc (disk_reads s)) (\<lambda>n. Inr (s\<lparr>disk_reads := n\<rparr>)))))"

text \<open>The write-back of a dirty frame, and the whole eviction.\<close>

definition write_back :: "int \<Rightarrow> core_map_entry \<Rightarrow> vm_state \<Rightarrow> vm_state result" where
  "write_back frame e s =
     (if getPerms e AND PROT_WRITE \<noteq> 0 then
        bindE (int_mul frame PAGE_SIZE) (\<lambda>addr.
        bindE (vm_disk_write (g_disk s) (getPageNumber e) (page_table_get_physmem (the_pt s)) addr) (\<lambda>d.
        bindE (int_inc (disk_writes s)) (\<lambda>n. Inr (s\<lparr>g_disk := d, disk_writes := n\<rparr>))))
      else Inr s)"

definition evict_frame_from_memory ::
  "(vm_state \<Rightarrow> (int \<times> vm_state) result) \<Rightarrow> vm_state \<Rightarrow> (int \<times> vm_state) result" where
  "evict_frame_from_memory get_frame_to_be_evicted s =
     (if disk_reads s < g_nframes s then Inr (disk_reads s, s)
      else bindE (get_frame_to_be_evicted s) (\<lambda>(frame, s).
           bindE (vec_at (core_map s) frame) (\<lambda>e.
           bindE (assertE (getPageNumber e \<noteq> -1)) (\<lambda>_.
           bindE (write_back frame e s) (\<lambda>s.
           bindE (set_entry (getPageNumber e) 0 0 s) (\<lambda>s. Inr (frame, s)))))))"

section \<open>The timer handler\<close>

definition timer_visit :: "nat \<Rightarrow> vm_state \<Rightarrow> vm_state result" where
  "timer_visit i s =
     bindE (vec_at (core_map s) (int i)) (\<lambda>e.
     if getPageNumber e \<noteq> -1 then
       if isUsed e then
         bindE (vec_set (not_used s) (int i) 0) (\<lambda>nu.
         bindE (update_entry (int i) (setIsUsed False) (s\<lparr>not_used := nu\<rparr>)) (\<lambda>s.
         set_entry (getPageNumber e) (int i) PROT_NONE s))
       else
         bindE (vec_at (not_used s) (int i)) (\<lambda>n.
         bindE (int_inc n) (\<lambda>n'.
         bindE (vec_set (not_used s) (int i) n') (\<lambda>nu. Inr (s\<lparr>not_used := nu\<rparr>))))
     else Inr s)"

definition timer_handler :: "vm_state \<Rightarrow> vm_state result" where
  "timer_handler s =
     (if \<not> pt_assigned s then Inr s else foldE timer_visit [0..<nat (g_nframes s)] s)"

text \<open>A timer signal that arrives while it is blocked stays pending; \<open>arrive k\<close> is the arrival of \<open>k\<close> signals.\<close>

definition timer_signal :: "vm_state \<Rightarrow> vm_state result" where
  "timer_signal s = (if vtalrm_blocked s then Inr s else timer_handler s)"

fun arrive :: "nat \<Rightarrow> vm_state \<Rightarrow> vm_state result" where
  "arrive 0 s = Inr s"
| "arrive (Suc k) s = bindE (timer_signal s) (arrive k)"

section \<open>The page fault handlers\<close>

text \<open>The branch for a resident page is the same in the three handlers.\<close>

definition resident_fault :: "int \<Rightarrow> int \<Rightarrow> int \<Rightarrow> vm_state \<Rightarrow> vm_state result" where
  "resident_fault page frame bits s =
     bindE (vec_at (core_map s) frame) (\<lambda>e.
     bindE (assertE (getPageNumber e = page)) (\<lambda>_. set_perms page frame bits s))"

definition count_fault :: "vm_state \<Rightarrow> vm_state result" where
  "count_fault s = bindE (int_inc (page_faults s)) (\<lambda>n. Inr (s\<lparr>page_faults := n\<rparr>))"

definition page_fault_handler_example :: "int \<Rightarrow> vm_state \<Rightarrow> vm_state result" where
  "page_fault_handler_example page s =
     bindE (page_table_print (the_pt s)) (\<lambda>_.
     bindE (set_entry page page (PROT_READ OR PROT_WRITE) s) (\<lambda>s.
     bindE (page_table_print (the_pt s)) (\<lambda>_. Inr s)))"

definition page_fault_handler_rand :: "int \<Rightarrow> int \<Rightarrow> vm_state \<Rightarrow> vm_state result" where
  "page_fault_handler_rand r page s =
     bindE (page_table_get_entry (the_pt s) page) (\<lambda>(frame, bits).
     if is_page_in_memory page bits s then resident_fault page frame bits s
     else
       bindE (count_fault s) (\<lambda>s.
       bindE (evict_frame_from_memory (get_frame_to_be_evicted_random_policy r) s) (\<lambda>(frame, s).
       bindE (read_from_disk_and_set_pt_entry page frame s) (\<lambda>s.
       assign_new_page frame page s))))"

definition page_fault_handler_fifo :: "int \<Rightarrow> vm_state \<Rightarrow> vm_state result" where
  "page_fault_handler_fifo page s =
     bindE (page_table_get_entry (the_pt s) page) (\<lambda>(frame, bits).
     if is_page_in_memory page bits s then resident_fault page frame bits s
     else
       bindE (count_fault s) (\<lambda>s.
       bindE (evict_frame_from_memory get_frame_to_be_evicted_fifo_policy s) (\<lambda>(frame, s).
       bindE (read_from_disk_and_set_pt_entry page frame s) (\<lambda>s.
       bindE (assign_new_page frame page s) (\<lambda>s.
       Inr (s\<lparr>frame_queue := frame_queue s @ [frame]\<rparr>))))))"

text \<open>
  The custom handler.  \<open>sig i\<close> timer signals arrive at the \<open>i\<close>-th of the points between its statements.
\<close>

definition custom_miss :: "(nat \<Rightarrow> nat) \<Rightarrow> int \<Rightarrow> vm_state \<Rightarrow> vm_state result" where
  "custom_miss sig page s =
     bindE (count_fault s) (\<lambda>s.
     bindE (arrive (sig 2) s) (\<lambda>s.
     bindE (evict_frame_from_memory get_frame_to_be_evicted_custom_policy s) (\<lambda>(frame, s).
     bindE (arrive (sig 3) s) (\<lambda>s.
     bindE (vec_at (core_map s) frame) (\<lambda>e.
     let s = s\<lparr>pages_in_mem := pages_in_mem s - {getPageNumber e}\<rparr> in
     bindE (arrive (sig 4) s) (\<lambda>s.
     bindE (read_from_disk_and_set_pt_entry page frame s) (\<lambda>s.
     bindE (arrive (sig 5) s) (\<lambda>s.
     bindE (assign_new_page frame page s) (\<lambda>s.
     bindE (arrive (sig 6) s) (\<lambda>s.
     let s = s\<lparr>pages_in_mem := insert page (pages_in_mem s)\<rparr> in
     bindE (arrive (sig 7) s) (\<lambda>s.
     bindE (vec_set (not_used s) frame 0) (\<lambda>nu. Inr (s\<lparr>not_used := nu\<rparr>)))))))))))))"

definition custom_handler_with_signals :: "(nat \<Rightarrow> nat) \<Rightarrow> int \<Rightarrow> vm_state \<Rightarrow> vm_state result" where
  "custom_handler_with_signals sig page s =
     bindE (arrive (sig 0) (disableInterrupts s)) (\<lambda>s.
     bindE (page_table_get_entry (the_pt s) page) (\<lambda>(frame, bits).
     bindE (arrive (sig 1) s) (\<lambda>s.
     bindE (if is_page_in_memory page bits s then resident_fault page frame bits s
            else custom_miss sig page s) (\<lambda>s.
     bindE (arrive (sig 8) s) (\<lambda>s. Inr (enableInterrupts s))))))"

text \<open>The handler when no signal arrives in it.\<close>

definition page_fault_handler_custom :: "int \<Rightarrow> vm_state \<Rightarrow> vm_state result" where
  "page_fault_handler_custom = custom_handler_with_signals (\<lambda>_. 0)"

section \<open>Faults and accesses\<close>

datatype handler = Rand | Fifo | Custom | Example

fun run_handler :: "handler \<Rightarrow> int \<Rightarrow> int \<Rightarrow> vm_state \<Rightarrow> vm_state result" where
  "run_handler Rand r page s = page_fault_handler_rand r page s"
| "run_handler Fifo r page s = page_fault_handler_fifo page s"
| "run_handler Custom r page s = page_fault_handler_custom page s"
| "run_handler Example r page s = page_fault_handler_example page s"

text \<open>
  The signal handler; \<open>off\<close> is the faulting address minus \<open>virtmem\<close>.  The
  division of the pointer difference truncates towards zero, and storing the
  64-bit quotient in an \<open>int\<close> keeps its low 32 bits.
\<close>

definition internal_fault_handler :: "handler \<Rightarrow> int \<Rightarrow> int \<Rightarrow> vm_state \<Rightarrow> vm_state result" where
  "internal_fault_handler h r off s =
     (let page = signed_take_bit 31 (off sdiv PAGE_SIZE) in
      if page \<ge> 0 \<and> page < pt_npages (the_pt s) then run_handler h r page s else Inl Abort)"

text \<open>
  One attempt of the processor at a byte access at offset \<open>off\<close> of virtual
  memory.  If the protection allows it, the access goes to the mapped page of the
  backing file (beyond its end there is a bus error); otherwise the fault handler
  runs and the access has to be tried again.
\<close>

datatype access = Load int | Store int byte

datatype outcome = Loaded byte | Stored | Faulted

fun access_addr :: "access \<Rightarrow> int" where
  "access_addr (Load a) = a"
| "access_addr (Store a v) = a"

fun access_bit :: "access \<Rightarrow> int" where
  "access_bit (Load a) = PROT_READ"
| "access_bit (Store a v) = PROT_WRITE"

definition mmu_allows :: "page_table \<Rightarrow> access \<Rightarrow> bool" where
  "mmu_allows pt a \<longleftrightarrow> 0 \<le> access_addr a \<and> access_addr a < pt_npages pt * PAGE_SIZE \<and>
     mmu_prot pt (access_addr a div PAGE_SIZE) AND access_bit a \<noteq> 0"

definition mmu_addr :: "page_table \<Rightarrow> int \<Rightarrow> int" where
  "mmu_addr pt a = mmu_frame pt (a div PAGE_SIZE) * PAGE_SIZE + a mod PAGE_SIZE"

fun perform :: "access \<Rightarrow> vm_state \<Rightarrow> outcome \<times> vm_state" where
  "perform (Load a) s = (Loaded (reg_data (pt_backing (the_pt s)) (mmu_addr (the_pt s) a)), s)"
| "perform (Store a v) s = (Stored, s\<lparr>the_pt := (the_pt s)\<lparr>pt_backing := (pt_backing (the_pt s))
     \<lparr>reg_data := (reg_data (pt_backing (the_pt s)))(mmu_addr (the_pt s) a := v)\<rparr>\<rparr>\<rparr>)"

definition attempt :: "handler \<Rightarrow> int \<Rightarrow> access \<Rightarrow> vm_state \<Rightarrow> (outcome \<times> vm_state) result" where
  "attempt h r a s =
     (if mmu_allows (the_pt s) a then
        (if mmu_addr (the_pt s) (access_addr a) < reg_len (pt_backing (the_pt s))
         then Inr (perform a s) else Inl BusError)
      else bindE (internal_fault_handler h r (access_addr a) s) (\<lambda>s. Inr (Faulted, s)))"

text \<open>
  The system: accesses of the user program and timer signals, in any order.  The
  timer is armed for the custom policy only; a signal that arrives while blocked
  stays pending.
\<close>

datatype event = Access access int | Tick

fun vm_step :: "handler \<Rightarrow> event \<Rightarrow> vm_state \<Rightarrow> (outcome option \<times> vm_state) result" where
  "vm_step h (Access a r) s = bindE (attempt h r a s) (\<lambda>(out, s'). Inr (Some out, s'))"
| "vm_step h Tick s =
     (if h \<noteq> Custom then Inr (None, s) else bindE (timer_signal s) (\<lambda>s'. Inr (None, s')))"

fun vm_run :: "handler \<Rightarrow> event list \<Rightarrow> vm_state \<Rightarrow> (outcome option list \<times> vm_state) result" where
  "vm_run h [] s = Inr ([], s)"
| "vm_run h (e # es) s =
     bindE (vm_step h e s) (\<lambda>(out, s'). bindE (vm_run h es s') (\<lambda>(outs, t). Inr (out # outs, t)))"

text \<open>
  The instruction with its restarts.  \<open>k\<close> timer signals arrive before an attempt, that is
  before the access and between a fault and the retry; \<open>r\<close> is what \<open>rand\<close> returns in it.  The list bounds the number of attempts.
\<close>

fun signals :: "handler \<Rightarrow> nat \<Rightarrow> vm_state \<Rightarrow> vm_state result" where
  "signals h 0 s = Inr s"
| "signals h (Suc k) s = bindE (vm_step h Tick s) (\<lambda>(out, s). signals h k s)"

fun run_access :: "handler \<Rightarrow> (nat \<times> int) list \<Rightarrow> access \<Rightarrow> vm_state \<Rightarrow> (outcome \<times> vm_state) result option" where
  "run_access h [] a s = None"
| "run_access h ((k, r) # xs) a s =
     (case bindE (signals h k s) (attempt h r a) of
        Inl e \<Rightarrow> Some (Inl e)
      | Inr (out, s') \<Rightarrow> (if out = Faulted then run_access h xs a s' else Some (Inr (out, s'))))"

section \<open>Blocked signals\<close>

lemma blocked_kept:
  "set_entry p f b s = Inr u \<Longrightarrow> vtalrm_blocked u = vtalrm_blocked s"
  "update_entry f g s = Inr u \<Longrightarrow> vtalrm_blocked u = vtalrm_blocked s"
  "count_fault s = Inr u \<Longrightarrow> vtalrm_blocked u = vtalrm_blocked s"
  "read_from_disk_and_set_pt_entry p f s = Inr u \<Longrightarrow> vtalrm_blocked u = vtalrm_blocked s"
  "assign_new_page f p s = Inr u \<Longrightarrow> vtalrm_blocked u = vtalrm_blocked s"
  "write_back f e s = Inr u \<Longrightarrow> vtalrm_blocked u = vtalrm_blocked s"
  by (auto simp: set_entry_def update_entry_def count_fault_def read_from_disk_and_set_pt_entry_def assign_new_page_def
      write_back_def assignNewPage_def setTs_def bindE_eq_Inr Let_def split: if_splits prod.splits)

lemma set_perms_blocked: "set_perms p f b s = Inr u \<Longrightarrow> vtalrm_blocked u = vtalrm_blocked s"
  by (auto simp: set_perms_def bindE_eq_Inr dest!: blocked_kept split: if_splits)

lemma evict_blocked:
  "evict_frame_from_memory get_frame_to_be_evicted_custom_policy s = Inr (f, u) \<Longrightarrow> vtalrm_blocked u = vtalrm_blocked s"
  by (auto simp: evict_frame_from_memory_def get_frame_to_be_evicted_custom_policy_def bindE_eq_Inr
      dest!: blocked_kept split: if_splits)

lemma arrive_blocked [simp]: "vtalrm_blocked s \<Longrightarrow> arrive k s = Inr s"
  by (induction k) (simp_all add: timer_signal_def)

lemma bindE_cong_Inr: "(\<And>x. m = Inr x \<Longrightarrow> f x = g x) \<Longrightarrow> bindE m f = bindE m g"
  by (cases m) simp_all

text \<open>Without signals the custom handler is as follows.\<close>

lemma custom_miss_eq:
  "custom_miss (\<lambda>_. 0) page s =
     bindE (count_fault s) (\<lambda>s.
     bindE (evict_frame_from_memory get_frame_to_be_evicted_custom_policy s) (\<lambda>(frame, s).
     bindE (vec_at (core_map s) frame) (\<lambda>e.
     let s = s\<lparr>pages_in_mem := pages_in_mem s - {getPageNumber e}\<rparr> in
     bindE (read_from_disk_and_set_pt_entry page frame s) (\<lambda>s.
     bindE (assign_new_page frame page s) (\<lambda>s.
     let s = s\<lparr>pages_in_mem := insert page (pages_in_mem s)\<rparr> in
     bindE (vec_set (not_used s) frame 0) (\<lambda>nu. Inr (s\<lparr>not_used := nu\<rparr>)))))))"
  by (simp add: custom_miss_def)

lemma page_fault_handler_custom_eq:
  "page_fault_handler_custom page s =
     (let s = disableInterrupts s in
      bindE
        (bindE (page_table_get_entry (the_pt s) page) (\<lambda>(frame, bits).
         if is_page_in_memory page bits s then resident_fault page frame bits s
         else custom_miss (\<lambda>_. 0) page s))
        (\<lambda>s. Inr (enableInterrupts s)))"
  by (simp add: page_fault_handler_custom_def custom_handler_with_signals_def Let_def bindE_assoc split_def)

lemma custom_miss_blocked:
  assumes "custom_miss (\<lambda>_. 0) p s = Inr u"
  shows "vtalrm_blocked u = vtalrm_blocked s"
  using assms
  by (auto simp: custom_miss_eq bindE_eq_Inr Let_def dest!: blocked_kept evict_blocked)

text \<open>No signal has an effect inside the custom handler.\<close>

lemma custom_miss_signals: "vtalrm_blocked s \<Longrightarrow> custom_miss sig p s = custom_miss (\<lambda>_. 0) p s"
  unfolding custom_miss_def
  by (auto simp: Let_def split_def dest!: blocked_kept evict_blocked intro!: bindE_cong_Inr)

lemma resident_fault_blocked: "resident_fault p f b s = Inr u \<Longrightarrow> vtalrm_blocked u = vtalrm_blocked s"
  by (auto simp: resident_fault_def bindE_eq_Inr dest!: set_perms_blocked)

lemma custom_handler_signals: "custom_handler_with_signals sig p s = page_fault_handler_custom p s"
proof -
  have "vtalrm_blocked (disableInterrupts s)" by (simp add: disableInterrupts_def)
  then show ?thesis
    unfolding page_fault_handler_custom_def custom_handler_with_signals_def
    by (auto simp: split_def custom_miss_signals [of _ sig] dest!: resident_fault_blocked custom_miss_blocked intro!: bindE_cong_Inr)
qed

end
