(* ===== verification/VmInvariant.thy ===== *)
theory VmInvariant
  imports VmHandlers
begin

text \<open>
  The invariant of the paging machine.  It speaks of a set \<open>L\<close> of live frames
  (those whose core map entry describes a resident page) and of the memory \<open>m\<close>
  the user program is to see.  During a fault the frame being replaced leaves and
  rejoins \<open>L\<close>; between faults \<open>L\<close> is the set of frames filled so far.
\<close>

lemma BLOCK_PAGE [simp]: "BLOCK_SIZE = PAGE_SIZE"
  by (simp add: BLOCK_SIZE_def PAGE_SIZE_def)

lemma PAGE_SIZE_pos [simp]: "0 < PAGE_SIZE" "0 \<le> PAGE_SIZE"
  by (simp_all add: PAGE_SIZE_def)

abbreviation npages :: "vm_state \<Rightarrow> int" where
  "npages s \<equiv> pt_npages (the_pt s)"

abbreviation bits_of :: "vm_state \<Rightarrow> int \<Rightarrow> int" where
  "bits_of s p \<equiv> page_bits (the_pt s) ! nat p"

definition entry :: "vm_state \<Rightarrow> int \<Rightarrow> core_map_entry" where
  "entry s f = core_map s ! nat f"

abbreviation page_of :: "vm_state \<Rightarrow> int \<Rightarrow> int" where
  "page_of s f \<equiv> cm_page (entry s f)"

definition sizes_ok :: "vm_state \<Rightarrow> bool" where
  "sizes_ok s \<longleftrightarrow> 0 < g_nframes s \<and> pt_wf (the_pt s) \<and> pt_nframes (the_pt s) = g_nframes s \<and>
     int (length (core_map s)) = g_nframes s \<and> disk_wf (g_disk s) \<and> d_nblocks (g_disk s) = npages s"

definition live :: "int set \<Rightarrow> vm_state \<Rightarrow> bool" where
  "live L s \<longleftrightarrow>
     (\<forall>f \<in> L. 0 \<le> f \<and> f < g_nframes s \<and> f < npages s \<and> 0 \<le> page_of s f \<and> page_of s f < npages s \<and>
        page_mapping (the_pt s) ! nat (page_of s f) = f \<and> mmu_frame (the_pt s) (page_of s f) = f \<and>
        bits_of s (page_of s f) \<in> {0, getPerms (entry s f)}) \<and>
     inj_on (page_of s) L \<and>
     (\<forall>p. 0 \<le> p \<and> p < npages s \<and> p \<notin> page_of s ` L \<longrightarrow> bits_of s p = 0)"

definition shows_mem :: "int set \<Rightarrow> vm_state \<Rightarrow> mem \<Rightarrow> bool" where
  "shows_mem L s m \<longleftrightarrow>
     (\<forall>f \<in> L. same_bytes (reg_data (pt_backing (the_pt s))) (f * PAGE_SIZE) m (page_of s f * PAGE_SIZE) PAGE_SIZE) \<and>
     (\<forall>p. 0 \<le> p \<and> p < npages s \<and> p \<notin> page_of s ` {f \<in> L. cm_dirty (entry s f)} \<longrightarrow>
        disk_block_is (g_disk s) p m (p * PAGE_SIZE))"

definition paging :: "int set \<Rightarrow> vm_state \<Rightarrow> mem \<Rightarrow> bool" where
  "paging L s m \<longleftrightarrow> sizes_ok s \<and> live L s \<and> shows_mem L s m"

lemma pagingD:
  assumes "paging L s m"
  shows "sizes_ok s" "live L s" "shows_mem L s m"
  using assms by (simp_all add: paging_def)

lemma liveD:
  assumes "live L s" "f \<in> L"
  shows "0 \<le> f" "f < g_nframes s" "f < npages s" "0 \<le> page_of s f" "page_of s f < npages s"
    "page_mapping (the_pt s) ! nat (page_of s f) = f" "mmu_frame (the_pt s) (page_of s f) = f"
    "bits_of s (page_of s f) \<in> {0, getPerms (entry s f)}"
  using assms by (simp_all add: live_def)

lemma live_inj: "live L s \<Longrightarrow> f \<in> L \<Longrightarrow> g \<in> L \<Longrightarrow> page_of s f = page_of s g \<longleftrightarrow> f = g"
  unfolding live_def by (blast dest: inj_onD)

lemma entry_update:
  assumes "core_map s' = (core_map s)[nat f := e]" "0 \<le> f" "f < int (length (core_map s))" "0 \<le> g"
  shows "entry s' g = (if g = f then e else entry s g)"
  using assms by (auto simp: entry_def nth_list_update_int)

section \<open>Changing the tag of a live frame\<close>

text \<open>
  A live frame may be marked used, unused or dirty, and its page given no access
  or the access its dirty flag allows.
\<close>

lemma paging_retag:
  assumes pg: "paging L s m" and f: "f \<in> L"
    and cm: "core_map s' = (core_map s)[nat f := e]"
    and e: "cm_page e = page_of s f" "cm_dirty (entry s f) \<longrightarrow> cm_dirty e"
    and pt: "the_pt s' = set_entry_result (the_pt s) (page_of s f) f b" "b \<in> {0, getPerms e}"
    and same: "g_disk s' = g_disk s" "g_nframes s' = g_nframes s"
  shows "paging L s' m"
proof -
  note lv = pagingD(2) [OF pg] and sz = pagingD(1) [OF pg] and sm = pagingD(3) [OF pg]
  note fL = liveD [OF lv f]
  have wf: "pt_wf (the_pt s)" using sz by (simp add: sizes_ok_def)
  have ent: "entry s' g = (if g = f then e else entry s g)" if "g \<in> L" for g
    using entry_update [OF cm, of g] fL liveD(1) [OF lv that] sz by (simp add: sizes_ok_def)
  have pgs: "page_of s' g = page_of s g" if "g \<in> L" for g
    using ent [OF that] e by auto
  have img: "page_of s' ` K = page_of s ` K" if "K \<subseteq> L" for K
    using pgs that by (auto simp: subset_iff image_def)
  have "sizes_ok s'"
    using sz same pt fL set_entry_result_wf [OF wf, of "page_of s f" f b] cm by (simp add: sizes_ok_def)
  moreover have "live L s'"
    unfolding live_def
  proof (intro conjI ballI allI impI)
    fix g assume g: "g \<in> L"
    note gL = liveD [OF lv g]
    show "0 \<le> g" "g < g_nframes s'" "g < npages s'" "0 \<le> page_of s' g" "page_of s' g < npages s'"
      using gL same pt pgs [OF g] by auto
    show "page_mapping (the_pt s') ! nat (page_of s' g) = g" "mmu_frame (the_pt s') (page_of s' g) = g"
      using gL fL pt pgs [OF g] live_inj [OF lv g f] by (auto simp: set_entry_result_mapping [OF wf])
    show "bits_of s' (page_of s' g) \<in> {0, getPerms (entry s' g)}"
      using gL fL pt pgs [OF g] ent [OF g] live_inj [OF lv g f]
      by (auto simp: set_entry_result_bits [OF wf])
  next
    show "inj_on (page_of s') L"
      using lv pgs by (simp add: live_def inj_on_def)
  next
    fix p assume p: "0 \<le> p \<and> p < npages s' \<and> p \<notin> page_of s' ` L"
    then have "p \<noteq> page_of s f" using f img [of L] by auto
    then show "bits_of s' p = 0"
      using p lv pt fL img [of L] by (simp add: live_def set_entry_result_bits [OF wf])
  qed
  moreover have "shows_mem L s' m"
  proof -
    have sub: "page_of s ` {g \<in> L. cm_dirty (entry s g)} \<subseteq> page_of s' ` {g \<in> L. cm_dirty (entry s' g)}"
      using ent pgs e by (fastforce simp: image_def)
    have "disk_block_is (g_disk s') p m (p * PAGE_SIZE)"
      if "0 \<le> p" "p < npages s'" "p \<notin> page_of s' ` {g \<in> L. cm_dirty (entry s' g)}" for p
    proof -
      have "p \<notin> page_of s ` {g \<in> L. cm_dirty (entry s g)}" using sub that(3) by blast
      then show ?thesis using sm that(1,2) pt(1) same by (simp add: shows_mem_def)
    qed
    then show ?thesis
      using sm pgs pt(1) by (simp add: shows_mem_def)
  qed
  ultimately show ?thesis by (simp add: paging_def)
qed

section \<open>Evicting and loading\<close>

text \<open>
  A frame leaves the live set: its page's entry is cleared, after its bytes went
  to the disk if it was dirty.
\<close>

definition evicted :: "int \<Rightarrow> vm_state \<Rightarrow> vm_state \<Rightarrow> bool" where
  "evicted f s s' \<longleftrightarrow>
     core_map s' = core_map s \<and> g_nframes s' = g_nframes s \<and>
     the_pt s' = set_entry_result (the_pt s) (page_of s f) 0 0 \<and>
     g_disk s' = (if cm_dirty (entry s f)
       then (g_disk s)\<lparr>d_file := (d_file (g_disk s))\<lparr>reg_data :=
         copy_bytes (reg_data (d_file (g_disk s))) (page_of s f * PAGE_SIZE)
           (reg_data (pt_backing (the_pt s))) (f * PAGE_SIZE) PAGE_SIZE\<rparr>\<rparr>
       else g_disk s)"

lemma paging_evict:
  assumes pg: "paging L s m" and f: "f \<in> L" and ev: "evicted f s s'"
  shows "paging (L - {f}) s' m"
proof -
  note lv = pagingD(2) [OF pg] and sz = pagingD(1) [OF pg] and sm = pagingD(3) [OF pg]
  note fL = liveD [OF lv f]
  have wf: "pt_wf (the_pt s)" using sz by (simp add: sizes_ok_def)
  have ent [simp]: "entry s' g = entry s g" for g using ev by (simp add: entry_def evicted_def)
  have pt: "the_pt s' = set_entry_result (the_pt s) (page_of s f) 0 0" using ev by (simp add: evicted_def)
  have "sizes_ok s'"
    using sz ev fL set_entry_result_wf [OF wf, of "page_of s f" 0 0]
    by (auto simp: sizes_ok_def evicted_def disk_wf_def)
  moreover have "live (L - {f}) s'"
    unfolding live_def
  proof (intro conjI ballI allI impI)
    fix g assume g: "g \<in> L - {f}"
    then have gl: "g \<in> L" "g \<noteq> f" by auto
    note gL = liveD [OF lv gl(1)]
    have ne: "page_of s g \<noteq> page_of s f" using live_inj [OF lv gl(1) f] gl by simp
    show "0 \<le> g" "g < g_nframes s'" "g < npages s'" "0 \<le> page_of s' g" "page_of s' g < npages s'"
      "page_mapping (the_pt s') ! nat (page_of s' g) = g" "mmu_frame (the_pt s') (page_of s' g) = g"
      "bits_of s' (page_of s' g) \<in> {0, getPerms (entry s' g)}"
      using gL fL ne ev pt
      by (auto simp: evicted_def set_entry_result_mapping [OF wf] set_entry_result_bits [OF wf])
  next
    show "inj_on (page_of s') (L - {f})"
      using lv by (auto simp: live_def inj_on_def)
  next
    fix p assume p: "0 \<le> p \<and> p < npages s' \<and> p \<notin> page_of s' ` (L - {f})"
    show "bits_of s' p = 0"
    proof (cases "p = page_of s f")
      case True
      then show ?thesis using p pt fL by (simp add: set_entry_result_bits [OF wf])
    next
      case False
      then have "p \<notin> page_of s ` L" using p by auto
      then have "bits_of s p = 0" using p lv pt by (simp add: live_def)
      then show ?thesis using p False pt fL by (simp add: set_entry_result_bits [OF wf])
    qed
  qed
  moreover have "shows_mem (L - {f}) s' m"
    unfolding shows_mem_def
  proof (intro conjI ballI allI impI)
    fix g assume g: "g \<in> L - {f}"
    then show "same_bytes (reg_data (pt_backing (the_pt s'))) (g * PAGE_SIZE) m (page_of s' g * PAGE_SIZE) PAGE_SIZE"
      using sm pt by (simp add: shows_mem_def)
  next
    fix p assume p: "0 \<le> p \<and> p < npages s' \<and> p \<notin> page_of s' ` {g \<in> L - {f}. cm_dirty (entry s' g)}"
    have fm: "same_bytes (reg_data (pt_backing (the_pt s))) (f * PAGE_SIZE) m (page_of s f * PAGE_SIZE) PAGE_SIZE"
      using sm f by (simp add: shows_mem_def)
    show "disk_block_is (g_disk s') p m (p * PAGE_SIZE)"
    proof (cases "p = page_of s f \<and> cm_dirty (entry s f)")
      case True
      then show ?thesis
        using ev fm by (simp add: disk_block_is_def evicted_def same_bytes_copy_left)
    next
      case False
      then have "p \<notin> page_of s ` {g \<in> L. cm_dirty (entry s g)}" using p by auto
      then have "disk_block_is (g_disk s) p m (p * PAGE_SIZE)"
        using p sm pt by (simp add: shows_mem_def)
      then show ?thesis
        using ev False by (auto simp: disk_block_is_def evicted_def same_bytes_copy_other)
    qed
  qed
  ultimately show ?thesis by (simp add: paging_def)
qed

text \<open>A page that is not resident is loaded into a frame that is not live.\<close>

definition loaded :: "int \<Rightarrow> int \<Rightarrow> vm_state \<Rightarrow> vm_state \<Rightarrow> bool" where
  "loaded p f s s' \<longleftrightarrow>
     (\<exists>e. core_map s' = (core_map s)[nat f := e] \<and> cm_page e = p \<and> \<not> cm_dirty e \<and> cm_used e \<and> cm_ts e = cm_num s) \<and>
     g_nframes s' = g_nframes s \<and> g_disk s' = g_disk s \<and>
     the_pt s' = set_entry_result ((the_pt s)\<lparr>pt_backing := (pt_backing (the_pt s))\<lparr>reg_data :=
       copy_bytes (reg_data (pt_backing (the_pt s))) (f * PAGE_SIZE)
         (reg_data (d_file (g_disk s))) (p * PAGE_SIZE) PAGE_SIZE\<rparr>\<rparr>) p f PROT_READ"

lemma paging_load:
  assumes pg: "paging L s m" and f: "f \<notin> L" "0 \<le> f" "f < g_nframes s" "f < npages s"
    and p: "0 \<le> p" "p < npages s" "p \<notin> page_of s ` L" and ld: "loaded p f s s'"
  shows "paging (insert f L) s' m"
proof -
  note lv = pagingD(2) [OF pg] and sz = pagingD(1) [OF pg] and sm = pagingD(3) [OF pg]
  obtain e where cm: "core_map s' = (core_map s)[nat f := e]" and e: "cm_page e = p" "\<not> cm_dirty e"
    using ld by (auto simp: loaded_def)
  define pt where "pt = (the_pt s)\<lparr>pt_backing := (pt_backing (the_pt s))\<lparr>reg_data :=
       copy_bytes (reg_data (pt_backing (the_pt s))) (f * PAGE_SIZE)
         (reg_data (d_file (g_disk s))) (p * PAGE_SIZE) PAGE_SIZE\<rparr>\<rparr>"
  have pt': "the_pt s' = set_entry_result pt p f PROT_READ" and same: "g_disk s' = g_disk s" "g_nframes s' = g_nframes s"
    using ld by (simp_all add: loaded_def pt_def)
  have ptf [simp]: "pt_npages pt = npages s" "pt_nframes pt = pt_nframes (the_pt s)" "page_mapping pt = page_mapping (the_pt s)"
    "page_bits pt = page_bits (the_pt s)" "mmu_frame pt = mmu_frame (the_pt s)" "mmu_prot pt = mmu_prot (the_pt s)"
    "reg_len (pt_backing pt) = reg_len (pt_backing (the_pt s))"
    by (simp_all add: pt_def)
  have wf: "pt_wf pt" using sz by (auto simp: sizes_ok_def pt_wf_def)
  have ent: "entry s' g = (if g = f then e else entry s g)" if "g \<in> insert f L" for g
    using entry_update [OF cm, of g] f liveD(1) [OF lv] sz that by (auto simp: sizes_ok_def)
  have ne: "g \<noteq> f" "page_of s g \<noteq> p" "page_of s' g = page_of s g" if "g \<in> L" for g
    using that f p ent [of g] by auto
  have pf: "page_of s' f = p" using ent e by simp
  have pe: "PROT_READ = getPerms e" using e by (simp add: getPerms_def)
  have img: "page_of s' ` insert f L = insert p (page_of s ` L)"
    using ne pf by (auto simp: image_iff)
  have "sizes_ok s'"
    using sz same pt' p set_entry_result_wf [OF wf, of p f PROT_READ] cm by (simp add: sizes_ok_def)
  moreover have "live (insert f L) s'"
    unfolding live_def
  proof (intro conjI ballI allI impI)
    fix g assume g: "g \<in> insert f L"
    show "0 \<le> g" "g < g_nframes s'" "g < npages s'" "0 \<le> page_of s' g" "page_of s' g < npages s'"
      "page_mapping (the_pt s') ! nat (page_of s' g) = g" "mmu_frame (the_pt s') (page_of s' g) = g"
      "bits_of s' (page_of s' g) \<in> {0, getPerms (entry s' g)}"
      using g f p pf pt' same liveD [OF lv, of g] ne [of g] ent [OF g] pe
      by (auto simp: set_entry_result_mapping [OF wf] set_entry_result_bits [OF wf])
  next
    have "inj_on (page_of s') L" using lv ne(3) by (simp add: live_def inj_on_def)
    moreover have "page_of s' f \<notin> page_of s' ` (L - {f})"
    proof
      assume "page_of s' f \<in> page_of s' ` (L - {f})"
      then obtain g where "g \<in> L" "page_of s' f = page_of s' g" by auto
      then show False using ne(2,3) [of g] pf by simp
    qed
    ultimately show "inj_on (page_of s') (insert f L)" by simp
  next
    fix q assume q: "0 \<le> q \<and> q < npages s' \<and> q \<notin> page_of s' ` insert f L"
    then show "bits_of s' q = 0"
      using lv p pt' img by (auto simp: live_def set_entry_result_bits [OF wf])
  qed
  moreover have "shows_mem (insert f L) s' m"
    unfolding shows_mem_def
  proof (intro conjI ballI allI impI)
    have dirty_none: "p \<notin> page_of s ` {g \<in> L. cm_dirty (entry s g)}" using p by auto
    fix g assume g: "g \<in> insert f L"
    show "same_bytes (reg_data (pt_backing (the_pt s'))) (g * PAGE_SIZE) m (page_of s' g * PAGE_SIZE) PAGE_SIZE"
    proof (cases "g = f")
      case True
      have "disk_block_is (g_disk s) p m (p * PAGE_SIZE)" using sm p dirty_none by (simp add: shows_mem_def)
      then show ?thesis using True pf pt' by (simp add: pt_def disk_block_is_def same_bytes_copy_left)
    next
      case False
      then show ?thesis using g sm ne(3) pt' by (simp add: pt_def shows_mem_def same_bytes_copy_other)
    qed
  next
    fix q assume q: "0 \<le> q \<and> q < npages s' \<and> q \<notin> page_of s' ` {g \<in> insert f L. cm_dirty (entry s' g)}"
    have "page_of s ` {g \<in> L. cm_dirty (entry s g)} \<subseteq> page_of s' ` {g \<in> insert f L. cm_dirty (entry s' g)}"
      using ne ent by (fastforce simp: image_def)
    then have "q \<notin> page_of s ` {g \<in> L. cm_dirty (entry s g)}" using q by blast
    then show "disk_block_is (g_disk s') q m (q * PAGE_SIZE)"
      using q sm same pt' by (simp add: shows_mem_def)
  qed
  ultimately show ?thesis by (simp add: paging_def)
qed

end
