(* ===== verification/VmSafety.thy ===== *)
theory VmSafety
  imports VmInvariant
begin

unbundle bit_operations_syntax

text \<open>
  The fault handlers keep the paging invariant and never go wrong.  First the
  full invariant of a machine between faults, then each helper of the handlers,
  then the handlers and the timer.
\<close>

section \<open>The invariant between faults\<close>

text \<open>Frames are filled in order, so the resident ones are those below \<open>disk_reads\<close>.\<close>

definition resident :: "vm_state \<Rightarrow> int set" where
  "resident s = {f. 0 \<le> f \<and> f < g_nframes s \<and> f < disk_reads s}"

definition counters_ok :: "vm_state \<Rightarrow> bool" where
  "counters_ok s \<longleftrightarrow> 0 \<le> disk_writes s \<and> disk_writes s \<le> disk_reads s \<and> disk_reads s \<le> INT_MAX \<and>
     page_faults s = disk_reads s \<and> (disk_reads s \<le> g_nframes s \<longrightarrow> disk_writes s = 0) \<and>
     (\<forall>f. disk_reads s \<le> f \<and> f < g_nframes s \<longrightarrow> page_of s f = -1)"

definition stamps_ok :: "vm_state \<Rightarrow> bool" where
  "stamps_ok s \<longleftrightarrow> uint (cm_num s) = g_nframes s + disk_reads s \<and>
     (\<forall>f. 0 \<le> f \<and> f < g_nframes s \<longrightarrow> stamp s f < cm_num s)"

definition armed :: "vm_state \<Rightarrow> bool" where
  "armed s \<longleftrightarrow> pages_in_mem s = {} \<and> (\<forall>f \<in> resident s. bits_of s (page_of s f) = getPerms (entry s f))"

fun policy_inv :: "handler \<Rightarrow> vm_state \<Rightarrow> bool" where
  "policy_inv Rand s \<longleftrightarrow> armed s"
| "policy_inv Fifo s \<longleftrightarrow> armed s \<and> set (frame_queue s) = resident s \<and>
     sorted_wrt (\<lambda>f g. stamp s f < stamp s g) (frame_queue s)"
| "policy_inv Custom s \<longleftrightarrow> pages_in_mem s = page_of s ` resident s \<and>
     int (length (not_used s)) = g_nframes s"
| "policy_inv Example s \<longleftrightarrow> False"

definition vm_inv :: "handler \<Rightarrow> vm_state \<Rightarrow> mem \<Rightarrow> bool" where
  "vm_inv h s m \<longleftrightarrow> paging (resident s) s m \<and> counters_ok s \<and> stamps_ok s \<and> policy_inv h s"

lemma vm_invD:
  assumes "vm_inv h s m"
  shows "paging (resident s) s m" "sizes_ok s" "live (resident s) s" "shows_mem (resident s) s m"
    "counters_ok s" "stamps_ok s" "policy_inv h s"
  using assms by (simp_all add: vm_inv_def paging_def)

lemma vm_inv_blocked [simp]: "vm_inv h (s\<lparr>vtalrm_blocked := b\<rparr>) m = vm_inv h s m"
  by (cases h) (simp_all add: vm_inv_def paging_def sizes_ok_def live_def shows_mem_def entry_def
      resident_def counters_ok_def stamps_ok_def stamp_def armed_def)

lemma stamp_entry: "stamp s f = cm_ts (entry s f)"
  by (simp add: stamp_def entry_def)

lemma finite_resident [simp]: "finite (resident s)"
proof -
  have "resident s \<subseteq> {0..<g_nframes s}" by (auto simp: resident_def)
  then show ?thesis by (rule finite_subset) simp
qed

text \<open>Distinct resident pages bound the number of resident frames.\<close>

lemma absent_page_bounds_frames:
  assumes lv: "live (resident s) s" and p: "0 \<le> p" "p < npages s" "p \<notin> page_of s ` resident s"
    and n: "0 \<le> disk_reads s" "disk_reads s \<le> g_nframes s"
  shows "disk_reads s < npages s"
proof -
  have "resident s = {0..<disk_reads s}" using n by (auto simp: resident_def)
  then have "nat (disk_reads s) = card (resident s)" by simp
  also have "\<dots> = card (page_of s ` resident s)"
    using lv by (intro card_image [symmetric]) (simp add: live_def)
  also have "\<dots> < card {0..<npages s}"
    using p lv by (intro psubset_card_mono) (auto simp: live_def)
  finally show ?thesis using n by simp
qed

section \<open>Helpers of the handlers\<close>

lemma set_entry_ok:
  assumes "sizes_ok s" "0 \<le> p" "p < npages s" "0 \<le> f" "f < g_nframes s"
  shows "set_entry p f b s = Inr (s\<lparr>the_pt := set_entry_result (the_pt s) p f b\<rparr>)"
  using assms by (simp add: set_entry_def page_table_set_entry_eq sizes_ok_def)

lemma update_entry_ok:
  assumes "0 \<le> f" "f < int (length (core_map s))"
  shows "update_entry f g s = Inr (s\<lparr>core_map := (core_map s)[nat f := g (entry s f)]\<rparr>)"
  using assms by (simp add: update_entry_def entry_def)

lemma frame_mul_ok:
  assumes "sizes_ok s" "0 \<le> f" "f < npages s"
  shows "int_mul f PAGE_SIZE = Inr (f * PAGE_SIZE)"
  using assms by (intro int_mul_ok [of _ "npages s"]) (auto simp: sizes_ok_def pt_wf_def PAGE_SIZE_def)

lemma frame_in_backing:
  assumes "sizes_ok s" "0 \<le> f" "f < npages s"
  shows "0 \<le> f * PAGE_SIZE" "f * PAGE_SIZE + PAGE_SIZE \<le> reg_len (pt_backing (the_pt s))"
proof -
  show "0 \<le> f * PAGE_SIZE" using assms by (simp add: PAGE_SIZE_def)
  show "f * PAGE_SIZE + PAGE_SIZE \<le> reg_len (pt_backing (the_pt s))"
    using assms block_end [of f "npages s" PAGE_SIZE] by (simp add: sizes_ok_def pt_wf_def)
qed

lemma write_back_runs:
  assumes "sizes_ok s" "0 \<le> f" "f < npages s" "0 \<le> cm_page e" "cm_page e < npages s" "disk_writes s < INT_MAX"
  shows "write_back f e s = Inr (if cm_dirty e then
      s\<lparr>g_disk := (g_disk s)\<lparr>d_file := (d_file (g_disk s))\<lparr>reg_data :=
         copy_bytes (reg_data (d_file (g_disk s))) (cm_page e * PAGE_SIZE)
           (reg_data (pt_backing (the_pt s))) (f * PAGE_SIZE) PAGE_SIZE\<rparr>\<rparr>,
        disk_writes := disk_writes s + 1\<rparr> else s)"
proof -
  have "runs (vm_disk_write (g_disk s) (cm_page e) (pt_backing (the_pt s)) (f * PAGE_SIZE))
    (\<lambda>d'. d' = (g_disk s)\<lparr>d_file := (d_file (g_disk s))\<lparr>reg_data :=
       copy_bytes (reg_data (d_file (g_disk s))) (cm_page e * PAGE_SIZE)
         (reg_data (pt_backing (the_pt s))) (f * PAGE_SIZE) PAGE_SIZE\<rparr>\<rparr>)"
    using assms frame_in_backing [OF assms(1-3)] BLOCK_PAGE
    by (intro runs_mono [OF vm_disk_write_runs]) (auto simp: sizes_ok_def)
  then show ?thesis
    using frame_mul_ok [OF assms(1-3)] assms(6) getPerms_write [of e]
    by (auto simp: write_back_def page_table_get_physmem_def runs_iff)
qed

section \<open>A resident page\<close>

lemma resident_fault_runs:
  assumes pg: "paging L s m" and f: "f \<in> L"
    and nu: "b = PROT_NONE \<longrightarrow> int (length (not_used s)) = g_nframes s"
  shows "runs (resident_fault (page_of s f) f b s) (\<lambda>s'. paging L s' m \<and>
    (\<exists>e. core_map s' = (core_map s)[nat f := e] \<and> cm_page e = page_of s f \<and> cm_ts e = cm_ts (entry s f) \<and>
      cm_used e \<and> cm_dirty e = (b \<noteq> PROT_NONE \<or> cm_dirty (entry s f)) \<and>
      the_pt s' = set_entry_result (the_pt s) (page_of s f) f (getPerms e)) \<and>
    (\<exists>nu. length nu = length (not_used s) \<and>
      s' = s\<lparr>core_map := core_map s', the_pt := the_pt s', not_used := nu\<rparr>))"
proof -
  note sz = pagingD(1) [OF pg] and lv = pagingD(2) [OF pg]
  note fL = liveD [OF lv f]
  have len: "f < int (length (core_map s))" using fL sz by (simp add: sizes_ok_def)
  define e1 where "e1 = setIsUsed True (entry s f)"
  define e where "e = (if b = PROT_NONE then e1 else setIsDirty True e1)"
  define nu' where "nu' = (if b = PROT_NONE then (not_used s)[nat f := 0] else not_used s)"
  define s' where "s' = s\<lparr>core_map := (core_map s)[nat f := e],
    the_pt := set_entry_result (the_pt s) (page_of s f) f (getPerms e), not_used := nu'\<rparr>"
  have perms: "PROT_READ OR PROT_WRITE = getPerms (setIsDirty True e1)" by (simp add: getPerms_def)
  have ent: "core_map s ! nat f = entry s f" by (simp add: entry_def)
  have len': "nat f < length (core_map s)" using len fL by simp
  have run: "resident_fault (page_of s f) f b s = Inr s'"
    using fL len len' sz nu unfolding resident_fault_def set_perms_def s'_def e_def nu'_def perms
    by (simp add: update_entry_def set_entry_def page_table_set_entry_eq sizes_ok_def ent e1_def)
  have "paging L s' m"
    by (rule paging_retag [OF pg f, of _ e "getPerms e"]) (auto simp: s'_def e_def e1_def)
  then show ?thesis
    unfolding run runs_simps
    by (intro conjI exI [of _ e] exI [of _ nu']) (auto simp: s'_def e_def e1_def nu'_def)
qed

section \<open>A page that is not resident\<close>

text \<open>
  What eviction guarantees: the frame it returns is not live any more, everything
  but the page table, the disk and the FIFO queue is as before, and a frame is
  taken from a page only when all frames are in use.
\<close>

definition evict_post ::
  "(int \<Rightarrow> int list \<Rightarrow> bool) \<Rightarrow> vm_state \<Rightarrow> mem \<Rightarrow> int \<Rightarrow> vm_state \<Rightarrow> bool" where
  "evict_post Q s m f t \<longleftrightarrow>
     0 \<le> f \<and> f < g_nframes s \<and> f < npages s \<and> paging (resident s - {f}) t m \<and>
     g_nframes t = g_nframes s \<and> npages t = npages s \<and>
     (\<forall>g \<in> resident s - {f}. bits_of t (page_of t g) = bits_of s (page_of s g)) \<and>
     t = s\<lparr>the_pt := the_pt t, g_disk := g_disk t, disk_writes := disk_writes t, frame_queue := frame_queue t\<rparr> \<and>
     (if disk_reads s < g_nframes s then f = disk_reads s \<and> disk_writes t = disk_writes s \<and> frame_queue t = frame_queue s
      else f \<in> resident s \<and> disk_writes s \<le> disk_writes t \<and> disk_writes t \<le> disk_writes s + 1 \<and> Q f (frame_queue t))"

lemma evict_runs:
  assumes pg: "paging (resident s) s m" and c: "0 \<le> disk_reads s" "disk_writes s < INT_MAX"
    and p: "0 \<le> p" "p < npages s" "p \<notin> page_of s ` resident s"
    and pol: "g_nframes s \<le> disk_reads s \<Longrightarrow>
      runs (pol s) (\<lambda>(f, t). f \<in> resident s \<and> (\<exists>q. t = s\<lparr>frame_queue := q\<rparr> \<and> Q f q))"
  shows "runs (evict_frame_from_memory pol s) (\<lambda>(f, t). evict_post Q s m f t)"
proof (cases "disk_reads s < g_nframes s")
  case True
  note n = c(1)
  have "disk_reads s \<notin> resident s" by (simp add: resident_def)
  moreover have "disk_reads s < npages s"
    using absent_page_bounds_frames [OF pagingD(2) [OF pg] p n] True by simp
  ultimately show ?thesis
    using True n pg by (simp add: evict_frame_from_memory_def evict_post_def)
next
  case False
  note sz = pagingD(1) [OF pg] and lv = pagingD(2) [OF pg]
  obtain f q where f: "f \<in> resident s" and run: "pol s = Inr (f, s\<lparr>frame_queue := q\<rparr>)" and Q: "Q f q"
    using pol False by (auto simp: runs_iff)
  note fL = liveD [OF lv f]
  define s1 where "s1 = s\<lparr>frame_queue := q\<rparr>"
  have s1: "sizes_ok s1" "npages s1 = npages s" "disk_writes s1 < INT_MAX" "entry s1 f = entry s f"
    using sz c by (simp_all add: s1_def sizes_ok_def entry_def)
  define s2 where "s2 = (if cm_dirty (entry s f) then
      s1\<lparr>g_disk := (g_disk s)\<lparr>d_file := (d_file (g_disk s))\<lparr>reg_data :=
         copy_bytes (reg_data (d_file (g_disk s))) (page_of s f * PAGE_SIZE)
           (reg_data (pt_backing (the_pt s))) (f * PAGE_SIZE) PAGE_SIZE\<rparr>\<rparr>,
        disk_writes := disk_writes s + 1\<rparr> else s1)"
  define t where "t = s2\<lparr>the_pt := set_entry_result (the_pt s) (page_of s f) 0 0\<rparr>"
  have wb: "write_back f (entry s f) s1 = Inr s2"
    using write_back_runs [OF s1(1), of f "entry s f"] fL s1 by (simp add: s2_def) (simp add: s1_def)
  have sz2: "sizes_ok s2" "the_pt s2 = the_pt s" "g_nframes s2 = g_nframes s" "core_map s2 = core_map s"
    using sz by (auto simp: s2_def s1_def sizes_ok_def disk_wf_def)
  have se: "set_entry (page_of s f) 0 0 s2 = Inr t"
    using set_entry_ok [OF sz2(1), of "page_of s f" 0 0] fL sz2 sz by (simp add: t_def sizes_ok_def)
  have at: "vec_at (core_map s1) f = Inr (entry s f)"
    using fL sz by (simp add: s1_def entry_def sizes_ok_def)
  have ev: "evict_frame_from_memory pol s = Inr (f, t)"
    using False run wb se at fL by (simp add: evict_frame_from_memory_def s1_def [symmetric])
  have "evicted f s t"
    by (simp add: evicted_def t_def s2_def s1_def)
  then have "paging (resident s - {f}) t m" by (rule paging_evict [OF pg f])
  moreover have "bits_of t (page_of t g) = bits_of s (page_of s g)" if g: "g \<in> resident s - {f}" for g
  proof -
    have "page_of s g \<noteq> page_of s f" using g live_inj [OF lv, of g f] f by auto
    moreover have "0 \<le> page_of s g" using g liveD(4) [OF lv] by simp
    moreover have "entry t g = entry s g" by (simp add: t_def entry_def sz2)
    ultimately show ?thesis using fL sz by (simp add: t_def set_entry_result_bits sizes_ok_def)
  qed
  moreover have "t = s\<lparr>the_pt := the_pt t, g_disk := g_disk t, disk_writes := disk_writes t, frame_queue := frame_queue t\<rparr>"
    by (simp add: t_def s2_def s1_def)
  ultimately show ?thesis
    unfolding ev using False f fL Q by (auto simp: evict_post_def t_def s2_def s1_def)
qed

text \<open>Reading the page in and giving the frame to it.\<close>

lemma load_runs:
  assumes pg: "paging L t m" and f: "f \<notin> L" "0 \<le> f" "f < g_nframes t" "f < npages t"
    and p: "0 \<le> p" "p < npages t" "p \<notin> page_of t ` L" and c: "disk_reads t < INT_MAX"
  shows "runs (bindE (read_from_disk_and_set_pt_entry p f t) (assign_new_page f p))
    (\<lambda>u. paging (insert f L) u m \<and> loaded p f t u \<and> npages u = npages t \<and> bits_of u p = PROT_READ \<and>
      (\<forall>g \<in> L. bits_of u (page_of u g) = bits_of t (page_of t g)) \<and>
      u = t\<lparr>core_map := core_map u, cm_num := cm_num t + 1, the_pt := the_pt u, disk_reads := disk_reads t + 1\<rparr>)"
proof -
  note sz = pagingD(1) [OF pg] and lv = pagingD(2) [OF pg]
  define mem where "mem = (pt_backing (the_pt t))\<lparr>reg_data :=
       copy_bytes (reg_data (pt_backing (the_pt t))) (f * PAGE_SIZE)
         (reg_data (d_file (g_disk t))) (p * PAGE_SIZE) PAGE_SIZE\<rparr>"
  define pt1 where "pt1 = (the_pt t)\<lparr>pt_backing := mem\<rparr>"
  define pt where "pt = set_entry_result pt1 p f PROT_READ"
  define e where "e = fst (assignNewPage p (entry t f) (cm_num t))"
  define u where "u = t\<lparr>the_pt := pt, disk_reads := disk_reads t + 1, core_map := (core_map t)[nat f := e],
    cm_num := cm_num t + 1\<rparr>"
  have rd: "vm_disk_read (g_disk t) p (pt_backing (the_pt t)) (f * PAGE_SIZE) = Inr mem"
    using vm_disk_read_runs [of "g_disk t" p "f * PAGE_SIZE" "pt_backing (the_pt t)"] sz f p
      frame_in_backing [OF sz f(2,4)] by (simp add: runs_iff mem_def sizes_ok_def)
  have wf1: "pt_wf pt1" using sz by (auto simp: pt1_def mem_def sizes_ok_def pt_wf_def)
  have sz1: "sizes_ok (t\<lparr>the_pt := pt1\<rparr>)" using sz wf1 by (auto simp: sizes_ok_def pt1_def)
  have se: "set_entry p f PROT_READ (t\<lparr>the_pt := pt1\<rparr>) = Inr (t\<lparr>the_pt := pt\<rparr>)"
    using set_entry_ok [OF sz1, of p f PROT_READ] f p by (simp add: pt_def pt1_def)
  have r: "read_from_disk_and_set_pt_entry p f t = Inr (t\<lparr>the_pt := pt, disk_reads := disk_reads t + 1\<rparr>)"
    using rd se c frame_mul_ok [OF sz f(2,4)]
    by (simp add: read_from_disk_and_set_pt_entry_def page_table_get_physmem_def pt1_def)
  have len: "f < int (length (core_map t))" using f sz by (simp add: sizes_ok_def)
  have a: "assign_new_page f p (t\<lparr>the_pt := pt, disk_reads := disk_reads t + 1\<rparr>) = Inr u"
    using len f by (simp add: assign_new_page_def u_def e_def entry_def split_def)
  have ld: "loaded p f t u"
    by (auto simp: loaded_def u_def pt_def pt1_def mem_def e_def intro!: exI [of _ e])
  then have "paging (insert f L) u m" by (rule paging_load [OF pg f p])
  moreover have "bits_of u p = PROT_READ"
    using p set_entry_result_bits [OF wf1, of p p f PROT_READ] by (simp add: u_def pt_def pt1_def)
  moreover have "bits_of u (page_of u g) = bits_of t (page_of t g)" if g: "g \<in> L" for g
  proof -
    have "g \<noteq> f" using g f by auto
    then have "entry u g = entry t g"
      using len f liveD(1) [OF lv g] by (simp add: u_def entry_def nth_list_update_int)
    moreover have "page_of t g \<noteq> p" "0 \<le> page_of t g" using g p liveD(4) [OF lv g] by auto
    ultimately show ?thesis
      using p set_entry_result_bits [OF wf1, of p "page_of t g" f PROT_READ]
      by (simp add: u_def pt_def pt1_def)
  qed
  moreover have "npages u = npages t" by (simp add: u_def pt_def pt1_def)
  ultimately show ?thesis
    unfolding r using a ld by (simp add: u_def)
qed

lemma paging_cong:
  assumes "core_map s' = core_map s" "the_pt s' = the_pt s" "g_disk s' = g_disk s" "g_nframes s' = g_nframes s"
  shows "paging L s' m = paging L s m"
  using assms by (simp add: paging_def sizes_ok_def live_def shows_mem_def entry_def)

lemma num_next:
  assumes "stamps_ok s" "sizes_ok s" "disk_reads s < INT_MAX" "0 \<le> disk_reads s"
  shows "uint (cm_num s + 1) = g_nframes s + disk_reads s + 1" "cm_num s < cm_num s + 1"
proof -
  have "g_nframes s \<le> INT_MAX"
    using assms(2) by (auto simp: sizes_ok_def pt_wf_def PAGE_SIZE_def)
  then have "g_nframes s + disk_reads s + 1 < 2 ^ 64" using assms(3) by (simp add: INT_MAX_def)
  moreover have "uint (cm_num s) = g_nframes s + disk_reads s" using assms(1) by (simp add: stamps_ok_def)
  ultimately show n: "uint (cm_num s + 1) = g_nframes s + disk_reads s + 1"
    using assms(2,4) by (simp add: uint_word_ariths sizes_ok_def)
  then show "cm_num s < cm_num s + 1"
    using assms(1) by (simp add: word_less_def stamps_ok_def)
qed

text \<open>
  The state after a miss, whatever a handler does to \<open>pages_in_mem\<close> and to its
  own bookkeeping: eviction gave \<open>t\<close>, loading gave \<open>u\<close>.
\<close>

lemma miss_done:
  assumes c: "counters_ok s" "stamps_ok s" "sizes_ok s" "disk_reads s < INT_MAX"
    and ev: "evict_post Q (s\<lparr>page_faults := page_faults s + 1\<rparr>) m f t"
    and u: "paging (insert f (resident s - {f})) u m" "loaded p f t' u"
      "u = t'\<lparr>core_map := core_map u, cm_num := cm_num t' + 1, the_pt := the_pt u, disk_reads := disk_reads t' + 1\<rparr>"
    and t': "t' = t\<lparr>pages_in_mem := X\<rparr>"
  shows "resident u = insert f (resident s - {f})" "paging (resident u) u m" "counters_ok u" "stamps_ok u"
    "stamp u f = cm_num s" "\<And>g. 0 \<le> g \<Longrightarrow> g < g_nframes s \<Longrightarrow> g \<noteq> f \<Longrightarrow> entry u g = entry s g"
    "page_of u f = p" "\<not> cm_dirty (entry u f)" "cm_used (entry u f)"
proof -
  define s1 where "s1 = s\<lparr>page_faults := page_faults s + 1\<rparr>"
  have rs: "resident s1 = resident s" by (simp add: s1_def resident_def)
  note ev' = ev [folded s1_def, unfolded evict_post_def]
  have f: "0 \<le> f" "f < g_nframes s" using ev' by (simp_all add: s1_def)
  obtain P D W q where t: "t = s1\<lparr>the_pt := P, g_disk := D, disk_writes := W, frame_queue := q\<rparr>"
    using ev' by blast
  have tf: "disk_reads t' = disk_reads s" "g_nframes t' = g_nframes s" "core_map t' = core_map s" "cm_num t' = cm_num s"
    "page_faults t' = page_faults s + 1" "disk_writes t' = disk_writes t"
    by (simp_all add: t' t s1_def)
  have uf: "disk_reads u = disk_reads s + 1" "g_nframes u = g_nframes s" "cm_num u = cm_num s + 1"
    "page_faults u = page_faults s + 1" "disk_writes u = disk_writes t"
    by (subst u(3), simp add: tf)+
  obtain e where e: "core_map u = (core_map s)[nat f := e]" "cm_page e = p" "\<not> cm_dirty e" "cm_used e" "cm_ts e = cm_num s"
    using u(2) by (auto simp: loaded_def tf)
  have ent: "entry u g = (if g = f then e else entry s g)" if "0 \<le> g" for g
    using entry_update [OF e(1) f(1) _ that] f c(3) by (simp add: sizes_ok_def)
  have w: "if disk_reads s < g_nframes s then f = disk_reads s \<and> disk_writes t = disk_writes s
      else f \<in> resident s \<and> disk_writes s \<le> disk_writes t \<and> disk_writes t \<le> disk_writes s + 1"
    using ev' rs by (auto simp: s1_def split: if_splits)
  show res: "resident u = insert f (resident s - {f})"
    using w f c(1) by (auto simp: resident_def uf counters_ok_def split: if_splits)
  then show "paging (resident u) u m" using u(1) by simp
  show "counters_ok u"
    using c(1,4) w f by (auto simp: counters_ok_def uf ent split: if_splits)
  have n: "0 \<le> disk_reads s" using c(1) by (simp add: counters_ok_def)
  note nn = num_next [OF c(2,3,4) n]
  have "stamp u g < cm_num u" if "0 \<le> g" "g < g_nframes s" for g
    using that c(2) nn ent [of g] e by (auto simp: stamp_entry uf stamps_ok_def)
  then show "stamps_ok u" using nn by (simp add: stamps_ok_def uf)
  show "stamp u f = cm_num s" using ent f e by (simp add: stamp_entry)
  show "entry u g = entry s g" if "0 \<le> g" "g < g_nframes s" "g \<noteq> f" for g using ent that by simp
  show "page_of u f = p" "\<not> cm_dirty (entry u f)" "cm_used (entry u f)" using ent [of f] f e by simp_all
qed

end
