(* ===== verification/VmTransparency.thy ===== *)
theory VmTransparency
  imports VmSafety
begin

unbundle bit_operations_syntax

text \<open>
  Each page fault handler and the timer handler keep the full invariant; hence a
  byte access of the user program behaves as on flat memory.
\<close>

section \<open>A fault on a resident page\<close>

definition fault_rank :: "int \<Rightarrow> nat" where
  "fault_rank b = (if b = 3 then 0 else if b = 1 then 1 else 2)"

text \<open>
  How many faults a store to page \<open>p\<close> still needs.  A timer signal adds at most one: it takes rights away, but
  leaves the dirty flags.
\<close>

definition dirty_page :: "vm_state \<Rightarrow> int \<Rightarrow> bool" where
  "dirty_page s p \<longleftrightarrow> (\<exists>f \<in> resident s. page_of s f = p \<and> cm_dirty (entry s f))"

definition need :: "vm_state \<Rightarrow> int \<Rightarrow> nat" where
  "need s p = (if dirty_page s p then if bits_of s p = 3 then 0 else 1 else if bits_of s p = 1 then 1 else 2)"

definition used_page :: "vm_state \<Rightarrow> int \<Rightarrow> bool" where
  "used_page s p \<longleftrightarrow> (\<exists>f \<in> resident s. page_of s f = p \<and> cm_used (entry s f))"

lemma need_upto: "need s p \<le> 2" "dirty_page u p = dirty_page s p \<Longrightarrow> need u p \<le> need s p + 1"
  by (auto simp: need_def)

text \<open>What every handler achieves for page \<open>p\<close>.\<close>

definition served :: "handler \<Rightarrow> vm_state \<Rightarrow> mem \<Rightarrow> int \<Rightarrow> vm_state \<Rightarrow> bool" where
  "served h s m p u \<longleftrightarrow> vm_inv h u m \<and> npages u = npages s \<and> g_nframes u = g_nframes s \<and>
     fault_rank (bits_of u p) < fault_rank (bits_of s p) \<and> need u p < need s p \<and> used_page u p \<and>
     disk_reads u = (if p \<in> page_of s ` resident s then disk_reads s else disk_reads s + 1)"

definition faulting :: "vm_state \<Rightarrow> int \<Rightarrow> bool" where
  "faulting s p \<longleftrightarrow> 0 \<le> p \<and> p < npages s \<and> bits_of s p \<noteq> 3 \<and> disk_reads s < INT_MAX"

lemma absent_bits: "live L s \<Longrightarrow> 0 \<le> p \<Longrightarrow> p < npages s \<Longrightarrow> p \<notin> page_of s ` L \<Longrightarrow> bits_of s p = 0"
  by (simp add: live_def)

lemma get_entry_ok:
  "sizes_ok s \<Longrightarrow> 0 \<le> p \<Longrightarrow> p < npages s \<Longrightarrow>
   page_table_get_entry (the_pt s) p = Inr (page_mapping (the_pt s) ! nat p, bits_of s p)"
  by (simp add: page_table_get_entry_eq sizes_ok_def)

lemma resident_done:
  assumes i: "vm_inv h s m" and f: "f \<in> resident s" "page_of s f = p"
    and cm: "core_map u = (core_map s)[nat f := e]" "cm_page e = p" "cm_ts e = cm_ts (entry s f)"
    and pt: "the_pt u = set_entry_result (the_pt s) p f b"
    and u: "u = s\<lparr>core_map := core_map u, the_pt := the_pt u, not_used := nu\<rparr>"
  shows "resident u = resident s" "counters_ok u" "stamps_ok u"
    "\<And>g. 0 \<le> g \<Longrightarrow> entry u g = (if g = f then e else entry s g)"
    "\<And>g. 0 \<le> g \<Longrightarrow> page_of u g = page_of s g" "\<And>g. 0 \<le> g \<Longrightarrow> stamp u g = stamp s g"
    "bits_of u p = b"
    "\<And>g. g \<in> resident s \<Longrightarrow> g \<noteq> f \<Longrightarrow> bits_of u (page_of s g) = bits_of s (page_of s g)"
    "disk_reads u = disk_reads s" "g_nframes u = g_nframes s" "npages u = npages s"
proof -
  note v = vm_invD [OF i]
  note fL = liveD [OF v(3) f(1)]
  have wf: "pt_wf (the_pt s)" using v(2) by (simp add: sizes_ok_def)
  show ent: "entry u g = (if g = f then e else entry s g)" if "0 \<le> g" for g
    using entry_update [OF cm(1) fL(1) _ that] fL v(2) by (simp add: sizes_ok_def)
  show pg: "page_of u g = page_of s g" if "0 \<le> g" for g using ent [OF that] cm f by simp
  show st: "stamp u g = stamp s g" if "0 \<le> g" for g using ent [OF that] cm by (simp add: stamp_entry)
  obtain cm' pt' where u': "u = s\<lparr>core_map := cm', the_pt := pt', not_used := nu\<rparr>" using u by blast
  show "disk_reads u = disk_reads s" "g_nframes u = g_nframes s" by (simp_all add: u')
  show "npages u = npages s" using pt by simp
  show "resident u = resident s" by (simp add: resident_def u')
  show "counters_ok u" using v(5) pg by (simp add: counters_ok_def) (simp add: u')
  show "stamps_ok u" using v(6) st by (simp add: stamps_ok_def) (simp add: u')
  show "bits_of u p = b"
    using fL f pt by (simp add: set_entry_result_bits [OF wf])
  show "bits_of u (page_of s g) = bits_of s (page_of s g)" if "g \<in> resident s" "g \<noteq> f" for g
    using fL f pt liveD(4) [OF v(3) that(1)] live_inj [OF v(3) that(1) f(1)] that(2)
    by (auto simp: set_entry_result_bits [OF wf])
qed

lemma resident_served:
  assumes i: "vm_inv h s m" and f: "f \<in> resident s" "page_of s f = p" and fa: "faulting s p"
    and h: "h = Custom \<or> bits_of s p = PROT_READ"
  shows "runs (resident_fault p f (bits_of s p) s) (served h s m p)"
proof -
  note v = vm_invD [OF i]
  note fL = liveD [OF v(3) f(1)]
  have nu: "bits_of s p = PROT_NONE \<longrightarrow> int (length (not_used s)) = g_nframes s"
    using h v(7) by (cases h) (auto simp: prot_defs)
  have bits: "bits_of s p = 0 \<or> bits_of s p = 1"
    using fL(8) f fa by (auto simp: faulting_def getPerms_eq split: if_splits)
  show ?thesis
  proof (rule runs_mono [OF resident_fault_runs [OF v(1) f(1) nu, unfolded f(2)]])
    fix u assume "paging (resident s) u m \<and>
      (\<exists>e. core_map u = (core_map s)[nat f := e] \<and> cm_page e = p \<and> cm_ts e = cm_ts (entry s f) \<and>
        cm_used e \<and> cm_dirty e = (bits_of s p \<noteq> PROT_NONE \<or> cm_dirty (entry s f)) \<and>
        the_pt u = set_entry_result (the_pt s) p f (getPerms e)) \<and>
      (\<exists>nu. length nu = length (not_used s) \<and> u = s\<lparr>core_map := core_map u, the_pt := the_pt u, not_used := nu\<rparr>)"
    then obtain e nu where pgu: "paging (resident s) u m"
      and e: "core_map u = (core_map s)[nat f := e]" "cm_page e = p" "cm_ts e = cm_ts (entry s f)"
        "cm_dirty e = (bits_of s p \<noteq> PROT_NONE \<or> cm_dirty (entry s f))" "cm_used e"
        "the_pt u = set_entry_result (the_pt s) p f (getPerms e)"
      and u: "u = s\<lparr>core_map := core_map u, the_pt := the_pt u, not_used := nu\<rparr>"
      and nul: "length nu = length (not_used s)" by blast
    note d = resident_done [OF i f e(1,2,3,6) u]
    obtain cm' pt' where u': "u = s\<lparr>core_map := cm', the_pt := pt', not_used := nu\<rparr>" using u by blast
    have ge: "0 \<le> g" if "g \<in> resident s" for g using that by (simp add: resident_def)
    have img: "page_of u ` resident s = page_of s ` resident s" using d(5) ge by auto
    have ar: "armed u" if a: "armed s"
    proof -
      have "bits_of u (page_of u g) = getPerms (entry u g)" if g: "g \<in> resident s" for g
        using that d(4) [OF ge [OF g]] d(5) [OF ge [OF g]] d(7) d(8) [OF g] f g e(2) a
        by (cases "g = f") (auto simp: armed_def)
      then show ?thesis using a d(1) by (simp add: armed_def) (simp add: u')
    qed
    have q: "sorted_wrt (\<lambda>f g. stamp u f < stamp u g) (frame_queue s)"
      if "sorted_wrt (\<lambda>f g. stamp s f < stamp s g) (frame_queue s)" "set (frame_queue s) = resident s"
      using that d(6) ge by (auto intro: sorted_wrt_mono_rel [rotated])
    have "policy_inv h u"
      using v(7) ar d(1) img q nul by (cases h) (simp_all add: u')
    then have "vm_inv h u m"
      using pgu d(1,2,3) by (simp add: vm_inv_def)
    moreover have "fault_rank (bits_of u p) < fault_rank (bits_of s p)"
      using bits d(7) e(4) by (auto simp: fault_rank_def getPerms_eq prot_defs)
    moreover have "need u p < need s p" "used_page u p"
    proof -
      have f0: "0 \<le> f" using ge [OF f(1)] .
      have "dirty_page s p \<longleftrightarrow> cm_dirty (entry s f)"
        using f live_inj [OF v(3) _ f(1)] by (auto simp: dirty_page_def)
      moreover have "dirty_page u p \<longleftrightarrow> cm_dirty e"
        using f live_inj [OF v(3) _ f(1)] d(1) d(4,5) ge f0 e(2) by (auto simp: dirty_page_def)
      moreover have "bits_of s p = 1 \<longrightarrow> \<not> cm_dirty (entry s f)"
        using fL(8) f by (auto simp: getPerms_eq)
      ultimately show "need u p < need s p"
        using bits d(7) e(4) by (auto simp: need_def getPerms_eq prot_defs)
      show "used_page u p" using f(1) d(1) d(4) [OF f0] e(2,5) by (auto simp: used_page_def)
    qed
    moreover have "p \<in> page_of s ` resident s" using f by auto
    ultimately show "served h s m p u" using d by (simp add: served_def)
  qed
qed

section \<open>The handlers\<close>

lemma count_fault_ok:
  "page_faults s < INT_MAX \<Longrightarrow> count_fault s = Inr (s\<lparr>page_faults := page_faults s + 1\<rparr>)"
  by (simp add: count_fault_def)

text \<open>Counting the fault changes nothing the eviction looks at.\<close>

lemma counted:
  assumes "vm_inv h s m" "faulting s p" "p \<notin> page_of s ` resident s"
  defines "s1 \<equiv> s\<lparr>page_faults := page_faults s + 1\<rparr>"
  shows "count_fault s = Inr s1" "resident s1 = resident s" "paging (resident s1) s1 m"
    "npages s1 = npages s" "page_of s1 ` resident s1 = page_of s ` resident s"
    "g_nframes s1 = g_nframes s" "disk_reads s1 = disk_reads s"
proof -
  note v = vm_invD [OF assms(1)]
  show "count_fault s = Inr s1"
    using v(5) assms(2) by (simp add: count_fault_ok s1_def counters_ok_def faulting_def)
  show r: "resident s1 = resident s" by (simp add: s1_def resident_def)
  then show "paging (resident s1) s1 m" using v(1) paging_cong [of s1 s] by (simp add: s1_def)
  show "npages s1 = npages s" "g_nframes s1 = g_nframes s" "disk_reads s1 = disk_reads s"
    by (simp_all add: s1_def)
  show "page_of s1 ` resident s1 = page_of s ` resident s" by (simp add: r) (simp add: s1_def entry_def)
qed

text \<open>A miss: eviction, whatever the policy, and then loading.\<close>

lemma miss_evict:
  assumes i: "vm_inv h s m" and fa: "faulting s p" and ab: "p \<notin> page_of s ` resident s"
    and s1: "s1 = s\<lparr>page_faults := page_faults s + 1\<rparr>"
    and pol: "g_nframes s \<le> disk_reads s \<Longrightarrow>
      runs (pol s1) (\<lambda>(f, t). f \<in> resident s \<and> (\<exists>q. t = s1\<lparr>frame_queue := q\<rparr> \<and> Q f q))"
  shows "runs (evict_frame_from_memory pol s1) (\<lambda>(f, t). evict_post Q s1 m f t)"
proof -
  note v = vm_invD [OF i] and cf = counted [OF i fa ab, folded s1]
  have p: "0 \<le> p" "p < npages s1" "p \<notin> page_of s1 ` resident s1"
    using fa ab cf by (simp_all add: faulting_def)
  show ?thesis
  proof (rule evict_runs [OF cf(3) _ _ p])
    show "0 \<le> disk_reads s1" "disk_writes s1 < INT_MAX"
      using v(5) fa by (simp_all add: counters_ok_def s1 faulting_def)
  next
    assume "g_nframes s1 \<le> disk_reads s1"
    then show "runs (pol s1) (\<lambda>(f, t). f \<in> resident s1 \<and> (\<exists>q. t = s1\<lparr>frame_queue := q\<rparr> \<and> Q f q))"
      using pol cf(2,6,7) by simp
  qed
qed

definition miss_post :: "vm_state \<Rightarrow> mem \<Rightarrow> int \<Rightarrow> int \<Rightarrow> vm_state \<Rightarrow> vm_state \<Rightarrow> bool" where
  "miss_post s m p f t u \<longleftrightarrow>
     resident u = insert f (resident s - {f}) \<and> paging (resident u) u m \<and> counters_ok u \<and> stamps_ok u \<and>
     stamp u f = cm_num s \<and> (\<forall>g. 0 \<le> g \<and> g < g_nframes s \<and> g \<noteq> f \<longrightarrow> entry u g = entry s g) \<and>
     page_of u f = p \<and> \<not> cm_dirty (entry u f) \<and> cm_used (entry u f) \<and> bits_of u p = PROT_READ \<and>
     (\<forall>g \<in> resident s - {f}. bits_of u (page_of s g) = bits_of s (page_of s g)) \<and>
     npages u = npages s \<and> g_nframes u = g_nframes s \<and> disk_reads u = disk_reads s + 1 \<and>
     frame_queue u = frame_queue t \<and> pages_in_mem u = pages_in_mem t \<and> not_used u = not_used s \<and>
     vtalrm_blocked u = vtalrm_blocked s"

lemma miss_load:
  assumes i: "vm_inv h s m" and fa: "faulting s p" and ab: "p \<notin> page_of s ` resident s"
    and s1: "s1 = s\<lparr>page_faults := page_faults s + 1\<rparr>" and ev: "evict_post Q s1 m f t"
    and t': "t' = t\<lparr>pages_in_mem := X\<rparr>"
  shows "runs (bindE (read_from_disk_and_set_pt_entry p f t') (assign_new_page f p)) (miss_post s m p f t')"
proof -
  note v = vm_invD [OF i] and cf = counted [OF i fa ab, folded s1]
  note e = ev [unfolded evict_post_def]
  obtain P D W q where t: "t = s1\<lparr>the_pt := P, g_disk := D, disk_writes := W, frame_queue := q\<rparr>"
    using e by blast
  have tf: "g_nframes t' = g_nframes s" "npages t' = npages s" "disk_reads t' = disk_reads s" "entry t' g = entry s g"
    "not_used t' = not_used s" "vtalrm_blocked t' = vtalrm_blocked s" "the_pt t' = the_pt t" and nt: "npages t = npages s" for g
    using e cf(4) by (simp_all add: t' t s1 entry_def)
  have pgt: "paging (resident s - {f}) t' m"
    using e cf(2) paging_cong [of t' t] by (simp add: t')
  have "runs (bindE (read_from_disk_and_set_pt_entry p f t') (assign_new_page f p))
    (\<lambda>u. paging (insert f (resident s - {f})) u m \<and> loaded p f t' u \<and> npages u = npages t' \<and> bits_of u p = PROT_READ \<and>
      (\<forall>g \<in> resident s - {f}. bits_of u (page_of u g) = bits_of t' (page_of t' g)) \<and>
      u = t'\<lparr>core_map := core_map u, cm_num := cm_num t' + 1, the_pt := the_pt u, disk_reads := disk_reads t' + 1\<rparr>)"
    using e fa ab cf by (intro load_runs [OF pgt]) (auto simp: tf faulting_def)
  then show ?thesis
  proof (rule runs_mono)
    fix u assume u: "paging (insert f (resident s - {f})) u m \<and> loaded p f t' u \<and> npages u = npages t' \<and>
      bits_of u p = PROT_READ \<and>
      (\<forall>g \<in> resident s - {f}. bits_of u (page_of u g) = bits_of t' (page_of t' g)) \<and>
      u = t'\<lparr>core_map := core_map u, cm_num := cm_num t' + 1, the_pt := the_pt u, disk_reads := disk_reads t' + 1\<rparr>"
    have dr: "disk_reads s < INT_MAX" using fa by (simp add: faulting_def)
    note d = miss_done [OF v(5,6,2) dr ev [unfolded s1] _ _ _ t', of u p]
    note d = d [OF conjunct1 [OF u] conjunct1 [OF conjunct2 [OF u]]]
    obtain C N PT where u': "u = t'\<lparr>core_map := C, cm_num := N, the_pt := PT, disk_reads := disk_reads t' + 1\<rparr>"
      using u by blast
    have ge: "0 \<le> g" "g < g_nframes s" if "g \<in> resident s" for g using that by (simp_all add: resident_def)
    have b: "bits_of u (page_of s g) = bits_of s (page_of s g)" if g: "g \<in> resident s - {f}" for g
    proof -
      have "bits_of t (page_of t g) = bits_of s1 (page_of s1 g)" using e g cf(2) by auto
      then have "bits_of t (page_of s g) = bits_of s (page_of s g)"
        using tf(4,7) by (simp add: s1 t' entry_def)
      moreover have "page_of u g = page_of s g" using d(6) u g ge by simp
      moreover have "bits_of u (page_of u g) = bits_of t' (page_of t' g)" using u g by blast
      ultimately show ?thesis by (simp add: tf)
    qed
    show "miss_post s m p f t' u"
      unfolding miss_post_def
      using d u b nt by (intro conjI) (auto simp: tf u')
  qed
qed

text \<open>The handlers' policies pick a resident frame.\<close>

lemma random_policy_runs:
  assumes "0 \<le> r" "0 < g_nframes s" "g_nframes s \<le> disk_reads s"
  shows "runs (get_frame_to_be_evicted_random_policy r s)
    (\<lambda>(f, t). f \<in> resident s \<and> (\<exists>q. t = s\<lparr>frame_queue := q\<rparr> \<and> q = frame_queue s))"
proof -
  note r = smod_nonneg [OF assms(1,2)]
  show ?thesis
    using assms(2,3) r(2,3) by (auto simp: get_frame_to_be_evicted_random_policy_def resident_def
        intro!: exI [of _ "frame_queue s"] less_le_trans [OF r(3)])
qed

lemma fifo_policy_runs:
  assumes "set (frame_queue s) = resident s" "0 < g_nframes s" "g_nframes s \<le> disk_reads s"
  shows "runs (get_frame_to_be_evicted_fifo_policy s)
    (\<lambda>(f, t). f \<in> resident s \<and> (\<exists>q. t = s\<lparr>frame_queue := q\<rparr> \<and> frame_queue s = f # q))"
proof -
  have "0 \<in> set (frame_queue s)" using assms by (simp add: resident_def)
  then show ?thesis
    using assms(1) by (cases "frame_queue s") (auto simp: get_frame_to_be_evicted_fifo_policy_def)
qed

text \<open>
  The custom policy evicts a frame with the least stamp among its candidates.
  The candidates are the frames unused at the last timer signal, or all frames
  if there are none; of those the clean or too old ones, or all if there are none.
\<close>

definition nru_frames :: "vm_state \<Rightarrow> int list" where
  "nru_frames s = or_all (filter (\<lambda>f. 1 \<le> not_used s ! nat f) (all_frames s)) (all_frames s)"

definition custom_candidates :: "vm_state \<Rightarrow> int list" where
  "custom_candidates s = or_all (filter (evictable s) (nru_frames s)) (nru_frames s)"

lemma custom_candidates_sub:
  assumes "0 < g_nframes s"
  shows "set (custom_candidates s) \<subseteq> {f. 0 \<le> f \<and> f < g_nframes s}" "custom_candidates s \<noteq> []"
proof -
  have "all_frames s \<noteq> []" using assms by (simp add: all_frames_def)
  then have n: "nru_frames s \<noteq> []" "set (nru_frames s) \<subseteq> set (all_frames s)"
    by (auto simp: nru_frames_def or_all_def)
  then show "custom_candidates s \<noteq> []" "set (custom_candidates s) \<subseteq> {f. 0 \<le> f \<and> f < g_nframes s}"
    by (auto simp: custom_candidates_def or_all_def set_all_frames [symmetric])
qed

lemma custom_policy_runs:
  assumes "0 < g_nframes s" "int (length (not_used s)) = g_nframes s"
    and "int (length (core_map s)) = g_nframes s" and "stamps_ok s"
  shows "runs (get_frame_to_be_evicted_custom_policy s)
    (\<lambda>(f, t). t = s \<and> f \<in> set (custom_candidates s) \<and> (\<forall>g \<in> set (custom_candidates s). stamp s f \<le> stamp s g))"
proof -
  note cs = custom_candidates_sub [OF assms(1)]
  have n: "not_recently_used 1 s = Inr (nru_frames s)"
    unfolding nru_frames_def by (rule not_recently_used_eq [OF assms(2)])
  have "set (nru_frames s) \<subseteq> {f. 0 \<le> f \<and> f < g_nframes s}"
    by (auto simp: nru_frames_def or_all_def set_all_frames)
  then have d: "filter_dirty (nru_frames s) s = Inr (custom_candidates s)"
    unfolding custom_candidates_def using assms(3) by (intro filter_dirty_eq) auto
  have "stamp s f \<noteq> - 1" if "f \<in> set (custom_candidates s)" for f
    using that cs assms(4) word_order.extremum [of "cm_num s"] by (fastforce simp: stamps_ok_def)
  moreover obtain f where "f \<in> set (custom_candidates s)" using cs by (cases "custom_candidates s") auto
  ultimately have "runs (get_fifo (custom_candidates s) s)
    (\<lambda>b. b \<in> set (custom_candidates s) \<and> (\<forall>f \<in> set (custom_candidates s). stamp s b \<le> stamp s f))"
    using cs assms(3) by (intro get_fifo_runs) auto
  then show ?thesis
    by (simp add: get_frame_to_be_evicted_custom_policy_def n d runs_bind)
qed

lemma in_memory_iff:
  assumes i: "vm_inv h s m" and fa: "faulting s p"
  shows "is_page_in_memory p (bits_of s p) s \<longleftrightarrow> p \<in> page_of s ` resident s"
    and "p \<in> page_of s ` resident s \<Longrightarrow> h = Custom \<or> bits_of s p = PROT_READ"
proof -
  note v = vm_invD [OF i]
  have ab: "bits_of s p = 0" if "p \<notin> page_of s ` resident s"
    using that v(3) fa by (simp add: live_def faulting_def)
  have ar: "bits_of s p = PROT_READ" if "armed s" "p \<in> page_of s ` resident s"
    using that fa by (auto simp: armed_def faulting_def getPerms_eq prot_defs split: if_splits)
  show "is_page_in_memory p (bits_of s p) s \<longleftrightarrow> p \<in> page_of s ` resident s"
  proof (cases "p \<in> page_of s ` resident s")
    case True
    then show ?thesis using v(7) ar by (cases h) (auto simp: is_page_in_memory_def)
  next
    case False
    then show ?thesis
      using v(7) ab by (cases h) (auto simp: is_page_in_memory_def armed_def prot_defs)
  qed
  show "h = Custom \<or> bits_of s p = PROT_READ" if "p \<in> page_of s ` resident s"
    using v(7) ar that by (cases h) auto
qed

text \<open>The handlers differ only on a miss; this is their common resident branch.\<close>

lemma handler_resident:
  assumes i: "vm_inv h s m" and fa: "faulting s p" and r: "p \<in> page_of s ` resident s"
  shows "runs (bindE (page_table_get_entry (the_pt s) p) (\<lambda>(frame, bits).
    if is_page_in_memory p bits s then resident_fault p frame bits s else miss)) (served h s m p)"
proof -
  note v = vm_invD [OF i]
  obtain f where f: "f \<in> resident s" "page_of s f = p" using r by auto
  have "page_table_get_entry (the_pt s) p = Inr (f, bits_of s p)"
    using fa v(2) liveD(6) [OF v(3) f(1)] f by (simp add: get_entry_ok faulting_def)
  then show ?thesis
    using in_memory_iff [OF i fa] r resident_served [OF i f fa] by simp
qed

lemma handler_absent:
  assumes i: "vm_inv h s m" and fa: "faulting s p" and r: "p \<notin> page_of s ` resident s"
    and "runs miss P"
  shows "runs (bindE (page_table_get_entry (the_pt s) p) (\<lambda>(frame, bits).
    if is_page_in_memory p bits s then resident_fault p frame bits s else miss)) P"
  using assms in_memory_iff [OF i fa] vm_invD(2) [OF i]
  by (simp add: get_entry_ok faulting_def)

text \<open>The new state after a miss, up to what the policy keeps for itself.\<close>

lemma miss_post_armed:
  assumes i: "vm_inv h s m" and ar: "armed s" and mp: "miss_post s m p f t u" and pm: "pages_in_mem t = {}"
  shows "armed u"
proof -
  note v = vm_invD [OF i]
  have "bits_of u (page_of u g) = getPerms (entry u g)" if g: "g \<in> resident u" for g
  proof (cases "g = f")
    case True
    then show ?thesis using mp by (simp add: miss_post_def getPerms_eq prot_defs)
  next
    case False
    then have gs: "g \<in> resident s - {f}" using g mp by (simp add: miss_post_def)
    then have "entry u g = entry s g" using mp by (simp add: miss_post_def resident_def)
    then show ?thesis using gs ar mp by (simp add: miss_post_def armed_def)
  qed
  then show ?thesis using mp pm by (simp add: armed_def miss_post_def)
qed

lemma miss_post_served:
  assumes i: "vm_inv h s m" and fa: "faulting s p" and ab: "p \<notin> page_of s ` resident s"
    and mp: "miss_post s m p f t u" and "vm_inv h u' m"
    and u': "the_pt u' = the_pt u" "disk_reads u' = disk_reads u" "g_nframes u' = g_nframes u" "core_map u' = core_map u"
  shows "served h s m p u'"
proof -
  have b: "bits_of s p = 0" using absent_bits [OF vm_invD(3) [OF i] _ _ ab] fa by (simp add: faulting_def)
  have m': "resident u' = resident u" "entry u' g = entry u g" for g using u' by (simp_all add: resident_def entry_def)
  have f: "f \<in> resident u" "page_of u f = p" "\<not> cm_dirty (entry u f)" "cm_used (entry u f)"
    using mp by (simp_all add: miss_post_def)
  have "\<not> dirty_page u' p"
    using f live_inj [OF vm_invD(3) [OF \<open>vm_inv h u' m\<close>] _ , of _ f] by (auto simp: dirty_page_def m')
  moreover have "\<not> dirty_page s p" using ab by (auto simp: dirty_page_def)
  moreover have "used_page u' p" using f by (auto simp: used_page_def m')
  ultimately show ?thesis
    using assms b by (simp add: served_def miss_post_def faulting_def fault_rank_def need_def prot_defs)
qed

lemma evict_post_rest:
  assumes "evict_post Q s m f t"
  shows "pages_in_mem t = pages_in_mem s" "core_map t = core_map s" "not_used t = not_used s"
    "t\<lparr>pages_in_mem := pages_in_mem s\<rparr> = t"
proof -
  obtain P D W q where "t = s\<lparr>the_pt := P, g_disk := D, disk_writes := W, frame_queue := q\<rparr>"
    using assms unfolding evict_post_def by blast
  then show "pages_in_mem t = pages_in_mem s" "core_map t = core_map s" "not_used t = not_used s"
    "t\<lparr>pages_in_mem := pages_in_mem s\<rparr> = t" by simp_all
qed

lemma miss_postD:
  assumes "miss_post s m p f t u"
  shows "paging (resident u) u m" "counters_ok u" "stamps_ok u"
  using assms unfolding miss_post_def by blast+

lemma vm_inv_bookkeeping:
  assumes mp: "miss_post s m p f t u" and pol: "policy_inv h u'"
    and u': "u' = u\<lparr>frame_queue := q, pages_in_mem := X, not_used := nu, vtalrm_blocked := b\<rparr>"
  shows "vm_inv h u' m"
proof -
  have "resident u' = resident u" "entry u' g = entry u g" "stamp u' g = stamp u g" for g
    by (simp_all add: u' resident_def entry_def stamp_def)
  moreover have "paging (resident u) u' m = paging (resident u) u m" by (rule paging_cong) (simp_all add: u')
  moreover note miss_postD [OF mp]
  ultimately show ?thesis
    using pol by (simp add: vm_inv_def counters_ok_def stamps_ok_def) (simp add: u')
qed

section \<open>Each handler serves the fault\<close>

lemma rand_served:
  assumes i: "vm_inv Rand s m" and fa: "faulting s p" and r: "0 \<le> r"
  shows "runs (page_fault_handler_rand r p s) (served Rand s m p)"
proof (cases "p \<in> page_of s ` resident s")
  case True
  then show ?thesis unfolding page_fault_handler_rand_def by (rule handler_resident [OF i fa])
next
  case False
  note v = vm_invD [OF i] and cf = counted [OF i fa False]
  let ?s1 = "s\<lparr>page_faults := page_faults s + 1\<rparr>"
  have "runs (get_frame_to_be_evicted_random_policy r ?s1)
      (\<lambda>(f, t). f \<in> resident s \<and> (\<exists>q. t = ?s1\<lparr>frame_queue := q\<rparr> \<and> q = frame_queue s))" if "g_nframes s \<le> disk_reads s"
    using random_policy_runs [OF r, of ?s1] v(2) that cf(2) by (simp add: sizes_ok_def)
  note ev = miss_evict [OF i fa False refl, where Q = "\<lambda>_ q. q = frame_queue s" and
      pol = "get_frame_to_be_evicted_random_policy r", OF this]
  show ?thesis
    unfolding page_fault_handler_rand_def
  proof (rule handler_absent [OF i fa False], simp only: cf(1) bindE_simps,
      rule runs_bind_pairI [OF ev])
    fix f t assume e: "evict_post (\<lambda>_ q. q = frame_queue s) ?s1 m f t"
    note er = evict_post_rest [OF e]
    have pm: "pages_in_mem s = {}" using v(7) by (simp add: armed_def)
    show "runs (bindE (read_from_disk_and_set_pt_entry p f t) (assign_new_page f p)) (served Rand s m p)"
    proof (rule runs_mono [OF miss_load [OF i fa False refl e, of t "{}"]])
      show "t = t\<lparr>pages_in_mem := {}\<rparr>" using er(4) pm by simp
      fix u assume mp: "miss_post s m p f t u"
      then have "armed u" using miss_post_armed [OF i _ mp] v(7) er(1) pm by simp
      then have "vm_inv Rand u m"
        using miss_postD [OF mp] by (simp add: vm_inv_def)
      then show "served Rand s m p u" using miss_post_served [OF i fa False mp] by simp
    qed
  qed
qed

lemma fifo_served:
  assumes i: "vm_inv Fifo s m" and fa: "faulting s p"
  shows "runs (page_fault_handler_fifo p s) (served Fifo s m p)"
proof (cases "p \<in> page_of s ` resident s")
  case True
  then show ?thesis unfolding page_fault_handler_fifo_def by (rule handler_resident [OF i fa])
next
  case False
  note v = vm_invD [OF i] and cf = counted [OF i fa False]
  let ?s1 = "s\<lparr>page_faults := page_faults s + 1\<rparr>"
  have "runs (get_frame_to_be_evicted_fifo_policy ?s1)
      (\<lambda>(f, t). f \<in> resident s \<and> (\<exists>q. t = ?s1\<lparr>frame_queue := q\<rparr> \<and> frame_queue s = f # q))" if "g_nframes s \<le> disk_reads s"
    using fifo_policy_runs [of ?s1] v(2,7) that cf(2) by (simp add: sizes_ok_def)
  note ev = miss_evict [OF i fa False refl, where Q = "\<lambda>f q. frame_queue s = f # q" and
      pol = get_frame_to_be_evicted_fifo_policy, OF this]
  show ?thesis
    unfolding page_fault_handler_fifo_def
  proof (rule handler_absent [OF i fa False], simp only: cf(1) bindE_simps,
      rule runs_bind_pairI [OF ev])
    fix f t assume e: "evict_post (\<lambda>f q. frame_queue s = f # q) ?s1 m f t"
    note er = evict_post_rest [OF e]
    have pm: "pages_in_mem s = {}" using v(7) by (simp add: armed_def)
    show "runs (bindE (read_from_disk_and_set_pt_entry p f t) (\<lambda>s. bindE (assign_new_page f p s)
        (\<lambda>s. Inr (s\<lparr>frame_queue := frame_queue s @ [f]\<rparr>)))) (served Fifo s m p)"
      unfolding bindE_assoc [symmetric]
    proof (rule runs_bindI [OF miss_load [OF i fa False refl e, of t "{}"]])
      show "t = t\<lparr>pages_in_mem := {}\<rparr>" using er(4) pm by simp
      fix u assume mp: "miss_post s m p f t u"
      let ?u = "u\<lparr>frame_queue := frame_queue u @ [f]\<rparr>"
      have ar: "armed u" using miss_post_armed [OF i _ mp] v(7) er(1) pm by simp
      have q: "set (frame_queue u) = resident s - {f} \<and>
        sorted_wrt (\<lambda>f g. stamp s f < stamp s g) (frame_queue u)"
        using v(7) mp e cf(2) by (auto simp: evict_post_def miss_post_def resident_def split: if_splits)
      have st: "stamp u g = stamp s g \<and> stamp s g < cm_num s" if "g \<in> resident s - {f}" for g
        using that mp v(6) by (auto simp: miss_post_def stamp_entry stamps_ok_def resident_def)
      have "sorted_wrt (\<lambda>f g. stamp u f < stamp u g) (frame_queue u)"
        using q st by (auto intro: sorted_wrt_mono_rel [rotated])
      moreover have "\<forall>g \<in> set (frame_queue u). stamp u g < stamp u f"
        using q st mp by (auto simp: miss_post_def)
      moreover have "resident ?u = resident u" "stamp ?u g = stamp u g" "entry ?u g = entry u g" for g
        by (simp_all add: resident_def stamp_def entry_def)
      ultimately have "policy_inv Fifo ?u"
        using ar q mp by (auto simp: sorted_wrt_append armed_def miss_post_def)
      then have "vm_inv Fifo ?u m"
        by (rule vm_inv_bookkeeping [OF mp, where X = "pages_in_mem u" and nu = "not_used u" and b = "vtalrm_blocked u"]) simp
      then show "runs (Inr ?u) (served Fifo s m p)" using miss_post_served [OF i fa False mp] by simp
    qed
  qed
qed

text \<open>The custom handler runs with the timer signal blocked, and unblocks it at the end.\<close>

lemma resident_blocked [simp]:
  "resident (s\<lparr>vtalrm_blocked := b\<rparr>) = resident s" "entry (s\<lparr>vtalrm_blocked := b\<rparr>) f = entry s f"
  by (simp_all add: resident_def entry_def)

lemma pages_blocked [simp]:
  "need (s\<lparr>vtalrm_blocked := b\<rparr>) p = need s p" "used_page (s\<lparr>vtalrm_blocked := b\<rparr>) p = used_page s p"
  by (simp_all add: need_def dirty_page_def used_page_def)

lemma served_blocked [simp]:
  "served h (s\<lparr>vtalrm_blocked := b\<rparr>) m p u = served h s m p u"
  "served h s m p (u\<lparr>vtalrm_blocked := b\<rparr>) = served h s m p u"
  by (simp_all add: served_def)

lemma custom_pages:
  assumes i: "vm_inv Custom s m" and fa: "faulting s p" and ab: "p \<notin> page_of s ` resident s"
    and mp: "miss_post s m p f t u" and f: "f \<in> resident s \<or> f = disk_reads s \<and> disk_reads s < g_nframes s"
  shows "insert p (pages_in_mem s - {page_of s f}) = page_of u ` resident u"
proof -
  note v = vm_invD [OF i]
  have "page_of s ` resident s - {page_of s f} = page_of s ` (resident s - {f})"
  proof (cases "f \<in> resident s")
    case True
    then show ?thesis using live_inj [OF v(3)] by auto
  next
    case False
    then have "page_of s f = -1" using f v(5) by (simp add: counters_ok_def)
    then show ?thesis using False liveD(4) [OF v(3)] by fastforce
  qed
  moreover have "page_of u ` (resident s - {f}) = page_of s ` (resident s - {f})"
    using mp by (intro image_cong) (simp_all add: miss_post_def resident_def)
  moreover have "resident u = insert f (resident s - {f})" "page_of u f = p"
    using mp by (simp_all add: miss_post_def)
  moreover have "pages_in_mem s = page_of s ` resident s" using v(7) by simp
  ultimately show ?thesis by (simp only: image_insert)
qed

lemma custom_miss_served:
  assumes i: "vm_inv Custom s m" and fa: "faulting s p" and ab: "p \<notin> page_of s ` resident s"
  shows "runs (custom_miss (\<lambda>_. 0) p s) (served Custom s m p)"
proof -
  note v = vm_invD [OF i] and cf = counted [OF i fa ab]
  let ?s1 = "s\<lparr>page_faults := page_faults s + 1\<rparr>"
  have st1: "stamps_ok ?s1" using v(6) by (simp add: stamps_ok_def stamp_def)
  have "runs (get_frame_to_be_evicted_custom_policy ?s1)
      (\<lambda>(f, t). f \<in> resident s \<and> (\<exists>q. t = ?s1\<lparr>frame_queue := q\<rparr> \<and> q = frame_queue s))" if g: "g_nframes s \<le> disk_reads s"
  proof (rule runs_mono [OF custom_policy_runs [OF _ _ _ st1]])
    fix x assume "case x of (f, t) \<Rightarrow> t = ?s1 \<and> f \<in> set (custom_candidates ?s1) \<and>
      (\<forall>g \<in> set (custom_candidates ?s1). stamp ?s1 f \<le> stamp ?s1 g)"
    then show "case x of (f, t) \<Rightarrow> f \<in> resident s \<and> (\<exists>q. t = ?s1\<lparr>frame_queue := q\<rparr> \<and> q = frame_queue s)"
      using custom_candidates_sub(1) [of ?s1] v(2) g
      by (auto simp: resident_def sizes_ok_def intro!: exI [of _ "frame_queue s"])
  qed (use v(2,7) in \<open>simp_all add: sizes_ok_def\<close>)
  note ev = miss_evict [OF i fa ab refl, where Q = "\<lambda>_ q. q = frame_queue s" and
      pol = get_frame_to_be_evicted_custom_policy, OF this]
  show ?thesis
  proof (simp only: custom_miss_eq cf(1) bindE_simps, rule runs_bind_pairI [OF ev])
    fix f t assume e: "evict_post (\<lambda>_ q. q = frame_queue s) ?s1 m f t"
    note er = evict_post_rest [OF e]
    have f: "0 \<le> f" "f < g_nframes s" "f \<in> resident s \<or> f = disk_reads s \<and> disk_reads s < g_nframes s"
      using e cf(2) by (auto simp: evict_post_def split: if_splits)
    have at: "vec_at (core_map t) f = Inr (entry s f)"
      using f v(2) er by (simp add: sizes_ok_def entry_def)
    let ?t = "t\<lparr>pages_in_mem := pages_in_mem t - {page_of s f}\<rparr>"
    show "runs (bindE (vec_at (core_map t) f) (\<lambda>e.
           let s = t\<lparr>pages_in_mem := pages_in_mem t - {getPageNumber e}\<rparr> in
           bindE (read_from_disk_and_set_pt_entry p f s) (\<lambda>s.
           bindE (assign_new_page f p s) (\<lambda>s.
           let s = s\<lparr>pages_in_mem := insert p (pages_in_mem s)\<rparr> in
           bindE (vec_set (not_used s) f 0) (\<lambda>nu. Inr (s\<lparr>not_used := nu\<rparr>)))))) (served Custom s m p)"
      unfolding at bindE_simps Let_def getPageNumber_def bindE_assoc [symmetric, of "read_from_disk_and_set_pt_entry p f ?t"]
    proof (rule runs_bindI [OF miss_load [OF i fa ab refl e refl]])
      fix u assume mp: "miss_post s m p f ?t u"
      let ?u = "u\<lparr>pages_in_mem := insert p (pages_in_mem u), not_used := (not_used u)[nat f := 0]\<rparr>"
      have nu: "int (length (not_used u)) = g_nframes s" "g_nframes u = g_nframes s"
        using mp v(7) by (simp_all add: miss_post_def)
      have "pages_in_mem u = pages_in_mem s - {page_of s f}" using mp er by (simp add: miss_post_def)
      then have "pages_in_mem ?u = page_of u ` resident u"
        using custom_pages [OF i fa ab mp f(3)] by simp
      moreover have "resident ?u = resident u" "entry ?u = entry u"
        by (simp_all add: resident_def entry_def fun_eq_iff)
      ultimately have "policy_inv Custom ?u" using nu by simp
      then have "vm_inv Custom ?u m"
        by (rule vm_inv_bookkeeping [OF mp, where q = "frame_queue u" and b = "vtalrm_blocked u"]) simp
      then have "served Custom s m p ?u" using miss_post_served [OF i fa ab mp] by simp
      then show "runs (bindE (vec_set (not_used (u\<lparr>pages_in_mem := insert p (pages_in_mem u)\<rparr>)) f 0)
         (\<lambda>nu. Inr (u\<lparr>pages_in_mem := insert p (pages_in_mem u), not_used := nu\<rparr>))) (served Custom s m p)"
        using f nu by simp
    qed
  qed
qed

lemma custom_served:
  assumes i: "vm_inv Custom s m" and fa: "faulting s p"
  shows "runs (page_fault_handler_custom p s) (\<lambda>u. served Custom s m p u \<and> \<not> vtalrm_blocked u)"
proof -
  define sb where "sb = disableInterrupts s"
  have ib: "vm_inv Custom sb m" and fb: "faulting sb p" and eb: "served Custom sb m p = served Custom s m p"
    using i fa by (auto simp: sb_def disableInterrupts_def faulting_def)
  have "runs (bindE (page_table_get_entry (the_pt sb) p) (\<lambda>(frame, bits).
    if is_page_in_memory p bits sb then resident_fault p frame bits sb else custom_miss (\<lambda>_. 0) p sb))
    (served Custom sb m p)"
  proof (cases "p \<in> page_of sb ` resident sb")
    case True
    then show ?thesis by (rule handler_resident [OF ib fb])
  next
    case False
    show ?thesis by (rule handler_absent [OF ib fb False custom_miss_served [OF ib fb False]])
  qed
  then have "runs (page_fault_handler_custom p s)
     (\<lambda>u. served Custom s m p u \<and> \<not> vtalrm_blocked u)"
    unfolding page_fault_handler_custom_eq Let_def sb_def [symmetric]
    by (rule runs_bindI) (simp add: eb enableInterrupts_def)
  then show ?thesis .
qed

end
