(* ===== verification/VmMachine.thy ===== *)
theory VmMachine
  imports VmTransparency
begin

unbundle bit_operations_syntax

text \<open>
  The paging machine against flat memory: every handler and the timer keep the
  invariant, one attempt at an access either completes as on flat memory or ends
  in a fault that is served, and a few attempts are always enough.
\<close>

section \<open>The handlers and the timer\<close>

lemma handler_served:
  assumes "vm_inv h s m" "faulting s p" "0 \<le> r"
  shows "runs (run_handler h r p s) (served h s m p)"
proof (cases h)
  case Rand
  then show ?thesis using rand_served assms by simp
next
  case Fifo
  then show ?thesis using fifo_served assms by simp
next
  case Custom
  then show ?thesis using custom_served assms by (auto intro: runs_mono)
next
  case Example
  then show ?thesis using vm_invD(7) [OF assms(1)] by simp
qed

definition ticked :: "core_map_entry \<Rightarrow> core_map_entry" where
  "ticked e = (if cm_page e = -1 then e else setIsUsed False e)"

definition idle_next :: "core_map_entry \<Rightarrow> int \<Rightarrow> int" where
  "idle_next e n = (if cm_page e = -1 then n else if cm_used e then 0 else n + 1)"

lemma resident_page:
  assumes "vm_inv h s m" "0 \<le> f" "f < g_nframes s"
  shows "page_of s f = -1 \<longleftrightarrow> f \<notin> resident s"
  using liveD(4) [OF vm_invD(3) [OF assms(1)], of f] vm_invD(5) [OF assms(1)] assms
  by (auto simp: resident_def counters_ok_def)

text \<open>One iteration of the clock.\<close>

definition tick_at :: "int \<Rightarrow> vm_state \<Rightarrow> vm_state \<Rightarrow> bool" where
  "tick_at f s u \<longleftrightarrow>
     resident u = resident s \<and> npages u = npages s \<and> g_nframes u = g_nframes s \<and>
     disk_reads u = disk_reads s \<and> vtalrm_blocked u = vtalrm_blocked s \<and>
     not_used u = (not_used s)[nat f := idle_next (entry s f) (not_used s ! nat f)] \<and>
     (\<forall>g. 0 \<le> g \<and> g < g_nframes s \<longrightarrow> entry u g = (if g = f then ticked (entry s g) else entry s g)) \<and>
     (\<forall>q. 0 \<le> q \<and> q < npages s \<longrightarrow> bits_of u q =
        (if f \<in> resident s \<and> page_of s f = q \<and> cm_used (entry s f) then PROT_NONE else bits_of s q))"

lemma timer_visit_runs:
  assumes i: "vm_inv Custom s m" and f: "int f < g_nframes s" and n: "not_used s ! f < INT_MAX"
  shows "runs (timer_visit f s) (\<lambda>u. vm_inv Custom u m \<and> tick_at (int f) s u)"
proof -
  note v = vm_invD [OF i]
  have len: "f < length (core_map s)" "f < length (not_used s)"
    using v(2,7) f by (simp_all add: sizes_ok_def)
  note rp = resident_page [OF i _ f, simplified]
  have e: "core_map s ! f = entry s (int f)" by (simp add: entry_def)
  consider (empty) "int f \<notin> resident s" | (used) "int f \<in> resident s" "cm_used (entry s (int f))"
    | (idle) "int f \<in> resident s" "\<not> cm_used (entry s (int f))" by blast
  then show ?thesis
  proof cases
    case empty
    then have "timer_visit f s = Inr s" using len rp e by (simp add: timer_visit_def)
    moreover have "tick_at (int f) s s"
      using empty rp len by (simp add: tick_at_def ticked_def idle_next_def)
    ultimately show ?thesis using i by simp
  next
    case idle
    let ?u = "s\<lparr>not_used := (not_used s)[f := not_used s ! f + 1]\<rparr>"
    have "timer_visit f s = Inr ?u" using idle len rp e n by (simp add: timer_visit_def)
    moreover have ent: "resident ?u = resident s" "entry ?u = entry s"
      by (simp_all add: resident_def entry_def fun_eq_iff)
    moreover have "vm_inv Custom ?u m"
    proof -
      have "paging (resident s) ?u m" using v(1) paging_cong [of ?u s] by simp
      then show ?thesis
        using v(5,6,7) ent by (simp add: vm_inv_def counters_ok_def stamps_ok_def stamp_entry)
    qed
    moreover have "tick_at (int f) s ?u"
      using idle rp ent by (auto simp: tick_at_def ticked_def idle_next_def)
    ultimately show ?thesis by simp
  next
    case used
    note fL = liveD [OF v(3) used(1)]
    let ?e = "setIsUsed False (entry s (int f))"
    let ?u = "s\<lparr>core_map := (core_map s)[f := ?e],
       the_pt := set_entry_result (the_pt s) (page_of s (int f)) (int f) PROT_NONE,
       not_used := (not_used s)[f := 0]\<rparr>"
    have run: "timer_visit f s = Inr ?u"
      using used len rp e fL v(2) v(7)
      by (simp add: timer_visit_def update_entry_def set_entry_def page_table_set_entry_eq sizes_ok_def)
    have d: "resident ?u = resident s" "counters_ok ?u" "stamps_ok ?u"
      "\<And>g. 0 \<le> g \<Longrightarrow> entry ?u g = (if g = int f then ?e else entry s g)"
      "\<And>g. 0 \<le> g \<Longrightarrow> page_of ?u g = page_of s g"
      by (rule resident_done [OF i used(1) refl, where u = ?u and e = ?e and nu = "(not_used s)[f := 0]"];
          simp)+
    have "paging (resident s) ?u m"
      by (rule paging_retag [OF v(1) used(1), of _ ?e PROT_NONE]) (auto simp: prot_defs)
    moreover have "page_of ?u ` resident s = page_of s ` resident s"
      using d(5) by (intro image_cong) (auto simp: resident_def)
    ultimately have "vm_inv Custom ?u m"
      using d(1-3) v(7) by (simp add: vm_inv_def)
    moreover have "tick_at (int f) s ?u"
      using d(1,4) used rp v(2) fL len
      by (auto simp: tick_at_def ticked_def idle_next_def sizes_ok_def set_entry_result_bits)
    ultimately show ?thesis by (simp add: run)
  qed
qed

text \<open>The whole clock: every resident frame is visited once.\<close>

definition clock_upto :: "int \<Rightarrow> vm_state \<Rightarrow> vm_state \<Rightarrow> bool" where
  "clock_upto n s u \<longleftrightarrow>
     resident u = resident s \<and> npages u = npages s \<and> g_nframes u = g_nframes s \<and>
     disk_reads u = disk_reads s \<and> vtalrm_blocked u = vtalrm_blocked s \<and>
     length (not_used u) = length (not_used s) \<and>
     (\<forall>g. 0 \<le> g \<and> g < g_nframes s \<longrightarrow>
        not_used u ! nat g = (if g < n then idle_next (entry s g) (not_used s ! nat g) else not_used s ! nat g) \<and>
        entry u g = (if g < n then ticked (entry s g) else entry s g)) \<and>
     (\<forall>g \<in> resident s. bits_of u (page_of s g) =
        (if g < n \<and> cm_used (entry s g) then PROT_NONE else bits_of s (page_of s g)))"

lemma clock_upto_here:
  assumes "clock_upto (int f) s t" "int f < g_nframes s"
  shows "entry t (int f) = entry s (int f)" "not_used t ! f = not_used s ! f"
proof -
  have "\<forall>g. 0 \<le> g \<and> g < g_nframes s \<longrightarrow>
        not_used t ! nat g = (if g < int f then idle_next (entry s g) (not_used s ! nat g) else not_used s ! nat g) \<and>
        entry t g = (if g < int f then ticked (entry s g) else entry s g)"
    using assms(1) by (simp add: clock_upto_def)
  from spec [OF this, of "int f"] show "entry t (int f) = entry s (int f)" "not_used t ! f = not_used s ! f"
    using assms(2) by simp_all
qed

lemma clock_uptoD:
  assumes "clock_upto n s t"
  shows "0 \<le> g \<Longrightarrow> g < g_nframes s \<Longrightarrow>
      not_used t ! nat g = (if g < n then idle_next (entry s g) (not_used s ! nat g) else not_used s ! nat g)"
    and "0 \<le> g \<Longrightarrow> g < g_nframes s \<Longrightarrow> entry t g = (if g < n then ticked (entry s g) else entry s g)"
    and "g \<in> resident s \<Longrightarrow> bits_of t (page_of s g) =
        (if g < n \<and> cm_used (entry s g) then PROT_NONE else bits_of s (page_of s g))"
    and "resident t = resident s" "npages t = npages s" "g_nframes t = g_nframes s" "disk_reads t = disk_reads s"
    and "vtalrm_blocked t = vtalrm_blocked s" "length (not_used t) = length (not_used s)"
  using assms unfolding clock_upto_def by blast+

lemma tick_atD:
  assumes "tick_at f s t"
  shows "0 \<le> g \<Longrightarrow> g < g_nframes s \<Longrightarrow> entry t g = (if g = f then ticked (entry s g) else entry s g)"
    and "0 \<le> q \<Longrightarrow> q < npages s \<Longrightarrow> bits_of t q =
        (if f \<in> resident s \<and> page_of s f = q \<and> cm_used (entry s f) then PROT_NONE else bits_of s q)"
    and "not_used t = (not_used s)[nat f := idle_next (entry s f) (not_used s ! nat f)]"
    and "resident t = resident s" "npages t = npages s" "g_nframes t = g_nframes s" "disk_reads t = disk_reads s"
    and "vtalrm_blocked t = vtalrm_blocked s"
  using assms unfolding tick_at_def by blast+

lemma clock_step:
  assumes i: "vm_inv Custom s m" and f: "int f < g_nframes s" and len: "int (length (not_used s)) = g_nframes s"
    and c: "clock_upto (int f) s t" and tk: "tick_at (int f) t u"
  shows "clock_upto (int (Suc f)) s u"
proof -
  note v = vm_invD [OF i] and cd = clock_uptoD [OF c] and td = tick_atD [OF tk]
  note ent = clock_upto_here [OF c f]
  have lt: "g < int (Suc f) \<longleftrightarrow> g < int f \<or> g = int f" for g by auto
  have b: "bits_of u (page_of s g) =
        (if g < int (Suc f) \<and> cm_used (entry s g) then PROT_NONE else bits_of s (page_of s g))"
    if g: "g \<in> resident s" for g
  proof -
    have same: "int f \<in> resident t \<and> page_of t (int f) = page_of s g \<longleftrightarrow> g = int f"
      using live_inj [OF v(3) _ g, of "int f"] g cd(4) ent by auto
    have rng: "0 \<le> page_of s g" "page_of s g < npages t" using liveD [OF v(3) g] cd(5) by simp_all
    have "bits_of u (page_of s g) = (if g = int f \<and> cm_used (entry s (int f)) then PROT_NONE else bits_of t (page_of s g))"
      using td(2) [OF rng] same ent(1) by auto
    then show ?thesis using cd(3) [OF g] by (cases "g = int f") (simp_all add: lt)
  qed
  have n: "not_used u ! nat g = (if g < int (Suc f) then idle_next (entry s g) (not_used s ! nat g) else not_used s ! nat g)"
    if g: "0 \<le> g" "g < g_nframes s" for g
  proof (cases "g = int f")
    case True
    then show ?thesis using td(3) ent f cd(9) len by simp
  next
    case False
    then show ?thesis using td(3) cd(1) [OF g] g by (simp add: lt nth_list_update nat_eq_iff)
  qed
  have e: "entry u g = (if g < int (Suc f) then ticked (entry s g) else entry s g)" if g: "0 \<le> g" "g < g_nframes s" for g
    using td(1) [OF g(1)] cd(2) [OF g] cd(6) g ent by (simp add: lt)
  show ?thesis
    unfolding clock_upto_def using cd(4-9) td(3-8) b n e by simp
qed

lemma timer_runs:
  assumes i: "vm_inv Custom s m" and a: "pt_assigned s" and n: "\<forall>n \<in> set (not_used s). n < INT_MAX"
  shows "runs (timer_handler s) (\<lambda>u. vm_inv Custom u m \<and> clock_upto (g_nframes s) s u)"
proof -
  have len: "int (length (not_used s)) = g_nframes s" using vm_invD(7) [OF i] by simp
  have "runs (foldE timer_visit [0..<nat (g_nframes s)] s)
    (\<lambda>u. vm_inv Custom u m \<and> clock_upto (int (nat (g_nframes s))) s u)"
  proof (rule runs_foldE_upto)
    fix f t assume f: "f < nat (g_nframes s)" and t: "vm_inv Custom t m \<and> clock_upto (int f) s t"
    then have "int f < g_nframes t" "not_used t ! f = not_used s ! f"
      using clock_upto_here(2) [of f s t] by (simp_all add: clock_upto_def)
    moreover have "not_used s ! f < INT_MAX" using n f len by simp
    ultimately have "runs (timer_visit f t) (\<lambda>u. vm_inv Custom u m \<and> tick_at (int f) t u)"
      using t by (intro timer_visit_runs) auto
    then show "runs (timer_visit f t) (\<lambda>u. vm_inv Custom u m \<and> clock_upto (int (Suc f)) s u)"
      by (rule runs_mono) (use clock_step [OF i _ len] t f in auto)
  next
    show "vm_inv Custom s m \<and> clock_upto (int 0) s s"
      using i by (auto simp: clock_upto_def resident_def)
  qed
  moreover have "int (nat (g_nframes s)) = g_nframes s"
    using vm_invD(2) [OF i] by (simp add: sizes_ok_def)
  ultimately show ?thesis using a by (simp add: timer_handler_def)
qed

section \<open>One attempt at an access\<close>

fun flat :: "access \<Rightarrow> mem \<Rightarrow> outcome \<times> mem" where
  "flat (Load a) m = (Loaded (m a), m)"
| "flat (Store a v) m = (Stored, m(a := v))"

definition addr_ok :: "vm_state \<Rightarrow> access \<Rightarrow> bool" where
  "addr_ok s a \<longleftrightarrow> 0 \<le> access_addr a \<and> access_addr a < npages s * PAGE_SIZE"

lemma addr_page:
  assumes "addr_ok s a"
  shows "0 \<le> access_addr a div PAGE_SIZE" "access_addr a div PAGE_SIZE < npages s"
  using assms block_index_range [of PAGE_SIZE "access_addr a" "npages s"]
  by (simp_all add: addr_ok_def)

lemma fault_page_of_addr:
  assumes "0 \<le> off" "off div PAGE_SIZE \<le> INT_MAX"
  shows "signed_take_bit 31 (off sdiv PAGE_SIZE) = off div PAGE_SIZE"
proof -
  have "off sdiv PAGE_SIZE = off div PAGE_SIZE"
    using assms by (simp add: signed_divide_int_def sgn_if)
  moreover have "0 \<le> off div PAGE_SIZE" using assms by (simp add: pos_imp_zdiv_nonneg_iff)
  ultimately show ?thesis
    using assms(2) by (simp add: signed_take_bit_int_eq_self_iff INT_MAX_def)
qed

text \<open>An address whose page the hardware shows lies in a resident frame.\<close>

lemma shown_frame:
  assumes i: "vm_inv h s m" and a: "addr_ok s a" and p: "p = access_addr a div PAGE_SIZE"
    and b: "bits_of s p \<noteq> 0"
  obtains f where "f \<in> resident s" "page_of s f = p" "mmu_addr (the_pt s) (access_addr a) = f * PAGE_SIZE + access_addr a mod PAGE_SIZE"
    "bits_of s p = getPerms (entry s f)" "mmu_addr (the_pt s) (access_addr a) < reg_len (pt_backing (the_pt s))"
proof -
  note v = vm_invD [OF i]
  note ap = addr_page [OF a, folded p]
  have "p \<in> page_of s ` resident s" using b ap v(3) by (auto simp: live_def)
  then obtain f where f: "f \<in> resident s" "page_of s f = p" by auto
  note fL = liveD [OF v(3) f(1), unfolded f(2)]
  have ma: "mmu_addr (the_pt s) (access_addr a) = f * PAGE_SIZE + access_addr a mod PAGE_SIZE"
    using fL by (simp add: mmu_addr_def p)
  have "access_addr a mod PAGE_SIZE < PAGE_SIZE" by simp
  then have "mmu_addr (the_pt s) (access_addr a) < reg_len (pt_backing (the_pt s))"
    using ma frame_in_backing(2) [OF v(2) fL(1,3)] by linarith
  then show ?thesis using that [OF f ma] fL(8) b by simp
qed

lemma load_shown:
  assumes i: "vm_inv h s m" and f: "f \<in> resident s" "page_of s f = x div PAGE_SIZE"
  shows "reg_data (pt_backing (the_pt s)) (f * PAGE_SIZE + x mod PAGE_SIZE) = m x"
proof -
  have "same_bytes (reg_data (pt_backing (the_pt s))) (f * PAGE_SIZE) m (page_of s f * PAGE_SIZE) PAGE_SIZE"
    using vm_invD(4) [OF i] f(1) by (simp add: shows_mem_def)
  then have "reg_data (pt_backing (the_pt s)) (f * PAGE_SIZE + x mod PAGE_SIZE) = m (page_of s f * PAGE_SIZE + x mod PAGE_SIZE)"
    by (simp add: same_bytes_def)
  then show ?thesis using f(2) by simp
qed

definition poke :: "int \<Rightarrow> byte \<Rightarrow> vm_state \<Rightarrow> vm_state" where
  "poke x v s = s\<lparr>the_pt := (the_pt s)\<lparr>pt_backing := (pt_backing (the_pt s))
     \<lparr>reg_data := (reg_data (pt_backing (the_pt s)))(x := v)\<rparr>\<rparr>\<rparr>"

lemma poke_simps [simp]:
  "npages (poke x v s) = npages s" "bits_of (poke x v s) p = bits_of s p" "entry (poke x v s) g = entry s g"
  "resident (poke x v s) = resident s" "stamp (poke x v s) g = stamp s g" "g_nframes (poke x v s) = g_nframes s"
  "disk_reads (poke x v s) = disk_reads s" "not_used (poke x v s) = not_used s"
  "pt_assigned (poke x v s) = pt_assigned s" "g_disk (poke x v s) = g_disk s"
  "reg_data (pt_backing (the_pt (poke x v s))) = (reg_data (pt_backing (the_pt s)))(x := v)"
  by (simp_all add: poke_def resident_def entry_def stamp_def)

text \<open>A store to a page with write access goes to a dirty frame, so the invariant follows memory.\<close>

lemma store_shown:
  assumes i: "vm_inv h s m" and f: "f \<in> resident s" "page_of s f = x div PAGE_SIZE" "cm_dirty (entry s f)"
  shows "vm_inv h (poke (f * PAGE_SIZE + x mod PAGE_SIZE) v s) (m(x := v))"
proof -
  note vi = vm_invD [OF i]
  let ?u = "poke (f * PAGE_SIZE + x mod PAGE_SIZE) v s"
  have off: "0 \<le> x mod PAGE_SIZE" "x mod PAGE_SIZE < PAGE_SIZE" by simp_all
  have x: "x = page_of s f * PAGE_SIZE + x mod PAGE_SIZE" using f(2) by simp
  have "sizes_ok ?u" using vi(2) by (auto simp: sizes_ok_def pt_wf_def poke_def)
  moreover have "live (resident s) ?u" using vi(3) by (simp add: live_def) (simp add: poke_def)
  moreover have "shows_mem (resident s) ?u (m(x := v))"
    unfolding shows_mem_def
  proof (intro conjI ballI allI impI)
    fix g assume g: "g \<in> resident s"
    have old: "same_bytes (reg_data (pt_backing (the_pt s))) (g * PAGE_SIZE) m (page_of s g * PAGE_SIZE) PAGE_SIZE"
      using vi(4) g by (simp add: shows_mem_def)
    have "(g * PAGE_SIZE + j = f * PAGE_SIZE + x mod PAGE_SIZE) = (page_of s g * PAGE_SIZE + j = x)"
      if j: "0 \<le> j" "j < PAGE_SIZE" for j
    proof (cases "f = g")
      case True
      then show ?thesis using x by auto
    next
      case False
      then have "page_of s g \<noteq> page_of s f" using live_inj [OF vi(3) g f(1)] by simp
      then show ?thesis
        using False block_disjoint [of f g j PAGE_SIZE] block_disjoint [of "page_of s f" "page_of s g" j PAGE_SIZE] j off x by smt
    qed
    then show "same_bytes (reg_data (pt_backing (the_pt ?u))) (g * PAGE_SIZE) (m(x := v)) (page_of ?u g * PAGE_SIZE) PAGE_SIZE"
      using old by (simp add: same_bytes_def)
  next
    fix p assume p: "0 \<le> p \<and> p < npages ?u \<and> p \<notin> page_of ?u ` {f \<in> resident s. cm_dirty (entry ?u f)}"
    have "p \<notin> page_of s ` {f \<in> resident s. cm_dirty (entry s f)}" using p by simp
    then have "p \<noteq> page_of s f" using f(1,3) by blast
    then have "x \<noteq> p * PAGE_SIZE + j" if "0 \<le> j" "j < PAGE_SIZE" for j
      using block_disjoint [of "page_of s f" p j PAGE_SIZE] that off x by smt
    moreover have "disk_block_is (g_disk s) p m (p * PAGE_SIZE)" using p vi(4) by (simp add: shows_mem_def)
    ultimately show "disk_block_is (g_disk ?u) p (m(x := v)) (p * PAGE_SIZE)"
      by (auto simp: disk_block_is_def same_bytes_def)
  qed
  moreover have "policy_inv h ?u"
    using vi(7) by (cases h) (auto simp: armed_def, simp_all add: poke_def)
  ultimately show ?thesis
    using vi(5,6) by (simp add: vm_inv_def paging_def counters_ok_def stamps_ok_def) (simp add: poke_def)
qed

text \<open>What one attempt achieves.\<close>

definition attempted :: "handler \<Rightarrow> vm_state \<Rightarrow> mem \<Rightarrow> access \<Rightarrow> outcome \<Rightarrow> vm_state \<Rightarrow> bool" where
  "attempted h s m a out u \<longleftrightarrow>
     (if out = Faulted then bits_of s (access_addr a div PAGE_SIZE) \<noteq> 3 \<and> served h s m (access_addr a div PAGE_SIZE) u
      else out = fst (flat a m) \<and> vm_inv h u (snd (flat a m)) \<and> npages u = npages s \<and>
        g_nframes u = g_nframes s \<and> disk_reads u = disk_reads s)"

lemma attempt_runs:
  assumes i: "vm_inv h s m" and a: "addr_ok s a" and d: "disk_reads s < INT_MAX" and r: "0 \<le> r"
  shows "runs (attempt h r a s) (\<lambda>(out, u). attempted h s m a out u)"
proof -
  note v = vm_invD [OF i]
  define p where "p = access_addr a div PAGE_SIZE"
  note ap = addr_page [OF a, folded p_def]
  have prot: "mmu_prot (the_pt s) p = bits_of s p" using v(2) ap by (simp add: sizes_ok_def pt_wf_def)
  have in_pt: "access_addr a < npages s * PAGE_SIZE" "0 \<le> access_addr a" using a by (simp_all add: addr_ok_def)
  show ?thesis
  proof (cases "bits_of s p AND access_bit a = 0")
    case True
    then have n3: "bits_of s p \<noteq> 3" by (cases a) (auto simp: prot_defs)
    then have "runs (run_handler h r p s) (served h s m p)"
      using ap d by (intro handler_served [OF i _ r]) (simp add: faulting_def)
    moreover have "signed_take_bit 31 (access_addr a sdiv PAGE_SIZE) = p"
      using fault_page_of_addr [of "access_addr a"] ap v(2) in_pt
      by (auto simp: sizes_ok_def pt_wf_def p_def PAGE_SIZE_def)
    then have "attempt h r a s = bindE (run_handler h r p s) (\<lambda>s. Inr (Faulted, s))"
      using True prot ap by (simp add: attempt_def mmu_allows_def internal_fault_handler_def p_def [symmetric])
    ultimately show ?thesis
      using n3 by (simp add: runs_bind attempted_def p_def)
  next
    case False
    then have "bits_of s p \<noteq> 0" by auto
    then obtain f where f: "f \<in> resident s" "page_of s f = p"
      "mmu_addr (the_pt s) (access_addr a) = f * PAGE_SIZE + access_addr a mod PAGE_SIZE"
      "bits_of s p = getPerms (entry s f)" "mmu_addr (the_pt s) (access_addr a) < reg_len (pt_backing (the_pt s))"
      by (rule shown_frame [OF i a p_def])
    have run: "attempt h r a s = Inr (perform a s)"
      using False prot in_pt f(5) by (simp add: attempt_def mmu_allows_def p_def [symmetric])
    show ?thesis
    proof (cases a)
      case (Load x)
      then show ?thesis
        using i f run load_shown [OF i f(1), of x] by (simp add: attempted_def p_def)
    next
      case (Store x b)
      then have "cm_dirty (entry s f)" using False f(4) getPerms_write by simp
      then show ?thesis
        using Store f run store_shown [OF i f(1), of x b]
        by (simp add: attempted_def p_def poke_def [symmetric])
    qed
  qed
qed

end
