(* ===== verification/VmSystem.thy ===== *)
theory VmSystem
  imports VmMachine
begin

text \<open>
  Whole runs: any sequence of accesses and timer signals behaves as on flat
  memory, and an access that is retried completes.
\<close>

section \<open>The idle counters stay small\<close>

definition idle_le :: "int \<Rightarrow> vm_state \<Rightarrow> bool" where
  "idle_le k s \<longleftrightarrow> (\<forall>n \<in> set (not_used s). n \<le> k)"

lemma idle_leI: "set (not_used u) \<subseteq> insert 0 (set (not_used s)) \<Longrightarrow> 0 \<le> k \<Longrightarrow> idle_le k s \<Longrightarrow> idle_le k u"
  by (auto simp: idle_le_def)

lemma set_entry_idle: "set_entry p f b s = Inr u \<Longrightarrow> not_used u = not_used s"
  by (auto simp: set_entry_def bindE_eq_Inr)

lemma set_perms_idle: "set_perms p f b s = Inr u \<Longrightarrow> set (not_used u) \<subseteq> insert 0 (set (not_used s))"
  by (auto simp: set_perms_def update_entry_def bindE_eq_Inr vec_set_def
      dest!: set_entry_idle dest: set_update_subset_insert [THEN subsetD] split: if_splits)

lemma write_back_idle: "write_back f e s = Inr u \<Longrightarrow> not_used u = not_used s"
  by (auto simp: write_back_def bindE_eq_Inr split: if_splits)

lemma evict_idle:
  assumes "evict_frame_from_memory get_frame_to_be_evicted_custom_policy s = Inr (f, u)"
  shows "not_used u = not_used s"
  using assms
  by (auto simp: evict_frame_from_memory_def get_frame_to_be_evicted_custom_policy_def bindE_eq_Inr
      dest!: write_back_idle set_entry_idle split: if_splits)

lemma load_idle:
  "read_from_disk_and_set_pt_entry p f s = Inr u \<Longrightarrow> not_used u = not_used s"
  "assign_new_page f p s = Inr u \<Longrightarrow> not_used u = not_used s"
  by (auto simp: read_from_disk_and_set_pt_entry_def assign_new_page_def assignNewPage_def setTs_def
      bindE_eq_Inr dest!: set_entry_idle)

lemma custom_miss_idle: "custom_miss (\<lambda>_. 0) p s = Inr u \<Longrightarrow> set (not_used u) \<subseteq> insert 0 (set (not_used s))"
  by (auto simp: custom_miss_eq count_fault_def bindE_eq_Inr Let_def vec_set_def
      dest!: evict_idle load_idle dest: set_update_subset_insert [THEN subsetD] split: if_splits)

lemma custom_idle:
  "page_fault_handler_custom p s = Inr u \<Longrightarrow> set (not_used u) \<subseteq> insert 0 (set (not_used s))"
  by (auto simp: page_fault_handler_custom_eq Let_def bindE_eq_Inr disableInterrupts_def
      enableInterrupts_def resident_fault_def dest!: set_perms_idle custom_miss_idle split: if_splits)

lemma perform_idle: "perform a s = (out, u) \<Longrightarrow> not_used u = not_used s"
  by (cases a) auto

lemma attempt_idle:
  assumes "attempt Custom r a s = Inr (out, u)"
  shows "set (not_used u) \<subseteq> insert 0 (set (not_used s))"
  using assms
  by (auto simp: attempt_def internal_fault_handler_def bindE_eq_Inr Let_def
      dest!: perform_idle custom_idle split: if_splits)

section \<open>A step of the system\<close>

text \<open>
  The outcomes of the accesses that completed are those of flat memory, which
  ends up as \<open>m'\<close>; a fault and a timer signal leave memory alone.
\<close>

fun replays :: "event list \<Rightarrow> outcome option list \<Rightarrow> mem \<Rightarrow> mem \<Rightarrow> bool" where
  "replays [] [] m m' \<longleftrightarrow> m' = m"
| "replays (Tick # es) (None # outs) m m' \<longleftrightarrow> replays es outs m m'"
| "replays (Access a r # es) (Some out # outs) m m' \<longleftrightarrow>
     (if out = Faulted then replays es outs m m'
      else out = fst (flat a m) \<and> replays es outs (snd (flat a m)) m')"
| "replays _ _ m m' \<longleftrightarrow> False"

fun event_ok :: "int \<Rightarrow> event \<Rightarrow> bool" where
  "event_ok n (Access a r) \<longleftrightarrow> 0 \<le> access_addr a \<and> access_addr a < n * PAGE_SIZE \<and> 0 \<le> r"
| "event_ok n Tick \<longleftrightarrow> True"

text \<open>A state from which \<open>n\<close> more events are within the counters' range.\<close>

definition within :: "nat \<Rightarrow> handler \<Rightarrow> vm_state \<Rightarrow> bool" where
  "within n h s \<longleftrightarrow> disk_reads s + int n \<le> INT_MAX \<and>
     (h = Custom \<longrightarrow> (\<exists>k. 0 \<le> k \<and> k + int n \<le> INT_MAX \<and> idle_le k s))"

text \<open>
  What no step changes, and the bound on disk reads when every page has a frame.
\<close>

definition later :: "vm_state \<Rightarrow> vm_state \<Rightarrow> bool" where
  "later s u \<longleftrightarrow> npages u = npages s \<and> g_nframes u = g_nframes s \<and>
     (npages s \<le> g_nframes s \<longrightarrow> disk_reads s \<le> npages s \<longrightarrow> disk_reads u \<le> npages s)"

lemma later_refl: "later s s"
  by (simp add: later_def)

lemma later_trans: "later s t \<Longrightarrow> later t u \<Longrightarrow> later s u"
  by (auto simp: later_def)

lemma attempted_later:
  assumes i: "vm_inv h s m" and a: "addr_ok s a" and at: "attempted h s m a out u"
  shows "later s u"
proof (cases "out = Faulted \<and> access_addr a div PAGE_SIZE \<notin> page_of s ` resident s")
  case True
  note v = vm_invD [OF i]
  have "disk_reads s < npages s" if "npages s \<le> g_nframes s" "disk_reads s \<le> npages s"
    using absent_page_bounds_frames [OF v(3) addr_page(1,2) [OF a]] True v(5) that
    by (simp add: counters_ok_def)
  then show ?thesis
    using at True by (auto simp: later_def attempted_def served_def)
next
  case False
  then show ?thesis
    using at by (auto simp: later_def attempted_def served_def split: if_splits)
qed

lemma attempt_step:
  assumes i: "vm_inv h s m" and a: "addr_ok s a" and r: "0 \<le> r" and w: "within (Suc n) h s"
  shows "runs (attempt h r a s) (\<lambda>(out, u). attempted h s m a out u \<and> later s u \<and> within n h u)"
proof -
  have d: "disk_reads s < INT_MAX" using w by (simp add: within_def)
  obtain out u where run: "attempt h r a s = Inr (out, u)" and at: "attempted h s m a out u"
    using attempt_runs [OF i a d r] by (auto simp: runs_iff)
  have np: "npages u = npages s" "disk_reads u \<le> disk_reads s + 1"
    using at by (auto simp: attempted_def served_def split: if_splits)
  moreover have "later s u" by (rule attempted_later [OF i a at])
  moreover have "\<exists>k. 0 \<le> k \<and> k + int n \<le> INT_MAX \<and> idle_le k u" if "h = Custom"
  proof -
    obtain k where "0 \<le> k" "k + int (Suc n) \<le> INT_MAX" "idle_le k s" using w \<open>h = Custom\<close> by (auto simp: within_def)
    then show ?thesis
      using attempt_idle [of r a s out u] run that idle_leI [of u s k] by (intro exI [of _ k]) auto
  qed
  ultimately show ?thesis using run at w by (auto simp: within_def)
qed

lemma clock_idle:
  assumes c: "clock_upto (g_nframes s) s u" and len: "int (length (not_used s)) = g_nframes s"
    and k: "idle_le k s" "0 \<le> k"
  shows "idle_le (k + 1) u"
  unfolding idle_le_def
proof
  fix n assume "n \<in> set (not_used u)"
  then obtain j where j: "j < length (not_used s)" "n = not_used u ! j"
    using clock_uptoD(9) [OF c] by (auto simp: in_set_conv_nth)
  then have "n = idle_next (entry s (int j)) (not_used s ! j)"
    using clock_uptoD(1) [OF c, of "int j"] len by simp
  moreover have "not_used s ! j \<le> k" using k j by (simp add: idle_le_def)
  ultimately show "n \<le> k + 1" using k by (simp add: idle_next_def)
qed

lemma clock_pages:
  assumes c: "clock_upto (g_nframes s) s u"
  shows "dirty_page u p = dirty_page s p" "page_of u ` resident u = page_of s ` resident s"
proof -
  have e: "cm_page (entry u f) = cm_page (entry s f)" "cm_dirty (entry u f) = cm_dirty (entry s f)" if "f \<in> resident s" for f
    using clock_uptoD(2) [OF c, of f] that by (simp_all add: resident_def ticked_def)
  show "dirty_page u p = dirty_page s p" using e by (auto simp: dirty_page_def clock_uptoD(4) [OF c])
  show "page_of u ` resident u = page_of s ` resident s" using e by (auto simp: clock_uptoD(4) [OF c])
qed

lemma tick_step:
  assumes i: "vm_inv h s m" and w: "within (Suc n) h s"
  shows "runs (vm_step h Tick s) (\<lambda>(out, u). out = None \<and> vm_inv h u m \<and> later s u \<and> within n h u \<and> (\<forall>p. dirty_page u p = dirty_page s p))"
proof (cases "h \<noteq> Custom \<or> vtalrm_blocked s \<or> \<not> pt_assigned s")
  case True
  then have "vm_step h Tick s = Inr (None, s)" by (auto simp: timer_handler_def timer_signal_def)
  moreover have "within n h s" using w by (auto simp: within_def)
  ultimately show ?thesis using i later_refl by simp
next
  case False
  obtain k where k: "0 \<le> k" "k + int (Suc n) \<le> INT_MAX" "idle_le k s" using w False by (auto simp: within_def)
  have len: "int (length (not_used s)) = g_nframes s" using vm_invD(7) [OF i] False by simp
  have "\<forall>n \<in> set (not_used s). n < INT_MAX" using k by (auto simp: idle_le_def)
  then have "runs (timer_handler s) (\<lambda>u. vm_inv Custom u m \<and> clock_upto (g_nframes s) s u)"
    using i False by (intro timer_runs) auto
  then obtain u where u: "timer_handler s = Inr u" "vm_inv Custom u m" "clock_upto (g_nframes s) s u"
    by (auto simp: runs_iff)
  have "idle_le (k + 1) u" by (rule clock_idle [OF u(3) len k(3,1)])
  then have "within n h u"
    using k w clock_uptoD(7) [OF u(3)] by (auto simp: within_def intro!: exI [of _ "k + 1"])
  moreover have "later s u" using clock_uptoD(5-7) [OF u(3)] by (simp add: later_def)
  ultimately show ?thesis using u False clock_pages(1) [OF u(3)] by (simp add: timer_signal_def)
qed

lemma vm_run_sim:
  assumes "vm_inv h s m" "\<forall>e \<in> set es. event_ok (npages s) e" "within (length es) h s"
  shows "runs (vm_run h es s) (\<lambda>(outs, u). \<exists>m'. replays es outs m m' \<and> vm_inv h u m' \<and> later s u)"
  using assms
proof (induction es arbitrary: s m)
  case Nil
  then show ?case by (auto simp: later_refl)
next
  case (Cons e es)
  have step: "runs (vm_run h (e # es) s) (\<lambda>(outs, u). \<exists>m'. replays (e # es) outs m m' \<and> vm_inv h u m' \<and> later s u)"
    if e: "vm_step h e s = Inr (out, u)"
      and u: "vm_inv h u m1" "later s u" "within (length es) h u"
      and rp: "\<forall>outs m'. replays es outs m1 m' \<longrightarrow> replays (e # es) (out # outs) m m'" for out u m1
  proof -
    have np: "npages u = npages s" using u(2) by (simp add: later_def)
    have "runs (bindE (vm_run h es u) (\<lambda>(outs, t). Inr (out # outs, t)))
      (\<lambda>(outs, t). \<exists>m'. replays (e # es) outs m m' \<and> vm_inv h t m' \<and> later s t)"
    proof (rule runs_bind_pairI)
      show "runs (vm_run h es u) (\<lambda>(outs, t). \<exists>m'. replays es outs m1 m' \<and> vm_inv h t m' \<and> later u t)"
        using Cons.IH [OF u(1) _ u(3)] Cons.prems(2) np by simp
      fix outs t assume "\<exists>m'. replays es outs m1 m' \<and> vm_inv h t m' \<and> later u t"
      then show "runs (Inr (out # outs, t)) (\<lambda>(outs, t). \<exists>m'. replays (e # es) outs m m' \<and> vm_inv h t m' \<and> later s t)"
        using rp later_trans [OF u(2)] by auto
    qed
    then show ?thesis by (simp add: e)
  qed
  have w: "within (Suc (length es)) h s" using Cons.prems(3) by simp
  show ?case
  proof (cases e)
    case (Access a r)
    then have "addr_ok s a" "0 \<le> r" using Cons.prems(2) by (auto simp: addr_ok_def)
    from attempt_step [OF Cons.prems(1) this w]
    obtain out u where "attempt h r a s = Inr (out, u)" "attempted h s m a out u"
      "later s u" "within (length es) h u" by (auto simp: runs_iff)
    then show ?thesis
      by (intro step [of "Some out" u "if out = Faulted then m else snd (flat a m)"])
         (auto simp: Access attempted_def served_def split: if_splits)
  next
    case Tick
    from tick_step [OF Cons.prems(1) w]
    obtain u where "vm_step h Tick s = Inr (None, u)" "vm_inv h u m" "later s u" "within (length es) h u"
      by (auto simp only: runs_iff split: prod.splits)
    then show ?thesis
      by (intro step [of None u m]) (simp_all only: Tick replays.simps, blast?)
  qed
qed

section \<open>Signals before an attempt\<close>

lemma within_mono: "within n h s \<Longrightarrow> k \<le> n \<Longrightarrow> within k h s"
  by (auto simp: within_def)

lemma signals_ok:
  assumes "vm_inv h s m" "within (t + k) h s"
  shows "runs (signals h t s) (\<lambda>u. vm_inv h u m \<and> later s u \<and> within k h u \<and> (\<forall>p. dirty_page u p = dirty_page s p))"
  using assms
proof (induction t arbitrary: s)
  case 0
  then show ?case by (simp add: later_refl)
next
  case (Suc t)
  have "runs (vm_step h Tick s) (\<lambda>(out, u). out = None \<and> vm_inv h u m \<and> later s u \<and> within (t + k) h u \<and>
      (\<forall>p. dirty_page u p = dirty_page s p))"
    by (rule tick_step [OF Suc.prems(1)]) (use Suc.prems(2) in simp)
  then show ?case unfolding signals.simps
  proof (rule runs_bind_pairI)
    fix out u assume u: "out = None \<and> vm_inv h u m \<and> later s u \<and> within (t + k) h u \<and> (\<forall>p. dirty_page u p = dirty_page s p)"
    then show "runs (signals h t u) (\<lambda>u. vm_inv h u m \<and> later s u \<and> within k h u \<and> (\<forall>p. dirty_page u p = dirty_page s p))"
      by (intro runs_mono [OF Suc.IH [of u]]) (auto intro: later_trans)
  qed
qed

text \<open>One attempt with the signals before it; these may raise the need by one.\<close>

lemma signalled_attempt:
  assumes i: "vm_inv h s m" and a: "addr_ok s a" and r: "0 \<le> r" and w: "within (t + Suc n) h s"
    and p: "p = access_addr a div PAGE_SIZE"
  shows "runs (bindE (signals h t s) (attempt h r a)) (\<lambda>(out, u). later s u \<and> within n h u \<and>
    (if out = Faulted then vm_inv h u m \<and> need u p < need s p + (if t = 0 then 0 else 1) \<and> need u p < 2
     else out = fst (flat a m) \<and> vm_inv h u (snd (flat a m))))"
proof -
  obtain v where v: "signals h t s = Inr v" "vm_inv h v m" "later s v" "within (Suc n) h v" "dirty_page v p = dirty_page s p"
    using signals_ok [OF i w] by (auto simp: runs_iff)
  have nv: "need v p \<le> need s p + (if t = 0 then 0 else 1)" "need v p \<le> 2"
    using v(1) need_upto(1) [of v p] need_upto(2) [OF v(5)] by auto
  have av: "addr_ok v a" using a v(3) by (simp add: addr_ok_def later_def)
  obtain out u where "attempt h r a v = Inr (out, u)" "attempted h v m a out u" "later v u" "within n h u"
    using attempt_step [OF v(2) av r v(4)] by (auto simp: runs_iff)
  then show ?thesis using v(1) nv later_trans [OF v(3)] p by (auto simp: attempted_def served_def)
qed

section \<open>Retried accesses complete\<close>

text \<open>The attempts before which signals arrive, and the events of a list of attempts.\<close>

definition delays :: "(nat \<times> int) list \<Rightarrow> nat" where
  "delays xs = length (filter (\<lambda>(k, r). 0 < k) xs)"

definition events :: "(nat \<times> int) list \<Rightarrow> nat" where
  "events xs = (\<Sum>(k, r) \<leftarrow> xs. k + 1)"

lemma delays_simps [simp]:
  "delays [] = 0" "delays ((k, r) # xs) = (if k = 0 then 0 else 1) + delays xs"
  "events [] = 0" "events ((k, r) # xs) = k + Suc (events xs)"
  by (simp_all add: delays_def events_def)

lemma access_needs:
  assumes "vm_inv h s m" "addr_ok s a" "\<forall>(k, r) \<in> set xs. 0 \<le> r" "within (events xs + n) h s"
    and "need s (access_addr a div PAGE_SIZE) + delays xs < length xs"
  shows "\<exists>u. run_access h xs a s = Some (Inr (fst (flat a m), u)) \<and> vm_inv h u (snd (flat a m)) \<and>
     later s u \<and> within n h u"
  using assms
proof (induction xs arbitrary: s)
  case Nil
  then show ?case by simp
next
  case (Cons x xs)
  obtain k r where x: "x = (k, r)" by (cases x)
  have "0 \<le> r" "within (k + Suc (events xs + n)) h s" using Cons.prems(3,4) x by (simp_all add: add.assoc)
  from signalled_attempt [OF Cons.prems(1,2) this refl]
  obtain out u where run: "bindE (signals h k s) (attempt h r a) = Inr (out, u)" and u: "later s u" "within (events xs + n) h u"
    and out: "if out = Faulted then vm_inv h u m \<and>
        need u (access_addr a div PAGE_SIZE) < need s (access_addr a div PAGE_SIZE) + (if k = 0 then 0 else 1)
      else out = fst (flat a m) \<and> vm_inv h u (snd (flat a m))" by (auto simp: runs_iff split: if_splits)
  show ?case
  proof (cases "out = Faulted")
    case True
    then have "vm_inv h u m" "addr_ok u a" "need u (access_addr a div PAGE_SIZE) + delays xs < length xs"
      using out Cons.prems(2,5) u(1) x by (auto simp: addr_ok_def later_def split: if_splits)
    then obtain w where "run_access h xs a u = Some (Inr (fst (flat a m), w))" "vm_inv h w (snd (flat a m))"
      "later u w" "within n h w" using Cons.IH [of u] Cons.prems(3) u by auto
    then show ?thesis using run True later_trans [OF u(1)] by (auto simp: x)
  next
    case False
    then show ?thesis using out run u within_mono [OF u(2), of n] by (auto simp: x)
  qed
qed

text \<open>Three attempts, and one for every retry that a signal precedes, are enough.\<close>

lemma access_completes:
  assumes i: "vm_inv h s m" and a: "addr_ok s a" and r: "\<forall>(k, r) \<in> set xs. 0 \<le> r" and w: "within (events xs + n) h s"
    and l: "3 + delays (tl xs) \<le> length xs"
  shows "\<exists>u. run_access h xs a s = Some (Inr (fst (flat a m), u)) \<and> vm_inv h u (snd (flat a m)) \<and>
     later s u \<and> within n h u"
proof -
  obtain k r0 ys where xs: "xs = (k, r0) # ys" using l by (cases xs) auto
  let ?p = "access_addr a div PAGE_SIZE"
  have "0 \<le> r0" "within (k + Suc (events ys + n)) h s" using r w xs by (simp_all add: add.assoc)
  from signalled_attempt [OF i a this refl]
  obtain out u where run: "bindE (signals h k s) (attempt h r0 a) = Inr (out, u)" and u: "later s u" "within (events ys + n) h u"
    and out: "if out = Faulted then vm_inv h u m \<and> need u ?p < 2
      else out = fst (flat a m) \<and> vm_inv h u (snd (flat a m))" by (auto simp: runs_iff split: if_splits)
  show ?thesis
  proof (cases "out = Faulted")
    case True
    then have "vm_inv h u m" "addr_ok u a" "need u ?p + delays ys < length ys" "\<forall>(k, r) \<in> set ys. 0 \<le> r"
      using out a u(1) xs l r by (auto simp: addr_ok_def later_def)
    from access_needs [OF this(1,2,4) u(2) this(3)]
    show ?thesis using run True later_trans [OF u(1)] by (auto simp: xs)
  next
    case False
    then show ?thesis using out run u within_mono [OF u(2), of n] by (auto simp: xs)
  qed
qed

section \<open>Accesses that never complete\<close>

text \<open>The handlers do not touch the global page table pointer.\<close>

lemma assigned_kept:
  "set_entry p f b s = Inr u \<Longrightarrow> pt_assigned u = pt_assigned s"
  "update_entry f g s = Inr u \<Longrightarrow> pt_assigned u = pt_assigned s"
  "count_fault s = Inr u \<Longrightarrow> pt_assigned u = pt_assigned s"
  "read_from_disk_and_set_pt_entry p f s = Inr u \<Longrightarrow> pt_assigned u = pt_assigned s"
  "assign_new_page f p s = Inr u \<Longrightarrow> pt_assigned u = pt_assigned s"
  "write_back f e s = Inr u \<Longrightarrow> pt_assigned u = pt_assigned s"
  by (auto simp: set_entry_def update_entry_def count_fault_def read_from_disk_and_set_pt_entry_def assign_new_page_def
      write_back_def assignNewPage_def setTs_def bindE_eq_Inr Let_def split: if_splits prod.splits)

lemma custom_assigned: "page_fault_handler_custom p s = Inr u \<Longrightarrow> pt_assigned u = pt_assigned s"
proof -
  have ev: "evict_frame_from_memory get_frame_to_be_evicted_custom_policy s = Inr (f, u) \<Longrightarrow> pt_assigned u = pt_assigned s" for f s u
    by (auto simp: evict_frame_from_memory_def get_frame_to_be_evicted_custom_policy_def bindE_eq_Inr
        dest!: assigned_kept split: if_splits)
  have sp: "set_perms p f b s = Inr u \<Longrightarrow> pt_assigned u = pt_assigned s" for f b s u
    by (auto simp: set_perms_def bindE_eq_Inr dest!: assigned_kept split: if_splits)
  have cm: "custom_miss (\<lambda>_. 0) p s = Inr u \<Longrightarrow> pt_assigned u = pt_assigned s" for s u
    by (auto simp: custom_miss_eq bindE_eq_Inr Let_def dest!: assigned_kept ev)
  show "page_fault_handler_custom p s = Inr u \<Longrightarrow> pt_assigned u = pt_assigned s"
    by (auto simp: page_fault_handler_custom_eq Let_def bindE_eq_Inr disableInterrupts_def enableInterrupts_def resident_fault_def
        dest!: sp cm split: if_splits)
qed

lemma timer_assigned: "timer_handler s = Inr u \<Longrightarrow> pt_assigned u = pt_assigned s"
proof -
  have v: "timer_visit i s = Inr u \<Longrightarrow> pt_assigned u = pt_assigned s" for i s u
    by (auto simp: timer_visit_def bindE_eq_Inr dest!: assigned_kept split: if_splits)
  have "foldE timer_visit xs s = Inr u \<Longrightarrow> pt_assigned u = pt_assigned s" for xs
    by (induction xs arbitrary: s) (auto simp: bindE_eq_Inr dest!: v)
  then show "timer_handler s = Inr u \<Longrightarrow> pt_assigned u = pt_assigned s"
    by (auto simp: timer_handler_def split: if_splits)
qed

text \<open>After a signal a page that was used, or that was not in memory, cannot be accessed.\<close>

definition exposed :: "vm_state \<Rightarrow> int \<Rightarrow> bool" where
  "exposed s p \<longleftrightarrow> used_page s p \<or> bits_of s p = PROT_NONE"

lemma tick_protects:
  assumes i: "vm_inv Custom s m" and w: "within (Suc n) Custom s" and on: "pt_assigned s" "\<not> vtalrm_blocked s"
    and p: "exposed s p" "0 \<le> p" "p < npages s"
  shows "runs (timer_signal s) (\<lambda>u. vm_inv Custom u m \<and> later s u \<and> within n Custom u \<and> pt_assigned u \<and> \<not> vtalrm_blocked u \<and>
    bits_of u p = PROT_NONE)"
proof -
  obtain k where k: "0 \<le> k" "k + int (Suc n) \<le> INT_MAX" "idle_le k s" using w by (auto simp: within_def)
  then have "\<forall>n \<in> set (not_used s). n < INT_MAX" by (auto simp: idle_le_def)
  then obtain u where u: "timer_handler s = Inr u" "vm_inv Custom u m" "clock_upto (g_nframes s) s u"
    using timer_runs [OF i on(1)] by (auto simp: runs_iff)
  obtain v where v: "vm_step Custom Tick s = Inr (None, v)" "later s v" "within n Custom v"
    using tick_step [OF i w] by (auto simp: runs_iff split: prod.splits)
  have uv: "v = u" "timer_signal s = Inr u" using v(1) u(1) on by (simp_all add: timer_signal_def)
  have "bits_of u p = PROT_NONE"
  proof (cases "p \<in> page_of s ` resident s")
    case True
    then obtain f where f: "f \<in> resident s" "page_of s f = p" by auto
    then have fn: "f < g_nframes s" by (simp add: resident_def)
    have "cm_used (entry s f) \<or> bits_of s p = PROT_NONE"
      using p(1) live_inj [OF vm_invD(3) [OF i] _ f(1)] f(2) by (auto simp: exposed_def used_page_def)
    then show ?thesis using clock_uptoD(3) [OF u(3) f(1)] f(2) fn by auto
  next
    case False
    then have "p \<notin> page_of u ` resident u" by (simp add: clock_pages(2) [OF u(3)])
    then show ?thesis using absent_bits [OF vm_invD(3) [OF u(2)] p(2)] p(3) clock_uptoD(5) [OF u(3)] by (simp add: prot_defs)
  qed
  then show ?thesis
    using u(2) v(2,3) uv timer_assigned [OF u(1)] on clock_uptoD(8) [OF u(3)] by simp
qed

lemma signals_protect:
  assumes "vm_inv Custom s m" "within (t + n) Custom s" "pt_assigned s" "\<not> vtalrm_blocked s"
    and "exposed s p" "0 \<le> p" "p < npages s" "0 < t"
  shows "runs (signals Custom t s) (\<lambda>u. vm_inv Custom u m \<and> later s u \<and> within n Custom u \<and> pt_assigned u \<and> \<not> vtalrm_blocked u \<and>
    bits_of u p = PROT_NONE)"
  using assms
proof (induction t arbitrary: s)
  case (Suc t)
  have "within (Suc (t + n)) Custom s" using Suc.prems(2) by simp
  from tick_protects [OF Suc.prems(1) this Suc.prems(3-7)]
  obtain u where u: "timer_signal s = Inr u" "vm_inv Custom u m" "later s u" "within (t + n) Custom u" "pt_assigned u"
      "\<not> vtalrm_blocked u" "bits_of u p = PROT_NONE" by (auto simp: runs_iff)
  show ?case
  proof (cases "t = 0")
    case True
    then show ?thesis using u by simp
  next
    case False
    then have "runs (signals Custom t u) (\<lambda>w. vm_inv Custom w m \<and> later u w \<and> within n Custom w \<and> pt_assigned w \<and>
        \<not> vtalrm_blocked w \<and> bits_of w p = PROT_NONE)"
      using u Suc.prems(6,7) by (intro Suc.IH) (auto simp: exposed_def later_def)
    then show ?thesis using u(1,3) by (auto simp: runs_iff intro: later_trans)
  qed
qed simp

lemma protected_faults:
  assumes i: "vm_inv Custom s m" and a: "addr_ok s a" and w: "within (Suc n) Custom s" and r: "0 \<le> r" and on: "pt_assigned s"
    and p: "p = access_addr a div PAGE_SIZE" and b: "bits_of s p = PROT_NONE"
  shows "runs (attempt Custom r a s) (\<lambda>(out, u). out = Faulted \<and> vm_inv Custom u m \<and> later s u \<and> within n Custom u \<and> pt_assigned u \<and>
    \<not> vtalrm_blocked u \<and> used_page u p)"
proof -
  note v = vm_invD [OF i] and ap = addr_page [OF a, folded p]
  have d: "disk_reads s < INT_MAX" using w by (simp add: within_def)
  have "faulting s p" using ap b d by (simp add: faulting_def prot_defs)
  from custom_served [OF i this] obtain u where u: "page_fault_handler_custom p s = Inr u" "served Custom s m p u" "\<not> vtalrm_blocked u"
    by (auto simp: runs_iff)
  have prot: "mmu_prot (the_pt s) p = bits_of s p" using v(2) ap by (simp add: sizes_ok_def pt_wf_def)
  have "signed_take_bit 31 (access_addr a sdiv PAGE_SIZE) = p"
    using fault_page_of_addr [of "access_addr a"] ap v(2) a
    by (auto simp: addr_ok_def sizes_ok_def pt_wf_def p PAGE_SIZE_def)
  then have at: "attempt Custom r a s = Inr (Faulted, u)"
    using ap b prot u(1) by (simp add: attempt_def mmu_allows_def internal_fault_handler_def p [symmetric] prot_defs)
  have "later s u \<and> within n Custom u" using attempt_step [OF i a r w] at by simp
  then show ?thesis using at u custom_assigned [OF u(1)] on by (simp add: served_def)
qed

text \<open>An access under the custom policy never completes if a signal arrives before every attempt.\<close>

lemma starved_access:
  assumes "vm_inv Custom s m" "addr_ok s a" "\<forall>(k, r) \<in> set xs. 0 < k \<and> 0 \<le> r" "within (events xs + n) Custom s"
    and "pt_assigned s" "\<not> vtalrm_blocked s" "exposed s (access_addr a div PAGE_SIZE)"
  shows "run_access Custom xs a s = None"
  using assms
proof (induction xs arbitrary: s)
  case (Cons x xs)
  obtain k r where x: "x = (k, r)" by (cases x)
  let ?p = "access_addr a div PAGE_SIZE"
  have k: "0 < k" "0 \<le> r" "within (k + Suc (events xs + n)) Custom s" using Cons.prems(3,4) x by (simp_all add: add.assoc)
  from signals_protect [OF Cons.prems(1) k(3) Cons.prems(5-7) addr_page [OF Cons.prems(2)] k(1)]
  obtain v where v: "signals Custom k s = Inr v" "vm_inv Custom v m" "later s v" "within (Suc (events xs + n)) Custom v" "pt_assigned v"
      "bits_of v ?p = PROT_NONE" by (auto simp: runs_iff)
  have av: "addr_ok v a" using Cons.prems(2) v(3) by (simp add: addr_ok_def later_def)
  from protected_faults [OF v(2) av v(4) k(2) v(5) refl v(6)]
  obtain u where u: "attempt Custom r a v = Inr (Faulted, u)" "vm_inv Custom u m" "later v u" "within (events xs + n) Custom u"
      "pt_assigned u" "\<not> vtalrm_blocked u" "used_page u ?p" by (auto simp: runs_iff)
  have "run_access Custom xs a u = None"
    by (rule Cons.IH) (use u av Cons.prems(3) in \<open>auto simp: addr_ok_def later_def exposed_def\<close>)
  then show ?case using v(1) u(1) by (simp add: x)
qed simp

end
