(* ===== verification/VmMain.thy ===== *)
theory VmMain
  imports VmSystem
begin

text \<open>
  The start-up of \<open>project_3/main.cpp\<close>: argument checks, core map, disk, page
  table, and the timer that the custom policy needs.  Outside the program are \<open>atoi\<close>, what \<open>open\<close> finds (\<open>old\<close>, the old
  contents of the disk file) and what the allocator returns (\<open>junk\<close>).
\<close>

datatype program = Sort | Scan | Focus

definition core_map_init :: "int \<Rightarrow> core_map_entry list \<times> 64 word" where
  "core_map_init nframes =
     foldl (\<lambda>(cm, num) i. let (e, num') = new_core_map_entry (int i) num in (cm @ [e], num'))
       ([], 0) [0..<nat nframes]"

text \<open>\<open>os k\<close> tells whether the \<open>k\<close>-th system call for the timer succeeds; the last one switches it off.\<close>

definition initialize_timer :: "(nat \<Rightarrow> bool) \<Rightarrow> unit result" where
  "initialize_timer os =
     (if \<not> os 0 then Inl (ExitProcess 1)
      else if \<not> os 1 then Inl (ExitProcess 1)
      else if \<not> os 2 then Inl (ExitProcess 1)
      else if \<not> os 3 then Inl (ExitProcess 1) else Inr ())"

definition disable_timer :: "(nat \<Rightarrow> bool) \<Rightarrow> unit result" where
  "disable_timer os = (if \<not> os 4 then Inl (ExitProcess 1) else Inr ())"

definition choose_algorithm :: "(nat \<Rightarrow> bool) \<Rightarrow> string \<Rightarrow> handler result" where
  "choose_algorithm os a =
     (if a = ''rand'' then Inr Rand else if a = ''fifo'' then Inr Fifo
      else if a = ''custom'' then bindE (initialize_timer os) (\<lambda>_. Inr Custom) else Inl (ExitProcess 1))"

definition choose_program :: "string \<Rightarrow> int \<Rightarrow> int \<Rightarrow> program result" where
  "choose_program name n_pages nframes =
     (if name = ''sort'' then (if nframes < 2 then Inl (ExitProcess 1) else Inr Sort)
      else if name = ''scan'' then (if nframes < 1 \<or> n_pages < 1 then Inl (ExitProcess 1) else Inr Scan)
      else if name = ''focus'' then (if nframes < 1 \<or> n_pages < 1 then Inl (ExitProcess 1) else Inr Focus)
      else Inl (ExitProcess 1))"

text \<open>The globals when the user program starts.\<close>

definition vm_start :: "handler \<Rightarrow> int \<Rightarrow> vm_disk \<Rightarrow> page_table \<Rightarrow> vm_state" where
  "vm_start h nframes d pt =
     \<lparr>g_nframes = nframes, frame_queue = [], page_faults = 0, disk_reads = 0, disk_writes = 0,
      g_disk = d, core_map = fst (core_map_init nframes), cm_num = snd (core_map_init nframes),
      not_used = (if h = Custom then map (\<lambda>_. 0) [0..<nat nframes] else []),
      pages_in_mem = {}, the_pt = pt, pt_assigned = True, vtalrm_blocked = False\<rparr>"

definition vm_boot ::
  "(nat \<Rightarrow> bool) \<Rightarrow> (string \<Rightarrow> int) \<Rightarrow> string list \<Rightarrow> bool \<Rightarrow> region \<Rightarrow> int \<Rightarrow> (nat \<Rightarrow> int) \<Rightarrow> (handler \<times> program \<times> vm_state) result" where
  "vm_boot os atoi argv open_ok old fd junk =
     (if length argv \<noteq> 5 then Inl (ExitProcess 1)
      else
        let n_pages = atoi (argv ! 1); nframes = atoi (argv ! 2) in
        bindE (choose_algorithm os (argv ! 3)) (\<lambda>h.
        bindE (choose_program (argv ! 4) n_pages nframes) (\<lambda>prog.
        bindE (vm_disk_open open_ok old n_pages) (\<lambda>d.
        case d of
          None \<Rightarrow> Inl (ExitProcess 1)
        | Some d \<Rightarrow>
            bindE (page_table_create fd junk n_pages nframes) (\<lambda>pt.
            case pt of
              None \<Rightarrow> Inl (ExitProcess 1)
            | Some pt \<Rightarrow> Inr (h, prog, vm_start h nframes d pt))))))"

section \<open>The start state satisfies the invariant\<close>

lemma core_map_init_eq:
  assumes "0 \<le> nframes" "nframes < 2 ^ 64"
  shows "core_map_init nframes =
    (map (\<lambda>i. \<lparr>cm_frame = int i, cm_page = -1, cm_ts = word_of_nat i, cm_used = True, cm_dirty = False\<rparr>) [0..<nat nframes],
     word_of_int nframes)"
proof -
  have "foldl (\<lambda>(cm, num) i. let (e, num') = new_core_map_entry (int i) num in (cm @ [e], num')) ([], 0) [0..<n] =
    (map (\<lambda>i. \<lparr>cm_frame = int i, cm_page = -1, cm_ts = word_of_nat i, cm_used = True, cm_dirty = False\<rparr>) [0..<n],
     word_of_nat n)" for n
    by (induction n) (simp_all add: new_core_map_entry_def setTs_def algebra_simps)
  from this [of "nat nframes"] show ?thesis using assms(1) by (simp add: core_map_init_def)
qed

lemma vm_start_inv:
  assumes n: "0 < nframes" "nframes * PAGE_SIZE \<le> INT_MAX"
    and d: "disk_wf d" "d_nblocks d = pt_npages pt"
    and pt: "pt_wf pt" "pt_nframes pt = nframes" "\<And>p. 0 \<le> p \<Longrightarrow> p < pt_npages pt \<Longrightarrow> page_bits pt ! nat p = 0"
    and h: "h \<noteq> Example"
  shows "vm_inv h (vm_start h nframes d pt) (reg_data (d_file d))"
proof -
  let ?s = "vm_start h nframes d pt"
  have lt: "nframes < 2 ^ 64" using n by (simp add: PAGE_SIZE_def INT_MAX_def)
  have n0: "0 \<le> nframes" using n by simp
  note ci = core_map_init_eq [OF n0 lt]
  have res: "resident ?s = {}" by (auto simp: resident_def vm_start_def)
  have "sizes_ok ?s" using n d pt by (simp add: sizes_ok_def vm_start_def ci)
  moreover have "live {} ?s" using pt(3) by (simp add: live_def) (simp add: vm_start_def)
  moreover have "shows_mem {} ?s (reg_data (d_file d))"
    by (simp add: shows_mem_def disk_block_is_def) (simp add: vm_start_def)
  ultimately have "paging (resident ?s) ?s (reg_data (d_file d))" by (simp add: paging_def res)
  moreover have ent: "entry ?s f = \<lparr>cm_frame = f, cm_page = -1, cm_ts = word_of_int f, cm_used = True, cm_dirty = False\<rparr>"
    if "0 \<le> f" "f < nframes" for f
    using that by (simp add: entry_def vm_start_def ci)
  then have "counters_ok ?s" by (simp add: counters_ok_def) (simp add: vm_start_def INT_MAX_def)
  moreover have "stamps_ok ?s"
  proof -
    have "(word_of_int f :: 64 word) < word_of_int nframes" if "0 \<le> f" "f < nframes" for f
      using that lt by (simp add: word_less_def uint_word_of_int)
    then show ?thesis
      using ent lt n0 by (simp add: stamps_ok_def stamp_entry) (simp add: vm_start_def ci uint_word_of_int)
  qed
  moreover have "policy_inv h ?s"
    using h n0 res by (cases h) (simp_all add: armed_def, simp_all add: vm_start_def)
  ultimately show ?thesis by (simp add: vm_inv_def)
qed

lemma vm_start_within:
  assumes "int n \<le> INT_MAX"
  shows "within n h (vm_start h nframes d pt)"
  using assms by (auto simp: within_def vm_start_def idle_le_def intro!: exI [of _ 0])

text \<open>Start-up with sensible arguments.\<close>

lemma page_table_create_eq:
  assumes "0 < fd" "0 \<le> n_pages" "0 \<le> nframes" "n_pages * PAGE_SIZE \<le> INT_MAX" "nframes * PAGE_SIZE \<le> INT_MAX"
  obtains pt where "page_table_create fd junk n_pages nframes = Inr (Some pt)" "pt_wf pt"
    "pt_npages pt = n_pages" "pt_nframes pt = nframes" "\<And>p. 0 \<le> p \<Longrightarrow> p < n_pages \<Longrightarrow> page_bits pt ! nat p = 0"
proof -
  obtain pt where "page_table_create fd junk n_pages nframes = Inr (Some pt)" "pt_wf pt"
    "pt_npages pt = n_pages" "pt_nframes pt = nframes" "\<forall>p. mmu_prot pt p = PROT_NONE"
    using page_table_create_wf [OF assms] by blast
  then show ?thesis by (intro that [of pt]) (auto simp: pt_wf_def PROT_NONE_def)
qed

lemma vm_boot_runs:
  assumes a: "length argv = 5" "0 < atoi (argv ! 1)" "0 < atoi (argv ! 2)"
      "atoi (argv ! 1) * PAGE_SIZE \<le> INT_MAX" "atoi (argv ! 2) * PAGE_SIZE \<le> INT_MAX"
    and c: "choose_algorithm os (argv ! 3) = Inr h" "choose_program (argv ! 4) (atoi (argv ! 1)) (atoi (argv ! 2)) = Inr prog"
    and fd: "0 < fd"
  shows "\<exists>s. vm_boot os atoi argv True old fd junk = Inr (h, prog, s) \<and> npages s = atoi (argv ! 1) \<and>
    g_nframes s = atoi (argv ! 2) \<and> disk_reads s = 0 \<and> vm_inv h s (reg_data (d_file (g_disk s))) \<and>
    (\<forall>n. int n \<le> INT_MAX \<longrightarrow> within n h s) \<and> pt_assigned s \<and> idle_le 0 s"
proof -
  have h: "h \<noteq> Example" using c(1) by (auto simp: choose_algorithm_def bindE_eq_Inr split: if_splits)
  obtain d where d: "vm_disk_open True old (atoi (argv ! 1)) = Inr (Some d)" "disk_wf d" "d_nblocks d = atoi (argv ! 1)"
    using disk_open_wf [of "atoi (argv ! 1)" old] a by auto
  obtain pt where pt: "page_table_create fd junk (atoi (argv ! 1)) (atoi (argv ! 2)) = Inr (Some pt)" "pt_wf pt"
    "pt_npages pt = atoi (argv ! 1)" "pt_nframes pt = atoi (argv ! 2)"
    "\<And>p. 0 \<le> p \<Longrightarrow> p < atoi (argv ! 1) \<Longrightarrow> page_bits pt ! nat p = 0"
    using page_table_create_eq [OF fd _ _ a(4,5), of junk] a by auto
  let ?s = "vm_start h (atoi (argv ! 2)) d pt"
  have "vm_inv h ?s (reg_data (d_file d))"
    using a d pt h by (intro vm_start_inv) auto
  moreover have "vm_boot os atoi argv True old fd junk = Inr (h, prog, ?s)"
    using a c d pt by (simp add: vm_boot_def)
  moreover have "npages ?s = atoi (argv ! 1)" "g_nframes ?s = atoi (argv ! 2)" "disk_reads ?s = 0" "g_disk ?s = d"
    "pt_assigned ?s" "idle_le 0 ?s"
    using pt by (auto simp: vm_start_def idle_le_def)
  ultimately show ?thesis using vm_start_within by auto
qed

lemma vm_boot_unblocked:
  assumes "vm_boot os atoi argv open_ok old fd junk = Inr (h, prog, s)"
  shows "\<not> vtalrm_blocked s"
proof -
  have "\<not> vtalrm_blocked (vm_start h nframes d pt)" for h nframes d pt by (simp add: vm_start_def)
  then show ?thesis
    using assms unfolding vm_boot_def Let_def
    by (auto simp del: not_None_eq simp: bindE_eq_Inr split: if_splits option.splits)
qed

end
