(* ===== verification/VmPrograms.thy ===== *)
theory VmPrograms
  imports VmMain
begin

text \<open>
  The scan and focus programs of \<open>project_3/program.cpp\<close>.  They read and write bytes of
  virtual memory and keep what they expect in variables of their own; both are
  operations given as arguments.  The interface \<open>byte_memory\<close> says what the
  programs rely on; it is interpreted on the paging machine and on flat memory.
  \<open>rs i\<close> is the \<open>i\<close>-th value of \<open>rand\<close> after \<open>srand\<close>.
\<close>

section \<open>The interface\<close>

text \<open>\<open>shows n s m\<close>: state \<open>s\<close> presents memory \<open>m\<close>, and \<open>n\<close> more accesses are safe.\<close>

locale byte_memory =
  fixes load :: "int \<Rightarrow> 's \<Rightarrow> (byte \<times> 's) result"
    and store :: "int \<Rightarrow> byte \<Rightarrow> 's \<Rightarrow> 's result"
    and shows_to :: "nat \<Rightarrow> 's \<Rightarrow> mem \<Rightarrow> bool"
    and size_bytes :: int
  assumes load_law: "shows_to (Suc n) s m \<Longrightarrow> 0 \<le> a \<Longrightarrow> a < size_bytes \<Longrightarrow>
      runs (load a s) (\<lambda>(v, u). v = m a \<and> shows_to n u m)"
    and store_law: "shows_to (Suc n) s m \<Longrightarrow> 0 \<le> a \<Longrightarrow> a < size_bytes \<Longrightarrow>
      runs (store a v s) (\<lambda>u. shows_to n u (m(a := v)))"

section \<open>The programs\<close>

definition compare_bytes :: "byte \<Rightarrow> byte \<Rightarrow> int" where
  "compare_bytes pa pb = (let a = sint pa; b = sint pb in if a < b then -1 else if a = b then 0 else 1)"

definition scan_fill :: "(int \<Rightarrow> byte \<Rightarrow> 's \<Rightarrow> 's result) \<Rightarrow> nat \<Rightarrow> 's \<Rightarrow> 's result" where
  "scan_fill store n = foldE (\<lambda>i. store (int i) (word_of_nat (i mod 256))) [0..<n]"

definition scan_pass ::
  "(int \<Rightarrow> 's \<Rightarrow> (byte \<times> 's) result) \<Rightarrow> nat \<Rightarrow> 32 word \<times> 32 word \<times> 's \<Rightarrow> (32 word \<times> 32 word \<times> 's) result" where
  "scan_pass load n = foldE (\<lambda>i (tot, tot_verify, s).
     bindE (load (int i) s) (\<lambda>(v, s). Inr (tot + ucast v, tot_verify + word_of_nat (i mod 256), s))) [0..<n]"

text \<open>The result is the comparison printed, the tot, and the final state.\<close>

definition scan_program ::
  "(int \<Rightarrow> 's \<Rightarrow> (byte \<times> 's) result) \<Rightarrow> (int \<Rightarrow> byte \<Rightarrow> 's \<Rightarrow> 's result) \<Rightarrow> nat \<Rightarrow> 's \<Rightarrow> (bool \<times> 32 word \<times> 's) result" where
  "scan_program load store n s =
     bindE (scan_fill store n s) (\<lambda>s.
     bindE (foldE (\<lambda>j. scan_pass load n) [0..<10] (0, 0, s)) (\<lambda>(tot, tot_verify, s).
     Inr (tot = tot_verify, tot, s)))"

definition focus_clear :: "(int \<Rightarrow> byte \<Rightarrow> 's \<Rightarrow> 's result) \<Rightarrow> nat \<Rightarrow> 's \<times> mem \<Rightarrow> ('s \<times> mem) result" where
  "focus_clear store n = foldE (\<lambda>i (s, data_verify).
     bindE (store (int i) 0 s) (\<lambda>s. Inr (s, data_verify(int i := 0)))) [0..<n]"

text \<open>One write of the inner loop; \<open>k\<close> counts the calls of \<open>rand\<close>.\<close>

definition focus_write ::
  "(int \<Rightarrow> byte \<Rightarrow> 's \<Rightarrow> 's result) \<Rightarrow> (nat \<Rightarrow> int) \<Rightarrow> nat \<Rightarrow> int \<Rightarrow> 's \<times> mem \<times> nat \<Rightarrow> ('s \<times> mem \<times> nat) result" where
  "focus_write store rs n start = (\<lambda>(s, data_verify, k).
     bindE (int_add start (rs k smod 25)) (\<lambda>x.
     let index = x smod int n; val = word_of_int (rs (k + 1)) in
     bindE (store index val s) (\<lambda>s. Inr (s, data_verify(index := val), k + 2))))"

definition focus_round ::
  "(int \<Rightarrow> byte \<Rightarrow> 's \<Rightarrow> 's result) \<Rightarrow> (nat \<Rightarrow> int) \<Rightarrow> nat \<Rightarrow> 's \<times> mem \<times> nat \<Rightarrow> ('s \<times> mem \<times> nat) result" where
  "focus_round store rs n = (\<lambda>(s, data_verify, k).
     if n = 0 then Inl DivByZero
     else foldE (\<lambda>i. focus_write store rs n (rs k smod int n)) [0..<100] (s, data_verify, k + 1))"

definition focus_sum ::
  "(int \<Rightarrow> 's \<Rightarrow> (byte \<times> 's) result) \<Rightarrow> mem \<Rightarrow> nat \<Rightarrow> int \<times> int \<times> 's \<Rightarrow> (int \<times> int \<times> 's) result" where
  "focus_sum load data_verify n = foldE (\<lambda>i (tot, tot_verify, s).
     bindE (load (int i) s) (\<lambda>(v, s).
     bindE (int_add tot (sint v)) (\<lambda>tot.
     bindE (int_add tot_verify (sint (data_verify (int i)))) (\<lambda>tot_verify.
     Inr (tot, tot_verify, s))))) [0..<n]"

definition focus_program ::
  "(int \<Rightarrow> 's \<Rightarrow> (byte \<times> 's) result) \<Rightarrow> (int \<Rightarrow> byte \<Rightarrow> 's \<Rightarrow> 's result) \<Rightarrow> (nat \<Rightarrow> int) \<Rightarrow> nat \<Rightarrow> mem \<Rightarrow> 's \<Rightarrow>
   (bool \<times> int \<times> 's) result" where
  "focus_program load store rs n junk s =
     bindE (focus_clear store n (s, junk)) (\<lambda>(s, data_verify).
     bindE (foldE (\<lambda>j. focus_round store rs n) [0..<100] (s, data_verify, 0)) (\<lambda>(s, data_verify, k).
     bindE (focus_sum load data_verify n (0, 0, s)) (\<lambda>(tot, tot_verify, s).
     Inr (tot = tot_verify, tot, s))))"

section \<open>The programs on any memory that keeps the laws\<close>

lemma byte_of_int_mod: "ucast (word_of_nat (i mod 256) :: byte) = (word_of_nat (i mod 256) :: 32 word)"
  by (simp add: unsigned_of_nat take_bit_eq_mod)

context byte_memory
begin

lemma scan_fill_ok:
  assumes "shows_to (n + k) s m" "int n \<le> size_bytes"
  shows "runs (scan_fill store n s) (\<lambda>u. \<exists>m'. shows_to k u m' \<and> (\<forall>i < n. m' (int i) = word_of_nat (i mod 256)))"
proof -
  have "runs (scan_fill store n s)
    (\<lambda>u. \<exists>m'. shows_to (n + k - n) u m' \<and> (\<forall>i < n. m' (int i) = word_of_nat (i mod 256)))"
    unfolding scan_fill_def
  proof (rule runs_foldE_upto [where I = "\<lambda>j u. \<exists>m'. shows_to (n + k - j) u m' \<and> (\<forall>i < j. m' (int i) = word_of_nat (i mod 256))"])
    fix i t assume i: "i < n" and "\<exists>m'. shows_to (n + k - i) t m' \<and> (\<forall>j < i. m' (int j) = word_of_nat (j mod 256))"
    then obtain m' where m': "shows_to (Suc (n + k - Suc i)) t m'" "\<forall>j < i. m' (int j) = word_of_nat (j mod 256)"
      by (auto simp: Suc_diff_Suc)
    show "runs (store (int i) (word_of_nat (i mod 256)) t)
        (\<lambda>u. \<exists>m'. shows_to (n + k - Suc i) u m' \<and> (\<forall>j < Suc i. m' (int j) = word_of_nat (j mod 256)))"
    proof (rule runs_mono [OF store_law [OF m'(1)]])
      fix u assume "shows_to (n + k - Suc i) u (m'(int i := word_of_nat (i mod 256)))"
      then show "\<exists>m'. shows_to (n + k - Suc i) u m' \<and> (\<forall>j < Suc i. m' (int j) = word_of_nat (j mod 256))"
        using m'(2) by (intro exI conjI) (assumption, auto simp: less_Suc_eq)
    qed (use i assms(2) in auto)
  qed (use assms in auto)
  then show ?thesis by simp
qed

lemma scan_pass_ok:
  assumes "shows_to (n + k) s m" "int n \<le> size_bytes" and m: "\<forall>i < n. m (int i) = word_of_nat (i mod 256)"
  shows "runs (scan_pass load n (t, t, s)) (\<lambda>(tot, tot_verify, u). tot = tot_verify \<and> shows_to k u m)"
proof -
  have "runs (scan_pass load n (t, t, s))
    (\<lambda>(tot, tot_verify, u). tot = tot_verify \<and> shows_to (n + k - n) u m)"
    unfolding scan_pass_def
  proof (rule runs_foldE_upto [where I = "\<lambda>j (tot, tot_verify, u). tot = tot_verify \<and> shows_to (n + k - j) u m"])
    fix i and x :: "32 word \<times> 32 word \<times> 's" assume i: "i < n" and x: "case x of (tot, tot_verify, u) \<Rightarrow> tot = tot_verify \<and> shows_to (n + k - i) u m"
    obtain tt u where xe: "x = (tt, tt, u)" and "shows_to (n + k - i) u m" using x by auto
    then have u: "shows_to (Suc (n + k - Suc i)) u m" using i by (simp add: Suc_diff_Suc)
    have ld: "runs (load (int i) u) (\<lambda>(v, w). v = m (int i) \<and> shows_to (n + k - Suc i) w m)"
      using load_law [OF u, of "int i"] i assms(2) by simp
    show "runs (case x of (tot, tot_verify, s) \<Rightarrow>
         bindE (load (int i) s) (\<lambda>(v, s). Inr (tot + ucast v, tot_verify + word_of_nat (i mod 256), s)))
       (\<lambda>(tot, tot_verify, u). tot = tot_verify \<and> shows_to (n + k - Suc i) u m)"
      unfolding xe prod.case
      by (rule runs_bind_pairI [OF ld]) (use m i in \<open>simp add: byte_of_int_mod\<close>)
  qed (use assms in auto)
  then show ?thesis by simp
qed

lemma scan_ok:
  assumes "shows_to (11 * n + k) s m" "int n \<le> size_bytes"
  shows "runs (scan_program load store n s) (\<lambda>(good, tot, u). good \<and> (\<exists>m'. shows_to k u m'))"
proof -
  have "runs (foldE (\<lambda>j. scan_pass load n) [0..<10] (0, 0, u))
    (\<lambda>(tot, tot_verify, v). tot = tot_verify \<and> shows_to (10 * n + k - 10 * n) v m)"
    if u: "shows_to (10 * n + k) u m" "\<forall>i < n. m (int i) = word_of_nat (i mod 256)" for u m
  proof (rule runs_foldE_upto [where I = "\<lambda>j (tot, tot_verify, v). tot = tot_verify \<and> shows_to (10 * n + k - j * n) v m"])
    fix j :: nat and x :: "32 word \<times> 32 word \<times> 's" assume j: "j < 10" and x: "case x of (tot, tot_verify, v) \<Rightarrow> tot = tot_verify \<and> shows_to (10 * n + k - j * n) v m"
    obtain tt v where xe: "x = (tt, tt, v)" and v: "shows_to (10 * n + k - j * n) v m" using x by auto
    have "Suc j * n \<le> 10 * n" using j by (intro mult_right_mono) auto
    then have "10 * n + k - j * n = n + (10 * n + k - Suc j * n)" by (simp only: mult_Suc)
    then show "runs (scan_pass load n x) (\<lambda>(tot, tot_verify, v). tot = tot_verify \<and> shows_to (10 * n + k - Suc j * n) v m)"
      using scan_pass_ok [OF _ assms(2) u(2), of "10 * n + k - Suc j * n" v tt] v by (simp add: xe)
  qed (use u in auto)
  note pass = this [simplified add_diff_cancel_left']
  have "shows_to (n + (10 * n + k)) s m" using assms(1) by (simp add: algebra_simps)
  from scan_fill_ok [OF this assms(2)] show ?thesis
    unfolding scan_program_def
  proof (rule runs_bindI)
    fix u assume "\<exists>m'. shows_to (10 * n + k) u m' \<and> (\<forall>i < n. m' (int i) = word_of_nat (i mod 256))"
    then obtain m' where m': "shows_to (10 * n + k) u m'" "\<forall>i < n. m' (int i) = word_of_nat (i mod 256)" by blast
    show "runs (bindE (foldE (\<lambda>j. scan_pass load n) [0..<10] (0, 0, u)) (\<lambda>(tot, tot_verify, s). Inr (tot = tot_verify, tot, s)))
       (\<lambda>(good, tot, u). good \<and> (\<exists>m'. shows_to k u m'))"
      by (rule runs_bindI [OF pass [OF m']]) auto
  qed
qed

text \<open>The private copy of the focus program agrees with memory throughout.\<close>

definition agree :: "nat \<Rightarrow> nat \<Rightarrow> 's \<times> mem \<Rightarrow> bool" where
  "agree n k = (\<lambda>(s, dv). \<exists>m. shows_to k s m \<and> (\<forall>i < n. dv (int i) = m (int i)))"

lemma focus_clear_ok:
  assumes "shows_to (n + k) s m" "int n \<le> size_bytes"
  shows "runs (focus_clear store n (s, junk)) (agree n k)"
proof -
  have "runs (focus_clear store n (s, junk)) (agree n (n + k - n))"
    unfolding focus_clear_def
  proof (rule runs_foldE_upto [where I = "\<lambda>j. agree j (n + k - j)"])
    fix i and x :: "'s \<times> mem" assume i: "i < n" and x: "agree i (n + k - i) x"
    obtain u dv m' where xe: "x = (u, dv)" and m': "shows_to (n + k - i) u m'" "\<forall>j < i. dv (int j) = m' (int j)"
      using x by (cases x) (auto simp: agree_def)
    have "shows_to (Suc (n + k - Suc i)) u m'" using m' i by (simp add: Suc_diff_Suc)
    then have "runs (store (int i) 0 u) (\<lambda>w. shows_to (n + k - Suc i) w (m'(int i := 0)))"
      by (rule store_law) (use i assms(2) in auto)
    then show "runs (case x of (s, dv) \<Rightarrow> bindE (store (int i) 0 s) (\<lambda>s. Inr (s, dv(int i := 0)))) (agree (Suc i) (n + k - Suc i))"
      unfolding xe prod.case
    proof (rule runs_bindI)
      fix w assume "shows_to (n + k - Suc i) w (m'(int i := 0))"
      then show "runs (Inr (w, dv(int i := 0))) (agree (Suc i) (n + k - Suc i))"
        using m'(2) by (auto simp: agree_def less_Suc_eq intro!: exI [of _ "m'(int i := 0)"])
    qed
  qed (use assms in \<open>auto simp: agree_def\<close>)
  then show ?thesis by simp
qed

lemma focus_write_ok:
  assumes x: "agree n (Suc k) (s, dv)" and n: "0 < n" "int n \<le> size_bytes" "int n + 24 \<le> INT_MAX"
    and start: "0 \<le> start" "start < int n" and rs: "\<And>i. 0 \<le> rs i"
  shows "runs (focus_write store rs n start (s, dv, c)) (\<lambda>(s, dv, c). agree n k (s, dv))"
proof -
  obtain m where m: "shows_to (Suc k) s m" "\<forall>i < n. dv (int i) = m (int i)" using x by (auto simp: agree_def)
  have r: "0 \<le> rs c smod 25" "rs c smod 25 < 25" using smod_nonneg [OF rs [of c], of 25] by simp_all
  then have add: "int_add start (rs c smod 25) = Inr (start + rs c smod 25)"
    using start n(3) by (intro int_add_ok) (simp_all add: INT_MAX_def)
  define idx where "idx = (start + rs c smod 25) smod int n"
  have idx: "0 \<le> idx" "idx < int n" using r start n smod_nonneg [of "start + rs c smod 25" "int n"] by (simp_all add: idx_def)
  define val :: byte where "val = word_of_int (rs (c + 1))"
  have "runs (store idx val s) (\<lambda>u. shows_to k u (m(idx := val)))"
    using store_law [OF m(1), of idx val] idx n by simp
  then have "runs (bindE (store idx val s) (\<lambda>s. Inr (s, dv(idx := val), c + 2))) (\<lambda>(s, dv, c). agree n k (s, dv))"
    by (rule runs_bindI) (use m in \<open>auto simp: agree_def intro!: exI [of _ "m(idx := val)"]\<close>)
  then show ?thesis
    by (simp add: focus_write_def add Let_def idx_def [symmetric] val_def [symmetric, simplified])
qed

lemma focus_round_ok:
  assumes x: "agree n (100 + k) (s, dv)" and n: "0 < n" "int n \<le> size_bytes" "int n + 24 \<le> INT_MAX"
    and rs: "\<And>i. 0 \<le> rs i"
  shows "runs (focus_round store rs n (s, dv, c)) (\<lambda>(s, dv, c). agree n k (s, dv))"
proof -
  define start where "start = rs c smod int n"
  have start: "0 \<le> start" "start < int n" using smod_nonneg [OF rs [of c], of "int n"] n by (simp_all add: start_def)
  have "runs (foldE (\<lambda>i. focus_write store rs n start) [0..<100] (s, dv, c + 1))
    (\<lambda>(s, dv, c). agree n (100 + k - 100) (s, dv))"
  proof (rule runs_foldE_upto [where I = "\<lambda>j (s, dv, c). agree n (100 + k - j) (s, dv)"])
    fix i :: nat and y :: "'s \<times> mem \<times> nat"
    assume i: "i < 100" and y: "case y of (s, dv, c) \<Rightarrow> agree n (100 + k - i) (s, dv)"
    obtain u d e where ye: "y = (u, d, e)" by (cases y) auto
    have "Suc (100 + k - Suc i) = 100 + k - i" using i by arith
    then have "agree n (Suc (100 + k - Suc i)) (u, d)" using y by (simp only: ye prod.case)
    then show "runs (focus_write store rs n start y) (\<lambda>(s, dv, c). agree n (100 + k - Suc i) (s, dv))"
      unfolding ye by (rule focus_write_ok [OF _ n start rs])
  qed (use x in simp)
  then show ?thesis using n by (simp add: focus_round_def start_def)
qed

lemma focus_sum_ok:
  assumes x: "agree n (n + k) (s, dv)" and n: "int n \<le> size_bytes" "128 * int n \<le> INT_MAX"
  shows "runs (focus_sum load dv n (0, 0, s)) (\<lambda>(tot, tot_verify, u). tot = tot_verify \<and> (\<exists>m. shows_to k u m))"
proof -
  obtain m where m: "shows_to (n + k) s m" "\<forall>i < n. dv (int i) = m (int i)" using x by (auto simp: agree_def)
  have "runs (focus_sum load dv n (0, 0, s))
    (\<lambda>(tot, tot_verify, u). tot = tot_verify \<and> \<bar>tot\<bar> \<le> 128 * int n \<and> shows_to (n + k - n) u m)"
    unfolding focus_sum_def
  proof (rule runs_foldE_upto [where I = "\<lambda>j (tot, tot_verify, u). tot = tot_verify \<and> \<bar>tot\<bar> \<le> 128 * int j \<and> shows_to (n + k - j) u m"])
    fix i and y :: "int \<times> int \<times> 's"
    assume i: "i < n" and y: "case y of (tot, tot_verify, u) \<Rightarrow> tot = tot_verify \<and> \<bar>tot\<bar> \<le> 128 * int i \<and> shows_to (n + k - i) u m"
    obtain t u where ye: "y = (t, t, u)" and t: "\<bar>t\<bar> \<le> 128 * int i" and u: "shows_to (n + k - i) u m" using y by auto
    have u': "shows_to (Suc (n + k - Suc i)) u m" using u i by (simp add: Suc_diff_Suc)
    have ld: "runs (load (int i) u) (\<lambda>(v, w). v = m (int i) \<and> shows_to (n + k - Suc i) w m)"
      using load_law [OF u', of "int i"] i n by simp
    have b: "- 128 \<le> sint v" "sint v \<le> 127" for v :: byte
      using sint_ge [of v] sint_lt [of v] by simp_all
    have bb: "\<bar>t + sint (m (int i))\<bar> \<le> 128 * int (Suc i)" using b [of "m (int i)"] t by (simp add: abs_le_iff)
    moreover have "128 * int (Suc i) \<le> 128 * int n" using i by simp
    then have "128 * int (Suc i) \<le> INT_MAX" using n(2) by (rule order.trans)
    ultimately have add: "int_add t (sint (m (int i))) = Inr (t + sint (m (int i)))"
      by (intro int_add_ok) linarith+
    show "runs (case y of (tot, tot_verify, s) \<Rightarrow>
       bindE (load (int i) s) (\<lambda>(v, s). bindE (int_add tot (sint v)) (\<lambda>tot.
       bindE (int_add tot_verify (sint (dv (int i)))) (\<lambda>tot_verify. Inr (tot, tot_verify, s)))))
      (\<lambda>(tot, tot_verify, u). tot = tot_verify \<and> \<bar>tot\<bar> \<le> 128 * int (Suc i) \<and> shows_to (n + k - Suc i) u m)"
      unfolding ye prod.case
      by (rule runs_bind_pairI [OF ld]) (use m(2) i add bb in simp)
  qed (use m in simp)
  then show ?thesis by (rule runs_mono) auto
qed

lemma focus_ok:
  assumes "shows_to (2 * n + 10000 + k) s m" and n: "0 < n" "int n \<le> size_bytes" "128 * int n \<le> INT_MAX"
    and rs: "\<And>i. 0 \<le> rs i"
  shows "runs (focus_program load store rs n junk s) (\<lambda>(good, tot, u). good \<and> (\<exists>m'. shows_to k u m'))"
proof -
  have n24: "int n + 24 \<le> INT_MAX" using n by (simp add: INT_MAX_def)
  have s: "shows_to (n + (10000 + (n + k))) s m" using assms(1) by (simp add: algebra_simps)
  have rounds: "runs (foldE (\<lambda>j. focus_round store rs n) [0..<100] (u, dv, 0)) (\<lambda>(s, dv, c). agree n (n + k) (s, dv))"
    if "agree n (10000 + (n + k)) (u, dv)" for u dv
  proof -
    have "runs (foldE (\<lambda>j. focus_round store rs n) [0..<100] (u, dv, 0))
      (\<lambda>(s, dv, c). agree n (10000 + (n + k) - 100 * 100) (s, dv))"
    proof (rule runs_foldE_upto [where I = "\<lambda>j (s, dv, c). agree n (10000 + (n + k) - 100 * j) (s, dv)"])
      fix i :: nat and y :: "'s \<times> mem \<times> nat"
      assume i: "i < 100" and y: "case y of (s, dv, c) \<Rightarrow> agree n (10000 + (n + k) - 100 * i) (s, dv)"
      obtain w d e where ye: "y = (w, d, e)" by (cases y) auto
      have "10000 + (n + k) - 100 * i = 100 + (10000 + (n + k) - 100 * Suc i)" using i by simp
      then have "agree n (100 + (10000 + (n + k) - 100 * Suc i)) (w, d)" using y by (simp only: ye prod.case)
      then show "runs (focus_round store rs n y) (\<lambda>(s, dv, c). agree n (10000 + (n + k) - 100 * Suc i) (s, dv))"
        unfolding ye by (rule focus_round_ok [OF _ n(1,2) n24 rs])
    qed (use that in simp)
    then show ?thesis by simp
  qed
  show ?thesis
    unfolding focus_program_def
  proof (rule runs_bindI [OF focus_clear_ok [OF s n(2)]])
    fix x assume x: "agree n (10000 + (n + k)) x"
    obtain u dv where xe: "x = (u, dv)" by (cases x) auto
    show "runs (case x of (s, dv) \<Rightarrow> bindE (foldE (\<lambda>j. focus_round store rs n) [0..<100] (s, dv, 0))
        (\<lambda>(s, dv, c). bindE (focus_sum load dv n (0, 0, s)) (\<lambda>(tot, tot_verify, s). Inr (tot = tot_verify, tot, s))))
       (\<lambda>(good, tot, u). good \<and> (\<exists>m'. shows_to k u m'))"
      unfolding xe prod.case
    proof (rule runs_bindI [OF rounds])
      show "agree n (10000 + (n + k)) (u, dv)" using x xe by simp
      fix y :: "'s \<times> mem \<times> nat" assume y: "case y of (s, dv, c) \<Rightarrow> agree n (n + k) (s, dv)"
      obtain w d e where ye: "y = (w, d, e)" by (cases y) auto
      have "agree n (n + k) (w, d)" using y ye by simp
      from focus_sum_ok [OF this n(2,3)]
      show "runs (case y of (s, dv, c) \<Rightarrow> bindE (focus_sum load dv n (0, 0, s)) (\<lambda>(tot, tot_verify, s). Inr (tot = tot_verify, tot, s)))
         (\<lambda>(good, tot, u). good \<and> (\<exists>m'. shows_to k u m'))"
        unfolding ye prod.case by (rule runs_bindI) auto
    qed
  qed
qed

end

section \<open>The two memories\<close>

text \<open>
  The paging machine, which tries an access at most \<open>K\<close> times.  Before attempt \<open>i\<close> arrive \<open>ticks i\<close> timer
  signals; \<open>rnd j\<close> is what \<open>rand\<close> returns for the \<open>j\<close>-th disk read.  An access that is not done by then \<open>Hangs\<close>.
\<close>

definition tries :: "nat \<Rightarrow> (nat \<Rightarrow> nat) \<Rightarrow> (nat \<Rightarrow> nat) \<Rightarrow> vm_state \<Rightarrow> (nat \<times> int) list" where
  "tries K ticks rnd s = map (\<lambda>i. (ticks i, int (rnd (nat (disk_reads s) + i)))) [0..<K]"

definition vm_load :: "handler \<Rightarrow> nat \<Rightarrow> (nat \<Rightarrow> nat) \<Rightarrow> (nat \<Rightarrow> nat) \<Rightarrow> int \<Rightarrow> vm_state \<Rightarrow> (byte \<times> vm_state) result" where
  "vm_load h K ticks rnd a s =
     (case run_access h (tries K ticks rnd s) (Load a) s of
        Some (Inr (Loaded v, u)) \<Rightarrow> Inr (v, u)
      | Some (Inl e) \<Rightarrow> Inl e
      | _ \<Rightarrow> Inl Hangs)"

definition vm_store :: "handler \<Rightarrow> nat \<Rightarrow> (nat \<Rightarrow> nat) \<Rightarrow> (nat \<Rightarrow> nat) \<Rightarrow> int \<Rightarrow> byte \<Rightarrow> vm_state \<Rightarrow> vm_state result" where
  "vm_store h K ticks rnd a v s =
     (case run_access h (tries K ticks rnd s) (Store a v) s of
        Some (Inr (Stored, u)) \<Rightarrow> Inr u
      | Some (Inl e) \<Rightarrow> Inl e
      | _ \<Rightarrow> Inl Hangs)"

text \<open>All but three of the \<open>K\<close> attempts may be lost to signals that precede a retry.\<close>

definition lets_finish :: "nat \<Rightarrow> (nat \<Rightarrow> nat) \<Rightarrow> bool" where
  "lets_finish K ticks \<longleftrightarrow> 3 + length (filter (\<lambda>i. 0 < ticks i) [1..<K]) \<le> K"

definition access_cost :: "nat \<Rightarrow> (nat \<Rightarrow> nat) \<Rightarrow> nat" where
  "access_cost K ticks = K + (\<Sum>i<K. ticks i)"

lemma tries_events: "events (tries K ticks rnd s) = access_cost K ticks"
proof -
  have "events (tries K ticks rnd s) = (\<Sum>i \<leftarrow> [0..<K]. ticks i + 1)"
    by (simp add: events_def tries_def comp_def)
  also have "\<dots> = access_cost K ticks"
    by (simp only: interv_sum_list_conv_sum_set_nat set_upt atLeast0LessThan sum.distrib access_cost_def) simp
  finally show ?thesis .
qed

lemma tries_delays: "delays (tl (tries K ticks rnd s)) = length (filter (\<lambda>i. 0 < ticks i) [1..<K])"
proof -
  have "tl (tries K ticks rnd s) = map (\<lambda>i. (ticks i, int (rnd (nat (disk_reads s) + i)))) [1..<K]"
    by (simp add: tries_def map_tl [symmetric])
  then show ?thesis by (simp add: delays_def filter_map comp_def)
qed

lemma vm_access_ok:
  assumes "vm_inv h s m" "within (access_cost K ticks + n) h s" "0 \<le> access_addr a" "access_addr a < npages s * PAGE_SIZE"
    and "lets_finish K ticks"
  obtains u where "run_access h (tries K ticks rnd s) a s = Some (Inr (fst (flat a m), u))"
    "vm_inv h u (snd (flat a m))" "later s u" "within n h u"
proof -
  have "\<forall>(k, r) \<in> set (tries K ticks rnd s). 0 \<le> r" by (auto simp: tries_def)
  moreover have "3 + delays (tl (tries K ticks rnd s)) \<le> length (tries K ticks rnd s)"
    using assms(5) unfolding tries_delays by (simp add: lets_finish_def tries_def)
  ultimately show ?thesis
    using access_completes [of h s m a "tries K ticks rnd s" n] assms that by (auto simp: addr_ok_def tries_events)
qed

text \<open>Without signals three attempts are always enough.\<close>

lemma no_signals: "lets_finish 3 (\<lambda>_. 0)" "access_cost 3 (\<lambda>_. 0) = 3"
  by (simp_all add: lets_finish_def access_cost_def)

definition vm_shows :: "handler \<Rightarrow> int \<Rightarrow> nat \<Rightarrow> vm_state \<Rightarrow> mem \<Rightarrow> bool" where
  "vm_shows h np n s m \<longleftrightarrow> vm_inv h s m \<and> npages s = np \<and> within (3 * n) h s"

lemma vm_access:
  assumes "vm_shows h np (Suc n) s m" "0 \<le> access_addr a" "access_addr a < np * PAGE_SIZE"
  obtains u where "run_access h (tries 3 (\<lambda>_. 0) rnd s) a s = Some (Inr (fst (flat a m), u))"
    "vm_shows h np n u (snd (flat a m))"
proof -
  have "vm_inv h s m" "within (access_cost 3 (\<lambda>_. 0) + 3 * n) h s" "access_addr a < npages s * PAGE_SIZE"
    using assms by (simp_all add: vm_shows_def no_signals(2))
  from vm_access_ok [OF this(1,2) assms(2) this(3) no_signals(1), of rnd] show ?thesis
    using that assms(1) by (auto simp: vm_shows_def later_def)
qed

interpretation paged: byte_memory "vm_load h 3 (\<lambda>_. 0) rnd" "vm_store h 3 (\<lambda>_. 0) rnd" "vm_shows h np" "np * PAGE_SIZE"
proof unfold_locales
  fix n s m a
  assume "vm_shows h np (Suc n) s m" "0 \<le> a" "a < np * PAGE_SIZE"
  then obtain u where "run_access h (tries 3 (\<lambda>_. 0) rnd s) (Load a) s = Some (Inr (fst (flat (Load a) m), u))"
    "vm_shows h np n u (snd (flat (Load a) m))"
    using vm_access [of h np n s m "Load a" rnd] by auto
  then show "runs (vm_load h 3 (\<lambda>_. 0) rnd a s) (\<lambda>(v, u). v = m a \<and> vm_shows h np n u m)"
    by (simp add: vm_load_def)
next
  fix n s m a v
  assume "vm_shows h np (Suc n) s m" "0 \<le> a" "a < np * PAGE_SIZE"
  then obtain u where "run_access h (tries 3 (\<lambda>_. 0) rnd s) (Store a v) s = Some (Inr (fst (flat (Store a v) m), u))"
    "vm_shows h np n u (snd (flat (Store a v) m))"
    using vm_access [of h np n s m "Store a v" rnd] by auto
  then show "runs (vm_store h 3 (\<lambda>_. 0) rnd a v s) (\<lambda>u. vm_shows h np n u (m(a := v)))"
    by (simp add: vm_store_def)
qed

text \<open>Flat memory, the reference.\<close>

definition flat_load :: "int \<Rightarrow> mem \<Rightarrow> (byte \<times> mem) result" where
  "flat_load a m = Inr (m a, m)"

definition flat_store :: "int \<Rightarrow> byte \<Rightarrow> mem \<Rightarrow> mem result" where
  "flat_store a v m = Inr (m(a := v))"

interpretation flat: byte_memory flat_load flat_store "\<lambda>n s m. s = m" size_bytes
  by unfold_locales (simp_all add: flat_load_def flat_store_def)

end
