(* ===== verification/VmSort.thy ===== *)
theory VmSort
  imports VmPrograms "HOL-Library.Multiset"
begin

text \<open>
  The sort program of \<open>project_3/program.cpp\<close>.  \<open>qsort\<close> is the C library's: for a comparison function and
  a length it is a program of reads and writes of the array, \<open>accesses\<close>, which depends on what
  it reads.  The program runs it on virtual memory and on an array of its own.
\<close>

section \<open>The C library's qsort\<close>

datatype accesses = Finished | Fetch int "byte \<Rightarrow> accesses" | Put int byte accesses

primrec perform_all ::
  "(int \<Rightarrow> 's \<Rightarrow> (byte \<times> 's) result) \<Rightarrow> (int \<Rightarrow> byte \<Rightarrow> 's \<Rightarrow> 's result) \<Rightarrow> accesses \<Rightarrow> 's \<Rightarrow> 's result" where
  "perform_all load store Finished s = Inr s"
| "perform_all load store (Fetch a f) s = bindE (load a s) (\<lambda>(v, s). perform_all load store (f v) s)"
| "perform_all load store (Put a v q) s = bindE (store a v s) (perform_all load store q)"

text \<open>What it does to a memory, and that it stays within \<open>n\<close> bytes and \<open>k\<close> accesses.\<close>

primrec on_memory :: "accesses \<Rightarrow> mem \<Rightarrow> mem" where
  "on_memory Finished m = m"
| "on_memory (Fetch a f) m = on_memory (f (m a)) m"
| "on_memory (Put a v q) m = on_memory q (m(a := v))"

primrec stays :: "nat \<Rightarrow> accesses \<Rightarrow> nat \<Rightarrow> mem \<Rightarrow> bool" where
  "stays n Finished k m \<longleftrightarrow> True"
| "stays n (Fetch a f) k m \<longleftrightarrow> 0 \<le> a \<and> a < int n \<and> 0 < k \<and> stays n (f (m a)) (k - 1) m"
| "stays n (Put a v q) k m \<longleftrightarrow> 0 \<le> a \<and> a < int n \<and> 0 < k \<and> stays n q (k - 1) (m(a := v))"

definition first_bytes :: "nat \<Rightarrow> mem \<Rightarrow> byte list" where
  "first_bytes n m = map (\<lambda>i. m (int i)) [0..<n]"

text \<open>
  What the C standard says of \<open>qsort\<close>: it sorts the array by the comparison.  That it needs at most \<open>k\<close>
  accesses is not said there.
\<close>

definition sorts :: "(byte \<Rightarrow> byte \<Rightarrow> int) \<Rightarrow> nat \<Rightarrow> nat \<Rightarrow> accesses \<Rightarrow> bool" where
  "sorts compar n k q \<longleftrightarrow> (\<forall>m. stays n q k m \<and> mset (first_bytes n (on_memory q m)) = mset (first_bytes n m) \<and>
     sorted_wrt (\<lambda>x y. compar x y \<le> 0) (first_bytes n (on_memory q m)))"

section \<open>The program\<close>

text \<open>The array \<open>data_verify\<close> of \<open>n\<close> bytes.\<close>

definition own_load :: "nat \<Rightarrow> int \<Rightarrow> mem \<Rightarrow> (byte \<times> mem) result" where
  "own_load n a m = (if 0 \<le> a \<and> a < int n then Inr (m a, m) else Inl OutOfBounds)"

definition own_store :: "nat \<Rightarrow> int \<Rightarrow> byte \<Rightarrow> mem \<Rightarrow> mem result" where
  "own_store n a v m = (if 0 \<le> a \<and> a < int n then Inr (m(a := v)) else Inl OutOfBounds)"

definition sort_fill :: "(int \<Rightarrow> byte \<Rightarrow> 's \<Rightarrow> 's result) \<Rightarrow> (nat \<Rightarrow> int) \<Rightarrow> nat \<Rightarrow> 's \<times> mem \<Rightarrow> ('s \<times> mem) result" where
  "sort_fill store rs n = foldE (\<lambda>i (s, data_verify).
     let val = word_of_int (rs i) in
     bindE (store (int i) val s) (\<lambda>s.
     bindE (own_store n (int i) val data_verify) (\<lambda>data_verify. Inr (s, data_verify)))) [0..<n]"

definition sort_sum ::
  "(int \<Rightarrow> 's \<Rightarrow> (byte \<times> 's) result) \<Rightarrow> mem \<Rightarrow> nat \<Rightarrow> int \<times> int \<times> 's \<Rightarrow> (int \<times> int \<times> 's) result" where
  "sort_sum load data_verify n = foldE (\<lambda>i (tot, tot_verify, s).
     bindE (load (int i) s) (\<lambda>(v, s).
     bindE (int_add tot (sint v)) (\<lambda>tot.
     bindE (int_add tot_verify (sint (data_verify (int i)))) (\<lambda>tot_verify.
     Inr (tot, tot_verify, s))))) [0..<n]"

definition sort_program ::
  "(int \<Rightarrow> 's \<Rightarrow> (byte \<times> 's) result) \<Rightarrow> (int \<Rightarrow> byte \<Rightarrow> 's \<Rightarrow> 's result) \<Rightarrow> ((byte \<Rightarrow> byte \<Rightarrow> int) \<Rightarrow> nat \<Rightarrow> accesses) \<Rightarrow>
   (nat \<Rightarrow> int) \<Rightarrow> nat \<Rightarrow> mem \<Rightarrow> 's \<Rightarrow> (bool \<times> int \<times> 's) result" where
  "sort_program load store qsort rs n junk s =
     bindE (sort_fill store rs n (s, junk)) (\<lambda>(s, data_verify).
     bindE (perform_all load store (qsort compare_bytes n) s) (\<lambda>s.
     bindE (perform_all (own_load n) (own_store n) (qsort compare_bytes n) data_verify) (\<lambda>data_verify.
     bindE (sort_sum load data_verify n (0, 0, s)) (\<lambda>(tot, tot_verify, s).
     Inr (tot = tot_verify, tot, s)))))"

section \<open>Sorting on any memory that keeps the laws\<close>

locale budget_memory = byte_memory load store shows_to size_bytes
    for load :: "int \<Rightarrow> 's \<Rightarrow> (byte \<times> 's) result" and store :: "int \<Rightarrow> byte \<Rightarrow> 's \<Rightarrow> 's result"
      and shows_to :: "nat \<Rightarrow> 's \<Rightarrow> mem \<Rightarrow> bool" and size_bytes :: int +
  assumes fewer: "shows_to n s m \<Longrightarrow> k \<le> n \<Longrightarrow> shows_to k s m"

context budget_memory
begin

lemma perform_all_ok:
  assumes "shows_to (k + r) s m" "stays n q k m" "int n \<le> size_bytes"
  shows "runs (perform_all load store q s) (\<lambda>u. shows_to r u (on_memory q m))"
  using assms
proof (induction q arbitrary: s m k)
  case Finished
  then show ?case by (simp add: fewer)
next
  case (Fetch a f)
  then obtain j where k: "k = Suc j" by (cases k) auto
  have "runs (load a s) (\<lambda>(v, u). v = m a \<and> shows_to (j + r) u m)"
    by (rule load_law) (use Fetch.prems k in auto)
  then show ?case unfolding perform_all.simps
  proof (rule runs_bind_pairI)
    fix v u assume "v = m a \<and> shows_to (j + r) u m"
    then show "runs (perform_all load store (f v) u) (\<lambda>u. shows_to r u (on_memory (Fetch a f) m))"
      using Fetch.IH [of "f v" j u m] Fetch.prems k by simp
  qed
next
  case (Put a v q)
  then obtain j where k: "k = Suc j" by (cases k) auto
  have "runs (store a v s) (\<lambda>u. shows_to (j + r) u (m(a := v)))"
    by (rule store_law) (use Put.prems k in auto)
  then show ?case unfolding perform_all.simps on_memory.simps
    by (rule runs_bindI) (rule Put.IH [of j], use Put.prems k in \<open>simp_all del: fun_upd_apply\<close>)
qed

end

interpretation own: budget_memory "own_load n" "own_store n" "\<lambda>k s m. s = m" "int n"
  by unfold_locales (simp_all add: own_load_def own_store_def)

text \<open>A sum of bytes stays within an \<open>int\<close>.\<close>

lemma sum_step:
  assumes t: "\<bar>t\<bar> \<le> 128 * int i" and n: "128 * int n \<le> INT_MAX" and i: "i < n"
  shows "int_add t (sint (b :: byte)) = Inr (t + sint b)" "\<bar>t + sint b\<bar> \<le> 128 * int (Suc i)"
proof -
  have "- 128 \<le> sint b" "sint b \<le> 127" using sint_ge [of b] sint_lt [of b] by simp_all
  then show bb: "\<bar>t + sint b\<bar> \<le> 128 * int (Suc i)" using t by (simp add: abs_le_iff)
  have "128 * int (Suc i) \<le> 128 * int n" using i by simp
  then have "128 * int (Suc i) \<le> INT_MAX" using n by (rule order.trans)
  then show "int_add t (sint b) = Inr (t + sint b)" using bb by (intro int_add_ok) linarith+
qed

text \<open>Two memories with the same bytes are treated alike.\<close>

lemma first_bytes_eq: "first_bytes n m = first_bytes n m' \<longleftrightarrow> (\<forall>i < n. m (int i) = m' (int i))"
  by (auto simp: first_bytes_def)

lemma on_memory_same:
  assumes "stays n q k m" "first_bytes n m = first_bytes n m'"
  shows "stays n q k m' \<and> first_bytes n (on_memory q m) = first_bytes n (on_memory q m')"
  using assms
proof (induction q arbitrary: k m m')
  case (Fetch a f)
  then have a: "0 \<le> a" "nat a < n" "0 < k" "stays n (f (m a)) (k - 1) m" by auto
  have "m (int (nat a)) = m' (int (nat a))" using Fetch.prems(2) a(2) unfolding first_bytes_eq by blast
  then have "m a = m' a" using a(1) by simp
  moreover have "stays n (f (m a)) (k - 1) m' \<and> first_bytes n (on_memory (f (m a)) m) = first_bytes n (on_memory (f (m a)) m')"
    by (rule Fetch.IH [OF rangeI a(4) Fetch.prems(2)])
  ultimately show ?case using Fetch.prems(1) by simp
next
  case (Put a v q)
  have "first_bytes n (m(a := v)) = first_bytes n (m'(a := v))" using Put.prems(2) by (auto simp: first_bytes_eq)
  then have "stays n q (k - 1) (m'(a := v)) \<and> first_bytes n (on_memory q (m(a := v))) = first_bytes n (on_memory q (m'(a := v)))"
    using Put.prems(1) by (intro Put.IH) (simp_all del: fun_upd_apply)
  then show ?case using Put.prems(1) by simp
qed simp

context budget_memory
begin

lemma sort_fill_ok:
  assumes "shows_to (n + k) s m" "int n \<le> size_bytes"
  shows "runs (sort_fill store rs n (s, junk)) (\<lambda>(u, dv). \<exists>m'. shows_to k u m' \<and> (\<forall>i < n. m' (int i) = word_of_int (rs i) \<and> dv (int i) = m' (int i)))"
proof -
  let ?I = "\<lambda>j (u, dv). \<exists>m'. shows_to (n + k - j) u m' \<and> (\<forall>i < j. m' (int i) = word_of_int (rs i) \<and> dv (int i) = m' (int i))"
  have "runs (sort_fill store rs n (s, junk)) (?I n)"
    unfolding sort_fill_def
  proof (rule runs_foldE_upto [where I = ?I])
    fix i and x :: "'s \<times> mem" assume i: "i < n" and x: "?I i x"
    obtain u dv m' where xe: "x = (u, dv)" and m': "shows_to (n + k - i) u m'" "\<forall>j < i. m' (int j) = word_of_int (rs j) \<and> dv (int j) = m' (int j)"
      using x by (cases x) auto
    let ?v = "word_of_int (rs i) :: byte"
    have "shows_to (Suc (n + k - Suc i)) u m'" using m' i by (simp add: Suc_diff_Suc)
    then have "runs (store (int i) ?v u) (\<lambda>w. shows_to (n + k - Suc i) w (m'(int i := ?v)))"
      by (rule store_law) (use i assms(2) in auto)
    then have "runs (bindE (store (int i) ?v u) (\<lambda>s. bindE (own_store n (int i) ?v dv) (\<lambda>dv. Inr (s, dv)))) (?I (Suc i))"
    proof (rule runs_bindI)
      fix w assume "shows_to (n + k - Suc i) w (m'(int i := ?v))"
      then show "runs (bindE (own_store n (int i) ?v dv) (\<lambda>dv. Inr (w, dv))) (?I (Suc i))"
        using m'(2) i by (auto simp: own_store_def less_Suc_eq intro!: exI [of _ "m'(int i := ?v)"])
    qed
    then show "runs (case x of (s, dv) \<Rightarrow> let val = word_of_int (rs i) in bindE (store (int i) val s) (\<lambda>s.
        bindE (own_store n (int i) val dv) (\<lambda>dv. Inr (s, dv)))) (?I (Suc i))"
      by (simp add: xe Let_def)
  qed (use assms in auto)
  then show ?thesis by simp
qed

lemma sort_sum_ok:
  assumes s: "shows_to (n + k) s m" and dv: "\<forall>i < n. dv (int i) = m (int i)" and n: "int n \<le> size_bytes" "128 * int n \<le> INT_MAX"
  shows "runs (sort_sum load dv n (0, 0, s)) (\<lambda>(tot, tot_verify, u). tot = tot_verify \<and> shows_to k u m)"
proof -
  let ?I = "\<lambda>j (tot, tot_verify, u). tot = tot_verify \<and> \<bar>tot\<bar> \<le> 128 * int j \<and> shows_to (n + k - j) u m"
  have "runs (sort_sum load dv n (0, 0, s)) (?I n)"
    unfolding sort_sum_def
  proof (rule runs_foldE_upto [where I = ?I])
    fix i and y :: "int \<times> int \<times> 's" assume i: "i < n" and y: "?I i y"
    obtain t u where ye: "y = (t, t, u)" and t: "\<bar>t\<bar> \<le> 128 * int i" and "shows_to (n + k - i) u m" using y by auto
    then have u: "shows_to (Suc (n + k - Suc i)) u m" using i by (simp add: Suc_diff_Suc)
    have ld: "runs (load (int i) u) (\<lambda>(v, w). v = m (int i) \<and> shows_to (n + k - Suc i) w m)"
      using load_law [OF u, of "int i"] i n by simp
    note step = sum_step [OF t n(2) i, of "m (int i)"]
    show "runs (case y of (tot, tot_verify, s) \<Rightarrow> bindE (load (int i) s) (\<lambda>(v, s). bindE (int_add tot (sint v)) (\<lambda>tot.
       bindE (int_add tot_verify (sint (dv (int i)))) (\<lambda>tot_verify. Inr (tot, tot_verify, s))))) (?I (Suc i))"
      unfolding ye prod.case
      by (rule runs_bind_pairI [OF ld]) (use dv i step in simp)
  qed (use s in simp)
  then show ?thesis by (rule runs_mono) auto
qed

text \<open>The sort program reports success, and leaves its random bytes sorted.\<close>

lemma sort_ok:
  assumes s: "shows_to (2 * n + k + r) s m" and n: "int n \<le> size_bytes" "128 * int n \<le> INT_MAX"
    and q: "sorts compare_bytes n k (qsort compare_bytes n)"
  shows "runs (sort_program load store qsort rs n junk s) (\<lambda>(good, tot, u). good \<and> (\<exists>m'. shows_to r u m' \<and>
    mset (first_bytes n m') = mset (map (\<lambda>i. word_of_int (rs i)) [0..<n]) \<and> sorted_wrt (\<lambda>x y. sint x \<le> sint y) (first_bytes n m')))"
proof -
  let ?q = "qsort compare_bytes n"
  have "2 * n + k + r = n + (k + (n + r))" by simp
  then have "shows_to (n + (k + (n + r))) s m" using s by (simp only:)
  from sort_fill_ok [OF this n(1), of rs junk] obtain u dv m1 where
    fill: "sort_fill store rs n (s, junk) = Inr (u, dv)" and u: "shows_to (k + (n + r)) u m1"
    and m1: "\<forall>i < n. m1 (int i) = word_of_int (rs i) \<and> dv (int i) = m1 (int i)" by (auto simp: runs_iff)
  have same: "first_bytes n m1 = first_bytes n dv" using m1 by (simp add: first_bytes_eq)
  have st: "stays n ?q k m1" "stays n ?q k dv" using q by (simp_all add: sorts_def)
  obtain w where w: "perform_all load store ?q u = Inr w" "shows_to (n + r) w (on_memory ?q m1)"
    using perform_all_ok [OF u st(1) n(1)] by (auto simp: runs_iff)
  have d: "perform_all (own_load n) (own_store n) ?q dv = Inr (on_memory ?q dv)"
    using own.perform_all_ok [OF refl st(2) order_refl] by (auto simp: runs_iff)
  have "\<forall>i < n. on_memory ?q dv (int i) = on_memory ?q m1 (int i)"
    using on_memory_same [OF st(1) same] by (simp add: first_bytes_eq)
  from sort_sum_ok [OF w(2) this n] obtain t v where
    sum: "sort_sum load (on_memory ?q dv) n (0, 0, w) = Inr (t, t, v)" "shows_to r v (on_memory ?q m1)" by (auto simp: runs_iff)
  have "mset (first_bytes n (on_memory ?q m1)) = mset (first_bytes n m1)" using q by (simp add: sorts_def)
  moreover have "first_bytes n m1 = map (\<lambda>i. word_of_int (rs i)) [0..<n]" using m1 by (simp add: first_bytes_def)
  moreover have "sorted_wrt (\<lambda>x y. sint x \<le> sint y) (first_bytes n (on_memory ?q m1))"
  proof -
    have "sorted_wrt (\<lambda>x y. compare_bytes x y \<le> 0) (first_bytes n (on_memory ?q m1))" using q by (simp add: sorts_def)
    then show ?thesis by (rule sorted_wrt_mono_rel [rotated]) (auto simp: compare_bytes_def Let_def split: if_splits)
  qed
  ultimately show ?thesis using fill w(1) d sum by (auto simp: sort_program_def)
qed

end

section \<open>A qsort\<close>

text \<open>One that reads the array, sorts what it has read by insertion, and writes it back.\<close>

fun fetch_all :: "nat \<Rightarrow> nat \<Rightarrow> (byte list \<Rightarrow> accesses) \<Rightarrow> accesses" where
  "fetch_all i 0 f = f []"
| "fetch_all i (Suc j) f = Fetch (int i) (\<lambda>b. fetch_all (Suc i) j (\<lambda>bs. f (b # bs)))"

fun put_all :: "nat \<Rightarrow> byte list \<Rightarrow> accesses" where
  "put_all i [] = Finished"
| "put_all i (b # bs) = Put (int i) b (put_all (Suc i) bs)"

fun insert_by :: "(byte \<Rightarrow> byte \<Rightarrow> int) \<Rightarrow> byte \<Rightarrow> byte list \<Rightarrow> byte list" where
  "insert_by compar x [] = [x]"
| "insert_by compar x (y # ys) = (if compar x y \<le> 0 then x # y # ys else y # insert_by compar x ys)"

definition insertion_qsort :: "(byte \<Rightarrow> byte \<Rightarrow> int) \<Rightarrow> nat \<Rightarrow> accesses" where
  "insertion_qsort compar n = fetch_all 0 n (\<lambda>bs. put_all 0 (foldr (insert_by compar) bs []))"

lemma fetch_all_run:
  assumes "i + j \<le> n"
  shows "on_memory (fetch_all i j f) m = on_memory (f (map (\<lambda>x. m (int x)) [i..<i + j])) m"
    and "stays n (f (map (\<lambda>x. m (int x)) [i..<i + j])) k m \<Longrightarrow> stays n (fetch_all i j f) (j + k) m"
  using assms
proof (induction j arbitrary: i f)
  case (Suc j)
  have u: "[i..<i + Suc j] = i # [Suc i..<Suc i + j]" for i by (simp add: upt_conv_Cons)
  {
    case 1
    then show ?case unfolding u using Suc.IH(1) [where i = "Suc i" and f = "\<lambda>bs. f (m (int i) # bs)"] by (simp del: upt_Suc)
  next
    case 2
    then show ?case unfolding u using Suc.IH(2) [where i = "Suc i" and f = "\<lambda>bs. f (m (int i) # bs)"] by (simp del: upt_Suc)
  }
qed simp_all

lemma put_all_run:
  assumes "i + length bs \<le> n"
  shows "on_memory (put_all i bs) m = (\<lambda>a. if int i \<le> a \<and> a < int (i + length bs) then bs ! nat (a - int i) else m a)"
    and "stays n (put_all i bs) (length bs) m"
  using assms
proof (induction bs arbitrary: i m)
  case (Cons b bs)
  {
    case 1
    have "on_memory (put_all (Suc i) bs) (m(int i := b)) =
      (\<lambda>a. if int (Suc i) \<le> a \<and> a < int (Suc i + length bs) then bs ! nat (a - int (Suc i)) else (m(int i := b)) a)"
      using 1 by (intro Cons.IH(1)) simp
    moreover have "nat (a - int i) = Suc (nat (a - int (Suc i)))" if "int i < a" for a using that by simp
    ultimately show ?case by (auto simp: fun_eq_iff)
  next
    case 2
    then show ?case using Cons.IH(2) [of "Suc i" "m(int i := b)"] by (simp del: fun_upd_apply)
  }
qed (auto simp: fun_eq_iff)

lemma insert_by_props:
  "mset (insert_by compar x ys) = add_mset x (mset ys)" "length (insert_by compar x ys) = Suc (length ys)"
  "sorted_wrt (\<lambda>x y. sint x \<le> sint y) ys \<Longrightarrow> sorted_wrt (\<lambda>x y. sint x \<le> sint y) (insert_by compare_bytes x ys)"
proof -
  show m: "mset (insert_by compar x ys) = add_mset x (mset ys)" for compar by (induction ys) auto
  then show "length (insert_by compar x ys) = Suc (length ys)" by (metis size_add_mset size_mset)
  have s: "set (insert_by compare_bytes x ys) = insert x (set ys)" for ys by (induction ys) auto
  show "sorted_wrt (\<lambda>x y. sint x \<le> sint y) ys \<Longrightarrow> sorted_wrt (\<lambda>x y. sint x \<le> sint y) (insert_by compare_bytes x ys)"
    by (induction ys) (auto simp: s compare_bytes_def Let_def split: if_splits)
qed

lemma insertion_qsort_sorts: "sorts compare_bytes n (2 * n) (insertion_qsort compare_bytes n)"
  unfolding sorts_def
proof (intro allI)
  fix m
  let ?bs = "first_bytes n m" and ?q = "insertion_qsort compare_bytes n"
  define cs where "cs = foldr (insert_by compare_bytes) ?bs []"
  have c: "mset (foldr (insert_by compare_bytes) bs []) = mset bs"
    "sorted_wrt (\<lambda>x y. sint x \<le> sint y) (foldr (insert_by compare_bytes) bs [])" for bs
    by (induction bs) (simp_all add: insert_by_props)
  have cs: "mset cs = mset ?bs" "sorted_wrt (\<lambda>x y. sint x \<le> sint y) cs" "length cs = n"
    using c [of ?bs] mset_eq_length [OF c(1) [of ?bs]] by (simp_all add: cs_def first_bytes_def)
  note p = put_all_run [of 0 cs n m]
  have f: "map (\<lambda>x. m (int x)) [0..<0 + n] = ?bs" by (simp add: first_bytes_def)
  note g = fetch_all_run [of 0 n n "\<lambda>bs. put_all 0 (foldr (insert_by compare_bytes) bs [])" m, unfolded f, folded cs_def insertion_qsort_def]
  have "first_bytes n (on_memory ?q m) = cs" using p(1) g(1) cs(3) by (auto simp: first_bytes_def intro: nth_equalityI)
  moreover have "stays n ?q (2 * n) m" using p(2) g(2) [of n] cs(3) by (simp add: mult_2)
  moreover have "sorted_wrt (\<lambda>x y. compare_bytes x y \<le> 0) cs"
    by (rule sorted_wrt_mono_rel [OF _ cs(2)]) (auto simp: compare_bytes_def Let_def)
  ultimately show "stays n ?q (2 * n) m \<and> mset (first_bytes n (on_memory ?q m)) = mset ?bs \<and>
      sorted_wrt (\<lambda>x y. compare_bytes x y \<le> 0) (first_bytes n (on_memory ?q m))" using cs(1) by simp
qed

end
