(* ===== verification/VmWhole.thy ===== *)
theory VmWhole
  imports VmSort
begin

text \<open>
  The whole paging program, \<open>main\<close> of \<open>project_3/main.cpp\<close>: start-up, one of the user programs on the paging
  machine, the numbers it prints, and the end.  Before attempt \<open>i\<close> of access \<open>j\<close> of the user program
  \<open>ticks j i\<close> timer signals arrive; the machine tries an access \<open>K\<close> times.
\<close>

section \<open>The paging machine with timer signals\<close>

definition timed_load :: "handler \<Rightarrow> nat \<Rightarrow> (nat \<Rightarrow> nat \<Rightarrow> nat) \<Rightarrow> (nat \<Rightarrow> nat) \<Rightarrow> int \<Rightarrow> nat \<times> vm_state \<Rightarrow> (byte \<times> nat \<times> vm_state) result" where
  "timed_load h K ticks rnd a = (\<lambda>(j, s). bindE (vm_load h K (ticks j) rnd a s) (\<lambda>(v, s). Inr (v, j + 1, s)))"

definition timed_store :: "handler \<Rightarrow> nat \<Rightarrow> (nat \<Rightarrow> nat \<Rightarrow> nat) \<Rightarrow> (nat \<Rightarrow> nat) \<Rightarrow> int \<Rightarrow> byte \<Rightarrow> nat \<times> vm_state \<Rightarrow> (nat \<times> vm_state) result" where
  "timed_store h K ticks rnd a v = (\<lambda>(j, s). bindE (vm_store h K (ticks j) rnd a v s) (\<lambda>s. Inr (j + 1, s)))"

text \<open>What \<open>n\<close> more accesses may cost: their attempts, and the signals before these.\<close>

definition cost :: "nat \<Rightarrow> (nat \<Rightarrow> nat \<Rightarrow> nat) \<Rightarrow> nat \<Rightarrow> nat \<Rightarrow> nat" where
  "cost K ticks j n = (\<Sum>i<n. access_cost K (ticks (j + i)))"

definition timed_shows :: "handler \<Rightarrow> nat \<Rightarrow> (nat \<Rightarrow> nat \<Rightarrow> nat) \<Rightarrow> vm_state \<Rightarrow> nat \<Rightarrow> nat \<times> vm_state \<Rightarrow> mem \<Rightarrow> bool" where
  "timed_shows h K ticks s0 n = (\<lambda>(j, s) m. vm_inv h s m \<and> later s0 s \<and> within (cost K ticks j n) h s \<and> (\<forall>j. lets_finish K (ticks j)))"

lemma cost_Suc: "cost K ticks j (Suc n) = access_cost K (ticks j) + cost K ticks (Suc j) n"
  unfolding cost_def by (subst sum.lessThan_Suc_shift) simp

lemma cost_mono: "k \<le> n \<Longrightarrow> cost K ticks j k \<le> cost K ticks j n"
  unfolding cost_def by (intro sum_mono2) auto

lemma later_npages: "later s u \<Longrightarrow> npages u = npages s"
  by (simp add: later_def)

lemma timed_access:
  assumes "timed_shows h K ticks s0 (Suc n) (j, s) m" "0 \<le> access_addr a" "access_addr a < npages s0 * PAGE_SIZE"
  obtains u where "run_access h (tries K (ticks j) rnd s) a s = Some (Inr (fst (flat a m), u))"
    "timed_shows h K ticks s0 n (Suc j, u) (snd (flat a m))"
proof -
  have s: "vm_inv h s m" "later s0 s" "within (access_cost K (ticks j) + cost K ticks (Suc j) n) h s" "\<forall>j. lets_finish K (ticks j)"
    using assms(1) by (simp_all add: timed_shows_def cost_Suc)
  then have "access_addr a < npages s * PAGE_SIZE" "lets_finish K (ticks j)" using assms(3) later_npages by simp_all
  from vm_access_ok [OF s(1,3) assms(2) this, of rnd] show ?thesis
    using that s(2,4) by (auto simp: timed_shows_def intro: later_trans)
qed

interpretation timed: budget_memory "timed_load h K ticks rnd" "timed_store h K ticks rnd" "timed_shows h K ticks s0" "npages s0 * PAGE_SIZE"
proof unfold_locales
  fix n js m a
  assume sh: "timed_shows h K ticks s0 (Suc n) js m" and a: "0 \<le> a" "a < npages s0 * PAGE_SIZE"
  obtain j s where js: "js = (j, s)" by (cases js)
  obtain u where "run_access h (tries K (ticks j) rnd s) (Load a) s = Some (Inr (fst (flat (Load a) m), u))"
    "timed_shows h K ticks s0 n (Suc j, u) (snd (flat (Load a) m))"
    using timed_access [of h K ticks s0 n j s m "Load a"] sh a js by auto
  then show "runs (timed_load h K ticks rnd a js) (\<lambda>(v, u). v = m a \<and> timed_shows h K ticks s0 n u m)"
    by (simp add: js timed_load_def vm_load_def)
next
  fix n js m a v
  assume sh: "timed_shows h K ticks s0 (Suc n) js m" and a: "0 \<le> a" "a < npages s0 * PAGE_SIZE"
  obtain j s where js: "js = (j, s)" by (cases js)
  obtain u where "run_access h (tries K (ticks j) rnd s) (Store a v) s = Some (Inr (fst (flat (Store a v) m), u))"
    "timed_shows h K ticks s0 n (Suc j, u) (snd (flat (Store a v) m))"
    using timed_access [of h K ticks s0 n j s m "Store a v"] sh a js by auto
  then show "runs (timed_store h K ticks rnd a v js) (\<lambda>u. timed_shows h K ticks s0 n u (m(a := v)))"
    by (simp add: js timed_store_def vm_store_def)
next
  fix n js m k
  assume "timed_shows h K ticks s0 n js m" "k \<le> n"
  then show "timed_shows h K ticks s0 k js m"
    using within_mono cost_mono by (fastforce simp: timed_shows_def split: prod.splits)
qed

section \<open>The whole program\<close>

text \<open>Whether the program reports success, the result it prints, and the final state.\<close>

definition run_program ::
  "handler \<Rightarrow> nat \<Rightarrow> (nat \<Rightarrow> nat \<Rightarrow> nat) \<Rightarrow> (nat \<Rightarrow> nat) \<Rightarrow> ((byte \<Rightarrow> byte \<Rightarrow> int) \<Rightarrow> nat \<Rightarrow> accesses) \<Rightarrow> (nat \<Rightarrow> int) \<Rightarrow> mem \<Rightarrow> program \<Rightarrow> nat \<Rightarrow>
   vm_state \<Rightarrow> (bool \<times> int \<times> vm_state) result" where
  "run_program h K ticks rnd qsort rs own prog n s =
     (let load = timed_load h K ticks rnd; store = timed_store h K ticks rnd in
      case prog of
        Sort \<Rightarrow> bindE (sort_program load store qsort rs n own (0, s)) (\<lambda>(good, tot, j, s). Inr (good, tot, s))
      | Scan \<Rightarrow> bindE (scan_program load store n (0, s)) (\<lambda>(good, tot, j, s). Inr (good, uint tot, s))
      | Focus \<Rightarrow> bindE (focus_program load store rs n own (0, s)) (\<lambda>(good, tot, j, s). Inr (good, tot, s)))"

text \<open>The exit code, the line of the program, and the page faults, disk reads and disk writes.\<close>

definition vm_main ::
  "(nat \<Rightarrow> bool) \<Rightarrow> (string \<Rightarrow> int) \<Rightarrow> string list \<Rightarrow> bool \<Rightarrow> region \<Rightarrow> int \<Rightarrow> (nat \<Rightarrow> int) \<Rightarrow> nat \<Rightarrow> (nat \<Rightarrow> nat \<Rightarrow> nat) \<Rightarrow> (nat \<Rightarrow> nat) \<Rightarrow>
   ((byte \<Rightarrow> byte \<Rightarrow> int) \<Rightarrow> nat \<Rightarrow> accesses) \<Rightarrow> (nat \<Rightarrow> int) \<Rightarrow> mem \<Rightarrow> (int \<times> bool \<times> int \<times> int \<times> int \<times> int) result" where
  "vm_main os atoi argv open_ok old fd junk K ticks rnd qsort rs own =
     bindE (vm_boot os atoi argv open_ok old fd junk) (\<lambda>(h, prog, s).
     bindE (int_mul (atoi (argv ! 1)) PAGE_SIZE) (\<lambda>len.
     bindE (run_program h K ticks rnd qsort rs own prog (nat len) s) (\<lambda>(good, tot, s).
     bindE (disable_timer os) (\<lambda>_.
     Inr (0, good, tot, page_faults s, disk_reads s, disk_writes s)))))"

text \<open>The accesses a program makes on \<open>n\<close> bytes, if \<open>qsort\<close> makes \<open>k\<close>.\<close>

fun accesses_of :: "program \<Rightarrow> nat \<Rightarrow> nat \<Rightarrow> nat" where
  "accesses_of Sort n k = 2 * n + k"
| "accesses_of Scan n k = 11 * n"
| "accesses_of Focus n k = 2 * n + 10000"

lemma run_program_ok:
  assumes s: "timed_shows h K ticks s (accesses_of prog n k) (0, s) m" and n: "0 < n" "int n \<le> npages s * PAGE_SIZE" "128 * int n \<le> INT_MAX"
    and rs: "\<And>i. 0 \<le> rs i" and q: "sorts compare_bytes n k (qsort compare_bytes n)"
  shows "runs (run_program h K ticks rnd qsort rs own prog n s) (\<lambda>(good, tot, u). good \<and> (\<exists>m'. vm_inv h u m') \<and> later s u)"
proof (cases prog)
  case Sort
  then have "timed_shows h K ticks s (2 * n + k + 0) (0, s) m" using s by simp
  from timed.sort_ok [where qsort = qsort and rnd = rnd and rs = rs and junk = own, OF this n(2,3) q] show ?thesis
    by (auto simp: run_program_def Sort runs_iff timed_shows_def)
next
  case Scan
  then have "timed_shows h K ticks s (11 * n + 0) (0, s) m" using s by simp
  from timed.scan_ok [OF this n(2), of rnd] show ?thesis
    by (auto simp: run_program_def Scan runs_iff timed_shows_def)
next
  case Focus
  then have "timed_shows h K ticks s (2 * n + 10000 + 0) (0, s) m" using s by simp
  from timed.focus_ok [where rs = rs and rnd = rnd and junk = own, OF this n rs] show ?thesis
    by (auto simp: run_program_def Focus runs_iff timed_shows_def)
qed

lemma vm_main_runs:
  assumes a: "length argv = 5" "0 < atoi (argv ! 1)" "0 < atoi (argv ! 2)"
      "128 * (atoi (argv ! 1) * PAGE_SIZE) \<le> INT_MAX" "atoi (argv ! 2) * PAGE_SIZE \<le> INT_MAX"
    and c: "choose_algorithm os (argv ! 3) = Inr h" "choose_program (argv ! 4) (atoi (argv ! 1)) (atoi (argv ! 2)) = Inr prog"
    and os: "os 4" and fd: "0 < fd" and rs: "\<And>i. 0 \<le> rs i"
    and q: "sorts compare_bytes (nat (atoi (argv ! 1) * PAGE_SIZE)) k (qsort compare_bytes (nat (atoi (argv ! 1) * PAGE_SIZE)))"
    and fin: "\<And>j. lets_finish K (ticks j)" and few: "int (cost K ticks 0 (accesses_of prog (nat (atoi (argv ! 1) * PAGE_SIZE)) k)) \<le> INT_MAX"
  shows "runs (vm_main os atoi argv True old fd junk K ticks rnd qsort rs own) (\<lambda>(code, good, tot, faults, reads, writes).
    code = 0 \<and> good \<and> faults = reads \<and> 0 \<le> writes \<and> writes \<le> reads \<and>
    (atoi (argv ! 1) \<le> atoi (argv ! 2) \<longrightarrow> reads \<le> atoi (argv ! 1) \<and> writes = 0))"
proof -
  let ?len = "atoi (argv ! 1) * PAGE_SIZE" and ?n = "nat (atoi (argv ! 1) * PAGE_SIZE)"
  have len: "0 < ?len" "?len \<le> INT_MAX" using a(2,4) by (simp_all add: PAGE_SIZE_def)
  obtain s where s: "vm_boot os atoi argv True old fd junk = Inr (h, prog, s)" "npages s = atoi (argv ! 1)" "g_nframes s = atoi (argv ! 2)"
      "disk_reads s = 0" "vm_inv h s (reg_data (d_file (g_disk s)))" "\<And>n. int n \<le> INT_MAX \<Longrightarrow> within n h s"
    using vm_boot_runs [OF a(1-3) len(2) a(5) c fd] by blast
  have "timed_shows h K ticks s (accesses_of prog ?n k) (0, s) (reg_data (d_file (g_disk s)))"
    using s(5,6) few fin by (simp add: timed_shows_def later_refl)
  from run_program_ok [where qsort = qsort and rnd = rnd and own = own and rs = rs, OF this _ _ _ rs q] len a(4) s(2)
  obtain tot u m' where u: "run_program h K ticks rnd qsort rs own prog ?n s = Inr (True, tot, u)" "vm_inv h u m'" "later s u"
    by (auto simp: runs_iff)
  have "int_mul (atoi (argv ! 1)) PAGE_SIZE = Inr ?len" using len by (simp add: int_mul_def)
  then have "vm_main os atoi argv True old fd junk K ticks rnd qsort rs own = Inr (0, True, tot, page_faults u, disk_reads u, disk_writes u)"
    using s(1) u(1) os by (simp add: vm_main_def disable_timer_def)
  moreover have "counters_ok u" by (rule vm_invD [OF u(2)])
  ultimately show ?thesis using u(3) s(2-4) a(2) by (auto simp: counters_ok_def later_def)
qed

end
