(* ===== verification/VmProperties.thy ===== *)
theory VmProperties
  imports VmWhole
begin

unbundle bit_operations_syntax

text \<open>
  What the paging project (\<open>project_3\<close>) guarantees, stated over its operations.
\<close>

section \<open>A machine to try things on\<close>

text \<open>The arguments of a run with three pages and two frames.\<close>

definition small_args :: "string \<Rightarrow> string \<Rightarrow> string list" where
  "small_args policy prog = [''virtmem'', ''3'', ''2'', policy, prog]"

definition small_atoi :: "string \<Rightarrow> int" where
  "small_atoi a = (if a = ''3'' then 3 else if a = ''2'' then 2 else 0)"

definition timer_works :: "nat \<Rightarrow> bool" where
  "timer_works = (\<lambda>_. True)"

definition no_file :: region where
  "no_file = \<lparr>reg_len = 0, reg_data = (\<lambda>_. 0)\<rparr>"

lemma small_boot:
  assumes "choose_algorithm timer_works policy = Inr h"
  obtains s where "vm_boot timer_works small_atoi (small_args policy ''scan'') True no_file 3 (\<lambda>_. 0) = Inr (h, Scan, s)"
    "npages s = 3" "g_nframes s = 2" "disk_reads s = 0" "vm_inv h s (reg_data (d_file (g_disk s)))"
    "\<And>n. int n \<le> INT_MAX \<Longrightarrow> within n h s" "pt_assigned s" "idle_le 0 s"
proof -
  have "\<exists>s. vm_boot timer_works small_atoi (small_args policy ''scan'') True no_file 3 (\<lambda>_. 0) = Inr (h, Scan, s) \<and>
      npages s = small_atoi (small_args policy ''scan'' ! 1) \<and>
      g_nframes s = small_atoi (small_args policy ''scan'' ! 2) \<and> disk_reads s = 0 \<and>
      vm_inv h s (reg_data (d_file (g_disk s))) \<and> (\<forall>n. int n \<le> INT_MAX \<longrightarrow> within n h s) \<and>
      pt_assigned s \<and> idle_le 0 s"
    by (rule vm_boot_runs)
       (use assms in \<open>simp_all add: small_args_def small_atoi_def choose_program_def PAGE_SIZE_def INT_MAX_def\<close>)
  then show ?thesis using that by (auto simp: small_args_def small_atoi_def)
qed

section \<open>The properties\<close>

text \<open>
  C1.  Paging is invisible.  From a good state, any sequence of loads, stores and
  timer signals runs without a crash, whatever the policy; the accesses that
  complete return and store what flat memory would, faults and timer signals
  leave memory as it is, and the invariant holds again afterwards.
\<close>

theorem vm_run_refines_flat_memory:
  assumes "vm_inv h s m" "\<forall>e \<in> set es. event_ok (npages s) e" "within (length es) h s"
  shows "runs (vm_run h es s) (\<lambda>(outs, u). \<exists>m'. replays es outs m m' \<and> vm_inv h u m')"
  by (rule runs_mono [OF vm_run_sim [OF assms]]) auto

lemma vm_run_refines_flat_memory_witness:
  "\<exists>s. vm_boot timer_works small_atoi (small_args ''custom'' ''scan'') True no_file 3 (\<lambda>_. 0) = Inr (Custom, Scan, s) \<and>
     runs (vm_run Custom [Access (Store 5 7) 0, Tick, Access (Store 5 7) 0, Access (Load 5) 0] s)
       (\<lambda>(outs, u). \<exists>m'. replays [Access (Store 5 7) 0, Tick, Access (Store 5 7) 0, Access (Load 5) 0] outs
          (reg_data (d_file (g_disk s))) m' \<and> vm_inv Custom u m')"
proof -
  obtain s where s: "vm_boot timer_works small_atoi (small_args ''custom'' ''scan'') True no_file 3 (\<lambda>_. 0) = Inr (Custom, Scan, s)"
    "npages s = 3" "vm_inv Custom s (reg_data (d_file (g_disk s)))" "\<And>n. int n \<le> INT_MAX \<Longrightarrow> within n Custom s"
    using small_boot [of "''custom''" Custom] by (auto simp: choose_algorithm_def initialize_timer_def timer_works_def)
  show ?thesis
    using s vm_run_refines_flat_memory [OF s(3), of "[Access (Store 5 7) 0, Tick, Access (Store 5 7) 0, Access (Load 5) 0]"]
    by (auto simp: PAGE_SIZE_def INT_MAX_def)
qed

text \<open>
  C5.  A retried access completes, as on flat memory, under every policy: three attempts are enough, and one more
  for every retry that timer signals precede.  Each attempt is given with the number of signals that arrive before it.
\<close>

theorem vm_access_completes:
  assumes "vm_inv h s m" "0 \<le> access_addr a" "access_addr a < npages s * PAGE_SIZE"
    and "\<forall>(k, r) \<in> set attempts. 0 \<le> r" "within (events attempts) h s"
    and "3 + delays (tl attempts) \<le> length attempts"
  shows "\<exists>u. run_access h attempts a s = Some (Inr (fst (flat a m), u)) \<and> vm_inv h u (snd (flat a m))"
  using access_completes [of h s m a attempts 0] assms by (auto simp: addr_ok_def)

lemma vm_access_completes_witness:
  "\<exists>s u. vm_boot timer_works small_atoi (small_args ''custom'' ''scan'') True no_file 3 (\<lambda>_. 0) = Inr (Custom, Scan, s) \<and>
     run_access Custom [(2, 9), (0, 4), (1, 2), (0, 1)] (Store 8000 1) s = Some (Inr (Stored, u))"
proof -
  obtain s where s: "vm_boot timer_works small_atoi (small_args ''custom'' ''scan'') True no_file 3 (\<lambda>_. 0) = Inr (Custom, Scan, s)"
    "npages s = 3" "vm_inv Custom s (reg_data (d_file (g_disk s)))" "\<And>n. int n \<le> INT_MAX \<Longrightarrow> within n Custom s"
    using small_boot [of "''custom''" Custom] by (auto simp: choose_algorithm_def initialize_timer_def timer_works_def)
  show ?thesis
    using s vm_access_completes [OF s(3), of "Store 8000 1" "[(2, 9), (0, 4), (1, 2), (0, 1)]"] by (auto simp: PAGE_SIZE_def INT_MAX_def)
qed

text \<open>
  The bound cannot do without the signals: under the custom policy the first access to a page never completes if a timer
  signal arrives before every attempt, as each signal takes the rights away that the fault has given.
\<close>

theorem signals_starve_access:
  assumes "vm_inv Custom s m" "0 \<le> access_addr a" "access_addr a < npages s * PAGE_SIZE"
    and "\<forall>(k, r) \<in> set attempts. 0 < k \<and> 0 \<le> r" "within (events attempts) Custom s"
    and "pt_assigned s" "\<not> vtalrm_blocked s" "access_addr a div PAGE_SIZE \<notin> page_of s ` resident s"
  shows "run_access Custom attempts a s = None"
proof -
  have a: "addr_ok s a" using assms(2,3) by (simp add: addr_ok_def)
  have "bits_of s (access_addr a div PAGE_SIZE) = 0"
    by (rule absent_bits [OF vm_invD(3) [OF assms(1)] addr_page [OF a] assms(8)])
  then show ?thesis
    using starved_access [OF assms(1) a assms(4) _ assms(6,7), of 0] assms(5) by (simp add: exposed_def prot_defs)
qed

lemma signals_starve_access_witness:
  "\<exists>s. vm_boot timer_works small_atoi (small_args ''custom'' ''scan'') True no_file 3 (\<lambda>_. 0) = Inr (Custom, Scan, s) \<and>
     run_access Custom (replicate 1000 (1, 0)) (Load 0) s = None"
proof -
  obtain s where s: "vm_boot timer_works small_atoi (small_args ''custom'' ''scan'') True no_file 3 (\<lambda>_. 0) = Inr (Custom, Scan, s)"
    "npages s = 3" "disk_reads s = 0" "vm_inv Custom s (reg_data (d_file (g_disk s)))" "\<And>n. int n \<le> INT_MAX \<Longrightarrow> within n Custom s" "pt_assigned s"
    using small_boot [of "''custom''" Custom] by (auto simp: choose_algorithm_def initialize_timer_def timer_works_def)
  have "\<not> vtalrm_blocked s" by (rule vm_boot_unblocked [OF s(1)])
  moreover have "0 \<notin> page_of s ` resident s" using s(3) by (auto simp: resident_def)
  moreover have "within (events (replicate n (1, 0))) Custom s" if "int (2 * n) \<le> INT_MAX" for n
  proof -
    have "events (replicate n (1, 0)) = 2 * n" by (induction n) (simp_all add: events_def)
    then show ?thesis using s(5) that by simp
  qed
  ultimately show ?thesis
    using s signals_starve_access [OF s(4), of "Load 0" "replicate 1000 (1, 0)"] by (auto simp: PAGE_SIZE_def INT_MAX_def)
qed

text \<open>
  C14.  Start-up with five arguments, a known policy and program and sizes that fit an
  \<open>int\<close> succeeds, and the machine satisfies the invariant for the contents of the disk.
\<close>

theorem vm_boot_establishes_invariant:
  assumes "length argv = 5" "0 < atoi (argv ! 1)" "0 < atoi (argv ! 2)"
      "atoi (argv ! 1) * PAGE_SIZE \<le> INT_MAX" "atoi (argv ! 2) * PAGE_SIZE \<le> INT_MAX"
    and "choose_algorithm os (argv ! 3) = Inr h" "choose_program (argv ! 4) (atoi (argv ! 1)) (atoi (argv ! 2)) = Inr prog"
    and "0 < fd"
  shows "\<exists>s. vm_boot os atoi argv True old fd junk = Inr (h, prog, s) \<and> npages s = atoi (argv ! 1) \<and>
    g_nframes s = atoi (argv ! 2) \<and> vm_inv h s (reg_data (d_file (g_disk s)))"
  using vm_boot_runs [OF assms] by blast

lemma vm_boot_establishes_invariant_witness:
  "\<exists>s. vm_boot timer_works small_atoi (small_args ''fifo'' ''sort'') True no_file 7 (\<lambda>_. 5) = Inr (Fifo, Sort, s) \<and> npages s = 3 \<and>
    g_nframes s = 2 \<and> vm_inv Fifo s (reg_data (d_file (g_disk s)))"
  using vm_boot_establishes_invariant [of "small_args ''fifo'' ''sort''" small_atoi timer_works Fifo Sort 7 no_file "\<lambda>_. 5"]
  by (simp add: small_args_def small_atoi_def choose_program_def choose_algorithm_def initialize_timer_def timer_works_def PAGE_SIZE_def INT_MAX_def)

text \<open>
  C15.  When there is a frame for every page, no run reads a page twice from the
  disk or ever writes the disk; the page faults counted are exactly the disk reads.
\<close>

theorem vm_enough_frames_no_writes:
  assumes "vm_inv h s m" "\<forall>e \<in> set es. event_ok (npages s) e" "within (length es) h s"
    and "npages s \<le> g_nframes s" "disk_reads s \<le> npages s"
  shows "runs (vm_run h es s) (\<lambda>(outs, u). disk_reads u \<le> npages s \<and> page_faults u = disk_reads u \<and> disk_writes u = 0)"
proof (rule runs_mono [OF vm_run_sim [OF assms(1-3)]])
  fix x assume x: "case x of (outs, u) \<Rightarrow> \<exists>m'. replays es outs m m' \<and> vm_inv h u m' \<and> later s u"
  obtain outs u where xe: "x = (outs, u)" by (cases x)
  obtain m' where "vm_inv h u m'" "later s u" using x xe by auto
  then show "case x of (outs, u) \<Rightarrow> disk_reads u \<le> npages s \<and> page_faults u = disk_reads u \<and> disk_writes u = 0"
    using assms(4,5) vm_invD(5) [of h u m'] by (simp add: xe later_def counters_ok_def)
qed

lemma vm_enough_frames_no_writes_witness:
  "\<exists>s. vm_boot timer_works small_atoi [''virtmem'', ''2'', ''2'', ''fifo'', ''scan''] True no_file 3 (\<lambda>_. 0) = Inr (Fifo, Scan, s) \<and>
     runs (vm_run Fifo [Access (Store 5 7) 0, Access (Load 4100) 0, Access (Store 5 7) 0] s)
      (\<lambda>(outs, u). disk_reads u \<le> npages s \<and> page_faults u = disk_reads u \<and> disk_writes u = 0)"
proof -
  have "\<exists>s. vm_boot timer_works small_atoi [''virtmem'', ''2'', ''2'', ''fifo'', ''scan''] True no_file 3 (\<lambda>_. 0) = Inr (Fifo, Scan, s) \<and>
      npages s = small_atoi ([''virtmem'', ''2'', ''2'', ''fifo'', ''scan''] ! 1) \<and>
      g_nframes s = small_atoi ([''virtmem'', ''2'', ''2'', ''fifo'', ''scan''] ! 2) \<and> disk_reads s = 0 \<and>
      vm_inv Fifo s (reg_data (d_file (g_disk s))) \<and> (\<forall>n. int n \<le> INT_MAX \<longrightarrow> within n Fifo s) \<and>
      pt_assigned s \<and> idle_le 0 s"
    by (rule vm_boot_runs) (simp_all add: small_atoi_def choose_program_def choose_algorithm_def initialize_timer_def timer_works_def PAGE_SIZE_def INT_MAX_def)
  then obtain s where s: "vm_boot timer_works small_atoi [''virtmem'', ''2'', ''2'', ''fifo'', ''scan''] True no_file 3 (\<lambda>_. 0) = Inr (Fifo, Scan, s)"
    "npages s = 2" "g_nframes s = 2" "disk_reads s = 0" "vm_inv Fifo s (reg_data (d_file (g_disk s)))"
    "\<And>n. int n \<le> INT_MAX \<Longrightarrow> within n Fifo s"
    by (auto simp: small_atoi_def)
  show ?thesis
    using s vm_enough_frames_no_writes [OF s(5), of "[Access (Store 5 7) 0, Access (Load 4100) 0, Access (Store 5 7) 0]"]
    by (auto simp: PAGE_SIZE_def INT_MAX_def)
qed

text \<open>
  The scan program, run on the paging machine under any policy, finishes and
  reports success: it reads back what it wrote, ten times over.
\<close>

theorem scan_program_succeeds:
  assumes "vm_inv h s m" "0 \<le> npages s" "within (33 * nat (npages s * PAGE_SIZE)) h s"
  shows "runs (scan_program (vm_load h 3 (\<lambda>_. 0) rnd) (vm_store h 3 (\<lambda>_. 0) rnd) (nat (npages s * PAGE_SIZE)) s)
    (\<lambda>(good, tot, u). good \<and> (\<exists>m'. vm_inv h u m'))"
proof -
  have len: "int (nat (npages s * PAGE_SIZE)) \<le> npages s * PAGE_SIZE" using assms(2) by simp
  have "vm_shows h (npages s) (11 * nat (npages s * PAGE_SIZE) + 0) s m"
    using assms by (simp add: vm_shows_def)
  from paged.scan_ok [OF this len] show ?thesis
    by (rule runs_mono) (auto simp: vm_shows_def)
qed

lemma scan_program_succeeds_witness:
  "\<exists>s. vm_boot timer_works small_atoi (small_args ''custom'' ''scan'') True no_file 3 (\<lambda>_. 0) = Inr (Custom, Scan, s) \<and>
    runs (scan_program (vm_load Custom 3 (\<lambda>_. 0) (\<lambda>i. i)) (vm_store Custom 3 (\<lambda>_. 0) (\<lambda>i. i)) 12288 s)
      (\<lambda>(good, tot, u). good \<and> (\<exists>m'. vm_inv Custom u m'))"
proof -
  obtain s where s: "vm_boot timer_works small_atoi (small_args ''custom'' ''scan'') True no_file 3 (\<lambda>_. 0) = Inr (Custom, Scan, s)"
    "npages s = 3" "vm_inv Custom s (reg_data (d_file (g_disk s)))" "\<And>n. int n \<le> INT_MAX \<Longrightarrow> within n Custom s"
    using small_boot [of "''custom''" Custom] by (auto simp: choose_algorithm_def initialize_timer_def timer_works_def)
  show ?thesis
    using s scan_program_succeeds [OF s(3), of "\<lambda>i. i"] by (auto simp: PAGE_SIZE_def INT_MAX_def)
qed

text \<open>
  The focus program likewise finishes and reports success: its writes at random
  places are all found again, and its sums stay within an \<open>int\<close>.
\<close>

theorem focus_program_succeeds:
  assumes "vm_inv h s m" "0 < npages s" "128 * (npages s * PAGE_SIZE) \<le> INT_MAX"
    and "within (3 * (2 * nat (npages s * PAGE_SIZE) + 10000)) h s" "\<And>i. 0 \<le> rs i"
  shows "runs (focus_program (vm_load h 3 (\<lambda>_. 0) rnd) (vm_store h 3 (\<lambda>_. 0) rnd) rs (nat (npages s * PAGE_SIZE)) junk s)
    (\<lambda>(good, tot, u). good \<and> (\<exists>m'. vm_inv h u m'))"
proof -
  have n: "0 < nat (npages s * PAGE_SIZE)" "int (nat (npages s * PAGE_SIZE)) \<le> npages s * PAGE_SIZE"
    "128 * int (nat (npages s * PAGE_SIZE)) \<le> INT_MAX"
    using assms(2,3) by (simp_all add: PAGE_SIZE_def)
  have "vm_shows h (npages s) (2 * nat (npages s * PAGE_SIZE) + 10000 + 0) s m"
    using assms(1,4) by (simp add: vm_shows_def)
  from paged.focus_ok [OF this n assms(5)] show ?thesis
    by (rule runs_mono) (auto simp: vm_shows_def)
qed

lemma focus_program_succeeds_witness:
  "\<exists>s. vm_boot timer_works small_atoi (small_args ''rand'' ''scan'') True no_file 3 (\<lambda>_. 0) = Inr (Rand, Scan, s) \<and>
    runs (focus_program (vm_load Rand 3 (\<lambda>_. 0) (\<lambda>i. i)) (vm_store Rand 3 (\<lambda>_. 0) (\<lambda>i. i)) (\<lambda>i. int i) 12288 (\<lambda>_. 0) s)
      (\<lambda>(good, tot, u). good \<and> (\<exists>m'. vm_inv Rand u m'))"
proof -
  obtain s where s: "vm_boot timer_works small_atoi (small_args ''rand'' ''scan'') True no_file 3 (\<lambda>_. 0) = Inr (Rand, Scan, s)"
    "npages s = 3" "vm_inv Rand s (reg_data (d_file (g_disk s)))" "\<And>n. int n \<le> INT_MAX \<Longrightarrow> within n Rand s"
    using small_boot [of "''rand''" Rand] by (auto simp: choose_algorithm_def initialize_timer_def timer_works_def)
  show ?thesis
    using s focus_program_succeeds [OF s(3), of "\<lambda>i. int i" "\<lambda>i. i" "\<lambda>_. 0"] by (auto simp: PAGE_SIZE_def INT_MAX_def)
qed

text \<open>
  C16.  The whole program.  With five arguments, a known policy and program, and sizes that fit,
  \<open>main\<close> exits with code 0 after the user program has reported success, whichever it is, and whatever \<open>rand\<close> returns.  Timer signals
  may arrive before every attempt at an access, if \<open>lets_finish\<close> holds: all but three of the \<open>K\<close> attempts at an access may be lost to
  signals between a fault and the retry.  \<open>qsort\<close> has to sort, and the attempts and signals to be few enough for
  the counters.  The numbers printed at the end satisfy: page faults equal disk reads, disk
  writes are at most as many, and with a frame for every page no page is read twice and nothing is written.
\<close>

theorem vm_main_succeeds:
  assumes "length argv = 5" "0 < atoi (argv ! 1)" "0 < atoi (argv ! 2)"
      "128 * (atoi (argv ! 1) * PAGE_SIZE) \<le> INT_MAX" "atoi (argv ! 2) * PAGE_SIZE \<le> INT_MAX"
    and "choose_algorithm os (argv ! 3) = Inr h" "choose_program (argv ! 4) (atoi (argv ! 1)) (atoi (argv ! 2)) = Inr prog"
    and "os 4" "0 < fd" "\<And>i. 0 \<le> rs i"
    and "sorts compare_bytes (nat (atoi (argv ! 1) * PAGE_SIZE)) k (qsort compare_bytes (nat (atoi (argv ! 1) * PAGE_SIZE)))"
    and "\<And>j. lets_finish K (ticks j)" "int (cost K ticks 0 (accesses_of prog (nat (atoi (argv ! 1) * PAGE_SIZE)) k)) \<le> INT_MAX"
  shows "runs (vm_main os atoi argv True old fd junk K ticks rnd qsort rs own) (\<lambda>(code, good, tot, faults, reads, writes).
    code = 0 \<and> good \<and> faults = reads \<and> 0 \<le> writes \<and> writes \<le> reads \<and>
    (atoi (argv ! 1) \<le> atoi (argv ! 2) \<longrightarrow> reads \<le> atoi (argv ! 1) \<and> writes = 0))"
  by (rule vm_main_runs) (rule assms)+

text \<open>Two signals before every third access, and one before the first retry of every access.\<close>

definition some_ticks :: "nat \<Rightarrow> nat \<Rightarrow> nat" where
  "some_ticks j i = (if i = 1 then 1 else if i = 0 \<and> j mod 3 = 0 then 2 else 0)"

lemma some_ticks_finish: "lets_finish 4 (some_ticks j)" "int (cost 4 some_ticks 0 n) \<le> 7 * int n"
proof -
  have "[1..<4] = [1, 2, 3 :: nat]" by (simp add: upt_conv_Cons)
  then show "lets_finish 4 (some_ticks j)" by (simp add: lets_finish_def some_ticks_def)
  have "{..<4} = {0, 1, 2, 3 :: nat}" by auto
  then have "access_cost 4 (some_ticks j) \<le> 7" for j by (simp add: access_cost_def some_ticks_def)
  then have "cost 4 some_ticks 0 n \<le> 7 * n"
    unfolding cost_def using sum_bounded_above [of "{..<n}" "\<lambda>i. access_cost 4 (some_ticks (0 + i))" 7] by (simp add: mult.commute)
  then show "int (cost 4 some_ticks 0 n) \<le> 7 * int n" by simp
qed

lemma vm_main_succeeds_witness:
  "runs (vm_main timer_works small_atoi (small_args ''custom'' ''sort'') True no_file 3 (\<lambda>_. 0) 4 some_ticks (\<lambda>i. i) insertion_qsort (\<lambda>i. int i * 7) (\<lambda>_. 0))
    (\<lambda>(code, good, tot, faults, reads, writes). code = 0 \<and> good \<and> faults = reads \<and> 0 \<le> writes \<and> writes \<le> reads \<and>
      (3 \<le> (2::int) \<longrightarrow> reads \<le> 3 \<and> writes = 0))"
proof -
  let ?argv = "small_args ''custom'' ''sort''"
  have n: "small_atoi (?argv ! 1) = 3" "small_atoi (?argv ! 2) = 2" "nat (3 * PAGE_SIZE) = 12288"
    by (simp_all add: small_args_def small_atoi_def PAGE_SIZE_def)
  note some_ticks_finish(2) [of "accesses_of Sort 12288 (2 * 12288)"]
  also have "7 * int (accesses_of Sort 12288 (2 * 12288)) \<le> INT_MAX" by (simp add: INT_MAX_def)
  finally have few: "int (cost 4 some_ticks 0 (accesses_of Sort 12288 (2 * 12288))) \<le> INT_MAX" .
  have "runs (vm_main timer_works small_atoi ?argv True no_file 3 (\<lambda>_. 0) 4 some_ticks (\<lambda>i. i) insertion_qsort (\<lambda>i. int i * 7) (\<lambda>_. 0))
    (\<lambda>(code, good, tot, faults, reads, writes). code = 0 \<and> good \<and> faults = reads \<and> 0 \<le> writes \<and> writes \<le> reads \<and>
      (small_atoi (?argv ! 1) \<le> small_atoi (?argv ! 2) \<longrightarrow> reads \<le> small_atoi (?argv ! 1) \<and> writes = 0))"
    by (rule vm_main_succeeds [where h = Custom and prog = Sort and k = "2 * 12288"])
       (use insertion_qsort_sorts [of 12288] few some_ticks_finish(1) in
         \<open>simp_all only: n, simp_all add: small_args_def choose_algorithm_def initialize_timer_def timer_works_def choose_program_def PAGE_SIZE_def INT_MAX_def\<close>)
  then show ?thesis by (simp only: n)
qed

text \<open>
  C17.  The sort program sorts virtual memory.  Under any policy, and with timer signals before the attempts as long as
  \<open>lets_finish\<close> holds for every access, it finishes, reports
  success, and leaves its random bytes in ascending order as signed characters, none lost or changed.
\<close>

theorem sort_program_sorts:
  assumes "vm_inv h s m" "0 \<le> npages s" "128 * (npages s * PAGE_SIZE) \<le> INT_MAX"
    and "sorts compare_bytes (nat (npages s * PAGE_SIZE)) k (qsort compare_bytes (nat (npages s * PAGE_SIZE)))"
    and "\<And>j. lets_finish K (ticks j)" "within (cost K ticks 0 (2 * nat (npages s * PAGE_SIZE) + k)) h s"
  shows "runs (sort_program (timed_load h K ticks rnd) (timed_store h K ticks rnd) qsort rs (nat (npages s * PAGE_SIZE)) own (0, s))
    (\<lambda>(good, tot, j, u). good \<and> (\<exists>m'. vm_inv h u m' \<and>
      mset (first_bytes (nat (npages s * PAGE_SIZE)) m') = mset (map (\<lambda>i. word_of_int (rs i)) [0..<nat (npages s * PAGE_SIZE)]) \<and>
      sorted_wrt (\<lambda>x y. sint x \<le> sint y) (first_bytes (nat (npages s * PAGE_SIZE)) m')))"
proof -
  let ?n = "nat (npages s * PAGE_SIZE)"
  have n: "int ?n \<le> npages s * PAGE_SIZE" "128 * int ?n \<le> INT_MAX" using assms(2,3) by (simp_all add: PAGE_SIZE_def)
  have "timed_shows h K ticks s (2 * ?n + k + 0) (0, s) m" using assms(1,5,6) by (simp add: timed_shows_def later_refl)
  from timed.sort_ok [where qsort = qsort and rnd = rnd and rs = rs and junk = own, OF this n assms(4)] show ?thesis
    by (auto simp: runs_iff timed_shows_def)
qed

lemma sort_program_sorts_witness:
  "\<exists>s. vm_boot timer_works small_atoi (small_args ''custom'' ''scan'') True no_file 3 (\<lambda>_. 0) = Inr (Custom, Scan, s) \<and>
    runs (sort_program (timed_load Custom 4 some_ticks (\<lambda>i. i)) (timed_store Custom 4 some_ticks (\<lambda>i. i)) insertion_qsort (\<lambda>i. - int i) 12288 (\<lambda>_. 3) (0, s))
      (\<lambda>(good, tot, j, u). good \<and> (\<exists>m'. vm_inv Custom u m' \<and> mset (first_bytes 12288 m') = mset (map (\<lambda>i. word_of_int (- int i)) [0..<12288]) \<and>
        sorted_wrt (\<lambda>x y. sint x \<le> sint y) (first_bytes 12288 m')))"
proof -
  obtain s where s: "vm_boot timer_works small_atoi (small_args ''custom'' ''scan'') True no_file 3 (\<lambda>_. 0) = Inr (Custom, Scan, s)"
    "npages s = 3" "vm_inv Custom s (reg_data (d_file (g_disk s)))" "\<And>n. int n \<le> INT_MAX \<Longrightarrow> within n Custom s"
    using small_boot [of "''custom''" Custom] by (auto simp: choose_algorithm_def initialize_timer_def timer_works_def)
  have n: "nat (npages s * PAGE_SIZE) = 12288" using s(2) by (simp add: PAGE_SIZE_def)
  have "7 * int (2 * 12288 + 2 * 12288) \<le> INT_MAX" by (simp add: INT_MAX_def)
  then have w: "within (cost 4 some_ticks 0 (2 * 12288 + 2 * 12288)) Custom s"
    by (intro s(4) order.trans [OF some_ticks_finish(2)])
  show ?thesis
    using s(1) sort_program_sorts [where h = Custom and s = s and k = "2 * 12288" and qsort = insertion_qsort and K = 4 and ticks = some_ticks and rs = "\<lambda>i. - int i"
        and rnd = "\<lambda>i. i" and own = "\<lambda>_. 3", OF s(3)] insertion_qsort_sorts [of 12288] w s(2) some_ticks_finish(1) unfolding n by (auto simp: PAGE_SIZE_def INT_MAX_def)
qed

text \<open>
  C18.  The timer handler is one turn of the clock: a resident frame used since the
  last signal has its counter reset, its used flag cleared and its page protected,
  so that the next use is noticed; the counter of any other resident frame goes up
  by one, that of an empty frame stays.  The invariant survives.
\<close>

theorem timer_is_one_clock_turn:
  assumes "vm_inv Custom s m" "pt_assigned s" "\<forall>n \<in> set (not_used s). n < INT_MAX"
  shows "runs (timer_handler s) (\<lambda>u. vm_inv Custom u m \<and>
     (\<forall>f. 0 \<le> f \<and> f < g_nframes s \<longrightarrow>
        (if f < disk_reads s then
           not_used u ! nat f = (if cm_used (entry s f) then 0 else not_used s ! nat f + 1) \<and>
           \<not> cm_used (entry u f) \<and>
           bits_of u (page_of s f) = (if cm_used (entry s f) then PROT_NONE else bits_of s (page_of s f))
         else not_used u ! nat f = not_used s ! nat f \<and> entry u f = entry s f)))"
proof (rule runs_mono [OF timer_runs [OF assms]])
  fix u assume u: "vm_inv Custom u m \<and> clock_upto (g_nframes s) s u"
  note c = clock_uptoD [OF conjunct2 [OF u]]
  have "if f < disk_reads s then
           not_used u ! nat f = (if cm_used (entry s f) then 0 else not_used s ! nat f + 1) \<and>
           \<not> cm_used (entry u f) \<and>
           bits_of u (page_of s f) = (if cm_used (entry s f) then PROT_NONE else bits_of s (page_of s f))
         else not_used u ! nat f = not_used s ! nat f \<and> entry u f = entry s f"
    if f: "0 \<le> f" "f < g_nframes s" for f
    using c(1,2) [OF f] c(3) [of f] resident_page [OF assms(1) f] f
    by (simp add: ticked_def idle_next_def resident_def)
  then show "vm_inv Custom u m \<and> (\<forall>f. 0 \<le> f \<and> f < g_nframes s \<longrightarrow>
        (if f < disk_reads s then
           not_used u ! nat f = (if cm_used (entry s f) then 0 else not_used s ! nat f + 1) \<and>
           \<not> cm_used (entry u f) \<and>
           bits_of u (page_of s f) = (if cm_used (entry s f) then PROT_NONE else bits_of s (page_of s f))
         else not_used u ! nat f = not_used s ! nat f \<and> entry u f = entry s f))"
    using u by blast
qed

lemma timer_is_one_clock_turn_witness:
  "\<exists>s. vm_boot timer_works small_atoi (small_args ''custom'' ''scan'') True no_file 3 (\<lambda>_. 0) = Inr (Custom, Scan, s) \<and>
    runs (timer_handler s) (\<lambda>u. not_used u ! 1 = not_used s ! 1 \<and> entry u 1 = entry s 1)"
proof -
  obtain s where s: "vm_boot timer_works small_atoi (small_args ''custom'' ''scan'') True no_file 3 (\<lambda>_. 0) = Inr (Custom, Scan, s)"
    "g_nframes s = 2" "disk_reads s = 0" "vm_inv Custom s (reg_data (d_file (g_disk s)))" "pt_assigned s" "idle_le 0 s"
    using small_boot [of "''custom''" Custom] by (auto simp: choose_algorithm_def initialize_timer_def timer_works_def)
  have "\<forall>n \<in> set (not_used s). n < INT_MAX" using s(6) by (auto simp: idle_le_def INT_MAX_def)
  from timer_is_one_clock_turn [OF s(4,5) this]
  have "runs (timer_handler s) (\<lambda>u. not_used u ! 1 = not_used s ! 1 \<and> entry u 1 = entry s 1)"
    by (rule runs_mono) (drule conjunct2, drule spec [of _ 1], simp add: s)
  then show ?thesis using s(1) by blast
qed

text \<open>
  C20.  The FIFO policy takes the resident frame that was loaded longest ago.
\<close>

theorem fifo_evicts_oldest:
  assumes "vm_inv Fifo s m" "0 < disk_reads s"
  shows "runs (get_frame_to_be_evicted_fifo_policy s)
    (\<lambda>(f, t). f \<in> resident s \<and> (\<forall>g \<in> resident s. stamp s f \<le> stamp s g) \<and> frame_queue s = f # frame_queue t)"
proof -
  note v = vm_invD [OF assms(1)]
  have "0 \<in> resident s" using assms(2) v(2) by (simp add: resident_def sizes_ok_def)
  then obtain f q where q: "frame_queue s = f # q" using v(7) by (cases "frame_queue s") auto
  have "f \<in> resident s" "\<forall>g \<in> resident s. stamp s f \<le> stamp s g"
    using v(7) q by (auto simp del: set_simps simp: set_simps(2) [symmetric] q) (auto dest: order.strict_implies_order)
  then show ?thesis using q by (simp add: get_frame_to_be_evicted_fifo_policy_def)
qed

lemma fifo_evicts_oldest_witness:
  "\<exists>s m. vm_inv Fifo s m \<and> disk_reads s = 1 \<and> runs (get_frame_to_be_evicted_fifo_policy s)
    (\<lambda>(f, t). f \<in> resident s \<and> (\<forall>g \<in> resident s. stamp s f \<le> stamp s g) \<and> frame_queue s = f # frame_queue t)"
proof -
  obtain s where s: "npages s = 3" "g_nframes s = 2" "disk_reads s = 0" "vm_inv Fifo s (reg_data (d_file (g_disk s)))"
    using small_boot [of "''fifo''" Fifo] by (auto simp: choose_algorithm_def initialize_timer_def timer_works_def)
  have ab: "1 \<notin> page_of s ` resident s" using s(3) by (auto simp: resident_def)
  have "bits_of s 1 = 0" by (rule absent_bits [OF vm_invD(3) [OF s(4)] _ _ ab]) (simp_all add: s)
  then have "faulting s 1" using s by (simp add: faulting_def INT_MAX_def)
  from fifo_served [OF s(4) this] obtain u where "served Fifo s (reg_data (d_file (g_disk s))) 1 u"
    by (auto simp: runs_iff)
  then have u: "vm_inv Fifo u (reg_data (d_file (g_disk s)))" "disk_reads u = 1"
    using ab s(3) by (simp_all add: served_def)
  show ?thesis
    using u fifo_evicts_oldest [OF u(1)] by (intro exI [of _ u]) auto
qed

text \<open>
  C19.  The custom policy: it prefers a frame unused since the last timer signal
  if there is one; among those a clean (or too old) frame if there is one; among
  those the frame loaded longest ago.
\<close>

theorem custom_policy_choice:
  assumes "0 < g_nframes s" "int (length (not_used s)) = g_nframes s"
    and "int (length (core_map s)) = g_nframes s" "stamps_ok s"
  shows "runs (get_frame_to_be_evicted_custom_policy s) (\<lambda>(f, t). t = s \<and> 0 \<le> f \<and> f < g_nframes s \<and>
     ((\<exists>g. 0 \<le> g \<and> g < g_nframes s \<and> 1 \<le> not_used s ! nat g) \<longrightarrow> 1 \<le> not_used s ! nat f) \<and>
     ((\<exists>g \<in> set (nru_frames s). evictable s g) \<longrightarrow> evictable s f) \<and>
     (\<forall>g \<in> set (custom_candidates s). stamp s f \<le> stamp s g))"
proof (rule runs_mono [OF custom_policy_runs [OF assms]])
  fix x assume x: "case x of (f, t) \<Rightarrow> t = s \<and> f \<in> set (custom_candidates s) \<and>
    (\<forall>g \<in> set (custom_candidates s). stamp s f \<le> stamp s g)"
  obtain f where xe: "x = (f, s)" and f: "f \<in> set (custom_candidates s)"
    "\<forall>g \<in> set (custom_candidates s). stamp s f \<le> stamp s g" using x by auto
  have "f \<in> set (nru_frames s)" "(\<exists>g \<in> set (nru_frames s). evictable s g) \<longrightarrow> evictable s f"
    using f(1) by (auto simp: custom_candidates_def or_all_def filter_empty_conv split: if_splits)
  moreover from this(1) have "(\<exists>g. 0 \<le> g \<and> g < g_nframes s \<and> 1 \<le> not_used s ! nat g) \<longrightarrow> 1 \<le> not_used s ! nat f"
    by (auto simp: nru_frames_def or_all_def filter_empty_conv set_all_frames split: if_splits)
  moreover have "0 \<le> f" "f < g_nframes s" using f(1) custom_candidates_sub(1) [OF assms(1)] by auto
  ultimately show "case x of (f, t) \<Rightarrow> t = s \<and> 0 \<le> f \<and> f < g_nframes s \<and>
     ((\<exists>g. 0 \<le> g \<and> g < g_nframes s \<and> 1 \<le> not_used s ! nat g) \<longrightarrow> 1 \<le> not_used s ! nat f) \<and>
     ((\<exists>g \<in> set (nru_frames s). evictable s g) \<longrightarrow> evictable s f) \<and>
     (\<forall>g \<in> set (custom_candidates s). stamp s f \<le> stamp s g)"
    using f(2) by (simp add: xe)
qed

lemma custom_policy_choice_witness:
  "\<exists>s. vm_boot timer_works small_atoi (small_args ''custom'' ''scan'') True no_file 3 (\<lambda>_. 0) = Inr (Custom, Scan, s) \<and>
    runs (get_frame_to_be_evicted_custom_policy s) (\<lambda>(f, t). t = s \<and> 0 \<le> f \<and> f < 2)"
proof -
  obtain s where s: "vm_boot timer_works small_atoi (small_args ''custom'' ''scan'') True no_file 3 (\<lambda>_. 0) = Inr (Custom, Scan, s)"
    "g_nframes s = 2" "vm_inv Custom s (reg_data (d_file (g_disk s)))"
    using small_boot [of "''custom''" Custom] by (auto simp: choose_algorithm_def initialize_timer_def timer_works_def)
  have "runs (get_frame_to_be_evicted_custom_policy s) (\<lambda>(f, t). t = s \<and> 0 \<le> f \<and> f < 2)"
    by (rule runs_mono [OF custom_policy_choice]) (use s(2) vm_invD(2,6,7) [OF s(3)] in \<open>auto simp: sizes_ok_def\<close>)
  then show ?thesis using s(1) by blast
qed



lemma page_bounds:
  fixes off n :: int
  shows "off div 4096 < n \<longleftrightarrow> off < n * 4096"
    and "off < 0 \<Longrightarrow> 0 \<le> - ((- off) div 4096) \<longleftrightarrow> - 4096 < off"
    and "off < 0 \<Longrightarrow> - 4096 < off \<Longrightarrow> - ((- off) div 4096) = 0"
proof -
  have d: "x = 4096 * (x div 4096) + x mod 4096" "0 \<le> x mod 4096" "x mod 4096 < 4096" for x :: int by simp_all
  show "off div 4096 < n \<longleftrightarrow> off < n * 4096" using d [of off] by linarith
  show "off < 0 \<Longrightarrow> 0 \<le> - ((- off) div 4096) \<longleftrightarrow> - 4096 < off" using d [of "- off"] by linarith
  show "off < 0 \<Longrightarrow> - 4096 < off \<Longrightarrow> - ((- off) div 4096) = 0" using d [of "- off"] by linarith
qed

text \<open>
  C22.  The signal handler: an address in virtual memory is dispatched to the policy's
  handler for its page.  The 4095 bytes below virtual memory are taken for page 0,
  because the division truncates; any other address nearby aborts.
\<close>

theorem fault_dispatch:
  assumes "0 < npages s" "npages s \<le> INT_MAX" "\<bar>off\<bar> < 2 ^ 42"
  shows "internal_fault_handler h r off s =
    (if 0 \<le> off \<and> off < npages s * PAGE_SIZE then run_handler h r (off div PAGE_SIZE) s
     else if - PAGE_SIZE < off \<and> off < 0 then run_handler h r 0 s
     else Inl Abort)"
proof -
  have q: "off sdiv PAGE_SIZE = (if 0 \<le> off then off div PAGE_SIZE else - ((- off) div PAGE_SIZE))"
    by (simp add: signed_divide_int_def PAGE_SIZE_def sgn_if)
  have b: "- (2 ^ 31) \<le> off sdiv PAGE_SIZE" "off sdiv PAGE_SIZE < 2 ^ 31"
    using assms(3) unfolding q by (auto simp: PAGE_SIZE_def)
  then have p: "signed_take_bit 31 (off sdiv PAGE_SIZE) = off sdiv PAGE_SIZE"
    by (simp add: signed_take_bit_int_eq_self_iff)
  show ?thesis
  proof (cases "0 \<le> off")
    case True
    have "off div PAGE_SIZE < npages s \<longleftrightarrow> off < npages s * PAGE_SIZE"
      unfolding PAGE_SIZE_def by (rule page_bounds(1))
    moreover have "0 \<le> off div PAGE_SIZE" using True by (simp add: pos_imp_zdiv_nonneg_iff)
    ultimately show ?thesis using True by (simp add: internal_fault_handler_def p) (simp add: q)
  next
    case False
    then have "0 \<le> - ((- off) div PAGE_SIZE) \<longleftrightarrow> - PAGE_SIZE < off"
      "- PAGE_SIZE < off \<Longrightarrow> - ((- off) div PAGE_SIZE) = 0"
      unfolding PAGE_SIZE_def using page_bounds(2,3) [of off] by auto
    moreover have "signed_take_bit 31 (off sdiv PAGE_SIZE) = - ((- off) div PAGE_SIZE)"
      using p q False by simp
    ultimately show ?thesis
      using False assms(1) by (simp only: internal_fault_handler_def Let_def) auto
  qed
qed

lemma fault_dispatch_witness:
  "\<exists>s. vm_boot timer_works small_atoi (small_args ''rand'' ''scan'') True no_file 3 (\<lambda>_. 0) = Inr (Rand, Scan, s) \<and>
    internal_fault_handler Rand 0 (-1) s = run_handler Rand 0 0 s \<and>
    internal_fault_handler Rand 0 12288 s = Inl Abort"
proof -
  obtain s where s: "vm_boot timer_works small_atoi (small_args ''rand'' ''scan'') True no_file 3 (\<lambda>_. 0) = Inr (Rand, Scan, s)" "npages s = 3"
    using small_boot [of "''rand''" Rand] by (auto simp: choose_algorithm_def initialize_timer_def timer_works_def)
  show ?thesis
    using s fault_dispatch [of s "-1" Rand 0] fault_dispatch [of s 12288 Rand 0]
    by (auto simp: PAGE_SIZE_def INT_MAX_def)
qed

text \<open>
  When \<open>open\<close> fails (it returns -1), the page table is created all the same,
  with no memory behind it; the disk, which tests for a negative result, is not.
\<close>

theorem open_failure_unnoticed:
  "\<exists>pt. page_table_create (-1) junk 3 2 = Inr (Some pt) \<and> reg_len (pt_backing pt) = 0 \<and>
     vm_disk_open False old 3 = Inr None"
  by (simp add: page_table_create_def vm_disk_open_def int_mul_def PAGE_SIZE_def INT_MAX_def)

text \<open>
  A block read from the disk is the block last written there.
\<close>

theorem disk_roundtrip:
  assumes "disk_wf d" "0 \<le> b" "b < d_nblocks d"
    and "0 \<le> so" "so + BLOCK_SIZE \<le> reg_len src" "0 \<le> dof" "dof + BLOCK_SIZE \<le> reg_len dst"
  shows "runs (vm_disk_write d b src so) (\<lambda>d'. runs (vm_disk_read d' b dst dof)
     (\<lambda>dst'. same_bytes (reg_data dst') dof (reg_data src) so BLOCK_SIZE))"
  by (rule disk_write_read [OF assms])

lemma disk_roundtrip_witness:
  "runs (vm_disk_open True no_file 2) (\<lambda>d. \<exists>d'. d = Some d' \<and>
     runs (vm_disk_write d' 1 \<lparr>reg_len = 4096, reg_data = (\<lambda>i. 7)\<rparr> 0) (\<lambda>d2.
       runs (vm_disk_read d2 1 \<lparr>reg_len = 8192, reg_data = (\<lambda>i. 1)\<rparr> 4096)
         (\<lambda>m. same_bytes (reg_data m) 4096 (\<lambda>i. 7) 0 BLOCK_SIZE)))"
proof -
  obtain d where d: "vm_disk_open True no_file 2 = Inr (Some d)" "disk_wf d" "d_nblocks d = 2"
    using disk_open_wf [of 2 no_file] by (auto simp: BLOCK_SIZE_def INT_MAX_def simp del: BLOCK_PAGE)
  show ?thesis
    using disk_roundtrip [OF d(2), of 1 0 "\<lparr>reg_len = 4096, reg_data = (\<lambda>i. 7)\<rparr>" 4096 "\<lparr>reg_len = 8192, reg_data = (\<lambda>i. 1)\<rparr>"] d
    by (simp add: BLOCK_SIZE_def del: BLOCK_PAGE)
qed

text \<open>
  Setting a page table entry makes that page read back as set, changes no
  other entry, and aborts for a page or frame out of range.
\<close>

theorem page_table_entries:
  assumes "pt_wf pt" "0 \<le> q" "q < pt_npages pt"
  shows "(if 0 \<le> page \<and> page < pt_npages pt \<and> 0 \<le> frame \<and> frame < pt_nframes pt
    then runs (page_table_set_entry pt page frame bits) (\<lambda>pt'. pt_wf pt' \<and> page_table_get_entry pt' q =
      (if q = page then Inr (frame, bits) else page_table_get_entry pt q))
    else page_table_set_entry pt page frame bits = Inl Abort)"
proof (cases "0 \<le> page \<and> page < pt_npages pt \<and> 0 \<le> frame \<and> frame < pt_nframes pt")
  case True
  then have "page_table_set_entry pt page frame bits = Inr (set_entry_result pt page frame bits)"
    "pt_wf (set_entry_result pt page frame bits)"
    using assms by (simp_all add: page_table_set_entry_eq set_entry_result_wf)
  then show ?thesis using True set_entry_get_entry [of pt page frame q bits] assms by simp
next
  case False
  then show ?thesis by (auto simp: page_table_set_entry_def)
qed

lemma page_table_entries_witness:
  "runs (page_table_create 3 (\<lambda>_. 9) 3 2) (\<lambda>pt. \<exists>pt'. pt = Some pt' \<and>
     runs (page_table_set_entry pt' 2 1 PROT_READ) (\<lambda>pt2. page_table_get_entry pt2 2 = Inr (1, PROT_READ)))"
proof -
  obtain pt where pt: "page_table_create 3 (\<lambda>_. 9) 3 2 = Inr (Some pt)" "pt_wf pt" "pt_npages pt = 3" "pt_nframes pt = 2"
    using page_table_create_wf [of 3 3 2 "\<lambda>_. 9"] by (auto simp: PAGE_SIZE_def INT_MAX_def)
  show ?thesis
    using page_table_entries [OF pt(2), of 2 2 1 PROT_READ] pt by (auto elim: runs_mono)
qed

end
