(* ===== verification/UtThreads.thy ===== *)
theory UtThreads
  imports Prelude
begin

text \<open>
  The user-level thread library of \<open>project_2\<close>: the thread control block
  (\<open>TCB.cpp\<close>) and the global state of \<open>uthread.cpp\<close>, \<open>Lock\<close> and \<open>CondVar\<close>
  objects included.  Control blocks live in a heap; a pointer to one is its
  address, and using the address of a deleted block is \<open>UseAfterFree\<close>.
  A thread that gave up the processor has a saved context, \<open>cont\<close>: the point in
  the library at which it goes on when it is switched to.
\<close>

section \<open>Thread control blocks\<close>

datatype priority = RED | ORANGE | GREEN

datatype thread_state = READY | RUNNING | BLOCK

record tcb =
  tcb_tid :: int
  tcb_pr :: priority
  tcb_quantum :: int
  tcb_state :: thread_state
  tcb_lock_count :: int

definition new_tcb :: "int \<Rightarrow> priority \<Rightarrow> thread_state \<Rightarrow> tcb" where
  "new_tcb tid pr st = \<lparr>tcb_tid = tid, tcb_pr = pr, tcb_quantum = 0, tcb_state = st, tcb_lock_count = 0\<rparr>"

definition setState :: "thread_state \<Rightarrow> tcb \<Rightarrow> tcb result" where [simp]:
  "setState st t = Inr (t\<lparr>tcb_state := st\<rparr>)"

definition getId :: "tcb \<Rightarrow> int" where [simp]:
  "getId t = tcb_tid t"

definition getPriority :: "tcb \<Rightarrow> priority" where [simp]:
  "getPriority t = tcb_pr t"

definition increaseQuantum :: "tcb \<Rightarrow> tcb result" where
  "increaseQuantum t = bindE (int_inc (tcb_quantum t)) (\<lambda>q. Inr (t\<lparr>tcb_quantum := q\<rparr>))"

definition getQuantum :: "tcb \<Rightarrow> int" where [simp]:
  "getQuantum t = tcb_quantum t"

definition increaseLockCount :: "tcb \<Rightarrow> tcb result" where
  "increaseLockCount t = bindE (int_inc (tcb_lock_count t)) (\<lambda>n. Inr (t\<lparr>tcb_lock_count := n\<rparr>))"

definition decreaseLockCount :: "tcb \<Rightarrow> tcb result" where
  "decreaseLockCount t =
     bindE (assertE (tcb_lock_count t > 0)) (\<lambda>_. Inr (t\<lparr>tcb_lock_count := tcb_lock_count t - 1\<rparr>))"

definition getLockCount :: "tcb \<Rightarrow> int" where [simp]:
  "getLockCount t = tcb_lock_count t"

fun pr_up :: "priority \<Rightarrow> priority" where
  "pr_up RED = RED" | "pr_up ORANGE = RED" | "pr_up GREEN = ORANGE"

fun pr_down :: "priority \<Rightarrow> priority" where
  "pr_down RED = ORANGE" | "pr_down ORANGE = GREEN" | "pr_down GREEN = GREEN"

definition increasePriority :: "tcb \<Rightarrow> tcb result" where [simp]:
  "increasePriority t = Inr (t\<lparr>tcb_pr := pr_up (tcb_pr t)\<rparr>)"

definition decreasePriority :: "tcb \<Rightarrow> tcb result" where [simp]:
  "decreasePriority t = Inr (t\<lparr>tcb_pr := pr_down (tcb_pr t)\<rparr>)"

section \<open>The state of the library\<close>

type_synonym addr = nat

datatype cont =
    User
  | Start
  | AfterYield
  | AfterJoin int
  | AfterExit
  | AfterSuspend
  | AfterLock nat
  | AfterUnlock
  | AfterWaitUnlock nat nat
  | AfterWait nat nat
  | AfterSignal

record lock =
  lock_value :: int
  waiting_queue :: "addr list"
  nextThreadToWakeUp :: "addr option"

record condvar =
  cond_var_waiting_queue :: "addr list"
  wake_up_order :: "addr list"

text \<open>
  \<open>threads\<close> is the \<open>std::map\<close> from ids to control blocks, in key order.  The two
  boost sets are \<open>unordered_set\<close>s: the list is their iteration order.
  \<open>next_addr\<close> is where the next control block is allocated, never a freed one.
\<close>

record uthreads =
  heap :: "addr \<Rightarrow> tcb option"
  next_addr :: addr
  ready :: "priority \<Rightarrow> addr list"
  running :: addr
  blocked :: "addr list"
  join_queue :: "(addr \<times> int) list"
  finished_queue :: "(addr \<times> int) list"
  threads :: "(int \<times> addr) list"
  numBoosts :: "int \<Rightarrow> int option"
  lowBoost :: "addr list"
  medBoost :: "addr list"
  quantum_counter :: int
  interrupts_enabled :: bool
  conts :: "addr \<Rightarrow> cont"
  locks :: "lock list"
  condvars :: "condvar list"

datatype ret = Ret int | RetVoid | Joined int | Switched

text \<open>Reading and changing a control block through a pointer.\<close>

definition deref :: "addr \<Rightarrow> uthreads \<Rightarrow> tcb result" where
  "deref a s = (case heap s a of None \<Rightarrow> Inl UseAfterFree | Some t \<Rightarrow> Inr t)"

definition modify :: "addr \<Rightarrow> (tcb \<Rightarrow> tcb result) \<Rightarrow> uthreads \<Rightarrow> uthreads result" where
  "modify a f s = bindE (deref a s) (\<lambda>t. bindE (f t) (\<lambda>t'. Inr (s\<lparr>heap := (heap s)(a := Some t')\<rparr>)))"

text \<open>\<open>_threads.at(tid)\<close> throws when the id is unknown.\<close>

definition threads_at :: "int \<Rightarrow> uthreads \<Rightarrow> addr result" where
  "threads_at tid s = (case map_of (threads s) tid of None \<Rightarrow> Inl UncaughtException | Some a \<Rightarrow> Inr a)"

definition threads_insert :: "int \<Rightarrow> addr \<Rightarrow> (int \<times> addr) list \<Rightarrow> (int \<times> addr) list" where
  "threads_insert tid a m = (if tid \<in> fst ` set m then m else insort_key fst (tid, a) m)"

definition threads_erase :: "int \<Rightarrow> (int \<times> addr) list \<Rightarrow> (int \<times> addr) list" where
  "threads_erase tid m = filter (\<lambda>(k, a). k \<noteq> tid) m"

section \<open>Queues\<close>

text \<open>The loop over the keys in order stops at the first that is not its position.\<close>

fun next_id_from :: "int \<Rightarrow> (int \<times> addr) list \<Rightarrow> int" where
  "next_id_from i [] = i"
| "next_id_from i ((k, a) # m) = (if k \<noteq> i then i else next_id_from (i + 1) m)"

definition getNextId :: "uthreads \<Rightarrow> int" where
  "getNextId s = next_id_from 0 (threads s)"

definition addToReady :: "addr \<Rightarrow> uthreads \<Rightarrow> uthreads result" where
  "addToReady th s =
     bindE (deref th s) (\<lambda>t. Inr (s\<lparr>ready := (ready s)(tcb_pr t := ready s (tcb_pr t) @ [th])\<rparr>))"

definition getReady :: "priority \<Rightarrow> uthreads \<Rightarrow> (addr \<times> uthreads) result" where
  "getReady pr s =
     (case ready s pr of [] \<Rightarrow> Inl OutOfBounds | a # q \<Rightarrow> Inr (a, s\<lparr>ready := (ready s)(pr := q)\<rparr>))"

definition popReady :: "uthreads \<Rightarrow> (addr option \<times> uthreads) result" where
  "popReady s =
     (if ready s RED \<noteq> [] then bindE (getReady RED s) (\<lambda>(a, s). Inr (Some a, s))
      else if ready s ORANGE \<noteq> [] then bindE (getReady ORANGE s) (\<lambda>(a, s). Inr (Some a, s))
      else if ready s GREEN \<noteq> [] then bindE (getReady GREEN s) (\<lambda>(a, s). Inr (Some a, s))
      else Inr (None, s))"

definition translatePriority :: "int \<Rightarrow> uthreads \<Rightarrow> priority result" where
  "translatePriority tid s = bindE (threads_at tid s) (\<lambda>a. bindE (deref a s) (\<lambda>t. Inr (tcb_pr t)))"

text \<open>The flag tells \<open>SUCCESS\<close> from \<open>FAIL\<close>.\<close>

definition removeFromReady :: "int \<Rightarrow> uthreads \<Rightarrow> (bool \<times> uthreads) result" where
  "removeFromReady tid s =
     bindE (translatePriority tid s) (\<lambda>pr.
     bindE (threads_at tid s) (\<lambda>a.
     if a \<in> set (ready s pr) then Inr (True, s\<lparr>ready := (ready s)(pr := remove1 a (ready s pr))\<rparr>)
     else Inr (False, s)))"

definition removeFromBlock :: "int \<Rightarrow> uthreads \<Rightarrow> uthreads result" where
  "removeFromBlock tid s =
     (if blocked s = [] then Inr s
      else bindE (threads_at tid s) (\<lambda>a. Inr (s\<lparr>blocked := remove1 a (blocked s)\<rparr>)))"

text \<open>The first finished thread with the id, its result, and the queue without it.\<close>

fun find_finished :: "int \<Rightarrow> (addr \<times> int) list \<Rightarrow> uthreads \<Rightarrow> (addr \<times> int \<times> (addr \<times> int) list) option result" where
  "find_finished tid [] s = Inr None"
| "find_finished tid ((a, v) # q) s =
     bindE (deref a s) (\<lambda>t.
     if tcb_tid t = tid then Inr (Some (a, v, q))
     else bindE (find_finished tid q s) (\<lambda>r.
       Inr (case r of None \<Rightarrow> None | Some (b, w, q') \<Rightarrow> Some (b, w, (a, v) # q'))))"

definition removeFromFinished :: "int \<Rightarrow> uthreads \<Rightarrow> (int option \<times> uthreads) result" where
  "removeFromFinished tid s =
     bindE (find_finished tid (finished_queue s) s) (\<lambda>r.
     case r of
       None \<Rightarrow> Inr (None, s)
     | Some (a, v, q) \<Rightarrow> Inr (Some v,
         s\<lparr>threads := threads_erase tid (threads s), heap := (heap s)(a := None), finished_queue := q\<rparr>))"

fun move_joiners :: "int \<Rightarrow> (addr \<times> int) list \<Rightarrow> uthreads \<Rightarrow> uthreads result" where
  "move_joiners tid [] s = Inr s"
| "move_joiners tid ((a, w) # q) s =
     (if tid = w then
        bindE (modify a (setState READY) s) (\<lambda>s.
        bindE (addToReady a s) (\<lambda>s. move_joiners tid q s))
      else bindE (move_joiners tid q s) (\<lambda>s. Inr (s\<lparr>join_queue := (a, w) # join_queue s\<rparr>)))"

definition moveFromJoinToReady :: "int \<Rightarrow> uthreads \<Rightarrow> uthreads result" where
  "moveFromJoinToReady tid s = move_joiners tid (join_queue s) (s\<lparr>join_queue := []\<rparr>)"

section \<open>Context switches and interrupts\<close>

text \<open>
  The running thread's context is saved as \<open>k\<close>; the new thread's saved context is
  what \<open>resume\<close> executes next.
\<close>

definition switchToThread :: "addr \<Rightarrow> cont \<Rightarrow> uthreads \<Rightarrow> uthreads result" where
  "switchToThread next k s =
     bindE (deref (running s) s) (\<lambda>_.
     let s = s\<lparr>conts := (conts s)(running s := k), running := next\<rparr> in
     bindE (modify next (setState RUNNING) s) (\<lambda>s.
     bindE (modify next increaseQuantum s) (\<lambda>s.
     bindE (int_inc (quantum_counter s)) (\<lambda>n. Inr (s\<lparr>quantum_counter := n\<rparr>)))))"

definition switchThreads :: "cont \<Rightarrow> uthreads \<Rightarrow> uthreads result" where
  "switchThreads k s =
     bindE (popReady s) (\<lambda>(n, s). case n of None \<Rightarrow> Inl AssertFail | Some a \<Rightarrow> switchToThread a k s)"

definition ut_disableInterrupts :: "uthreads \<Rightarrow> uthreads result" where
  "ut_disableInterrupts s = bindE (assertE (interrupts_enabled s)) (\<lambda>_. Inr (s\<lparr>interrupts_enabled := False\<rparr>))"

definition ut_enableInterrupts :: "uthreads \<Rightarrow> uthreads result" where
  "ut_enableInterrupts s = bindE (assertE (\<not> interrupts_enabled s)) (\<lambda>_. Inr (s\<lparr>interrupts_enabled := True\<rparr>))"

text \<open>Back in user code with a value.\<close>

definition return_to_user :: "ret \<Rightarrow> uthreads \<Rightarrow> (ret \<times> uthreads) result" where
  "return_to_user r s =
     bindE (ut_enableInterrupts s) (\<lambda>s. Inr (r, s\<lparr>conts := (conts s)(running s := User)\<rparr>))"

definition switched :: "uthreads result \<Rightarrow> (ret \<times> uthreads) result" where
  "switched m = bindE m (\<lambda>s. Inr (Switched, s))"

end
