(* ===== verification/UtCalls.thy ===== *)
theory UtCalls
  imports UtThreads
begin

text \<open>
  The calls of the thread library: \<open>uthread.cpp\<close>, \<open>Lock.cpp\<close> and \<open>CondVar.cpp\<close>.
  Each is what the running thread executes up to its return or up to the context
  switch; \<open>resume\<close> is the rest, executed when the thread is switched to again.
\<close>

section \<open>Priority boosting\<close>

definition uthread_increase_priority_internal :: "addr \<Rightarrow> uthreads \<Rightarrow> uthreads result" where
  "uthread_increase_priority_internal a s =
     bindE (deref a s) (\<lambda>t.
     bindE (removeFromReady (tcb_tid t) s) (\<lambda>(in_ready, s).
     bindE (modify a increasePriority s) (\<lambda>s.
     if in_ready then addToReady a s else Inr s)))"

definition uthread_decrease_priority_internal :: "addr \<Rightarrow> uthreads \<Rightarrow> uthreads result" where
  "uthread_decrease_priority_internal a s =
     bindE (deref a s) (\<lambda>t.
     bindE (removeFromReady (tcb_tid t) s) (\<lambda>(in_ready, s).
     bindE (modify a decreasePriority s) (\<lambda>s.
     if in_ready then addToReady a s else Inr s)))"

text \<open>
  \<open>low\<close> tells which boost set is meant.  \<open>numBoosts[id]\<close> of a missing id is 0.
\<close>

definition boost_set :: "bool \<Rightarrow> uthreads \<Rightarrow> addr list" where
  "boost_set low s = (if low then lowBoost s else medBoost s)"

definition boost_set_update :: "bool \<Rightarrow> (addr list \<Rightarrow> addr list) \<Rightarrow> uthreads \<Rightarrow> uthreads" where
  "boost_set_update low f s = (if low then s\<lparr>lowBoost := f (lowBoost s)\<rparr> else s\<lparr>medBoost := f (medBoost s)\<rparr>)"

definition boosts_of :: "int \<Rightarrow> uthreads \<Rightarrow> int" where
  "boosts_of tid s = (case numBoosts s tid of None \<Rightarrow> 0 | Some n \<Rightarrow> n)"

definition boost_thread :: "bool \<Rightarrow> addr \<Rightarrow> uthreads \<Rightarrow> uthreads result" where
  "boost_thread low a s =
     bindE (uthread_increase_priority_internal a s) (\<lambda>s.
     bindE (deref a s) (\<lambda>t.
     let s = (if tcb_pr t = ORANGE then boost_set_update False (List.insert a) s else s);
         s = boost_set_update low (remove1 a) s
     in Inr (s\<lparr>numBoosts := (numBoosts s)(tcb_tid t := Some (boosts_of (tcb_tid t) s + 1))\<rparr>)))"

text \<open>
  The loop over a boost set: the iterator stands at the head of the list.  Erasing the element it stands at
  makes it invalid, and an invalid iterator must not be incremented.
\<close>

datatype iterator = Valid | Erased

definition increment :: "iterator \<Rightarrow> unit result" where
  "increment iter = (case iter of Valid \<Rightarrow> Inr () | Erased \<Rightarrow> Inl IteratorInvalid)"

lemma increment_simps [simp]: "increment Valid = Inr ()" "increment Erased = Inl IteratorInvalid"
  by (simp_all add: increment_def)

fun boosting_loop :: "bool \<Rightarrow> nat \<Rightarrow> nat \<Rightarrow> addr list \<Rightarrow> uthreads \<Rightarrow> uthreads result" where
  "boosting_loop low num count [] s = Inr s"
| "boosting_loop low num count (a # rest) s =
     bindE (deref a s) (\<lambda>t.
     bindE (if tcb_lock_count t \<noteq> 0 then bindE (boost_thread low a s) (\<lambda>s. Inr (count + 1, Erased, s))
            else Inr (count, Valid, s)) (\<lambda>(count, iter, s).
     if count = num then Inr s
     else bindE (increment iter) (\<lambda>_. boosting_loop low num count rest s)))"

definition boosting_logic :: "bool \<Rightarrow> nat \<Rightarrow> uthreads \<Rightarrow> uthreads result" where
  "boosting_logic low num s = boosting_loop low num 1 (boost_set low s) s"

definition boost_lp_lock_holding_threads :: "uthreads \<Rightarrow> uthreads result" where
  "boost_lp_lock_holding_threads s =
     bindE (boosting_logic False (if length (medBoost s) > 20 then length (medBoost s) div 20 else 1) s) (\<lambda>s.
     boosting_logic True (if length (lowBoost s) > 10 then length (lowBoost s) div 10 else 1) s)"

definition isHigherPriorityThreadPresent :: "uthreads \<Rightarrow> bool result" where
  "isHigherPriorityThreadPresent s =
     bindE (deref (running s) s) (\<lambda>t.
     bindE (translatePriority (tcb_tid t) s) (\<lambda>pr.
     Inr (case pr of
            RED \<Rightarrow> False
          | ORANGE \<Rightarrow> ready s RED \<noteq> []
          | GREEN \<Rightarrow> ready s RED \<noteq> [] \<or> ready s ORANGE \<noteq> [])))"

text \<open>The argument of \<open>getBoostingStructureForPriority\<close> is ignored; true means the low set.\<close>

definition getBoostingStructureForPriority :: "uthreads \<Rightarrow> bool result" where
  "getBoostingStructureForPriority s = bindE (deref (running s) s) (\<lambda>t. Inr (tcb_pr t = GREEN))"

definition unboost_running :: "uthreads \<Rightarrow> uthreads result" where
  "unboost_running s =
     bindE (deref (running s) s) (\<lambda>t.
     case numBoosts s (tcb_tid t) of
       None \<Rightarrow> Inr s
     | Some n \<Rightarrow>
         bindE (if n \<noteq> 0 then
                  bindE (modify (running s) decreasePriority s) (\<lambda>s.
                  Inr (s\<lparr>numBoosts := (numBoosts s)(tcb_tid t := Some (n - 1))\<rparr>))
                else Inr s) (\<lambda>s.
         Inr (if boosts_of (tcb_tid t) s = 0 then s\<lparr>numBoosts := (numBoosts s)(tcb_tid t := None)\<rparr> else s)))"

definition check_and_update_boost_structures :: "uthreads \<Rightarrow> uthreads result" where
  "check_and_update_boost_structures s =
     bindE (deref (running s) s) (\<lambda>t.
     if tcb_pr t = RED \<and> numBoosts s (tcb_tid t) = None then Inr s
     else
       bindE (if tcb_lock_count t > 0 then isHigherPriorityThreadPresent s else Inr False) (\<lambda>higher.
       if higher then
         let s = (if numBoosts s (tcb_tid t) = None
                  then s\<lparr>numBoosts := (numBoosts s)(tcb_tid t := Some 0)\<rparr> else s)
         in bindE (getBoostingStructureForPriority s) (\<lambda>low.
            Inr (boost_set_update low (List.insert (running s)) s))
       else
         bindE (unboost_running s) (\<lambda>s.
         bindE (getBoostingStructureForPriority s) (\<lambda>low.
         Inr (boost_set_update low (remove1 (running s)) s)))))"

section \<open>Thread calls\<close>

definition MAIN_THREAD :: int where "MAIN_THREAD = 0"

definition SUCCESS :: int where "SUCCESS = 0"

definition FAIL :: int where "FAIL = -1"

text \<open>The state after \<open>uthread_init\<close>, before any lock or condition variable exists.\<close>

definition init_state :: uthreads where
  "init_state = \<lparr>heap = [0 \<mapsto> (new_tcb 0 ORANGE RUNNING)\<lparr>tcb_quantum := 1\<rparr>], next_addr = 1,
     ready = (\<lambda>_. []), running = 0, blocked = [], join_queue = [], finished_queue = [],
     threads = [(0, 0)], numBoosts = Map.empty, lowBoost = [], medBoost = [],
     quantum_counter = 1, interrupts_enabled = True, conts = (\<lambda>_. User), locks = [], condvars = []\<rparr>"

definition uthread_init :: "int \<Rightarrow> uthreads option" where
  "uthread_init quantum_usecs = (if quantum_usecs \<le> 0 then None else Some init_state)"

definition uthread_create :: "uthreads \<Rightarrow> (ret \<times> uthreads) result" where
  "uthread_create s =
     (if length (threads s) = 100 then Inr (Ret FAIL, s)
      else bindE (ut_disableInterrupts s) (\<lambda>s.
        let tid = getNextId s; a = next_addr s;
            s = s\<lparr>heap := (heap s)(a := Some (new_tcb tid ORANGE READY)), next_addr := a + 1,
                  threads := threads_insert tid a (threads s), conts := (conts s)(a := Start)\<rparr>
        in bindE (addToReady a s) (\<lambda>s. return_to_user (Ret tid) s)))"

definition uthread_join :: "int \<Rightarrow> uthreads \<Rightarrow> (ret \<times> uthreads) result" where
  "uthread_join tid s =
     bindE (ut_disableInterrupts s) (\<lambda>s.
     bindE (removeFromFinished tid s) (\<lambda>(r, s).
     case r of
       Some v \<Rightarrow> return_to_user (Joined v) s
     | None \<Rightarrow>
         bindE (deref (running s) s) (\<lambda>t.
         bindE (threads_at (tcb_tid t) s) (\<lambda>a.
         switched (switchThreads (AfterJoin tid) (s\<lparr>join_queue := join_queue s @ [(a, tid)]\<rparr>))))))"

definition uthread_yield :: "uthreads \<Rightarrow> (ret \<times> uthreads) result" where
  "uthread_yield s =
     bindE (ut_disableInterrupts s) (\<lambda>s.
     bindE (check_and_update_boost_structures s) (\<lambda>s.
     bindE (boost_lp_lock_holding_threads s) (\<lambda>s.
     bindE (modify (running s) (setState READY) s) (\<lambda>s.
     bindE (addToReady (running s) s) (\<lambda>s.
     switched (switchThreads AfterYield s))))))"

definition uthread_exit :: "int \<Rightarrow> uthreads \<Rightarrow> (ret \<times> uthreads) result" where
  "uthread_exit retval s =
     bindE (deref (running s) s) (\<lambda>t.
     if tcb_tid t = MAIN_THREAD then Inl (ExitProcess 0)
     else
       bindE (ut_disableInterrupts s) (\<lambda>s.
       bindE (moveFromJoinToReady (tcb_tid t) s) (\<lambda>s.
       bindE (threads_at (tcb_tid t) s) (\<lambda>a.
       switched (switchThreads AfterExit (s\<lparr>finished_queue := finished_queue s @ [(a, retval)]\<rparr>))))))"

definition uthread_suspend :: "int \<Rightarrow> uthreads \<Rightarrow> (ret \<times> uthreads) result" where
  "uthread_suspend tid s =
     (if tid = MAIN_THREAD then Inr (Ret FAIL, s)
      else case map_of (threads s) tid of
        None \<Rightarrow> Inr (Ret FAIL, s)
      | Some a \<Rightarrow>
          bindE (ut_disableInterrupts s) (\<lambda>s.
          bindE (deref (running s) s) (\<lambda>t.
          if tid = tcb_tid t then
            bindE (modify (running s) (setState BLOCK) s) (\<lambda>s.
            switched (switchThreads AfterSuspend (s\<lparr>blocked := blocked s @ [running s]\<rparr>)))
          else
            bindE (deref a s) (\<lambda>ta.
            bindE (removeFromReady (tcb_tid ta) s) (\<lambda>(in_ready, s).
            if \<not> in_ready then return_to_user (Ret FAIL) s
            else bindE (modify a (setState BLOCK) s) (\<lambda>s.
                 return_to_user (Ret SUCCESS) (s\<lparr>blocked := blocked s @ [a]\<rparr>)))))))"

definition uthread_resume :: "int \<Rightarrow> uthreads \<Rightarrow> (ret \<times> uthreads) result" where
  "uthread_resume tid s =
     (case map_of (threads s) tid of
        None \<Rightarrow> Inr (Ret FAIL, s)
      | Some a \<Rightarrow>
          if a \<in> set (blocked s) then
            bindE (ut_disableInterrupts s) (\<lambda>s.
            bindE (modify a (setState READY) s) (\<lambda>s.
            bindE (addToReady a s) (\<lambda>s.
            bindE (removeFromBlock tid s) (\<lambda>s. return_to_user (Ret SUCCESS) s))))
          else Inr (Ret FAIL, s))"

definition uthread_self :: "uthreads \<Rightarrow> int result" where
  "uthread_self s = bindE (deref (running s) s) (\<lambda>t. Inr (tcb_tid t))"

definition uthread_get_total_quantums :: "uthreads \<Rightarrow> int" where
  "uthread_get_total_quantums s = quantum_counter s"

definition uthread_get_quantums :: "int \<Rightarrow> uthreads \<Rightarrow> (ret \<times> uthreads) result" where
  "uthread_get_quantums tid s =
     bindE (ut_disableInterrupts s) (\<lambda>s.
     bindE (case map_of (threads s) tid of
              None \<Rightarrow> Inr FAIL
            | Some a \<Rightarrow> bindE (deref a s) (\<lambda>t. Inr (tcb_quantum t))) (\<lambda>v.
     return_to_user (Ret v) s))"

definition uthread_increase_priority :: "int \<Rightarrow> uthreads \<Rightarrow> (ret \<times> uthreads) result" where
  "uthread_increase_priority tid s =
     (case map_of (threads s) tid of
        None \<Rightarrow> Inr (Ret FAIL, s)
      | Some a \<Rightarrow>
          bindE (ut_disableInterrupts s) (\<lambda>s.
          bindE (uthread_increase_priority_internal a s) (\<lambda>s. return_to_user (Ret SUCCESS) s)))"

definition uthread_decrease_priority :: "int \<Rightarrow> uthreads \<Rightarrow> (ret \<times> uthreads) result" where
  "uthread_decrease_priority tid s =
     (case map_of (threads s) tid of
        None \<Rightarrow> Inr (Ret FAIL, s)
      | Some a \<Rightarrow>
          bindE (ut_disableInterrupts s) (\<lambda>s.
          bindE (uthread_decrease_priority_internal a s) (\<lambda>s. return_to_user (Ret SUCCESS) s)))"

section \<open>Locks\<close>

definition new_lock :: lock where
  "new_lock = \<lparr>lock_value = 0, waiting_queue = [], nextThreadToWakeUp = None\<rparr>"

definition set_lock :: "nat \<Rightarrow> lock \<Rightarrow> uthreads \<Rightarrow> uthreads" where
  "set_lock l lk s = s\<lparr>locks := (locks s)[l := lk]\<rparr>"

definition lock_lock :: "nat \<Rightarrow> uthreads \<Rightarrow> (ret \<times> uthreads) result" where
  "lock_lock l s =
     bindE (ut_disableInterrupts s) (\<lambda>s.
     bindE (vec_at (locks s) (int l)) (\<lambda>lk.
     if lock_value lk = 1 then
       bindE (modify (running s) (setState BLOCK) (set_lock l (lk\<lparr>waiting_queue := waiting_queue lk @ [running s]\<rparr>) s)) (\<lambda>s.
       switched (switchThreads (AfterLock l) s))
     else
       bindE (modify (running s) increaseLockCount (set_lock l (lk\<lparr>lock_value := 1\<rparr>) s)) (\<lambda>s.
       return_to_user RetVoid s)))"

text \<open>The flag tells whether the call switched; \<open>k\<close> is the saved context if it does.\<close>

definition lock_unlock_internal :: "nat \<Rightarrow> cont \<Rightarrow> uthreads \<Rightarrow> (bool \<times> uthreads) result" where
  "lock_unlock_internal l k s =
     bindE (vec_at (locks s) (int l)) (\<lambda>lk.
     case nextThreadToWakeUp lk of
       Some nxt \<Rightarrow>
         bindE (modify (running s) (setState READY) (set_lock l (lk\<lparr>nextThreadToWakeUp := None\<rparr>) s)) (\<lambda>s.
         bindE (addToReady (running s) s) (\<lambda>s.
         bindE (switchToThread nxt k s) (\<lambda>s. Inr (True, s))))
     | None \<Rightarrow>
         (case waiting_queue lk of
            w # q \<Rightarrow>
              bindE (modify w (setState READY) (set_lock l (lk\<lparr>waiting_queue := q\<rparr>) s)) (\<lambda>s.
              bindE (addToReady w s) (\<lambda>s. Inr (False, s)))
          | [] \<Rightarrow> Inr (False, set_lock l (lk\<lparr>lock_value := 0\<rparr>) s)))"

definition lock_unlock :: "nat \<Rightarrow> uthreads \<Rightarrow> (ret \<times> uthreads) result" where
  "lock_unlock l s =
     bindE (ut_disableInterrupts s) (\<lambda>s.
     bindE (modify (running s) decreaseLockCount s) (\<lambda>s.
     bindE (lock_unlock_internal l AfterUnlock s) (\<lambda>(sw, s).
     if sw then Inr (Switched, s) else return_to_user RetVoid s)))"

definition lock_signal :: "nat \<Rightarrow> addr \<Rightarrow> uthreads \<Rightarrow> uthreads result" where
  "lock_signal l a s =
     bindE (vec_at (locks s) (int l)) (\<lambda>lk. Inr (set_lock l (lk\<lparr>nextThreadToWakeUp := Some a\<rparr>) s))"

section \<open>Condition variables\<close>

definition new_condvar :: condvar where
  "new_condvar = \<lparr>cond_var_waiting_queue = [], wake_up_order = []\<rparr>"

text \<open>A program with some locks and condition variables.\<close>

definition ut_start :: "nat \<Rightarrow> nat \<Rightarrow> uthreads" where
  "ut_start nl nc = init_state\<lparr>locks := replicate nl new_lock, condvars := replicate nc new_condvar\<rparr>"

definition set_cv :: "nat \<Rightarrow> condvar \<Rightarrow> uthreads \<Rightarrow> uthreads" where
  "set_cv c cv s = s\<lparr>condvars := (condvars s)[c := cv]\<rparr>"

definition cv_wait :: "nat \<Rightarrow> nat \<Rightarrow> uthreads \<Rightarrow> (ret \<times> uthreads) result" where
  "cv_wait c l s =
     bindE (ut_disableInterrupts s) (\<lambda>s.
     bindE (vec_at (condvars s) (int c)) (\<lambda>cv.
     bindE (modify (running s) (setState BLOCK)
       (set_cv c (cv\<lparr>cond_var_waiting_queue := cond_var_waiting_queue cv @ [running s]\<rparr>) s)) (\<lambda>s.
     bindE (lock_unlock_internal l (AfterWaitUnlock c l) s) (\<lambda>(sw, s).
     if sw then Inr (Switched, s) else switched (switchThreads (AfterWait c l) s)))))"

definition cv_signal :: "nat \<Rightarrow> uthreads \<Rightarrow> (ret \<times> uthreads) result" where
  "cv_signal c s =
     bindE (ut_disableInterrupts s) (\<lambda>s.
     bindE (vec_at (condvars s) (int c)) (\<lambda>cv.
     case cond_var_waiting_queue cv of
       nxt # q \<Rightarrow>
         bindE (modify (running s) (setState BLOCK)
           (set_cv c (cv\<lparr>cond_var_waiting_queue := q, wake_up_order := wake_up_order cv @ [running s]\<rparr>) s)) (\<lambda>s.
         switched (switchToThread nxt AfterSignal s))
     | [] \<Rightarrow> return_to_user RetVoid s))"

definition cv_broadcast :: "nat \<Rightarrow> uthreads \<Rightarrow> (ret \<times> uthreads) result" where
  "cv_broadcast c s =
     bindE (ut_disableInterrupts s) (\<lambda>s.
     bindE (vec_at (condvars s) (int c)) (\<lambda>cv.
     case cond_var_waiting_queue cv of
       nxt # q \<Rightarrow>
         bindE (modify (running s) (setState BLOCK)
           (set_cv c (cv\<lparr>cond_var_waiting_queue := [], wake_up_order := wake_up_order cv @ q @ [running s]\<rparr>) s)) (\<lambda>s.
         switched (switchToThread nxt AfterSignal s))
     | [] \<Rightarrow> return_to_user RetVoid s))"

section \<open>Going on after a switch\<close>

definition after_wait :: "nat \<Rightarrow> nat \<Rightarrow> uthreads \<Rightarrow> (ret \<times> uthreads) result" where
  "after_wait c l s =
     bindE (modify (running s) (setState RUNNING) s) (\<lambda>s.
     bindE (vec_at (condvars s) (int c)) (\<lambda>cv.
     case wake_up_order cv of
       [] \<Rightarrow> Inl OutOfBounds
     | a # q \<Rightarrow>
         bindE (lock_signal l a s) (\<lambda>s.
         return_to_user RetVoid (set_cv c (cv\<lparr>wake_up_order := q\<rparr>) s))))"

definition after_join :: "int \<Rightarrow> uthreads \<Rightarrow> (ret \<times> uthreads) result" where
  "after_join tid s =
     bindE (removeFromFinished tid s) (\<lambda>(r, s).
     case r of None \<Rightarrow> Inl AssertFail | Some v \<Rightarrow> return_to_user (Joined v) s)"

definition after_lock :: "uthreads \<Rightarrow> (ret \<times> uthreads) result" where
  "after_lock s =
     bindE (modify (running s) (setState RUNNING) s) (\<lambda>s.
     bindE (modify (running s) increaseLockCount s) (\<lambda>s. return_to_user RetVoid s))"

definition resume :: "uthreads \<Rightarrow> (ret \<times> uthreads) result" where
  "resume s =
     (case conts s (running s) of
        User \<Rightarrow> Inr (RetVoid, s)
      | Start \<Rightarrow> return_to_user RetVoid s
      | AfterYield \<Rightarrow> return_to_user (Ret SUCCESS) s
      | AfterJoin tid \<Rightarrow> after_join tid s
      | AfterExit \<Rightarrow> Inl AssertFail
      | AfterSuspend \<Rightarrow> return_to_user (Ret SUCCESS) s
      | AfterLock l \<Rightarrow> after_lock s
      | AfterUnlock \<Rightarrow> return_to_user RetVoid s
      | AfterWaitUnlock c l \<Rightarrow> switched (switchThreads (AfterWait c l) s)
      | AfterWait c l \<Rightarrow> after_wait c l s
      | AfterSignal \<Rightarrow> return_to_user RetVoid s)"

section \<open>The machine\<close>

datatype call =
    Create
  | Join int
  | Yield
  | Exit int
  | Suspend int
  | ResumeThread int
  | GetQuantums int
  | IncreasePriority int
  | DecreasePriority int
  | LockCall nat
  | UnlockCall nat
  | Wait nat nat
  | Signal nat
  | Broadcast nat

fun exec :: "call \<Rightarrow> uthreads \<Rightarrow> (ret \<times> uthreads) result" where
  "exec Create s = uthread_create s"
| "exec (Join tid) s = uthread_join tid s"
| "exec Yield s = uthread_yield s"
| "exec (Exit v) s = uthread_exit v s"
| "exec (Suspend tid) s = uthread_suspend tid s"
| "exec (ResumeThread tid) s = uthread_resume tid s"
| "exec (GetQuantums tid) s = uthread_get_quantums tid s"
| "exec (IncreasePriority tid) s = uthread_increase_priority tid s"
| "exec (DecreasePriority tid) s = uthread_decrease_priority tid s"
| "exec (LockCall l) s = lock_lock l s"
| "exec (UnlockCall l) s = lock_unlock l s"
| "exec (Wait c l) s = cv_wait c l s"
| "exec (Signal c) s = cv_signal c s"
| "exec (Broadcast c) s = cv_broadcast c s"

text \<open>
  A thread in user code makes a call, the timer signal being a \<open>Yield\<close>; a thread
  just switched to first goes on where it stopped.
\<close>

definition ut_step :: "call \<Rightarrow> uthreads \<Rightarrow> (ret \<times> uthreads) result" where
  "ut_step c s = (if conts s (running s) = User then exec c s else resume s)"

text \<open>
  A program as the calls made in user code, in the order they happen: before each,
  the running thread goes on until it is in user code.  Only the first half of a
  wait switches again, once per thread, so the number of threads is enough fuel.
\<close>

fun settle :: "nat \<Rightarrow> uthreads \<Rightarrow> uthreads result" where
  "settle 0 s = Inr s"
| "settle (Suc n) s = bindE (resume s) (\<lambda>(r, s). if r = Switched then settle n s else Inr s)"

fun ut_run :: "call list \<Rightarrow> uthreads \<Rightarrow> (ret list \<times> uthreads) result" where
  "ut_run [] s = Inr ([], s)"
| "ut_run (c # cs) s =
     bindE (exec c s) (\<lambda>(r, s).
     bindE (settle (Suc (length (threads s))) s) (\<lambda>s.
     bindE (ut_run cs s) (\<lambda>(rs, s). Inr (r # rs, s))))"

end
