(* ===== verification/UtInvariant.thy ===== *)
theory UtInvariant
  imports UtCalls "HOL-Library.Multiset"
begin

text \<open>
  No thread is lost or duplicated: the running thread and the members of all
  queues are exactly the allocated control blocks, each once.  In the middle of a
  call some threads are in no queue; \<open>placed F s\<close> says that the threads \<open>F\<close> are in
  the hands of the code and all others in their places.
\<close>

definition ready_all :: "uthreads \<Rightarrow> addr list" where
  "ready_all s = ready s RED @ ready s ORANGE @ ready s GREEN"

definition lock_places :: "lock \<Rightarrow> addr list" where
  "lock_places lk = waiting_queue lk @ (case nextThreadToWakeUp lk of None \<Rightarrow> [] | Some a \<Rightarrow> [a])"

definition cv_places :: "condvar \<Rightarrow> addr list" where
  "cv_places cv = cond_var_waiting_queue cv @ wake_up_order cv"

definition queued :: "uthreads \<Rightarrow> addr multiset" where
  "queued s = mset (ready_all s) + mset (blocked s) + mset (map fst (join_queue s)) +
     mset (map fst (finished_queue s)) + mset (concat (map lock_places (locks s))) +
     mset (concat (map cv_places (condvars s)))"

definition threads_ok :: "uthreads \<Rightarrow> bool" where
  "threads_ok s \<longleftrightarrow> sorted_wrt (<) (map fst (threads s)) \<and>
     set (threads s) = {(tcb_tid t, a) | a t. heap s a = Some t} \<and>
     (\<forall>a t. heap s a = Some t \<longrightarrow> a < next_addr s \<and> 0 \<le> tcb_tid t)"

definition ready_ok :: "uthreads \<Rightarrow> bool" where
  "ready_ok s \<longleftrightarrow> (\<forall>p. \<forall>a \<in> set (ready s p). \<exists>t. heap s a = Some t \<and> tcb_pr t = p)"

definition placed :: "addr list \<Rightarrow> uthreads \<Rightarrow> bool" where
  "placed F s \<longleftrightarrow> finite (dom (heap s)) \<and> mset F + queued s = mset_set (dom (heap s)) \<and> threads_ok s \<and> ready_ok s"

text \<open>The invariant between calls: the running thread is the one in no queue.\<close>

definition ut_inv :: "uthreads \<Rightarrow> bool" where
  "ut_inv s \<longleftrightarrow> placed [running s] s"

lemma invD:
  assumes "placed F s"
  shows "finite (dom (heap s))" "mset F + queued s = mset_set (dom (heap s))" "threads_ok s" "ready_ok s"
  using assms by (simp_all add: placed_def)

text \<open>Members of the hand and of the queues are allocated, and nowhere twice.\<close>

lemma inv_count:
  assumes "placed F s"
  shows "count (mset F) a + count (queued s) a = (if heap s a = None then 0 else 1)"
proof -
  note i = invD [OF assms]
  have "count (mset F + queued s) a = (if a \<in> dom (heap s) then 1 else 0)"
    using i(1,2) by (simp add: count_mset_set')
  then show ?thesis by (auto simp: dom_def)
qed

lemma inv_members:
  assumes "placed F s"
  shows "a \<in> set F \<Longrightarrow> heap s a \<noteq> None" "a \<in># queued s \<Longrightarrow> heap s a \<noteq> None"
    "a \<in> set F \<Longrightarrow> a \<notin># queued s"
proof -
  have f: "a \<in> set F \<Longrightarrow> 1 \<le> count (mset F) a" "a \<in># queued s \<Longrightarrow> 1 \<le> count (queued s) a"
    by (simp_all add: Suc_le_eq)
  note c = inv_count [OF assms, of a]
  have z: "count (mset F) a + count (queued s) a = 0" if "heap s a = None" using c that by simp
  have o: "count (mset F) a + count (queued s) a \<le> 1" using c by (simp split: if_splits)
  show "heap s a \<noteq> None" if "a \<in> set F" using f(1) [OF that] z by linarith
  show "heap s a \<noteq> None" if "a \<in># queued s" using f(2) [OF that] z by linarith
  show "a \<notin># queued s" if "a \<in> set F" using f(1) [OF that] f(2) o by linarith
qed

lemma ready_okD: "ready_ok s \<Longrightarrow> a \<in> set (ready s p) \<Longrightarrow> heap s a = Some t \<Longrightarrow> tcb_pr t = p"
  unfolding ready_ok_def by fastforce

lemma ready_queued: "a \<in> set (ready s p) \<Longrightarrow> a \<in># queued s"
  by (cases p) (simp_all add: queued_def ready_all_def)

section \<open>Control blocks\<close>

lemma derefD [dest]: "deref a s = Inr t \<Longrightarrow> heap s a = Some t"
  by (auto simp: deref_def split: option.splits)

lemma deref_eq [simp]: "heap s a = Some t \<Longrightarrow> deref a s = Inr t"
  by (simp add: deref_def)

text \<open>Changes of a block that keep its id and priority.\<close>

definition tame :: "(tcb \<Rightarrow> tcb result) \<Rightarrow> bool" where
  "tame f \<longleftrightarrow> (\<forall>t t'. f t = Inr t' \<longrightarrow> tcb_tid t' = tcb_tid t \<and> tcb_pr t' = tcb_pr t)"

lemma tame_methods [simp]:
  "tame (setState st)" "tame increaseQuantum" "tame increaseLockCount" "tame decreaseLockCount"
  by (auto simp: tame_def increaseQuantum_def increaseLockCount_def decreaseLockCount_def bindE_eq_Inr)

text \<open>Everything but control blocks is as before.\<close>

lemma queued_heap [simp]: "queued (s\<lparr>heap := h\<rparr>) = queued s"
  by (simp add: queued_def ready_all_def)

lemma threads_ok_update:
  assumes "threads_ok s" "heap s a = Some t" "tcb_tid t' = tcb_tid t"
  shows "threads_ok (s\<lparr>heap := (heap s)(a := Some t')\<rparr>)"
proof -
  have "{(tcb_tid u, b) | b u. ((heap s)(a := Some t')) b = Some u} = {(tcb_tid u, b) | b u. heap s b = Some u}"
  proof (intro set_eqI iffI)
    fix x assume "x \<in> {(tcb_tid u, b) | b u. ((heap s)(a := Some t')) b = Some u}"
    then show "x \<in> {(tcb_tid u, b) | b u. heap s b = Some u}"
      using assms(2,3) by (auto split: if_splits)
  next
    fix x assume "x \<in> {(tcb_tid u, b) | b u. heap s b = Some u}"
    then obtain b u where x: "x = (tcb_tid u, b)" "heap s b = Some u" by blast
    then have "((heap s)(a := Some t')) b = Some (if b = a then t' else u)" "tcb_tid (if b = a then t' else u) = tcb_tid u"
      using assms(2,3) by auto
    then show "x \<in> {(tcb_tid u, b) | b u. ((heap s)(a := Some t')) b = Some u}"
      unfolding x(1) by (intro CollectI exI [of _ b] exI [of _ "if b = a then t' else u"]) simp
  qed
  then show ?thesis using assms by (simp add: threads_ok_def)
qed

lemma modify_safe:
  assumes "\<And>t t'. heap s a = Some t \<Longrightarrow> f t = Inr t' \<Longrightarrow> placed F (s\<lparr>heap := (heap s)(a := Some t')\<rparr>)"
  shows "safe (modify a f s) (\<lambda>u. placed F u \<and> (\<exists>h. u = s\<lparr>heap := h\<rparr>) \<and> dom (heap u) = dom (heap s))"
proof (cases "heap s a")
  case None
  then show ?thesis by (simp add: modify_def deref_def)
next
  case (Some t)
  then have d: "insert a (dom (heap s)) = dom (heap s)" by auto
  show ?thesis
  proof (cases "f t")
    case (Inl e)
    then show ?thesis using Some by (simp add: modify_def)
  next
    case (Inr t')
    then show ?thesis using Some d assms [OF Some Inr] by (auto simp: modify_def)
  qed
qed

lemma modify_inv:
  assumes "placed F s" "tame f"
  shows "safe (modify a f s) (\<lambda>u. placed F u \<and> (\<exists>h. u = s\<lparr>heap := h\<rparr>) \<and> dom (heap u) = dom (heap s))"
proof -
  note i = invD [OF assms(1)]
  have "placed F (s\<lparr>heap := (heap s)(a := Some t')\<rparr>)" if t: "heap s a = Some t" "f t = Inr t'" for t t'
  proof -
    have tt: "tcb_tid t' = tcb_tid t" "tcb_pr t' = tcb_pr t" using assms(2) t by (auto simp: tame_def)
    have "insert a (dom (heap s)) = dom (heap s)" using t by auto
    moreover have "ready_ok (s\<lparr>heap := (heap s)(a := Some t')\<rparr>)"
      using i(4) tt(2) t(1) ready_okD [OF i(4), of a _ t] by (auto simp: ready_ok_def)
    ultimately show ?thesis
      using i threads_ok_update [OF i(3) t(1) tt(1)] by (simp add: placed_def)
  qed
  then show ?thesis by (rule modify_safe)
qed

section \<open>Ready queues\<close>

lemma addToReady_inv:
  assumes "placed (a # F) s"
  shows "runs (addToReady a s) (\<lambda>u. placed F u \<and> (\<exists>r. u = s\<lparr>ready := r\<rparr>))"
proof -
  note i = invD [OF assms]
  obtain t where t: "heap s a = Some t" using inv_members(1) [OF assms, of a] by auto
  let ?u = "s\<lparr>ready := (ready s)(tcb_pr t := ready s (tcb_pr t) @ [a])\<rparr>"
  have "queued ?u = queued s + {#a#}"
    by (cases "tcb_pr t") (simp_all add: queued_def ready_all_def)
  then have "mset F + queued ?u = mset_set (dom (heap s))" using i(2) by simp
  moreover have "ready_ok ?u" using i(4) t by (auto simp: ready_ok_def)
  ultimately have "placed F ?u" using i by (simp add: placed_def threads_ok_def)
  then show ?thesis using t by (auto simp: addToReady_def)
qed

lemma ready_take:
  assumes "placed F s" "a \<in> set (ready s p)"
  shows "placed (a # F) (s\<lparr>ready := (ready s)(p := remove1 a (ready s p))\<rparr>)"
proof -
  note i = invD [OF assms(1)]
  let ?u = "s\<lparr>ready := (ready s)(p := remove1 a (ready s p))\<rparr>"
  have q: "queued ?u + {#a#} = queued s"
    using assms(2) by (cases p) (simp_all add: queued_def ready_all_def)
  have "mset (a # F) + queued ?u = mset F + queued s" by (subst q [symmetric]) simp
  then have "mset (a # F) + queued ?u = mset_set (dom (heap s))" using i(2) by simp
  moreover have "ready_ok ?u" using i(4) by (auto simp: ready_ok_def dest: notin_set_remove1)
  ultimately show ?thesis using i by (simp add: placed_def threads_ok_def)
qed

lemma getReady_inv:
  assumes "placed F s" "ready s p \<noteq> []"
  shows "runs (getReady p s) (\<lambda>(a, u). placed (a # F) u \<and> ready s p = a # ready u p \<and> (\<exists>r. u = s\<lparr>ready := r\<rparr>))"
proof -
  obtain a q where q: "ready s p = a # q" using assms(2) by (cases "ready s p") auto
  have "placed (a # F) (s\<lparr>ready := (ready s)(p := q)\<rparr>)"
    using ready_take [OF assms(1), of a p] q by simp
  then show ?thesis using q by (auto simp: getReady_def)
qed

lemma popReady_inv:
  assumes "placed F s"
  shows "runs (popReady s) (\<lambda>(n, u). (\<exists>r. u = s\<lparr>ready := r\<rparr>) \<and>
     (case n of None \<Rightarrow> placed F u | Some a \<Rightarrow> placed (a # F) u))"
proof -
  have "runs (bindE (getReady p s) (\<lambda>(a, s). Inr (Some a, s))) (\<lambda>(n, u). (\<exists>r. u = s\<lparr>ready := r\<rparr>) \<and>
     (case n of None \<Rightarrow> placed F u | Some a \<Rightarrow> placed (a # F) u))" if "ready s p \<noteq> []" for p
    by (rule runs_bind_pairI [OF getReady_inv [OF assms that]]) auto
  moreover have "\<exists>r. s = s\<lparr>ready := r\<rparr>" by (rule exI [of _ "ready s"]) simp
  ultimately show ?thesis using assms by (simp add: popReady_def)
qed

text \<open>Removing a thread by its id takes it out of the queue of its priority, where it is if it is ready.\<close>

lemma threads_at_iff:
  assumes "threads_ok s"
  shows "map_of (threads s) tid = Some a \<longleftrightarrow> (\<exists>t. heap s a = Some t \<and> tcb_tid t = tid)"
proof -
  have "distinct (map fst (threads s))" using assms by (auto simp: threads_ok_def strict_sorted_iff)
  then have "map_of (threads s) tid = Some a \<longleftrightarrow> (tid, a) \<in> set (threads s)" by simp
  also have "\<dots> \<longleftrightarrow> (\<exists>t. heap s a = Some t \<and> tcb_tid t = tid)" using assms by (auto simp: threads_ok_def)
  finally show ?thesis .
qed

lemma removeFromReady_inv:
  assumes "placed F s" "heap s a = Some t"
  shows "runs (removeFromReady (tcb_tid t) s) (\<lambda>(b, u). (\<exists>r. u = s\<lparr>ready := r\<rparr>) \<and> b = (\<exists>p. a \<in> set (ready s p)) \<and>
     (if b then placed (a # F) u else placed F u) \<and> (\<forall>p. a \<notin> set (ready u p)))"
proof -
  note i = invD [OF assms(1)]
  have at: "map_of (threads s) (tcb_tid t) = Some a" using threads_at_iff [OF i(3)] assms(2) by auto
  have only: "a \<notin> set (ready s p)" if "p \<noteq> tcb_pr t" for p
    using ready_okD [OF i(4) _ assms(2)] that by blast
  have run: "removeFromReady (tcb_tid t) s = (if a \<in> set (ready s (tcb_pr t))
      then Inr (True, s\<lparr>ready := (ready s)(tcb_pr t := remove1 a (ready s (tcb_pr t)))\<rparr>) else Inr (False, s))"
    using at assms(2) by (simp add: removeFromReady_def translatePriority_def threads_at_def)
  show ?thesis
  proof (cases "a \<in> set (ready s (tcb_pr t))")
    case True
    note tk = ready_take [OF assms(1) True]
    have "a \<notin> set (remove1 a (ready s (tcb_pr t)))"
      using inv_members(3) [OF tk, of a] ready_queued [of a "s\<lparr>ready := (ready s)(tcb_pr t := remove1 a (ready s (tcb_pr t)))\<rparr>" "tcb_pr t"]
      by auto
    then show ?thesis using True run tk only by auto
  next
    case False
    have "\<exists>r. s = s\<lparr>ready := r\<rparr>" by (rule exI [of _ "ready s"]) simp
    moreover have "a \<notin> set (ready s p)" for p using False only by (cases "p = tcb_pr t") auto
    ultimately show ?thesis using False run assms(1) by auto
  qed
qed

text \<open>A change of priority is safe for a thread in no ready queue.\<close>

lemma modify_pr_inv:
  assumes "placed F s" "\<And>p. a \<notin> set (ready s p)" "\<And>t t'. f t = Inr t' \<Longrightarrow> tcb_tid t' = tcb_tid t"
  shows "safe (modify a f s) (\<lambda>u. placed F u \<and> (\<exists>h. u = s\<lparr>heap := h\<rparr>) \<and> dom (heap u) = dom (heap s))"
proof -
  note i = invD [OF assms(1)]
  have "placed F (s\<lparr>heap := (heap s)(a := Some t')\<rparr>)" if t: "heap s a = Some t" "f t = Inr t'" for t t'
  proof -
    have "insert a (dom (heap s)) = dom (heap s)" using t by auto
    moreover have "threads_ok (s\<lparr>heap := (heap s)(a := Some t')\<rparr>)"
      by (rule threads_ok_update [OF i(3) t(1)]) (rule assms(3) [OF t(2)])
    moreover have "ready_ok (s\<lparr>heap := (heap s)(a := Some t')\<rparr>)"
      using i(4) assms(2) by (auto simp: ready_ok_def)
    ultimately show ?thesis using i by (simp add: placed_def)
  qed
  then show ?thesis by (rule modify_safe)
qed

section \<open>Boosting\<close>

text \<open>What the helpers that run before a switch leave alone.\<close>

definition same_ctx :: "uthreads \<Rightarrow> uthreads \<Rightarrow> bool" where
  "same_ctx s u \<longleftrightarrow> running u = running s \<and> conts u = conts s \<and> interrupts_enabled u = interrupts_enabled s \<and>
     dom (heap u) = dom (heap s) \<and> threads u = threads s"

lemma same_ctx_refl [simp]: "same_ctx s s"
  by (simp add: same_ctx_def)

lemma same_ctx_trans: "same_ctx s t \<Longrightarrow> same_ctx t u \<Longrightarrow> same_ctx s u"
  by (simp add: same_ctx_def)

lemma same_ctx_upd [simp]:
  "same_ctx s (s\<lparr>ready := r\<rparr>)" "same_ctx s (s\<lparr>numBoosts := n\<rparr>)" "same_ctx s (s\<lparr>blocked := b\<rparr>)"
  "same_ctx s (s\<lparr>join_queue := j\<rparr>)" "same_ctx s (s\<lparr>finished_queue := fq\<rparr>)" "same_ctx s (s\<lparr>locks := ls\<rparr>)"
  "same_ctx s (s\<lparr>condvars := cs\<rparr>)"
  by (simp_all add: same_ctx_def)

lemma addToReady_placed: "placed (a # F) s \<Longrightarrow> safe (addToReady a s) (\<lambda>u. placed F u \<and> same_ctx s u)"
  by (rule runs_safe [OF runs_mono [OF addToReady_inv]]) auto

lemma modify_placed: "placed F s \<Longrightarrow> tame f \<Longrightarrow> safe (modify a f s) (\<lambda>u. placed F u \<and> same_ctx s u)"
  by (rule safe_mono [OF modify_inv]) (auto simp: same_ctx_def)

lemma change_priority_placed:
  assumes pl: "placed F s" and f: "\<And>t t'. f t = Inr t' \<Longrightarrow> tcb_tid t' = tcb_tid t"
  shows "safe (bindE (deref a s) (\<lambda>t. bindE (removeFromReady (tcb_tid t) s) (\<lambda>(in_ready, s).
     bindE (modify a f s) (\<lambda>s. if in_ready then addToReady a s else Inr s)))) (\<lambda>u. placed F u \<and> same_ctx s u)"
proof (cases "heap s a")
  case None
  then show ?thesis by (simp add: deref_def)
next
  case (Some t)
  obtain b v where v: "removeFromReady (tcb_tid t) s = Inr (b, v)" "if b then placed (a # F) v else placed F v"
    "\<And>p. a \<notin> set (ready v p)" "\<exists>r. v = s\<lparr>ready := r\<rparr>"
    using removeFromReady_inv [OF pl Some] by (auto simp: runs_iff)
  have sv: "same_ctx s v" using v(4) by auto
  show ?thesis
  proof (cases b)
    case True
    then have "placed (a # F) v" using v(2) by simp
    from modify_pr_inv [OF this v(3) f]
    have "safe (modify a f v) (\<lambda>w. placed (a # F) w \<and> same_ctx s w)"
      by (rule safe_mono) (use sv in \<open>auto simp: same_ctx_def\<close>)
    then have "safe (bindE (modify a f v) (addToReady a)) (\<lambda>u. placed F u \<and> same_ctx s u)"
    proof (rule safe_bindI)
      fix w assume w: "placed (a # F) w \<and> same_ctx s w"
      show "safe (addToReady a w) (\<lambda>u. placed F u \<and> same_ctx s u)"
        by (rule safe_mono [OF addToReady_placed]) (use w same_ctx_trans in auto)
    qed
    then show ?thesis using Some v(1) True by simp
  next
    case False
    then have "placed F v" using v(2) by simp
    from modify_pr_inv [OF this v(3) f]
    have "safe (modify a f v) (\<lambda>w. placed F w \<and> same_ctx s w)"
      by (rule safe_mono) (use sv in \<open>auto simp: same_ctx_def\<close>)
    then have "safe (bindE (modify a f v) Inr) (\<lambda>u. placed F u \<and> same_ctx s u)"
      by (rule safe_bindI) simp
    then show ?thesis using Some v(1) False by simp
  qed
qed

lemma priority_placed:
  assumes "placed F s"
  shows "safe (uthread_increase_priority_internal a s) (\<lambda>u. placed F u \<and> same_ctx s u)"
    and "safe (uthread_decrease_priority_internal a s) (\<lambda>u. placed F u \<and> same_ctx s u)"
  unfolding uthread_increase_priority_internal_def uthread_decrease_priority_internal_def
  by (rule change_priority_placed [OF assms], auto)+

lemma placed_upd [simp]:
  "placed F (s\<lparr>numBoosts := n\<rparr>) = placed F s" "placed F (boost_set_update low f s) = placed F s"
  "placed F (s\<lparr>running := r\<rparr>) = placed F s" "placed F (s\<lparr>conts := k\<rparr>) = placed F s"
  "placed F (s\<lparr>interrupts_enabled := b\<rparr>) = placed F s" "placed F (s\<lparr>quantum_counter := q\<rparr>) = placed F s"
  "same_ctx s (boost_set_update low f s)"
  by (simp_all add: boost_set_update_def same_ctx_def placed_def queued_def ready_all_def threads_ok_def ready_ok_def)

lemma boost_thread_placed:
  assumes "placed F s"
  shows "safe (boost_thread low a s) (\<lambda>u. placed F u \<and> same_ctx s u)"
  unfolding boost_thread_def
proof (rule safe_bindI [OF priority_placed(1) [OF assms]])
  fix v assume v: "placed F v \<and> same_ctx s v"
  have "same_ctx s (boost_set_update b f v)" for b f using v by (auto simp: boost_set_update_def same_ctx_def)
  moreover have "same_ctx s (w\<lparr>numBoosts := n\<rparr>)" if "same_ctx s w" for w n using that by (simp add: same_ctx_def)
  moreover have "same_ctx s (boost_set_update b f w)" if "same_ctx s w" for w b f
    using that by (auto simp: boost_set_update_def same_ctx_def)
  ultimately show "safe (bindE (deref a v) (\<lambda>t.
       let s = (if tcb_pr t = ORANGE then boost_set_update False (List.insert a) v else v);
           s = boost_set_update low (remove1 a) s
       in Inr (s\<lparr>numBoosts := (numBoosts s)(tcb_tid t := Some (boosts_of (tcb_tid t) s + 1))\<rparr>))) (\<lambda>u. placed F u \<and> same_ctx s u)"
    using v by (cases "heap v a") (auto simp: deref_def Let_def)
qed

lemma boosting_placed:
  "placed F s \<Longrightarrow> safe (boosting_loop low num k as s) (\<lambda>u. placed F u \<and> same_ctx s u)"
proof (induction as arbitrary: k s)
  case (Cons a rest)
  then show ?case
    by (cases "heap s a") (auto simp: deref_def bindE_assoc intro!: safe_bindI [OF boost_thread_placed [OF Cons.prems]])
qed simp

lemma boost_all_placed:
  assumes "placed F s"
  shows "safe (boost_lp_lock_holding_threads s) (\<lambda>u. placed F u \<and> same_ctx s u)"
  unfolding boost_lp_lock_holding_threads_def boosting_logic_def
proof (rule safe_bindI [OF boosting_placed [OF assms]])
  fix v assume v: "placed F v \<and> same_ctx s v"
  show "safe (boosting_loop True (if length (lowBoost v) > 10 then length (lowBoost v) div 10 else 1) 1 (boost_set True v) v)
    (\<lambda>u. placed F u \<and> same_ctx s u)"
    by (rule safe_mono [OF boosting_placed]) (use v same_ctx_trans in auto)
qed

lemma running_priority_placed:
  assumes "placed [running s] s"
  shows "safe (modify (running s) decreasePriority s) (\<lambda>u. placed [running s] u \<and> same_ctx s u)"
proof -
  have "running s \<notin> set (ready s p)" for p
    using inv_members(3) [OF assms, of "running s"] ready_queued [of "running s" s p] by auto
  then show ?thesis
    by (intro safe_mono [OF modify_pr_inv [OF assms]]) (auto simp: same_ctx_def)
qed

lemma unboost_placed:
  assumes "placed [running s] s"
  shows "safe (unboost_running s) (\<lambda>u. placed [running s] u \<and> same_ctx s u)"
proof -
  obtain t where t: "heap s (running s) = Some t" using inv_members(1) [OF assms, of "running s"] by auto
  have g: "safe (bindE (if n \<noteq> 0 then
                  bindE (modify (running s) decreasePriority s) (\<lambda>s.
                  Inr (s\<lparr>numBoosts := (numBoosts s)(tcb_tid t := Some (n - 1))\<rparr>))
                else Inr s) (\<lambda>s.
         Inr (if boosts_of (tcb_tid t) s = 0 then s\<lparr>numBoosts := (numBoosts s)(tcb_tid t := None)\<rparr> else s)))
     (\<lambda>u. placed [running s] u \<and> same_ctx s u)" for n
  proof (rule safe_bindI [where P = "\<lambda>u. placed [running s] u \<and> same_ctx s u"])
    show "safe (if n \<noteq> 0 then
                  bindE (modify (running s) decreasePriority s) (\<lambda>s.
                  Inr (s\<lparr>numBoosts := (numBoosts s)(tcb_tid t := Some (n - 1))\<rparr>))
                else Inr s) (\<lambda>u. placed [running s] u \<and> same_ctx s u)"
      using assms safe_bindI [OF running_priority_placed [OF assms]] by (auto simp: same_ctx_def intro!: safe_bindI [OF running_priority_placed [OF assms]])
  qed (auto simp: same_ctx_def)
  show ?thesis
    using g assms t by (auto simp: unboost_running_def split: option.splits)
qed

lemma check_boost_placed:
  assumes "placed [running s] s"
  shows "safe (check_and_update_boost_structures s) (\<lambda>u. placed [running s] u \<and> same_ctx s u)"
proof -
  obtain t where t: "heap s (running s) = Some t" using inv_members(1) [OF assms, of "running s"] by auto
  have st: "safe (bindE (getBoostingStructureForPriority v) (\<lambda>low. Inr (boost_set_update low (f v) v)))
     (\<lambda>u. placed [running s] u \<and> same_ctx s u)" if "placed [running s] v" "same_ctx s v" for f v
    using that by (cases "heap v (running v)")
      (auto simp: getBoostingStructureForPriority_def deref_def intro: same_ctx_trans)
  have lo: "safe (bindE (unboost_running s) (\<lambda>s. bindE (getBoostingStructureForPriority s) (\<lambda>low.
         Inr (boost_set_update low (remove1 (running s)) s)))) (\<lambda>u. placed [running s] u \<and> same_ctx s u)"
    by (rule safe_bindI [OF unboost_placed [OF assms]]) (rule st [where f = "\<lambda>v. remove1 (running v)"], auto)
  have hi: "safe (let s = (if numBoosts s (tcb_tid t) = None
                  then s\<lparr>numBoosts := (numBoosts s)(tcb_tid t := Some 0)\<rparr> else s)
         in bindE (getBoostingStructureForPriority s) (\<lambda>low.
            Inr (boost_set_update low (List.insert (running s)) s))) (\<lambda>u. placed [running s] u \<and> same_ctx s u)"
    using st [of "s\<lparr>numBoosts := (numBoosts s)(tcb_tid t := Some 0)\<rparr>" "\<lambda>v. List.insert (running v)"]
      st [of s "\<lambda>v. List.insert (running v)"] assms by (simp add: Let_def)
  show ?thesis
  proof (cases "tcb_pr t = RED \<and> numBoosts s (tcb_tid t) = None")
    case True
    then show ?thesis using t assms by (simp add: check_and_update_boost_structures_def)
  next
    case False
    show ?thesis
      unfolding check_and_update_boost_structures_def deref_eq [OF t] bindE_simps if_not_P [OF False]
    proof (rule safe_bindI [OF safe_trivial])
      fix x
      show "safe (if x then let s = (if numBoosts s (tcb_tid t) = None
                  then s\<lparr>numBoosts := (numBoosts s)(tcb_tid t := Some 0)\<rparr> else s)
         in bindE (getBoostingStructureForPriority s) (\<lambda>low.
            Inr (boost_set_update low (List.insert (running s)) s))
        else bindE (unboost_running s) (\<lambda>s. bindE (getBoostingStructureForPriority s) (\<lambda>low.
         Inr (boost_set_update low (remove1 (running s)) s)))) (\<lambda>u. placed [running s] u \<and> same_ctx s u)"
        using hi lo by (cases x) (simp_all only: if_True if_False)
    qed
  qed
qed

section \<open>Switches and queues of waiting threads\<close>

lemma return_placed:
  assumes "placed [running s] s"
  shows "safe (return_to_user r s) (\<lambda>(r, u). ut_inv u)"
  using assms by (auto simp: return_to_user_def ut_enableInterrupts_def safe_bind ut_inv_def)

lemma disable_placed:
  "safe (ut_disableInterrupts s) (\<lambda>u. u = s\<lparr>interrupts_enabled := False\<rparr> \<and> interrupts_enabled s)"
  by (cases "interrupts_enabled s") (simp_all add: ut_disableInterrupts_def)

lemma switch_placed:
  assumes "placed [a] s"
  shows "safe (switchToThread a k s) ut_inv"
proof -
  have 1: "placed [a] (s\<lparr>conts := (conts s)(running s := k), running := a\<rparr>)" using assms by simp
  show ?thesis
    unfolding switchToThread_def Let_def
  proof (rule safe_bindI [OF safe_trivial], rule safe_bindI [OF modify_placed [OF 1]], simp)
    fix u assume u: "placed [a] u \<and> same_ctx (s\<lparr>conts := (conts s)(running s := k), running := a\<rparr>) u"
    show "safe (bindE (modify a increaseQuantum u) (\<lambda>s. bindE (int_inc (quantum_counter s)) (\<lambda>n. Inr (s\<lparr>quantum_counter := n\<rparr>)))) ut_inv"
    proof (rule safe_bindI [OF modify_placed [OF conjunct1 [OF u]]], simp)
      fix v assume v: "placed [a] v \<and> same_ctx u v"
      then have "running v = a" using u by (simp add: same_ctx_def)
      then show "safe (bindE (int_inc (quantum_counter v)) (\<lambda>n. Inr (v\<lparr>quantum_counter := n\<rparr>))) ut_inv"
        using v by (cases "int_inc (quantum_counter v)") (auto simp: ut_inv_def)
    qed
  qed
qed

lemma switchThreads_placed:
  assumes "placed [] s"
  shows "safe (switched (switchThreads k s)) (\<lambda>(r, u). ut_inv u)"
proof -
  have "safe (switchThreads k s) ut_inv"
    unfolding switchThreads_def
  proof (rule safe_bind_pairI [OF runs_safe [OF popReady_inv [OF assms]]])
    fix n u assume "(\<exists>r. u = s\<lparr>ready := r\<rparr>) \<and> (case n of None \<Rightarrow> placed [] u | Some a \<Rightarrow> placed [a] u)"
    then show "safe (case n of None \<Rightarrow> Inl AssertFail | Some a \<Rightarrow> switchToThread a k u) ut_inv"
      by (cases n) (auto intro: switch_placed)
  qed
  then show ?thesis unfolding switched_def by (rule safe_bindI) simp
qed

text \<open>A thread in hand goes to one of the queues, or the other way round.\<close>

lemma placed_move:
  assumes "placed F s" "mset G + queued u = mset F + queued s"
    and "heap u = heap s" "threads u = threads s" "next_addr u = next_addr s" "ready u = ready s"
  shows "placed G u"
  using assms by (simp add: placed_def threads_ok_def ready_ok_def)

lemma queued_update:
  "queued (s\<lparr>blocked := blocked s @ [a]\<rparr>) = add_mset a (queued s)"
  "queued (s\<lparr>join_queue := join_queue s @ [(a, tid)]\<rparr>) = add_mset a (queued s)"
  "queued (s\<lparr>finished_queue := finished_queue s @ [(a, v)]\<rparr>) = add_mset a (queued s)"
  by (simp_all add: queued_def ready_all_def)

lemma mset_concat_update:
  "l < length xs \<Longrightarrow> mset (concat (map f (xs[l := x]))) + mset (f (xs ! l)) = mset (concat (map f xs)) + mset (f x)"
proof (induction xs arbitrary: l)
  case Nil
  then show ?case by simp
next
  case (Cons y ys)
  show ?case
  proof (cases l)
    case 0
    then show ?thesis by (simp add: ac_simps)
  next
    case (Suc k)
    then show ?thesis using Cons.IH [of k] Cons.prems by (simp add: ac_simps)
  qed
qed

lemma queued_lock:
  assumes "vec_at (locks s) (int l) = Inr lk"
  shows "queued (set_lock l lk' s) + mset (lock_places lk) = queued s + mset (lock_places lk')"
proof -
  have l: "l < length (locks s)" "lk = locks s ! l" using assms by (auto simp: vec_at_def split: if_splits)
  show ?thesis
    using mset_concat_update [OF l(1), of lock_places lk'] l(2)
    by (simp add: queued_def set_lock_def ready_all_def ac_simps)
qed

lemma queued_cv:
  assumes "vec_at (condvars s) (int c) = Inr cv"
  shows "queued (set_cv c cv' s) + mset (cv_places cv) = queued s + mset (cv_places cv')"
proof -
  have c: "c < length (condvars s)" "cv = condvars s ! c" using assms by (auto simp: vec_at_def split: if_splits)
  show ?thesis
    using mset_concat_update [OF c(1), of cv_places cv'] c(2)
    by (simp add: queued_def set_cv_def ready_all_def ac_simps)
qed

lemma set_lock_simps [simp]:
  "heap (set_lock l lk s) = heap s" "threads (set_lock l lk s) = threads s" "next_addr (set_lock l lk s) = next_addr s"
  "ready (set_lock l lk s) = ready s" "running (set_lock l lk s) = running s" "same_ctx s (set_lock l lk s)"
  by (simp_all add: set_lock_def)

lemma set_cv_simps [simp]:
  "heap (set_cv c cv s) = heap s" "threads (set_cv c cv s) = threads s" "next_addr (set_cv c cv s) = next_addr s"
  "ready (set_cv c cv s) = ready s" "running (set_cv c cv s) = running s" "same_ctx s (set_cv c cv s)"
  by (simp_all add: set_cv_def)

lemma placed_lock:
  assumes "placed F s" "vec_at (locks s) (int l) = Inr lk" "mset G + mset (lock_places lk') = mset F + mset (lock_places lk)"
  shows "placed G (set_lock l lk' s)"
proof (rule placed_move [OF assms(1)])
  have "mset G + queued (set_lock l lk' s) + mset (lock_places lk) = mset F + queued s + mset (lock_places lk)"
    using queued_lock [OF assms(2), of lk'] assms(3) by (metis (no_types, lifting) union_assoc union_commute)
  then show "mset G + queued (set_lock l lk' s) = mset F + queued s" by simp
qed simp_all

lemma placed_cv:
  assumes "placed F s" "vec_at (condvars s) (int c) = Inr cv" "mset G + mset (cv_places cv') = mset F + mset (cv_places cv)"
  shows "placed G (set_cv c cv' s)"
proof (rule placed_move [OF assms(1)])
  have "mset G + queued (set_cv c cv' s) + mset (cv_places cv) = mset F + queued s + mset (cv_places cv)"
    using queued_cv [OF assms(2), of cv'] assms(3) by (metis (no_types, lifting) union_assoc union_commute)
  then show "mset G + queued (set_cv c cv' s) = mset F + queued s" by simp
qed simp_all

end
