(* ===== verification/UtConserve.thy ===== *)
theory UtConserve
  imports UtInvariant
begin

text \<open>
  Every call, and the rest of a call after a switch, keeps the invariant: no
  thread is lost, duplicated or put in a queue of the wrong priority.  The two
  exceptions are waiting on a condition variable while the lock still has a
  thread to hand over to.
\<close>

lemma disabled:
  assumes "ut_inv s"
  shows "placed [running s] (s\<lparr>interrupts_enabled := False\<rparr>)"
  using assms by (simp add: ut_inv_def)

lemma after_disable:
  assumes "ut_inv s"
    and "\<And>u. u = s\<lparr>interrupts_enabled := False\<rparr> \<Longrightarrow> placed [running u] u \<Longrightarrow> safe (f u) (\<lambda>(r, u). ut_inv u)"
  shows "safe (bindE (ut_disableInterrupts s) f) (\<lambda>(r, u). ut_inv u)"
  by (rule safe_bindI [OF disable_placed]) (use assms in \<open>auto simp: ut_inv_def\<close>)

lemma return_after:
  assumes "placed [running s] u" "same_ctx s u"
  shows "safe (return_to_user r u) (\<lambda>(r, u). ut_inv u)"
  using return_placed [of u r] assms by (simp add: same_ctx_def)

lemma running_alloc: "placed [running s] s \<Longrightarrow> \<exists>t. heap s (running s) = Some t"
  using inv_members(1) [of "[running s]" s "running s"] by auto

section \<open>Creating, joining, leaving\<close>

lemma next_id_least:
  assumes "sorted_wrt (<) (map fst m)" "\<forall>k \<in> fst ` set m. i \<le> k"
  shows "i \<le> next_id_from i m" "next_id_from i m \<notin> fst ` set m"
    "\<And>j. i \<le> j \<Longrightarrow> j < next_id_from i m \<Longrightarrow> j \<in> fst ` set m" "next_id_from i m \<le> i + int (length m)"
proof -
  have "i \<le> next_id_from i m \<and> next_id_from i m \<notin> fst ` set m \<and>
    (\<forall>j. i \<le> j \<and> j < next_id_from i m \<longrightarrow> j \<in> fst ` set m) \<and> next_id_from i m \<le> i + int (length m)"
    using assms
  proof (induction i m rule: next_id_from.induct)
    case (1 i)
    then show ?case by simp
  next
    case (2 i k a m)
    show ?case
    proof (cases "k = i")
      case True
      have "\<forall>k \<in> fst ` set m. i + 1 \<le> k" using 2(2) True by auto
      then have ih: "i + 1 \<le> next_id_from (i + 1) m \<and> next_id_from (i + 1) m \<notin> fst ` set m \<and>
        (\<forall>j. i + 1 \<le> j \<and> j < next_id_from (i + 1) m \<longrightarrow> j \<in> fst ` set m) \<and>
        next_id_from (i + 1) m \<le> i + 1 + int (length m)"
        using 2 True by simp
      have "j \<in> insert i (fst ` set m)" if "i \<le> j" "j < next_id_from (i + 1) m" for j
        using ih that by (cases "j = i") auto
      then show ?thesis using ih True by auto
    next
      case False
      then have "i < k" using 2(3) by force
      then show ?thesis using 2(2) False by auto
    qed
  qed
  then show "i \<le> next_id_from i m" "next_id_from i m \<notin> fst ` set m"
    "\<And>j. i \<le> j \<Longrightarrow> j < next_id_from i m \<Longrightarrow> j \<in> fst ` set m" "next_id_from i m \<le> i + int (length m)" by blast+
qed

lemma next_id_free:
  assumes "threads_ok s"
  shows "0 \<le> getNextId s" "getNextId s \<notin> fst ` set (threads s)"
    "\<And>j. 0 \<le> j \<Longrightarrow> j < getNextId s \<Longrightarrow> j \<in> fst ` set (threads s)" "getNextId s \<le> int (length (threads s))"
proof -
  have "sorted_wrt (<) (map fst (threads s))" "\<forall>k \<in> fst ` set (threads s). 0 \<le> k"
    using assms by (auto simp: threads_ok_def)
  from next_id_least [OF this] show "0 \<le> getNextId s" "getNextId s \<notin> fst ` set (threads s)"
    "\<And>j. 0 \<le> j \<Longrightarrow> j < getNextId s \<Longrightarrow> j \<in> fst ` set (threads s)" "getNextId s \<le> int (length (threads s))"
    by (simp_all add: getNextId_def)
qed

lemma threads_insert_ok:
  assumes "sorted_wrt (<) (map fst m)" "tid \<notin> fst ` set m"
  shows "sorted_wrt (<) (map fst (threads_insert tid a m))" "set (threads_insert tid a m) = insert (tid, a) (set m)"
proof -
  have "sorted (map fst (insort_key fst (tid, a) m))"
    using assms(1) by (simp add: sorted_insort_key strict_sorted_iff)
  moreover have "distinct (map fst (insort_key fst (tid, a) m))"
  proof -
    have "distinct (map fst m)" using assms(1) by (simp add: strict_sorted_iff)
    moreover have "mset (map fst (insort_key fst (tid, a) m)) = mset (tid # map fst m)" by simp
    ultimately show ?thesis using assms(2) by (metis distinct.simps(2) list.set_map mset_eq_imp_distinct_iff)
  qed
  ultimately show "sorted_wrt (<) (map fst (threads_insert tid a m))"
    using assms(2) by (simp add: threads_insert_def strict_sorted_iff)
  show "set (threads_insert tid a m) = insert (tid, a) (set m)"
    using assms(2) by (simp add: threads_insert_def set_insort_key)
qed

lemma ids_eqI:
  "(\<And>x b. (x, b) \<in> S \<longleftrightarrow> (\<exists>t. h b = Some t \<and> tcb_tid t = x)) \<Longrightarrow> S = {(tcb_tid t, a) | a t. h a = Some t}"
  by auto

lemma new_thread_placed:
  assumes p: "placed F s" and tid: "tid \<notin> fst ` set (threads s)" "0 \<le> tid"
    and u: "u = s\<lparr>heap := (heap s)(next_addr s := Some (new_tcb tid pr st)), next_addr := next_addr s + 1,
                  threads := threads_insert tid (next_addr s) (threads s), conts := k\<rparr>"
  shows "placed (next_addr s # F) u"
proof -
  note i = invD [OF p]
  have fresh: "heap s (next_addr s) = None"
    using i(3) by (cases "heap s (next_addr s)") (auto simp: threads_ok_def)
  have ti: "sorted_wrt (<) (map fst (threads u))" "set (threads u) = insert (tid, next_addr s) (set (threads s))"
    using threads_insert_ok [OF _ tid(1), of "next_addr s"] i(3) by (simp_all add: u threads_ok_def)
  have "queued u = queued s" by (simp add: u queued_def ready_all_def)
  moreover have "dom (heap u) = insert (next_addr s) (dom (heap s))" by (simp add: u)
  moreover have "next_addr s \<notin> dom (heap s)" using fresh by auto
  ultimately have m: "mset (next_addr s # F) + queued u = mset_set (dom (heap u))" "finite (dom (heap u))"
    using i(1,2) by simp_all
  have "(x, b) \<in> set (threads u) \<longleftrightarrow> (\<exists>t. heap u b = Some t \<and> tcb_tid t = x)" for x b
  proof -
    have "(x, b) \<in> set (threads s) \<longleftrightarrow> (\<exists>t. heap s b = Some t \<and> tcb_tid t = x)"
      using i(3) by (auto simp: threads_ok_def)
    then show ?thesis using fresh unfolding ti(2) by (auto simp: u new_tcb_def)
  qed
  then have "set (threads u) = {(tcb_tid t, a) | a t. heap u a = Some t}" by (rule ids_eqI)
  moreover have "a < next_addr u \<and> 0 \<le> tcb_tid t" if "heap u a = Some t" for a t
  proof (cases "a = next_addr s")
    case True
    then show ?thesis using that tid(2) by (auto simp: u new_tcb_def)
  next
    case False
    then have "a < next_addr s \<and> 0 \<le> tcb_tid t" using that i(3) by (simp add: u threads_ok_def)
    then show ?thesis by (simp add: u)
  qed
  ultimately have "threads_ok u" using ti(1) by (simp add: threads_ok_def)
  moreover have "ready_ok u"
    using i(4) fresh by (auto simp: ready_ok_def u) (metis option.distinct(1))
  ultimately show ?thesis using m by (simp add: placed_def)
qed

lemma create_inv:
  assumes "ut_inv s"
  shows "safe (uthread_create s) (\<lambda>(r, u). ut_inv u)"
proof (cases "length (threads s) = 100")
  case True
  then show ?thesis using assms by (simp add: uthread_create_def)
next
  case False
  show ?thesis
    unfolding uthread_create_def if_not_P [OF False]
  proof (rule after_disable [OF assms])
    fix u assume u: "u = s\<lparr>interrupts_enabled := False\<rparr>" and p: "placed [running u] u"
    note nid = next_id_free [OF invD(3) [OF p]]
    let ?v = "u\<lparr>heap := (heap u)(next_addr u := Some (new_tcb (getNextId u) ORANGE READY)), next_addr := next_addr u + 1,
                  threads := threads_insert (getNextId u) (next_addr u) (threads u),
                  conts := (conts u)(next_addr u := Start)\<rparr>"
    have "placed (next_addr u # [running u]) ?v" by (rule new_thread_placed [OF p nid(2,1) refl])
    from addToReady_placed [OF this]
    show "safe (let tid = getNextId u; a = next_addr u;
            s = u\<lparr>heap := (heap u)(a := Some (new_tcb tid ORANGE READY)), next_addr := a + 1,
                  threads := threads_insert tid a (threads u), conts := (conts u)(a := Start)\<rparr>
        in bindE (addToReady a s) (\<lambda>s. return_to_user (Ret tid) s)) (\<lambda>(r, u). ut_inv u)"
      unfolding Let_def
    proof (rule safe_bindI)
      fix w assume "placed [running u] w \<and> same_ctx ?v w"
      then show "safe (return_to_user (Ret (getNextId u)) w) (\<lambda>(r, u). ut_inv u)"
        using return_placed [of w] by (simp add: same_ctx_def)
    qed
  qed
qed

text \<open>A finished thread is deleted when it is joined.\<close>

lemma find_finished_spec:
  "safe (find_finished tid q s) (\<lambda>r. case r of None \<Rightarrow> \<forall>(a, v) \<in> set q. \<forall>t. heap s a = Some t \<longrightarrow> tcb_tid t \<noteq> tid
     | Some (a, v, q') \<Rightarrow> (\<exists>t. heap s a = Some t \<and> tcb_tid t = tid) \<and> mset q = add_mset (a, v) (mset q'))"
proof (induction q)
  case Nil
  then show ?case by simp
next
  case (Cons x q)
  obtain a v where x: "x = (a, v)" by (cases x)
  show ?case
  proof (cases "heap s a")
    case None
    then show ?thesis by (simp add: x deref_def)
  next
    case (Some t)
    show ?thesis
    proof (cases "tcb_tid t = tid")
      case True
      then show ?thesis using Some by (simp add: x)
    next
      case False
      have "safe (bindE (find_finished tid q s) (\<lambda>r.
         Inr (case r of None \<Rightarrow> None | Some (b, w, q') \<Rightarrow> Some (b, w, (a, v) # q'))))
        (\<lambda>r. case r of None \<Rightarrow> \<forall>(a, v) \<in> set (x # q). \<forall>t. heap s a = Some t \<longrightarrow> tcb_tid t \<noteq> tid
     | Some (a, v, q') \<Rightarrow> (\<exists>t. heap s a = Some t \<and> tcb_tid t = tid) \<and> mset (x # q) = add_mset (a, v) (mset q'))"
        by (rule safe_bindI [OF Cons.IH]) (use Some False x in \<open>auto split: option.splits\<close>)
      then show ?thesis using Some False by (simp add: x)
    qed
  qed
qed

lemma delete_placed:
  assumes p: "placed F s" and a: "heap s a = Some t" and q: "mset (finished_queue s) = add_mset (a, v) (mset q)"
  shows "placed F (s\<lparr>threads := threads_erase (tcb_tid t) (threads s), heap := (heap s)(a := None), finished_queue := q\<rparr>)"
    (is "placed F ?u")
proof -
  note i = invD [OF p]
  have "mset (map fst (finished_queue s)) = add_mset a (mset (map fst q))" using q by (simp only: mset_map) simp
  then have qs: "queued s = add_mset a (queued ?u)" by (simp add: queued_def ready_all_def)
  have d: "dom (heap ?u) = dom (heap s) - {a}" "a \<in> dom (heap s)" using a by auto
  have "mset F + add_mset a (queued ?u) = mset_set (dom (heap s))" using i(2) qs by simp
  also have "\<dots> = add_mset a (mset_set (dom (heap ?u)))" using i(1) d by (simp add: mset_set.remove)
  finally have m: "mset F + queued ?u = mset_set (dom (heap ?u))" by simp
  have nr: "a \<notin> set (ready s p)" for p
  proof
    assume "a \<in> set (ready s p)"
    then have "a \<in># queued ?u" using ready_queued [of a ?u p] by simp
    then have "1 \<le> count (queued ?u) a" by (simp add: Suc_le_eq)
    then have "2 \<le> count (queued s) a" unfolding qs by simp
    then show False using inv_count [OF p, of a] by (simp split: if_splits)
  qed
  have mem: "(x, b) \<in> set (threads s) \<longleftrightarrow> (\<exists>t. heap s b = Some t \<and> tcb_tid t = x)" for x b
    using i(3) by (auto simp: threads_ok_def)
  have uniq: "b = a" if "heap s b = Some u" "tcb_tid u = tcb_tid t" for b u
    using threads_at_iff [OF i(3), of "tcb_tid t" a] threads_at_iff [OF i(3), of "tcb_tid t" b] that a by auto
  have "(x, b) \<in> set (threads ?u) \<longleftrightarrow> (\<exists>t. heap ?u b = Some t \<and> tcb_tid t = x)" for x b
  proof -
    have "(x, b) \<in> set (threads ?u) \<longleftrightarrow> (x, b) \<in> set (threads s) \<and> x \<noteq> tcb_tid t" by (auto simp: threads_erase_def)
    also have "\<dots> \<longleftrightarrow> (\<exists>t. heap ?u b = Some t \<and> tcb_tid t = x)"
    proof (cases "b = a")
      case True
      then show ?thesis using mem [of x b] a by simp
    next
      case False
      then have "tcb_tid u \<noteq> tcb_tid t" if "heap s b = Some u" for u using uniq that by blast
      then show ?thesis using False by (auto simp: mem [of x b])
    qed
    finally show ?thesis .
  qed
  then have "set (threads ?u) = {(tcb_tid t, a) | a t. heap ?u a = Some t}" by (rule ids_eqI)
  moreover have "sorted_wrt (<) (map fst (threads ?u))"
    using i(3) by (simp add: threads_ok_def threads_erase_def sorted_wrt_map sorted_wrt_filter)
  moreover have "\<forall>b t. heap ?u b = Some t \<longrightarrow> b < next_addr ?u \<and> 0 \<le> tcb_tid t"
    using i(3) by (simp add: threads_ok_def)
  ultimately have "threads_ok ?u" by (simp add: threads_ok_def)
  moreover have "ready_ok ?u" using i(4) nr by (auto simp: ready_ok_def)
  ultimately show ?thesis using m i(1) by (simp add: placed_def)
qed

lemma removeFromFinished_placed:
  assumes "placed F s"
  shows "safe (removeFromFinished tid s) (\<lambda>(r, u). placed F u \<and> running u = running s)"
  unfolding removeFromFinished_def
proof (rule safe_bindI [OF find_finished_spec])
  fix r assume r: "case r of None \<Rightarrow> \<forall>(a, v) \<in> set (finished_queue s). \<forall>t. heap s a = Some t \<longrightarrow> tcb_tid t \<noteq> tid
     | Some (a, v, q') \<Rightarrow> (\<exists>t. heap s a = Some t \<and> tcb_tid t = tid) \<and> mset (finished_queue s) = add_mset (a, v) (mset q')"
  show "safe (case r of None \<Rightarrow> Inr (None, s)
     | Some (a, v, q) \<Rightarrow> Inr (Some v,
         s\<lparr>threads := threads_erase tid (threads s), heap := (heap s)(a := None), finished_queue := q\<rparr>))
     (\<lambda>(r, u). placed F u \<and> running u = running s)"
    using r assms delete_placed [OF assms] by (auto split: option.splits)
qed

lemma join_inv:
  assumes "ut_inv s"
  shows "safe (uthread_join tid s) (\<lambda>(r, u). ut_inv u)"
  unfolding uthread_join_def
proof (rule after_disable [OF assms])
  fix u assume u: "u = s\<lparr>interrupts_enabled := False\<rparr>" and p: "placed [running u] u"
  show "safe (bindE (removeFromFinished tid u) (\<lambda>(r, s). case r of
       Some v \<Rightarrow> return_to_user (Joined v) s
     | None \<Rightarrow> bindE (deref (running s) s) (\<lambda>t. bindE (threads_at (tcb_tid t) s) (\<lambda>a.
         switched (switchThreads (AfterJoin tid) (s\<lparr>join_queue := join_queue s @ [(a, tid)]\<rparr>)))))) (\<lambda>(r, u). ut_inv u)"
  proof (rule safe_bind_pairI [OF removeFromFinished_placed [OF p]])
    fix r v assume v: "placed [running u] v \<and> running v = running u"
    obtain t where t: "heap v (running v) = Some t" using running_alloc [of v] v by auto
    have at: "threads_at (tcb_tid t) v = Inr (running v)"
      using threads_at_iff [OF invD(3)] v t by (force simp: threads_at_def)
    have "placed [] (v\<lparr>join_queue := join_queue v @ [(running v, tid)]\<rparr>)"
      by (rule placed_move [where F = "[running v]" and s = v]) (use v in \<open>simp_all add: queued_update\<close>)
    then show "safe (case r of Some v' \<Rightarrow> return_to_user (Joined v') v
     | None \<Rightarrow> bindE (deref (running v) v) (\<lambda>t. bindE (threads_at (tcb_tid t) v) (\<lambda>a.
         switched (switchThreads (AfterJoin tid) (v\<lparr>join_queue := join_queue v @ [(a, tid)]\<rparr>))))) (\<lambda>(r, u). ut_inv u)"
      using v return_placed [of v] t at by (auto split: option.splits intro: switchThreads_placed)
  qed
qed

lemma move_joiners_placed:
  "placed (map fst q @ F) s \<Longrightarrow> safe (move_joiners tid q s) (\<lambda>u. placed F u \<and> same_ctx s u)"
proof (induction q arbitrary: s F)
  case Nil
  then show ?case by simp
next
  case (Cons x q)
  obtain a w where x: "x = (a, w)" by (cases x)
  show ?case
  proof (cases "tid = w")
    case True
    have p: "placed (a # map fst q @ F) s" using Cons.prems x by simp
    have "safe (bindE (modify a (setState READY) s) (\<lambda>s. bindE (addToReady a s) (\<lambda>s. move_joiners tid q s)))
      (\<lambda>u. placed F u \<and> same_ctx s u)"
    proof (rule safe_bindI [OF modify_placed [OF p]], simp)
      fix u assume u: "placed (a # map fst q @ F) u \<and> same_ctx s u"
      show "safe (bindE (addToReady a u) (\<lambda>s. move_joiners tid q s)) (\<lambda>u. placed F u \<and> same_ctx s u)"
      proof (rule safe_bindI [OF addToReady_placed [OF conjunct1 [OF u]]])
        fix v assume v: "placed (map fst q @ F) v \<and> same_ctx u v"
        show "safe (move_joiners tid q v) (\<lambda>u. placed F u \<and> same_ctx s u)"
          by (rule safe_mono [OF Cons.IH [OF conjunct1 [OF v]]]) (use u v in \<open>auto intro: same_ctx_trans\<close>)
      qed
    qed
    then show ?thesis using True x by simp
  next
    case False
    have "placed (map fst q @ (a # F)) s"
      by (rule placed_move [OF Cons.prems]) (simp_all add: x)
    from Cons.IH [OF this]
    have "safe (bindE (move_joiners tid q s) (\<lambda>s. Inr (s\<lparr>join_queue := (a, w) # join_queue s\<rparr>))) (\<lambda>u. placed F u \<and> same_ctx s u)"
    proof (rule safe_bindI)
      fix u assume u: "placed (a # F) u \<and> same_ctx s u"
      have "placed F (u\<lparr>join_queue := (a, w) # join_queue u\<rparr>)"
        by (rule placed_move [OF conjunct1 [OF u]]) (simp_all add: queued_def ready_all_def)
      then show "safe (Inr (u\<lparr>join_queue := (a, w) # join_queue u\<rparr>)) (\<lambda>u. placed F u \<and> same_ctx s u)"
        using u by (simp add: same_ctx_def)
    qed
    then show ?thesis using False x by simp
  qed
qed

lemma exit_inv:
  assumes "ut_inv s"
  shows "safe (uthread_exit v s) (\<lambda>(r, u). ut_inv u)"
proof -
  obtain t where t: "heap s (running s) = Some t" using running_alloc [of s] assms by (auto simp: ut_inv_def)
  have "safe (bindE (ut_disableInterrupts s) (\<lambda>s. bindE (moveFromJoinToReady (tcb_tid t) s) (\<lambda>s.
       bindE (threads_at (tcb_tid t) s) (\<lambda>a.
       switched (switchThreads AfterExit (s\<lparr>finished_queue := finished_queue s @ [(a, v)]\<rparr>)))))) (\<lambda>(r, u). ut_inv u)"
  proof (rule after_disable [OF assms])
    fix u assume u: "u = s\<lparr>interrupts_enabled := False\<rparr>" and p: "placed [running u] u"
    have "placed (map fst (join_queue u) @ [running u]) (u\<lparr>join_queue := []\<rparr>)"
      by (rule placed_move [OF p]) (simp_all add: queued_def ready_all_def ac_simps)
    from move_joiners_placed [OF this]
    show "safe (bindE (moveFromJoinToReady (tcb_tid t) u) (\<lambda>s. bindE (threads_at (tcb_tid t) s) (\<lambda>a.
       switched (switchThreads AfterExit (s\<lparr>finished_queue := finished_queue s @ [(a, v)]\<rparr>))))) (\<lambda>(r, u). ut_inv u)"
      unfolding moveFromJoinToReady_def
    proof (rule safe_bindI)
      fix w assume w: "placed [running u] w \<and> same_ctx (u\<lparr>join_queue := []\<rparr>) w"
      show "safe (bindE (threads_at (tcb_tid t) w) (\<lambda>a.
       switched (switchThreads AfterExit (w\<lparr>finished_queue := finished_queue w @ [(a, v)]\<rparr>)))) (\<lambda>(r, u). ut_inv u)"
      proof -
        have "map_of (threads s) (tcb_tid t) = Some (running s)"
          using threads_at_iff [OF invD(3) [OF p]] t by (auto simp: u)
        then have at: "threads_at (tcb_tid t) w = Inr (running u)"
          using w by (simp add: threads_at_def same_ctx_def u)
        have "placed [] (w\<lparr>finished_queue := finished_queue w @ [(running u, v)]\<rparr>)"
          by (rule placed_move [OF conjunct1 [OF w]]) (simp_all add: queued_update)
        then show ?thesis by (simp add: at switchThreads_placed)
      qed
    qed
  qed
  then show ?thesis using t by (simp add: uthread_exit_def)
qed

section \<open>Yielding, suspending, priorities\<close>

lemma yield_inv:
  assumes "ut_inv s"
  shows "safe (uthread_yield s) (\<lambda>(r, u). ut_inv u)"
  unfolding uthread_yield_def
proof (rule after_disable [OF assms])
  fix u assume p: "placed [running u] u"
  show "safe (bindE (check_and_update_boost_structures u) (\<lambda>s. bindE (boost_lp_lock_holding_threads s) (\<lambda>s.
     bindE (modify (running s) (setState READY) s) (\<lambda>s. bindE (addToReady (running s) s) (\<lambda>s.
     switched (switchThreads AfterYield s)))))) (\<lambda>(r, u). ut_inv u)"
  proof (rule safe_bindI [OF check_boost_placed [OF p]])
    fix v assume v: "placed [running u] v \<and> same_ctx u v"
    show "safe (bindE (boost_lp_lock_holding_threads v) (\<lambda>s.
     bindE (modify (running s) (setState READY) s) (\<lambda>s. bindE (addToReady (running s) s) (\<lambda>s.
     switched (switchThreads AfterYield s))))) (\<lambda>(r, u). ut_inv u)"
    proof (rule safe_bindI [OF boost_all_placed [OF conjunct1 [OF v]]])
      fix w assume w: "placed [running u] w \<and> same_ctx v w"
      have r: "running w = running u" using v w by (simp add: same_ctx_def)
      show "safe (bindE (modify (running w) (setState READY) w) (\<lambda>s. bindE (addToReady (running s) s) (\<lambda>s.
         switched (switchThreads AfterYield s)))) (\<lambda>(r, u). ut_inv u)"
      proof (rule safe_bindI [OF modify_placed [OF conjunct1 [OF w]]], simp)
        fix x assume x: "placed [running u] x \<and> same_ctx w x"
        then have rx: "running x = running u" using r by (simp add: same_ctx_def)
        have "placed [running x] x" using x rx by simp
        then show "safe (bindE (addToReady (running x) x) (\<lambda>s. switched (switchThreads AfterYield s))) (\<lambda>(r, u). ut_inv u)"
          by (rule safe_bindI [OF addToReady_placed]) (blast intro: switchThreads_placed)
      qed
    qed
  qed
qed

lemma placed_blocked:
  assumes "placed (a # F) s"
  shows "placed F (s\<lparr>blocked := blocked s @ [a]\<rparr>)"
  by (rule placed_move [OF assms]) (simp_all add: queued_update)

lemma suspend_inv:
  assumes "ut_inv s"
  shows "safe (uthread_suspend tid s) (\<lambda>(r, u). ut_inv u)"
proof (cases "tid = MAIN_THREAD \<or> map_of (threads s) tid = None")
  case True
  then show ?thesis using assms by (auto simp: uthread_suspend_def)
next
  case False
  then obtain a where a: "map_of (threads s) tid = Some a" by auto
  have "safe (bindE (ut_disableInterrupts s) (\<lambda>s. bindE (deref (running s) s) (\<lambda>t.
          if tid = tcb_tid t then
            bindE (modify (running s) (setState BLOCK) s) (\<lambda>s.
            switched (switchThreads AfterSuspend (s\<lparr>blocked := blocked s @ [running s]\<rparr>)))
          else
            bindE (deref a s) (\<lambda>ta. bindE (removeFromReady (tcb_tid ta) s) (\<lambda>(in_ready, s).
            if \<not> in_ready then return_to_user (Ret FAIL) s
            else bindE (modify a (setState BLOCK) s) (\<lambda>s.
                 return_to_user (Ret SUCCESS) (s\<lparr>blocked := blocked s @ [a]\<rparr>))))))) (\<lambda>(r, u). ut_inv u)"
  proof (rule after_disable [OF assms])
    fix u assume u: "u = s\<lparr>interrupts_enabled := False\<rparr>" and p: "placed [running u] u"
    obtain t where t: "heap u (running u) = Some t" using running_alloc [OF p] by blast
    obtain ta where ta: "heap u a = Some ta" "tcb_tid ta = tid"
      using threads_at_iff [OF invD(3) [OF p]] a by (auto simp: u)
    have self: "safe (bindE (modify (running u) (setState BLOCK) u) (\<lambda>s.
            switched (switchThreads AfterSuspend (s\<lparr>blocked := blocked s @ [running s]\<rparr>)))) (\<lambda>(r, u). ut_inv u)"
    proof (rule safe_bindI [OF modify_placed [OF p]], simp)
      fix v assume v: "placed [running u] v \<and> same_ctx u v"
      then have "placed [running v] v" by (simp add: same_ctx_def)
      then show "safe (switched (switchThreads AfterSuspend (v\<lparr>blocked := blocked v @ [running v]\<rparr>))) (\<lambda>(r, u). ut_inv u)"
        by (intro switchThreads_placed placed_blocked)
    qed
    have other: "safe (bindE (removeFromReady (tcb_tid ta) u) (\<lambda>(in_ready, s).
            if \<not> in_ready then return_to_user (Ret FAIL) s
            else bindE (modify a (setState BLOCK) s) (\<lambda>s.
                 return_to_user (Ret SUCCESS) (s\<lparr>blocked := blocked s @ [a]\<rparr>)))) (\<lambda>(r, u). ut_inv u)"
    proof (rule safe_bind_pairI [OF runs_safe [OF removeFromReady_inv [OF p ta(1)]]])
      fix b v assume v: "(\<exists>r. v = u\<lparr>ready := r\<rparr>) \<and> b = (\<exists>p. a \<in> set (ready u p)) \<and>
         (if b then placed (a # [running u]) v else placed [running u] v) \<and> (\<forall>p. a \<notin> set (ready v p))"
      have sv: "same_ctx u v" using v by auto
      show "safe (if \<not> b then return_to_user (Ret FAIL) v
            else bindE (modify a (setState BLOCK) v) (\<lambda>s.
                 return_to_user (Ret SUCCESS) (s\<lparr>blocked := blocked s @ [a]\<rparr>))) (\<lambda>(r, u). ut_inv u)"
      proof (cases b)
        case True
        then have "placed (a # [running u]) v" using v by simp
        from modify_placed [OF this, of "setState BLOCK" a]
        have "safe (bindE (modify a (setState BLOCK) v) (\<lambda>s.
                 return_to_user (Ret SUCCESS) (s\<lparr>blocked := blocked s @ [a]\<rparr>))) (\<lambda>(r, u). ut_inv u)"
        proof (rule safe_bindI, simp)
          fix w assume w: "placed (a # [running u]) w \<and> same_ctx v w"
          show "safe (return_to_user (Ret SUCCESS) (w\<lparr>blocked := blocked w @ [a]\<rparr>)) (\<lambda>(r, u). ut_inv u)"
            by (rule return_after [of u]) (use w sv placed_blocked in \<open>auto simp: same_ctx_def\<close>)
        qed
        then show ?thesis using True by simp
      next
        case False
        then show ?thesis using v sv return_after [of u v] by simp
      qed
    qed
    show "safe (bindE (deref (running u) u) (\<lambda>t.
          if tid = tcb_tid t then
            bindE (modify (running u) (setState BLOCK) u) (\<lambda>s.
            switched (switchThreads AfterSuspend (s\<lparr>blocked := blocked s @ [running s]\<rparr>)))
          else
            bindE (deref a u) (\<lambda>ta. bindE (removeFromReady (tcb_tid ta) u) (\<lambda>(in_ready, s).
            if \<not> in_ready then return_to_user (Ret FAIL) s
            else bindE (modify a (setState BLOCK) s) (\<lambda>s.
                 return_to_user (Ret SUCCESS) (s\<lparr>blocked := blocked s @ [a]\<rparr>)))))) (\<lambda>(r, u). ut_inv u)"
      using self other t ta by (simp only: deref_eq bindE_simps) simp
  qed
  then show ?thesis using False a by (simp add: uthread_suspend_def)
qed

lemma resume_thread_inv:
  assumes "ut_inv s"
  shows "safe (uthread_resume tid s) (\<lambda>(r, u). ut_inv u)"
proof (cases "map_of (threads s) tid")
  case None
  then show ?thesis using assms by (simp add: uthread_resume_def)
next
  case (Some a)
  show ?thesis
  proof (cases "a \<in> set (blocked s)")
    case False
    then show ?thesis using assms Some by (simp add: uthread_resume_def)
  next
    case True
    have "safe (bindE (ut_disableInterrupts s) (\<lambda>s. bindE (modify a (setState READY) s) (\<lambda>s.
            bindE (addToReady a s) (\<lambda>s. bindE (removeFromBlock tid s) (\<lambda>s. return_to_user (Ret SUCCESS) s))))) (\<lambda>(r, u). ut_inv u)"
    proof (rule after_disable [OF assms])
      fix u assume u: "u = s\<lparr>interrupts_enabled := False\<rparr>" and p: "placed [running u] u"
      show "safe (bindE (modify a (setState READY) u) (\<lambda>s.
            bindE (addToReady a s) (\<lambda>s. bindE (removeFromBlock tid s) (\<lambda>s. return_to_user (Ret SUCCESS) s)))) (\<lambda>(r, u). ut_inv u)"
      proof (rule safe_bindI [OF modify_inv [OF p]], simp)
        fix v assume v: "placed [running u] v \<and> (\<exists>h. v = u\<lparr>heap := h\<rparr>) \<and> dom (heap v) = dom (heap u)"
        have b: "a \<in> set (blocked v)" "running v = running u" "threads v = threads u"
          using v True u by auto
        obtain t where t: "heap v a = Some t"
          using inv_members(2) [OF conjunct1 [OF v], of a] b by (auto simp: queued_def)
        have rb: "removeFromBlock tid (v\<lparr>ready := r\<rparr>) = Inr (v\<lparr>ready := r, blocked := remove1 a (blocked v)\<rparr>)" for r
          using b Some u by (auto simp: removeFromBlock_def threads_at_def)
        have "placed (a # [running u]) (v\<lparr>blocked := remove1 a (blocked v)\<rparr>)"
          by (rule placed_move [OF conjunct1 [OF v]]) (use b(1) in \<open>simp_all add: queued_def ready_all_def\<close>)
        from addToReady_inv [OF this] t
        have "placed [running u] (v\<lparr>blocked := remove1 a (blocked v), ready := (ready v)(tcb_pr t := ready v (tcb_pr t) @ [a])\<rparr>)"
          by (simp add: addToReady_def)
        moreover have "v\<lparr>blocked := remove1 a (blocked v), ready := (ready v)(tcb_pr t := ready v (tcb_pr t) @ [a])\<rparr> =
          v\<lparr>ready := (ready v)(tcb_pr t := ready v (tcb_pr t) @ [a]), blocked := remove1 a (blocked v)\<rparr>" by simp
        ultimately have "placed [running u] (v\<lparr>ready := (ready v)(tcb_pr t := ready v (tcb_pr t) @ [a]), blocked := remove1 a (blocked v)\<rparr>)"
          by (simp only:)
        then show "safe (bindE (addToReady a v) (\<lambda>s. bindE (removeFromBlock tid s) (\<lambda>s. return_to_user (Ret SUCCESS) s))) (\<lambda>(r, u). ut_inv u)"
          using t b by (simp add: addToReady_def rb) (rule return_placed, simp)
      qed
    qed
    then show ?thesis using Some True by (simp add: uthread_resume_def)
  qed
qed

lemma priority_inv:
  assumes "ut_inv s"
  shows "safe (uthread_increase_priority tid s) (\<lambda>(r, u). ut_inv u)"
    and "safe (uthread_decrease_priority tid s) (\<lambda>(r, u). ut_inv u)"
proof -
  have g: "safe (bindE (ut_disableInterrupts s) (\<lambda>s. bindE (f s) (\<lambda>s. return_to_user (Ret SUCCESS) s))) (\<lambda>(r, u). ut_inv u)"
    if f: "\<And>F s. placed F s \<Longrightarrow> safe (f s) (\<lambda>u. placed F u \<and> same_ctx s u)" for f
  proof (rule after_disable [OF assms])
    fix u assume p: "placed [running u] u"
    show "safe (bindE (f u) (\<lambda>s. return_to_user (Ret SUCCESS) s)) (\<lambda>(r, u). ut_inv u)"
      by (rule safe_bindI [OF f [OF p]]) (blast intro: return_after)
  qed
  show "safe (uthread_increase_priority tid s) (\<lambda>(r, u). ut_inv u)"
    using g [OF priority_placed(1)] assms by (auto simp: uthread_increase_priority_def split: option.splits)
  show "safe (uthread_decrease_priority tid s) (\<lambda>(r, u). ut_inv u)"
    using g [OF priority_placed(2)] assms by (auto simp: uthread_decrease_priority_def split: option.splits)
qed

lemma get_quantums_inv:
  assumes "ut_inv s"
  shows "safe (uthread_get_quantums tid s) (\<lambda>(r, u). ut_inv u)"
  unfolding uthread_get_quantums_def
proof (rule after_disable [OF assms])
  fix u assume p: "placed [running u] u"
  show "safe (bindE (case map_of (threads u) tid of None \<Rightarrow> Inr FAIL
            | Some a \<Rightarrow> bindE (deref a u) (\<lambda>t. Inr (tcb_quantum t))) (\<lambda>v. return_to_user (Ret v) u)) (\<lambda>(r, u). ut_inv u)"
    by (rule safe_bindI [OF safe_trivial]) (rule return_placed [OF p])
qed

section \<open>Locks and condition variables\<close>

lemma lock_inv:
  assumes "ut_inv s"
  shows "safe (lock_lock l s) (\<lambda>(r, u). ut_inv u)"
  unfolding lock_lock_def
proof (rule after_disable [OF assms])
  fix u assume p: "placed [running u] u"
  show "safe (bindE (vec_at (locks u) (int l)) (\<lambda>lk.
     if lock_value lk = 1 then
       bindE (modify (running u) (setState BLOCK) (set_lock l (lk\<lparr>waiting_queue := waiting_queue lk @ [running u]\<rparr>) u)) (\<lambda>s.
       switched (switchThreads (AfterLock l) s))
     else
       bindE (modify (running u) increaseLockCount (set_lock l (lk\<lparr>lock_value := 1\<rparr>) u)) (\<lambda>s.
       return_to_user RetVoid s))) (\<lambda>(r, u). ut_inv u)"
  proof (cases "vec_at (locks u) (int l)")
    case (Inl e)
    then show ?thesis by simp
  next
    case (Inr lk)
    have "placed [] (set_lock l (lk\<lparr>waiting_queue := waiting_queue lk @ [running u]\<rparr>) u)"
      by (rule placed_lock [OF p Inr]) (simp add: lock_places_def)
    from modify_placed [OF this, of "setState BLOCK" "running u"]
    have wait: "safe (bindE (modify (running u) (setState BLOCK) (set_lock l (lk\<lparr>waiting_queue := waiting_queue lk @ [running u]\<rparr>) u)) (\<lambda>s.
       switched (switchThreads (AfterLock l) s))) (\<lambda>(r, u). ut_inv u)"
      by (rule safe_bindI, simp) (blast intro: switchThreads_placed)
    have "placed [running u] (set_lock l (lk\<lparr>lock_value := 1\<rparr>) u)"
      by (rule placed_lock [OF p Inr]) (simp add: lock_places_def)
    from modify_placed [OF this, of increaseLockCount "running u"]
    have take: "safe (bindE (modify (running u) increaseLockCount (set_lock l (lk\<lparr>lock_value := 1\<rparr>) u)) (\<lambda>s.
       return_to_user RetVoid s)) (\<lambda>(r, u). ut_inv u)"
    proof (rule safe_bindI, simp)
      fix v assume "placed [running u] v \<and> same_ctx (set_lock l (lk\<lparr>lock_value := 1\<rparr>) u) v"
      then show "safe (return_to_user RetVoid v) (\<lambda>(r, u). ut_inv u)"
        using return_placed [of v] by (simp add: same_ctx_def)
    qed
    show ?thesis using wait take by (simp add: Inr)
  qed
qed

text \<open>
  The internal unlock keeps the threads in their places when the running thread
  is in hand, and when there is nobody to hand over to it needs nothing in hand.
\<close>

lemma unlock_internal_placed:
  assumes p: "placed F s" and F: "F = [running s] \<or> F = [] \<and> (\<forall>lk. vec_at (locks s) (int l) = Inr lk \<longrightarrow> nextThreadToWakeUp lk = None)"
  shows "safe (lock_unlock_internal l k s) (\<lambda>(sw, u). if sw then ut_inv u else placed F u \<and> running u = running s)"
proof (cases "vec_at (locks s) (int l)")
  case (Inl e)
  then show ?thesis by (simp add: lock_unlock_internal_def)
next
  case (Inr lk)
  show ?thesis
  proof (cases "nextThreadToWakeUp lk")
    case (Some nxt)
    then have F': "F = [running s]" using F Inr by auto
    let ?s = "set_lock l (lk\<lparr>nextThreadToWakeUp := None\<rparr>) s"
    have "placed (running s # [nxt]) ?s"
      by (rule placed_lock [OF p Inr]) (simp add: F' lock_places_def Some)
    from modify_placed [OF this, of "setState READY" "running s"]
    have "safe (bindE (modify (running s) (setState READY) ?s) (\<lambda>s. bindE (addToReady (running s) s) (\<lambda>s.
         bindE (switchToThread nxt k s) (\<lambda>s. Inr (True, s))))) (\<lambda>(sw, u). if sw then ut_inv u else placed F u \<and> running u = running s)"
    proof (rule safe_bindI, simp)
      fix u assume u: "placed (running s # [nxt]) u \<and> same_ctx ?s u"
      then have r: "running u = running s" by (simp add: same_ctx_def)
      have "placed (running u # [nxt]) u" using u r by simp
      from addToReady_placed [OF this]
      show "safe (bindE (addToReady (running u) u) (\<lambda>s. bindE (switchToThread nxt k s) (\<lambda>s. Inr (True, s))))
         (\<lambda>(sw, u). if sw then ut_inv u else placed F u \<and> running u = running s)"
      proof (rule safe_bindI)
        fix v assume v: "placed [nxt] v \<and> same_ctx u v"
        show "safe (bindE (switchToThread nxt k v) (\<lambda>s. Inr (True, s)))
          (\<lambda>(sw, u). if sw then ut_inv u else placed F u \<and> running u = running s)"
          by (rule safe_bindI [OF switch_placed [OF conjunct1 [OF v]]]) simp
      qed
    qed
    then show ?thesis using Some by (simp add: lock_unlock_internal_def Inr)
  next
    case None
    show ?thesis
    proof (cases "waiting_queue lk")
      case Nil
      have "placed F (set_lock l (lk\<lparr>lock_value := 0\<rparr>) s)"
        by (rule placed_lock [OF p Inr]) (simp add: lock_places_def)
      then show ?thesis using None Nil by (simp add: lock_unlock_internal_def Inr)
    next
      case (Cons w q)
      let ?s = "set_lock l (lk\<lparr>waiting_queue := q\<rparr>) s"
      have "placed (w # F) ?s"
        by (rule placed_lock [OF p Inr]) (simp add: lock_places_def Cons)
      from modify_placed [OF this, of "setState READY" w]
      have "safe (bindE (modify w (setState READY) ?s) (\<lambda>s. bindE (addToReady w s) (\<lambda>s. Inr (False, s))))
        (\<lambda>(sw, u). if sw then ut_inv u else placed F u \<and> running u = running s)"
      proof (rule safe_bindI, simp)
        fix u assume u: "placed (w # F) u \<and> same_ctx ?s u"
        show "safe (bindE (addToReady w u) (\<lambda>s. Inr (False, s))) (\<lambda>(sw, u). if sw then ut_inv u else placed F u \<and> running u = running s)"
          by (rule safe_bindI [OF addToReady_placed [OF conjunct1 [OF u]]]) (use u in \<open>simp add: same_ctx_def\<close>)
      qed
      then show ?thesis using None Cons by (simp add: lock_unlock_internal_def Inr)
    qed
  qed
qed

lemma unlock_inv:
  assumes "ut_inv s"
  shows "safe (lock_unlock l s) (\<lambda>(r, u). ut_inv u)"
  unfolding lock_unlock_def
proof (rule after_disable [OF assms])
  fix u assume p: "placed [running u] u"
  show "safe (bindE (modify (running u) decreaseLockCount u) (\<lambda>s.
     bindE (lock_unlock_internal l AfterUnlock s) (\<lambda>(sw, s).
     if sw then Inr (Switched, s) else return_to_user RetVoid s))) (\<lambda>(r, u). ut_inv u)"
  proof (rule safe_bindI [OF modify_placed [OF p]], simp)
    fix v assume v: "placed [running u] v \<and> same_ctx u v"
    then have "placed [running v] v" by (simp add: same_ctx_def)
    from unlock_internal_placed [OF this]
    show "safe (bindE (lock_unlock_internal l AfterUnlock v) (\<lambda>(sw, s).
     if sw then Inr (Switched, s) else return_to_user RetVoid s)) (\<lambda>(r, u). ut_inv u)"
    proof (rule safe_bind_pairI, simp)
      fix sw w assume w: "if sw then ut_inv w else placed [running v] w \<and> running w = running v"
      show "safe (if sw then Inr (Switched, w) else return_to_user RetVoid w) (\<lambda>(r, u). ut_inv u)"
        using w return_placed [of w] by (cases sw) simp_all
    qed
  qed
qed

text \<open>No thread waits to take over the lock: the condition under which waiting is safe.\<close>

definition no_handover :: "nat \<Rightarrow> uthreads \<Rightarrow> bool" where
  "no_handover l s \<longleftrightarrow> (\<forall>lk. vec_at (locks s) (int l) = Inr lk \<longrightarrow> nextThreadToWakeUp lk = None)"

lemma modify_locks: "safe (modify a f s) (\<lambda>u. locks u = locks s \<and> condvars u = condvars s)"
  by (cases "heap s a"; cases "f (the (heap s a))") (auto simp: modify_def deref_def)

lemma wait_inv:
  assumes "ut_inv s" "no_handover l s"
  shows "safe (cv_wait c l s) (\<lambda>(r, u). ut_inv u)"
  unfolding cv_wait_def
proof (rule after_disable [OF assms(1)])
  fix u assume u: "u = s\<lparr>interrupts_enabled := False\<rparr>" and p: "placed [running u] u"
  show "safe (bindE (vec_at (condvars u) (int c)) (\<lambda>cv. bindE (modify (running u) (setState BLOCK)
       (set_cv c (cv\<lparr>cond_var_waiting_queue := cond_var_waiting_queue cv @ [running u]\<rparr>) u)) (\<lambda>s.
     bindE (lock_unlock_internal l (AfterWaitUnlock c l) s) (\<lambda>(sw, s).
     if sw then Inr (Switched, s) else switched (switchThreads (AfterWait c l) s))))) (\<lambda>(r, u). ut_inv u)"
  proof (cases "vec_at (condvars u) (int c)")
    case (Inl e)
    then show ?thesis by simp
  next
    case (Inr cv)
    let ?s = "set_cv c (cv\<lparr>cond_var_waiting_queue := cond_var_waiting_queue cv @ [running u]\<rparr>) u"
    have q: "placed [] ?s"
      by (rule placed_cv [OF p Inr]) (simp add: cv_places_def)
    have m: "safe (modify (running u) (setState BLOCK) ?s) (\<lambda>v. placed [] v \<and> locks v = locks s)"
    proof -
      have "safe (modify (running u) (setState BLOCK) ?s) (\<lambda>v. placed [] v \<and> same_ctx ?s v)"
        by (rule modify_placed [OF q]) simp
      moreover have "safe (modify (running u) (setState BLOCK) ?s) (\<lambda>v. locks v = locks ?s \<and> condvars v = condvars ?s)"
        by (rule modify_locks)
      ultimately show ?thesis
        by (cases "modify (running u) (setState BLOCK) ?s") (simp_all add: u set_cv_def)
    qed
    have "safe (bindE (modify (running u) (setState BLOCK) ?s) (\<lambda>s.
     bindE (lock_unlock_internal l (AfterWaitUnlock c l) s) (\<lambda>(sw, s).
     if sw then Inr (Switched, s) else switched (switchThreads (AfterWait c l) s)))) (\<lambda>(r, u). ut_inv u)"
    proof (rule safe_bindI [OF m])
      fix v assume v: "placed [] v \<and> locks v = locks s"
      have n: "\<forall>lk. vec_at (locks v) (int l) = Inr lk \<longrightarrow> nextThreadToWakeUp lk = None"
        using assms(2) v by (simp add: no_handover_def)
      show "safe (bindE (lock_unlock_internal l (AfterWaitUnlock c l) v) (\<lambda>(sw, s).
         if sw then Inr (Switched, s) else switched (switchThreads (AfterWait c l) s))) (\<lambda>(r, u). ut_inv u)"
      proof (rule safe_bind_pairI [OF unlock_internal_placed [OF conjunct1 [OF v]]])
        show "[] = [running v] \<or> [] = [] \<and> (\<forall>lk. vec_at (locks v) (int l) = Inr lk \<longrightarrow> nextThreadToWakeUp lk = None)"
          using n by simp
        fix sw w assume w: "if sw then ut_inv w else placed [] w \<and> running w = running v"
        show "safe (if sw then Inr (Switched, w) else switched (switchThreads (AfterWait c l) w)) (\<lambda>(r, u). ut_inv u)"
          using w switchThreads_placed [of w] by (cases sw) simp_all
      qed
    qed
    then show ?thesis by (simp add: Inr)
  qed
qed

text \<open>Signalling hands the processor to a waiter; the caller goes to the wake-up order.\<close>

lemma signalling:
  assumes p: "placed [running u] u" and cv: "vec_at (condvars u) (int c) = Inr cv"
    and cv': "mset [nxt] + mset (cv_places cv') = mset [running u] + mset (cv_places cv)"
  shows "safe (bindE (modify (running u) (setState BLOCK) (set_cv c cv' u)) (\<lambda>s.
         switched (switchToThread nxt AfterSignal s))) (\<lambda>(r, u). ut_inv u)"
proof -
  have "placed [nxt] (set_cv c cv' u)" by (rule placed_cv [OF p cv cv'])
  from modify_placed [OF this, of "setState BLOCK" "running u"] show ?thesis
  proof (rule safe_bindI, simp)
    fix v assume v: "placed [nxt] v \<and> same_ctx (set_cv c cv' u) v"
    show "safe (switched (switchToThread nxt AfterSignal v)) (\<lambda>(r, u). ut_inv u)"
      unfolding switched_def by (rule safe_bindI [OF switch_placed [OF conjunct1 [OF v]]]) simp
  qed
qed

lemma signal_inv:
  assumes "ut_inv s"
  shows "safe (cv_signal c s) (\<lambda>(r, u). ut_inv u)"
  unfolding cv_signal_def
proof (rule after_disable [OF assms])
  fix u assume p: "placed [running u] u"
  show "safe (bindE (vec_at (condvars u) (int c)) (\<lambda>cv. case cond_var_waiting_queue cv of
       nxt # q \<Rightarrow> bindE (modify (running u) (setState BLOCK)
           (set_cv c (cv\<lparr>cond_var_waiting_queue := q, wake_up_order := wake_up_order cv @ [running u]\<rparr>) u)) (\<lambda>s.
         switched (switchToThread nxt AfterSignal s))
     | [] \<Rightarrow> return_to_user RetVoid u)) (\<lambda>(r, u). ut_inv u)"
  proof (rule safe_bindI [where P = "\<lambda>cv. vec_at (condvars u) (int c) = Inr cv"])
    fix cv assume cv: "vec_at (condvars u) (int c) = Inr cv"
    show "safe (case cond_var_waiting_queue cv of
       nxt # q \<Rightarrow> bindE (modify (running u) (setState BLOCK)
           (set_cv c (cv\<lparr>cond_var_waiting_queue := q, wake_up_order := wake_up_order cv @ [running u]\<rparr>) u)) (\<lambda>s.
         switched (switchToThread nxt AfterSignal s))
     | [] \<Rightarrow> return_to_user RetVoid u) (\<lambda>(r, u). ut_inv u)"
    proof (cases "cond_var_waiting_queue cv")
      case Nil
      then show ?thesis using return_placed [OF p] by simp
    next
      case (Cons nxt q)
      then show ?thesis
        by simp (rule signalling [OF p cv], simp add: cv_places_def)
    qed
  qed (auto simp: safe_def split: sum.splits)
qed

lemma broadcast_inv:
  assumes "ut_inv s"
  shows "safe (cv_broadcast c s) (\<lambda>(r, u). ut_inv u)"
  unfolding cv_broadcast_def
proof (rule after_disable [OF assms])
  fix u assume p: "placed [running u] u"
  show "safe (bindE (vec_at (condvars u) (int c)) (\<lambda>cv. case cond_var_waiting_queue cv of
       nxt # q \<Rightarrow> bindE (modify (running u) (setState BLOCK)
           (set_cv c (cv\<lparr>cond_var_waiting_queue := [], wake_up_order := wake_up_order cv @ q @ [running u]\<rparr>) u)) (\<lambda>s.
         switched (switchToThread nxt AfterSignal s))
     | [] \<Rightarrow> return_to_user RetVoid u)) (\<lambda>(r, u). ut_inv u)"
  proof (rule safe_bindI [where P = "\<lambda>cv. vec_at (condvars u) (int c) = Inr cv"])
    fix cv assume cv: "vec_at (condvars u) (int c) = Inr cv"
    show "safe (case cond_var_waiting_queue cv of
       nxt # q \<Rightarrow> bindE (modify (running u) (setState BLOCK)
           (set_cv c (cv\<lparr>cond_var_waiting_queue := [], wake_up_order := wake_up_order cv @ q @ [running u]\<rparr>) u)) (\<lambda>s.
         switched (switchToThread nxt AfterSignal s))
     | [] \<Rightarrow> return_to_user RetVoid u) (\<lambda>(r, u). ut_inv u)"
    proof (cases "cond_var_waiting_queue cv")
      case Nil
      then show ?thesis using return_placed [OF p] by simp
    next
      case (Cons nxt q)
      then show ?thesis
        by simp (rule signalling [OF p cv], simp add: cv_places_def)
    qed
  qed (auto simp: safe_def split: sum.splits)
qed

section \<open>Going on, and whole runs\<close>

text \<open>
  The calls that keep every thread in its place: all but a wait on a lock that
  still owes a hand-over.  The same holds for the second half of a wait.
\<close>

fun orderly :: "call \<Rightarrow> uthreads \<Rightarrow> bool" where
  "orderly (Wait c l) s \<longleftrightarrow> no_handover l s"
| "orderly _ s \<longleftrightarrow> True"

definition orderly_rest :: "uthreads \<Rightarrow> bool" where
  "orderly_rest s \<longleftrightarrow> (case conts s (running s) of
     AfterWait c l \<Rightarrow> no_handover l s
   | AfterWaitUnlock c l \<Rightarrow> False
   | _ \<Rightarrow> True)"

lemma exec_inv:
  assumes "ut_inv s" "orderly c s"
  shows "safe (exec c s) (\<lambda>(r, u). ut_inv u)"
  using assms
  by (cases c) (simp_all add: create_inv join_inv yield_inv exit_inv suspend_inv resume_thread_inv get_quantums_inv
      priority_inv lock_inv unlock_inv wait_inv signal_inv broadcast_inv)

lemma after_wait_inv:
  assumes "ut_inv s" "no_handover l s"
  shows "safe (after_wait c l s) (\<lambda>(r, u). ut_inv u)"
proof -
  have p: "placed [running s] s" using assms(1) by (simp add: ut_inv_def)
  have m: "safe (modify (running s) (setState RUNNING) s) (\<lambda>v. placed [running v] v \<and> locks v = locks s)"
  proof -
    have "safe (modify (running s) (setState RUNNING) s) (\<lambda>v. placed [running s] v \<and> same_ctx s v)"
      by (rule modify_placed [OF p]) simp
    moreover have "safe (modify (running s) (setState RUNNING) s) (\<lambda>v. locks v = locks s \<and> condvars v = condvars s)"
      by (rule modify_locks)
    ultimately show ?thesis
      by (cases "modify (running s) (setState RUNNING) s") (simp_all add: same_ctx_def)
  qed
  show ?thesis
    unfolding after_wait_def
  proof (rule safe_bindI [OF m])
    fix v assume v: "placed [running v] v \<and> locks v = locks s"
    have pv: "placed [running v] v" using v by simp
    show "safe (bindE (vec_at (condvars v) (int c)) (\<lambda>cv. case wake_up_order cv of [] \<Rightarrow> Inl OutOfBounds
       | a # q \<Rightarrow> bindE (lock_signal l a v) (\<lambda>s. return_to_user RetVoid (set_cv c (cv\<lparr>wake_up_order := q\<rparr>) s)))) (\<lambda>(r, u). ut_inv u)"
    proof (cases "vec_at (condvars v) (int c)")
      case (Inl e)
      then show ?thesis by simp
    next
      case cv: (Inr cv)
      show ?thesis
      proof (cases "wake_up_order cv")
        case Nil
        then show ?thesis by (simp add: cv)
      next
        case (Cons a q)
        show ?thesis
        proof (cases "vec_at (locks v) (int l)")
          case (Inl e)
          then show ?thesis by (simp add: cv Cons lock_signal_def)
        next
          case lk: (Inr lk)
          have n: "nextThreadToWakeUp lk = None" using assms(2) v lk by (simp add: no_handover_def)
          let ?w = "set_cv c (cv\<lparr>wake_up_order := q\<rparr>) v"
          have w: "placed [a, running v] ?w"
            by (rule placed_cv [OF pv cv]) (simp add: cv_places_def Cons)
          have lw: "vec_at (locks ?w) (int l) = Inr lk" using lk by (simp add: set_cv_def)
          have "placed [running v] (set_lock l (lk\<lparr>nextThreadToWakeUp := Some a\<rparr>) ?w)"
            by (rule placed_lock [OF w lw]) (simp add: lock_places_def n)
          moreover have "set_lock l (lk\<lparr>nextThreadToWakeUp := Some a\<rparr>) ?w =
              set_cv c (cv\<lparr>wake_up_order := q\<rparr>) (set_lock l (lk\<lparr>nextThreadToWakeUp := Some a\<rparr>) v)"
            by (simp add: set_lock_def set_cv_def)
          ultimately show ?thesis
            using return_placed [of "set_cv c (cv\<lparr>wake_up_order := q\<rparr>) (set_lock l (lk\<lparr>nextThreadToWakeUp := Some a\<rparr>) v)"]
            by (simp add: cv Cons lock_signal_def lk)
        qed
      qed
    qed
  qed
qed

lemma resume_inv:
  assumes "ut_inv s" "orderly_rest s"
  shows "safe (resume s) (\<lambda>(r, u). ut_inv u)"
proof -
  have p: "placed [running s] s" using assms(1) by (simp add: ut_inv_def)
  note ret = return_placed [OF p]
  have lk: "safe (bindE (modify (running s) (setState RUNNING) s) (\<lambda>s.
          bindE (modify (running s) increaseLockCount s) (\<lambda>s. return_to_user RetVoid s))) (\<lambda>(r, u). ut_inv u)"
  proof (rule safe_bindI [OF modify_placed [OF p]], simp)
    fix u assume u: "placed [running s] u \<and> same_ctx s u"
    then have pu: "placed [running u] u" by (simp add: same_ctx_def)
    show "safe (bindE (modify (running u) increaseLockCount u) (\<lambda>s. return_to_user RetVoid s)) (\<lambda>(r, u). ut_inv u)"
      by (rule safe_bindI [OF modify_placed [OF pu]], simp) (blast intro: return_after)
  qed
  have jn: "safe (bindE (removeFromFinished tid s) (\<lambda>(r, s).
          case r of None \<Rightarrow> Inl AssertFail | Some v \<Rightarrow> return_to_user (Joined v) s)) (\<lambda>(r, u). ut_inv u)" for tid
  proof (rule safe_bind_pairI [OF removeFromFinished_placed [OF p]])
    fix r u assume "placed [running s] u \<and> running u = running s"
    then show "safe (case r of None \<Rightarrow> Inl AssertFail | Some v \<Rightarrow> return_to_user (Joined v) u) (\<lambda>(r, u). ut_inv u)"
      using return_placed [of u] by (cases r) simp_all
  qed
  show ?thesis
    using assms ret lk jn after_wait_inv [OF assms(1)]
    by (cases "conts s (running s)") (simp_all add: resume_def after_join_def after_lock_def orderly_rest_def)
qed

end
