(* ===== verification/UtBehaviour.thy ===== *)
theory UtBehaviour
  imports UtConserve
begin

text \<open>
  What the calls of the thread library do when nothing goes wrong: the exact
  switch, the scheduling order, hand-over of locks and condition variables.
\<close>

section \<open>Evaluating concrete runs\<close>

lemmas ut_eval =
  ut_start_def init_state_def new_tcb_def new_lock_def new_condvar_def MAIN_THREAD_def SUCCESS_def FAIL_def INT_MAX_def
  deref_def modify_def threads_at_def threads_insert_def threads_erase_def getNextId_def addToReady_def getReady_def
  popReady_def translatePriority_def removeFromReady_def removeFromBlock_def removeFromFinished_def moveFromJoinToReady_def
  switchToThread_def switchThreads_def ut_disableInterrupts_def ut_enableInterrupts_def return_to_user_def switched_def
  increaseQuantum_def increaseLockCount_def decreaseLockCount_def vec_at_def Let_def

lemmas ut_eval_calls =
  uthread_increase_priority_internal_def uthread_decrease_priority_internal_def boost_set_def boost_set_update_def
  boost_thread_def
  boosts_of_def boosting_logic_def boost_lp_lock_holding_threads_def isHigherPriorityThreadPresent_def
  getBoostingStructureForPriority_def unboost_running_def check_and_update_boost_structures_def uthread_create_def
  uthread_join_def uthread_yield_def uthread_exit_def uthread_suspend_def uthread_resume_def uthread_get_quantums_def
  uthread_increase_priority_def uthread_decrease_priority_def set_lock_def lock_lock_def lock_unlock_internal_def
  lock_unlock_def lock_signal_def set_cv_def cv_wait_def cv_signal_def cv_broadcast_def after_wait_def after_join_def
  after_lock_def resume_def

lemma ut_start_inv: "ut_inv (ut_start nl nc)"
proof -
  have "concat (map lock_places (replicate nl new_lock)) = []" for nl
    by (induction nl) (simp_all add: lock_places_def new_lock_def)
  moreover have "concat (map cv_places (replicate nc new_condvar)) = []" for nc
    by (induction nc) (simp_all add: cv_places_def new_condvar_def)
  ultimately show ?thesis
    by (auto simp: ut_inv_def placed_def queued_def ready_all_def threads_ok_def ready_ok_def ut_start_def init_state_def
        new_tcb_def split: if_splits)
qed

section \<open>The switch\<close>

definition run_next :: "addr \<Rightarrow> cont \<Rightarrow> uthreads \<Rightarrow> uthreads" where
  "run_next a k s = s\<lparr>conts := (conts s)(running s := k), running := a,
     heap := (heap s)(a := map_option (\<lambda>t. t\<lparr>tcb_state := RUNNING, tcb_quantum := tcb_quantum t + 1\<rparr>) (heap s a)),
     quantum_counter := quantum_counter s + 1\<rparr>"

text \<open>The quantum counters are far from overflow.\<close>

definition counters_small :: "uthreads \<Rightarrow> bool" where
  "counters_small s \<longleftrightarrow> quantum_counter s < INT_MAX \<and>
     (\<forall>a t. heap s a = Some t \<longrightarrow> tcb_quantum t < INT_MAX \<and> tcb_lock_count t < INT_MAX)"

lemma switchToThread_eq:
  assumes "heap s (running s) \<noteq> None" "heap s a = Some t" "tcb_quantum t < INT_MAX" "quantum_counter s < INT_MAX"
  shows "switchToThread a k s = Inr (run_next a k s)"
proof -
  obtain t0 where "heap s (running s) = Some t0" using assms(1) by auto
  then show ?thesis
    using assms by (simp add: switchToThread_def deref_def modify_def increaseQuantum_def run_next_def)
qed

text \<open>The highest priority that has a ready thread, or green.\<close>

definition highest :: "(priority \<Rightarrow> addr list) \<Rightarrow> priority" where
  "highest q = (if q RED \<noteq> [] then RED else if q ORANGE \<noteq> [] then ORANGE else GREEN)"

lemma highest_nonempty: "q p \<noteq> [] \<Longrightarrow> q (highest q) \<noteq> []"
  by (cases p) (auto simp: highest_def)

lemma popReady_eq:
  assumes "ready s (highest (ready s)) \<noteq> []"
  shows "popReady s = Inr (Some (hd (ready s (highest (ready s)))),
     s\<lparr>ready := (ready s)(highest (ready s) := tl (ready s (highest (ready s))))\<rparr>)"
  using assms
  by (auto simp: popReady_def highest_def getReady_def split: list.splits if_splits)

lemma switchThreads_eq:
  assumes h: "ready s (highest (ready s)) \<noteq> []" and a: "a = hd (ready s (highest (ready s)))"
    and "heap s (running s) \<noteq> None" "heap s a = Some t" "tcb_quantum t < INT_MAX" "quantum_counter s < INT_MAX"
  shows "switchThreads k s = Inr (run_next a k
     (s\<lparr>ready := (ready s)(highest (ready s) := tl (ready s (highest (ready s))))\<rparr>))"
  using assms by (simp add: switchThreads_def popReady_eq [OF h] switchToThread_eq)

section \<open>Yielding without boosts\<close>

text \<open>Nobody is to be boosted and the running thread holds no lock.\<close>

definition no_boosts :: "uthreads \<Rightarrow> bool" where
  "no_boosts s \<longleftrightarrow> lowBoost s = [] \<and> medBoost s = [] \<and> (\<forall>tid. numBoosts s tid = None)"

lemma check_no_boosts:
  assumes "no_boosts s" "heap s (running s) = Some t" "tcb_lock_count t = 0"
  shows "check_and_update_boost_structures s = Inr s"
  using assms
  by (simp add: check_and_update_boost_structures_def no_boosts_def unboost_running_def
      getBoostingStructureForPriority_def boost_set_update_def)

lemma boost_no_boosts: "no_boosts s \<Longrightarrow> boost_lp_lock_holding_threads s = Inr s"
  by (simp add: boost_lp_lock_holding_threads_def no_boosts_def boosting_logic_def boost_set_def)

lemma yield_runs:
  assumes i: "ut_inv s" and b: "no_boosts s" and e: "interrupts_enabled s" and c: "counters_small s"
    and t: "heap s (running s) = Some t" "tcb_lock_count t = 0"
    and q: "q = (ready s)(tcb_pr t := ready s (tcb_pr t) @ [running s])"
  shows "runs (uthread_yield s) (\<lambda>(r, u). r = Switched \<and> running u = hd (q (highest q)) \<and>
     ready u = q(highest q := tl (q (highest q))) \<and> conts u = (conts s)(running s := AfterYield) \<and>
     quantum_counter u = quantum_counter s + 1)"
proof -
  define s1 where "s1 = s\<lparr>interrupts_enabled := False\<rparr>"
  have b1: "no_boosts s1" and t1: "heap s1 (running s1) = Some t" using b t by (simp_all add: s1_def no_boosts_def)
  define s2 where "s2 = s1\<lparr>heap := (heap s)(running s := Some (t\<lparr>tcb_state := READY\<rparr>)), ready := q\<rparr>"
  have m: "modify (running s1) (setState READY) s1 = Inr (s1\<lparr>heap := (heap s)(running s := Some (t\<lparr>tcb_state := READY\<rparr>))\<rparr>)"
    using t by (simp add: modify_def deref_def s1_def)
  have a: "addToReady (running s) (s1\<lparr>heap := (heap s)(running s := Some (t\<lparr>tcb_state := READY\<rparr>))\<rparr>) = Inr s2"
    by (simp add: addToReady_def deref_def s2_def q s1_def)
  define nxt where "nxt = hd (q (highest q))"
  have "q (tcb_pr t) \<noteq> []" by (simp add: q)
  then have ne: "q (highest q) \<noteq> []" by (rule highest_nonempty)
  then have "nxt \<in> set (q (highest q))" by (simp add: nxt_def)
  then have "nxt = running s \<or> nxt \<in> set (ready s (highest q))" by (auto simp: q split: if_splits)
  then obtain tn where "heap s nxt = Some tn"
    using i t(1) by (auto simp: ut_inv_def placed_def ready_ok_def)
  then obtain tm where tm: "heap s2 nxt = Some tm" "tcb_quantum tm < INT_MAX"
    using c t by (cases "nxt = running s") (auto simp: s2_def counters_small_def)
  have "switchThreads AfterYield s2 = Inr (run_next nxt AfterYield
     (s2\<lparr>ready := (ready s2)(highest (ready s2) := tl (ready s2 (highest (ready s2))))\<rparr>))"
    by (rule switchThreads_eq [OF _ _ _ tm]) (use ne c in \<open>simp_all add: s2_def s1_def nxt_def counters_small_def\<close>)
  then show ?thesis
    using e b1 m a t1
    by (simp add: uthread_yield_def ut_disableInterrupts_def s1_def [symmetric] check_no_boosts [OF b1 t1 t(2)]
        boost_no_boosts switched_def)
       (simp add: s2_def s1_def run_next_def nxt_def ne)
qed

section \<open>Locks\<close>

lemma waiting_alloc:
  assumes i: "ut_inv s" and lk: "vec_at (locks s) (int l) = Inr lk" and w: "w \<in> set (lock_places lk)"
  shows "w \<noteq> running s" "\<exists>t. heap s w = Some t"
proof -
  have "lk \<in> set (locks s)" using lk by (auto simp: vec_at_def split: if_splits)
  then have q: "w \<in># queued s" using w by (auto simp: queued_def)
  have p: "placed [running s] s" using i by (simp add: ut_inv_def)
  show "w \<noteq> running s" using q inv_members(3) [OF p, of "running s"] by auto
  show "\<exists>t. heap s w = Some t" using q inv_members(2) [OF p, of w] by auto
qed

lemma cv_alloc:
  assumes i: "ut_inv s" and cv: "vec_at (condvars s) (int c) = Inr cv" and w: "w \<in> set (cv_places cv)"
  shows "w \<noteq> running s" "\<exists>t. heap s w = Some t"
proof -
  have "cv \<in> set (condvars s)" using cv by (auto simp: vec_at_def split: if_splits)
  then have q: "w \<in># queued s" using w by (auto simp: queued_def)
  have p: "placed [running s] s" using i by (simp add: ut_inv_def)
  show "w \<noteq> running s" using q inv_members(3) [OF p, of "running s"] by auto
  show "\<exists>t. heap s w = Some t" using q inv_members(2) [OF p, of w] by auto
qed

lemma unlock_hand_over:
  assumes i: "ut_inv s" and e: "interrupts_enabled s" and lk: "vec_at (locks s) (int l) = Inr lk"
    and n: "nextThreadToWakeUp lk = None" and w: "waiting_queue lk = w # q"
    and t: "heap s (running s) = Some t" "0 < tcb_lock_count t"
  shows "runs (lock_unlock l s) (\<lambda>(r, u). r = RetVoid \<and> running u = running s \<and>
     locks u = (locks s)[l := lk\<lparr>waiting_queue := q\<rparr>] \<and>
     (\<exists>tw. heap s w = Some tw \<and> ready u = (ready s)(tcb_pr tw := ready s (tcb_pr tw) @ [w])))"
proof -
  have "w \<in> set (lock_places lk)" by (simp add: lock_places_def w)
  note wa = waiting_alloc [OF i lk this]
  obtain tw where tw: "heap s w = Some tw" using wa(2) by blast
  show ?thesis
    using e lk n w t tw wa(1)
    by (simp add: lock_unlock_def lock_unlock_internal_def ut_disableInterrupts_def ut_enableInterrupts_def
        modify_def deref_def decreaseLockCount_def set_lock_def addToReady_def return_to_user_def)
qed

lemma lock_busy:
  assumes i: "ut_inv s" and e: "interrupts_enabled s" and lk: "vec_at (locks s) (int l) = Inr lk" "lock_value lk = 1"
    and t: "heap s (running s) = Some t" and c: "counters_small s"
    and r: "ready s (highest (ready s)) \<noteq> []"
  shows "runs (lock_lock l s) (\<lambda>(r, u). r = Switched \<and> running u = hd (ready s (highest (ready s))) \<and>
     locks u = (locks s)[l := lk\<lparr>waiting_queue := waiting_queue lk @ [running s]\<rparr>] \<and>
     conts u = (conts s)(running s := AfterLock l))"
proof -
  define nxt where "nxt = hd (ready s (highest (ready s)))"
  have nx: "nxt \<in> set (ready s (highest (ready s)))" using r by (simp add: nxt_def)
  then obtain tn where tn: "heap s nxt = Some tn" using i by (auto simp: ut_inv_def placed_def ready_ok_def)
  have p: "placed [running s] s" using i by (simp add: ut_inv_def)
  have ne: "nxt \<noteq> running s" using inv_members(3) [OF p, of "running s"] ready_queued [OF nx] by auto
  define s2 where "s2 = (set_lock l (lk\<lparr>waiting_queue := waiting_queue lk @ [running s]\<rparr>)
     (s\<lparr>interrupts_enabled := False\<rparr>))\<lparr>heap := (heap s)(running s := Some (t\<lparr>tcb_state := BLOCK\<rparr>))\<rparr>"
  have "switchThreads (AfterLock l) s2 = Inr (run_next nxt (AfterLock l)
     (s2\<lparr>ready := (ready s2)(highest (ready s2) := tl (ready s2 (highest (ready s2))))\<rparr>))"
    by (rule switchThreads_eq [where t = tn])
       (use r tn ne c in \<open>simp_all add: s2_def set_lock_def nxt_def counters_small_def\<close>)
  then show ?thesis
    using e lk t
    by (simp add: lock_lock_def ut_disableInterrupts_def modify_def deref_def switched_def set_lock_def)
       (simp add: s2_def set_lock_def run_next_def nxt_def)
qed

section \<open>Condition variables\<close>

text \<open>A signal runs the first waiter at once, and puts the caller last in the wake-up order.\<close>

lemma signal_runs:
  assumes i: "ut_inv s" and e: "interrupts_enabled s" and cv: "vec_at (condvars s) (int c) = Inr cv"
    and w: "cond_var_waiting_queue cv = w # q" and t: "heap s (running s) = Some t" "heap s w = Some tw"
    and cs: "tcb_quantum tw < INT_MAX" "quantum_counter s < INT_MAX"
  shows "cv_signal c s = Inr (Switched, run_next w AfterSignal ((set_cv c (cv\<lparr>cond_var_waiting_queue := q,
      wake_up_order := wake_up_order cv @ [running s]\<rparr>) (s\<lparr>interrupts_enabled := False\<rparr>))
      \<lparr>heap := (heap s)(running s := Some (t\<lparr>tcb_state := BLOCK\<rparr>))\<rparr>))"
proof -
  have ne: "w \<noteq> running s" by (rule cv_alloc(1) [OF i cv]) (simp add: cv_places_def w)
  define s2 where "s2 = (set_cv c (cv\<lparr>cond_var_waiting_queue := q, wake_up_order := wake_up_order cv @ [running s]\<rparr>)
      (s\<lparr>interrupts_enabled := False\<rparr>))\<lparr>heap := (heap s)(running s := Some (t\<lparr>tcb_state := BLOCK\<rparr>))\<rparr>"
  have "switchToThread w AfterSignal s2 = Inr (run_next w AfterSignal s2)"
    by (rule switchToThread_eq) (use t ne cs in \<open>simp_all add: s2_def set_cv_def\<close>)
  then show ?thesis
    using e cv w t
    by (simp add: cv_signal_def ut_disableInterrupts_def modify_def deref_def set_cv_def switched_def s2_def)
qed

text \<open>The thread that was waiting goes on, owing the lock to the first in the wake-up order.\<close>

lemma after_wait_runs:
  assumes "heap s (running s) = Some t" "vec_at (condvars s) (int c) = Inr cv" "wake_up_order cv = a # q"
    and "vec_at (locks s) (int l) = Inr lk" "\<not> interrupts_enabled s" "conts s (running s) = AfterWait c l"
  shows "resume s = Inr (RetVoid, set_cv c (cv\<lparr>wake_up_order := q\<rparr>) (set_lock l (lk\<lparr>nextThreadToWakeUp := Some a\<rparr>)
    (s\<lparr>heap := (heap s)(running s := Some (t\<lparr>tcb_state := RUNNING\<rparr>)), interrupts_enabled := True,
       conts := (conts s)(running s := User)\<rparr>)))"
  using assms
  by (simp add: resume_def after_wait_def modify_def deref_def lock_signal_def return_to_user_def ut_enableInterrupts_def
      set_lock_def set_cv_def)

text \<open>Unlocking a lock that owes a thread switches to that thread.\<close>

lemma unlock_switches:
  assumes "heap s (running s) = Some t" "0 < tcb_lock_count t" "vec_at (locks s) (int l) = Inr lk"
    and "nextThreadToWakeUp lk = Some a" "a \<noteq> running s" "heap s a = Some ta" "tcb_quantum ta < INT_MAX"
    and "quantum_counter s < INT_MAX" "interrupts_enabled s"
  shows "lock_unlock l s = Inr (Switched, run_next a AfterUnlock ((set_lock l (lk\<lparr>nextThreadToWakeUp := None\<rparr>) (s\<lparr>interrupts_enabled := False\<rparr>))
    \<lparr>heap := (heap s)(running s := Some (t\<lparr>tcb_lock_count := tcb_lock_count t - 1, tcb_state := READY\<rparr>)),
     ready := (ready s)(tcb_pr t := ready s (tcb_pr t) @ [running s])\<rparr>))"
proof -
  define s2 where "s2 = (set_lock l (lk\<lparr>nextThreadToWakeUp := None\<rparr>) (s\<lparr>interrupts_enabled := False\<rparr>))
    \<lparr>heap := (heap s)(running s := Some (t\<lparr>tcb_lock_count := tcb_lock_count t - 1, tcb_state := READY\<rparr>)),
     ready := (ready s)(tcb_pr t := ready s (tcb_pr t) @ [running s])\<rparr>"
  have "switchToThread a AfterUnlock s2 = Inr (run_next a AfterUnlock s2)"
    by (rule switchToThread_eq) (use assms in \<open>simp_all add: s2_def set_lock_def\<close>)
  then show ?thesis
    using assms
    by (simp add: lock_unlock_def lock_unlock_internal_def ut_disableInterrupts_def modify_def deref_def decreaseLockCount_def
        set_lock_def addToReady_def s2_def)
qed

text \<open>The round of Hoare: signal, the waiter's critical section, back to the signaller.\<close>

lemma hoare_round:
  assumes i: "ut_inv s" and e: "interrupts_enabled s" and cv: "vec_at (condvars s) (int c) = Inr cv"
    and w: "cond_var_waiting_queue cv = w # q" "wake_up_order cv = []" "conts s w = AfterWait c l"
    and lk: "vec_at (locks s) (int l) = Inr lk"
    and t: "heap s w = Some tw" "0 < tcb_lock_count tw" "tcb_quantum tw < INT_MAX"
    and cs: "quantum_counter s + 1 < INT_MAX" "counters_small s"
  shows "\<exists>s1 s2 s3. cv_signal c s = Inr (Switched, s1) \<and> running s1 = w \<and>
     resume s1 = Inr (RetVoid, s2) \<and> running s2 = w \<and> interrupts_enabled s2 \<and>
     lock_unlock l s2 = Inr (Switched, s3) \<and> running s3 = running s \<and> conts s3 (running s) = AfterSignal \<and>
     ready s3 (tcb_pr tw) = ready s (tcb_pr tw) @ [w]"
proof -
  have p: "placed [running s] s" using i by (simp add: ut_inv_def)
  obtain tr where tr: "heap s (running s) = Some tr" using running_alloc [OF p] by blast
  have ne: "w \<noteq> running s" by (rule cv_alloc(1) [OF i cv]) (simp add: cv_places_def w)
  have q0: "quantum_counter s < INT_MAX" using cs(1) by simp
  have cl: "c < length (condvars s)" using cv by (auto simp: vec_at_def split: if_splits)
  have ll: "l < length (locks s)" using lk by (auto simp: vec_at_def split: if_splits)
  define s1 where "s1 = run_next w AfterSignal ((set_cv c (cv\<lparr>cond_var_waiting_queue := q, wake_up_order := [running s]\<rparr>)
      (s\<lparr>interrupts_enabled := False\<rparr>))\<lparr>heap := (heap s)(running s := Some (tr\<lparr>tcb_state := BLOCK\<rparr>))\<rparr>)"
  have 1: "cv_signal c s = Inr (Switched, s1)"
    using signal_runs [OF i e cv w(1) tr t(1,3) q0] w(2) by (simp add: s1_def)
  define tw1 where "tw1 = tw\<lparr>tcb_state := RUNNING, tcb_quantum := tcb_quantum tw + 1\<rparr>"
  have r1: "running s1 = w" by (simp add: s1_def run_next_def)
  have h1: "heap s1 w = Some tw1" "heap s1 (running s) = Some (tr\<lparr>tcb_state := BLOCK\<rparr>)"
    using t(1) ne by (simp_all add: s1_def run_next_def set_cv_def tw1_def)
  have c1: "vec_at (condvars s1) (int c) = Inr (cv\<lparr>cond_var_waiting_queue := q, wake_up_order := [running s]\<rparr>)"
    using cl by (simp add: s1_def run_next_def set_cv_def)
  have l1: "vec_at (locks s1) (int l) = Inr lk" using lk by (simp add: s1_def run_next_def set_cv_def)
  have k1: "\<not> interrupts_enabled s1" "conts s1 w = AfterWait c l"
    using w(3) ne by (simp_all add: s1_def run_next_def set_cv_def)
  define s2 where "s2 = set_cv c (cv\<lparr>cond_var_waiting_queue := q, wake_up_order := []\<rparr>)
    (set_lock l (lk\<lparr>nextThreadToWakeUp := Some (running s)\<rparr>)
      (s1\<lparr>heap := (heap s1)(w := Some (tw1\<lparr>tcb_state := RUNNING\<rparr>)), interrupts_enabled := True,
       conts := (conts s1)(w := User)\<rparr>))"
  have 2: "resume s1 = Inr (RetVoid, s2)"
    using after_wait_runs [of s1 tw1 c _ "running s" "[]" l lk] h1 c1 l1 k1 r1 by (simp add: s2_def)
  have r2: "running s2 = w" "interrupts_enabled s2" "heap s2 w = Some (tw1\<lparr>tcb_state := RUNNING\<rparr>)"
      "heap s2 (running s) = Some (tr\<lparr>tcb_state := BLOCK\<rparr>)"
      "vec_at (locks s2) (int l) = Inr (lk\<lparr>nextThreadToWakeUp := Some (running s)\<rparr>)"
      "quantum_counter s2 = quantum_counter s + 1" "ready s2 = ready s" "conts s2 (running s) = AfterSignal"
    using r1 h1 ne ll by (simp_all add: s2_def set_cv_def set_lock_def s1_def run_next_def)
  have qr: "tcb_quantum tr < INT_MAX" using cs(2) tr by (simp add: counters_small_def)
  have 3: "\<exists>s3. lock_unlock l s2 = Inr (Switched, s3) \<and> running s3 = running s \<and> conts s3 (running s) = AfterSignal \<and>
     ready s3 (tcb_pr tw) = ready s (tcb_pr tw) @ [w]"
    using unlock_switches [of s2 "tw1\<lparr>tcb_state := RUNNING\<rparr>" l "lk\<lparr>nextThreadToWakeUp := Some (running s)\<rparr>" "running s"]
      r2 t ne cs qr by (simp add: tw1_def run_next_def set_lock_def)
  show ?thesis using 1 2 3 r1 r2 by blast
qed

section \<open>Boosting\<close>

definition holds_lock :: "uthreads \<Rightarrow> addr \<Rightarrow> bool" where
  "holds_lock s a \<longleftrightarrow> (case heap s a of None \<Rightarrow> False | Some t \<Rightarrow> tcb_lock_count t \<noteq> 0)"

text \<open>The ready queues after the priority of a thread with block \<open>t\<close> went up.\<close>

definition moved_up :: "addr \<Rightarrow> tcb \<Rightarrow> (priority \<Rightarrow> addr list) \<Rightarrow> priority \<Rightarrow> addr list" where
  "moved_up a t q = (if a \<in> set (q (tcb_pr t))
     then let q' = q(tcb_pr t := remove1 a (q (tcb_pr t))) in q'(pr_up (tcb_pr t) := q' (pr_up (tcb_pr t)) @ [a]) else q)"

lemma increase_priority_eq:
  assumes "ut_inv s" "heap s a = Some t"
  shows "uthread_increase_priority_internal a s = Inr (s\<lparr>heap := (heap s)(a := Some (t\<lparr>tcb_pr := pr_up (tcb_pr t)\<rparr>)),
    ready := moved_up a t (ready s)\<rparr>)"
proof -
  have "map_of (threads s) (tcb_tid t) = Some a" using threads_at_iff [of s "tcb_tid t" a] assms by (auto simp: ut_inv_def placed_def)
  then show ?thesis
    using assms(2)
    by (simp add: uthread_increase_priority_internal_def deref_def removeFromReady_def translatePriority_def threads_at_def
        modify_def addToReady_def moved_up_def)
qed

definition boosted :: "bool \<Rightarrow> addr \<Rightarrow> tcb \<Rightarrow> uthreads \<Rightarrow> uthreads \<Rightarrow> bool" where
  "boosted low a t s u \<longleftrightarrow> heap u = (heap s)(a := Some (t\<lparr>tcb_pr := pr_up (tcb_pr t)\<rparr>)) \<and> ready u = moved_up a t (ready s) \<and>
     boost_set low u = remove1 a (boost_set low s) \<and>
     boost_set (\<not> low) u = (if low \<and> pr_up (tcb_pr t) = ORANGE then List.insert a (medBoost s) else boost_set (\<not> low) s) \<and>
     numBoosts u = (numBoosts s)(tcb_tid t := Some (boosts_of (tcb_tid t) s + 1)) \<and> running u = running s"

lemma boost_thread_runs:
  assumes "ut_inv s" "heap s a = Some t" "a \<in> set (boost_set low s)"
  shows "runs (boost_thread low a s) (boosted low a t s)"
  using assms(2,3) increase_priority_eq [OF assms(1,2)]
  by (cases low) (auto simp: boost_thread_def deref_def boost_set_update_def boost_set_def boosts_of_def boosted_def Let_def)

lemma boosting_loop_find:
  assumes "\<forall>a \<in> set xs. heap s a \<noteq> None" "num \<noteq> 1"
  shows "boosting_loop low num 1 xs s = (case find (holds_lock s) xs of
     None \<Rightarrow> Inr s
   | Some a \<Rightarrow> bindE (boost_thread low a s) (\<lambda>u. if num = 2 then Inr u else Inl IteratorInvalid))"
  using assms
proof (induction xs)
  case (Cons a xs)
  obtain t where t: "heap s a = Some t" using Cons.prems(1) by auto
  have "holds_lock s a \<longleftrightarrow> tcb_lock_count t \<noteq> 0" using t by (simp add: holds_lock_def)
  moreover have "boosting_loop low num 1 xs s = (case find (holds_lock s) xs of
     None \<Rightarrow> Inr s
   | Some a \<Rightarrow> bindE (boost_thread low a s) (\<lambda>u. if num = 2 then Inr u else Inl IteratorInvalid))" using Cons by simp
  ultimately show ?case using Cons.prems(2) by (cases "num = 2") (auto simp: t deref_def bindE_assoc)
qed simp

text \<open>The loop looks at the first thread only if it is to boost one thread.\<close>

lemma boosting_loop_first:
  assumes "heap s a \<noteq> None"
  shows "boosting_loop low 1 1 (a # xs) s = (if holds_lock s a then bindE (boost_thread low a s) (\<lambda>_. Inl IteratorInvalid) else Inr s)"
  using assms by (auto simp: deref_def holds_lock_def bindE_assoc)

section \<open>Joining\<close>

definition id_of :: "uthreads \<Rightarrow> addr \<Rightarrow> int option" where
  "id_of s a = map_option tcb_tid (heap s a)"

lemma find_finished_runs:
  assumes "\<forall>(a, v) \<in> set q. heap s a \<noteq> None"
  shows "runs (find_finished tid q s) (\<lambda>r. case r of
     None \<Rightarrow> \<forall>(b, w) \<in> set q. id_of s b \<noteq> Some tid
   | Some (a, v, q') \<Rightarrow> \<exists>q1 q2. q = q1 @ (a, v) # q2 \<and> q' = q1 @ q2 \<and> id_of s a = Some tid \<and> (\<forall>(b, w) \<in> set q1. id_of s b \<noteq> Some tid))"
  using assms
proof (induction q)
  case (Cons x q)
  obtain b w where x: "x = (b, w)" by (cases x)
  obtain t where t: "heap s b = Some t" using Cons.prems x by auto
  show ?case
  proof (cases "tcb_tid t = tid")
    case True
    then show ?thesis using t x by (simp add: deref_def id_of_def exI [of _ "[]"])
  next
    case False
    have nb: "id_of s b \<noteq> Some tid" using False t by (simp add: id_of_def)
    obtain r where r: "find_finished tid q s = Inr r" and p: "case r of
     None \<Rightarrow> \<forall>(b, w) \<in> set q. id_of s b \<noteq> Some tid
   | Some (a, v, q') \<Rightarrow> \<exists>q1 q2. q = q1 @ (a, v) # q2 \<and> q' = q1 @ q2 \<and> id_of s a = Some tid \<and> (\<forall>(b, w) \<in> set q1. id_of s b \<noteq> Some tid)"
      using Cons.IH Cons.prems by (auto simp: runs_iff)
    show ?thesis
    proof (cases r)
      case None
      then show ?thesis using r p t x False nb by (simp add: deref_def)
    next
      case (Some y)
      obtain a v q' where y: "y = (a, v, q')" by (cases y)
      obtain q1 q2 where q: "q = q1 @ (a, v) # q2" "q' = q1 @ q2" "id_of s a = Some tid" "\<forall>(b, w) \<in> set q1. id_of s b \<noteq> Some tid"
        using p Some y by auto
      have "\<exists>p1 p2. x # q = p1 @ (a, v) # p2 \<and> x # q' = p1 @ p2 \<and> id_of s a = Some tid \<and> (\<forall>(b, w) \<in> set p1. id_of s b \<noteq> Some tid)"
        by (intro exI [of _ "(b, w) # q1"] exI [of _ q2]) (use q x nb in auto)
      then show ?thesis using r t x False Some y by (simp add: deref_def)
    qed
  qed
qed simp

definition has_finished :: "int \<Rightarrow> uthreads \<Rightarrow> bool" where
  "has_finished tid s \<longleftrightarrow> (\<exists>(a, v) \<in> set (finished_queue s). id_of s a = Some tid)"

text \<open>The first finished thread with the id is removed for good, and its result is handed over.\<close>

definition took_result :: "int \<Rightarrow> uthreads \<Rightarrow> ret \<Rightarrow> uthreads \<Rightarrow> bool" where
  "took_result tid s r u \<longleftrightarrow> (\<exists>a v q1 q2. finished_queue s = q1 @ (a, v) # q2 \<and> id_of s a = Some tid \<and>
     (\<forall>(b, w) \<in> set q1. id_of s b \<noteq> Some tid) \<and> r = Joined v \<and> finished_queue u = q1 @ q2 \<and> heap u = (heap s)(a := None) \<and>
     map_of (threads u) tid = None \<and> ready u = ready s \<and> join_queue u = join_queue s \<and> running u = running s \<and> interrupts_enabled u)"

lemma finished_alloc:
  assumes "ut_inv s"
  shows "\<forall>(a, v) \<in> set (finished_queue s). heap s a \<noteq> None \<and> a \<noteq> running s"
proof -
  have p: "placed [running s] s" using assms by (simp add: ut_inv_def)
  have "a \<in># queued s" if "(a, v) \<in> set (finished_queue s)" for a v using that by (force simp: queued_def)
  then show ?thesis using inv_members(2,3) [OF p] by force
qed

lemma removeFromFinished_runs:
  assumes "ut_inv s"
  shows "removeFromFinished tid s = (if has_finished tid s then removeFromFinished tid s else Inr (None, s))"
    "has_finished tid s \<Longrightarrow> runs (removeFromFinished tid s) (\<lambda>(r, u). \<exists>v. r = Some v \<and>
       took_result tid s (Joined v) (u\<lparr>interrupts_enabled := True\<rparr>))"
proof -
  have f: "runs (find_finished tid (finished_queue s) s) (\<lambda>r. case r of
     None \<Rightarrow> \<forall>(b, w) \<in> set (finished_queue s). id_of s b \<noteq> Some tid
   | Some (a, v, q') \<Rightarrow> \<exists>q1 q2. finished_queue s = q1 @ (a, v) # q2 \<and> q' = q1 @ q2 \<and> id_of s a = Some tid \<and>
        (\<forall>(b, w) \<in> set q1. id_of s b \<noteq> Some tid))"
    by (rule find_finished_runs) (use finished_alloc [OF assms] in auto)
  have e: "map_of (threads_erase tid m) tid = None" for m by (induction m) (auto simp: threads_erase_def)
  show "removeFromFinished tid s = (if has_finished tid s then removeFromFinished tid s else Inr (None, s))"
    using f by (auto simp: has_finished_def removeFromFinished_def runs_iff split: option.splits)
  show "runs (removeFromFinished tid s) (\<lambda>(r, u). \<exists>v. r = Some v \<and> took_result tid s (Joined v) (u\<lparr>interrupts_enabled := True\<rparr>))"
    if "has_finished tid s"
  proof -
    obtain r where r: "find_finished tid (finished_queue s) s = Inr r" and p: "case r of
     None \<Rightarrow> \<forall>(b, w) \<in> set (finished_queue s). id_of s b \<noteq> Some tid
   | Some (a, v, q') \<Rightarrow> \<exists>q1 q2. finished_queue s = q1 @ (a, v) # q2 \<and> q' = q1 @ q2 \<and> id_of s a = Some tid \<and>
        (\<forall>(b, w) \<in> set q1. id_of s b \<noteq> Some tid)" using f by (auto simp: runs_iff)
    have "r \<noteq> None" using p that by (auto simp: has_finished_def split: option.splits)
    then obtain a v q' where ra: "r = Some (a, v, q')" by (cases r) auto
    then show ?thesis using r p by (auto simp: removeFromFinished_def took_result_def e)
  qed
qed

text \<open>Coming back from the removal with a result or with none.\<close>

lemma join_found:
  assumes "ut_inv s" "has_finished tid s"
  shows "\<exists>v w. removeFromFinished tid (s\<lparr>interrupts_enabled := False\<rparr>) = Inr (Some v, w) \<and>
    runs (return_to_user (Joined v) w) (\<lambda>(r, u). took_result tid s r u)"
proof -
  define s0 where "s0 = s\<lparr>interrupts_enabled := False\<rparr>"
  have s0: "ut_inv s0" "has_finished tid s0"
    using assms by (simp_all add: s0_def ut_inv_def has_finished_def id_of_def)
  obtain v w where r: "removeFromFinished tid s0 = Inr (Some v, w)" and t: "took_result tid s0 (Joined v) (w\<lparr>interrupts_enabled := True\<rparr>)"
    using removeFromFinished_runs(2) [OF s0] by (auto simp: runs_iff)
  have i: "\<not> interrupts_enabled w"
    using r by (auto simp: removeFromFinished_def bindE_eq_Inr s0_def split: option.splits)
  have "took_result tid s (Joined v) (w\<lparr>interrupts_enabled := True, conts := k\<rparr>)" for k
    using t by (simp add: took_result_def s0_def id_of_def)
  then have "runs (return_to_user (Joined v) w) (\<lambda>(r, u). took_result tid s r u)"
    using i by (simp add: return_to_user_def ut_enableInterrupts_def)
  then show ?thesis using r by (simp add: s0_def)
qed

lemma join_not_found:
  assumes "ut_inv s" "\<not> has_finished tid s"
  shows "removeFromFinished tid (s\<lparr>interrupts_enabled := False\<rparr>) = Inr (None, s\<lparr>interrupts_enabled := False\<rparr>)"
proof -
  have "ut_inv (s\<lparr>interrupts_enabled := False\<rparr>)" "\<not> has_finished tid (s\<lparr>interrupts_enabled := False\<rparr>)"
    using assms by (simp_all add: ut_inv_def has_finished_def id_of_def)
  then show ?thesis using removeFromFinished_runs(1) by metis
qed

lemma join_waits:
  assumes i: "ut_inv s" and e: "interrupts_enabled s" and n: "\<not> has_finished tid s"
  shows "uthread_join tid s = switched (switchThreads (AfterJoin tid)
    (s\<lparr>interrupts_enabled := False, join_queue := join_queue s @ [(running s, tid)]\<rparr>))"
proof -
  have p: "placed [running s] s" using i by (simp add: ut_inv_def)
  obtain t where t: "heap s (running s) = Some t" using running_alloc [OF p] by blast
  have "map_of (threads s) (tcb_tid t) = Some (running s)"
    using threads_at_iff [of s "tcb_tid t" "running s"] i t by (auto simp: ut_inv_def placed_def)
  then show ?thesis
    using e t join_not_found [OF i n]
    by (simp add: uthread_join_def ut_disableInterrupts_def threads_at_def)
qed

lemma join_switches:
  assumes i: "ut_inv s" and e: "interrupts_enabled s" and n: "\<not> has_finished tid s" and c: "counters_small s"
    and r: "ready s (highest (ready s)) \<noteq> []"
  shows "runs (uthread_join tid s) (\<lambda>(r, u). r = Switched \<and> running u = hd (ready s (highest (ready s))) \<and>
    ready u = (ready s)(highest (ready s) := tl (ready s (highest (ready s)))) \<and>
    join_queue u = join_queue s @ [(running s, tid)] \<and> finished_queue u = finished_queue s \<and>
    conts u = (conts s)(running s := AfterJoin tid))"
proof -
  define nxt where "nxt = hd (ready s (highest (ready s)))"
  have nx: "nxt \<in> set (ready s (highest (ready s)))" using r by (simp add: nxt_def)
  then obtain tn where tn: "heap s nxt = Some tn" using i by (auto simp: ut_inv_def placed_def ready_ok_def)
  have p: "placed [running s] s" using i by (simp add: ut_inv_def)
  obtain t where t: "heap s (running s) = Some t" using running_alloc [OF p] by blast
  define s2 where "s2 = s\<lparr>interrupts_enabled := False, join_queue := join_queue s @ [(running s, tid)]\<rparr>"
  have "switchThreads (AfterJoin tid) s2 = Inr (run_next nxt (AfterJoin tid)
     (s2\<lparr>ready := (ready s2)(highest (ready s2) := tl (ready s2 (highest (ready s2))))\<rparr>))"
    by (rule switchThreads_eq [where t = tn])
       (use r tn t c in \<open>simp_all add: s2_def nxt_def counters_small_def\<close>)
  then show ?thesis
    by (simp add: join_waits [OF i e n] switched_def s2_def [symmetric]) (simp add: s2_def run_next_def nxt_def)
qed

lemma join_stuck:
  assumes i: "ut_inv s" and e: "interrupts_enabled s" and n: "\<not> has_finished tid s"
    and r: "ready s (highest (ready s)) = []"
  shows "uthread_join tid s = Inl AssertFail"
proof -
  have "ready s p = []" for p using r highest_nonempty [of "ready s" p] by auto
  then show ?thesis by (simp add: join_waits [OF i e n] switched_def switchThreads_def popReady_def getReady_def)
qed

end
