(* ===== verification/UtLibrary.thy ===== *)
theory UtLibrary
  imports UtCalls
begin

text \<open>
  What every call of the thread library keeps.  A call enters the library from user
  code, works on control blocks and queues, and ends either back in user code or
  with a context switch.  The locale \<open>library\<close> states what a property has to satisfy at
  these points, with \<open>U\<close> for user code, \<open>I\<close> for inside the library, \<open>W\<close> for right after
  a switch and \<open>K\<close> for the contexts that may be saved; all calls but those of locks and
  condition variables then keep it.  \<open>whole_library\<close> adds these.
\<close>

definition ended :: "(uthreads \<Rightarrow> bool) \<Rightarrow> (uthreads \<Rightarrow> bool) \<Rightarrow> ret \<times> uthreads \<Rightarrow> bool" where
  "ended W U = (\<lambda>(r, u). if r = Switched then W u else U u)"

definition handed :: "(uthreads \<Rightarrow> bool) \<Rightarrow> (uthreads \<Rightarrow> bool) \<Rightarrow> bool \<times> uthreads \<Rightarrow> bool" where
  "handed W I = (\<lambda>(sw, u). if sw then W u else I u)"

locale library =
  fixes U I W :: "uthreads \<Rightarrow> bool" and K :: "cont set"
  assumes enter: "U s \<Longrightarrow> interrupts_enabled s \<Longrightarrow> I (s\<lparr>interrupts_enabled := False\<rparr>)"
    and leave: "I s \<Longrightarrow> \<not> interrupts_enabled s \<Longrightarrow>
      U (s\<lparr>interrupts_enabled := True, conts := (conts s)(running s := User)\<rparr>)"
    and switch: "I s \<Longrightarrow> k \<in> K \<Longrightarrow> heap s nxt = Some t \<Longrightarrow>
      W (s\<lparr>conts := (conts s)(running s := k), running := nxt, heap := (heap s)(nxt := Some t'), quantum_counter := n\<rparr>)"
    and rejoin: "W s \<Longrightarrow> I s"
    and block: "I s \<Longrightarrow> heap s a = Some t \<Longrightarrow> I (s\<lparr>heap := (heap s)(a := Some t')\<rparr>)"
    and queues: "I s \<Longrightarrow> I (s\<lparr>ready := r\<rparr>)" "I s \<Longrightarrow> I (s\<lparr>blocked := q\<rparr>)"
      "I s \<Longrightarrow> I (s\<lparr>join_queue := j\<rparr>)" "I s \<Longrightarrow> I (s\<lparr>finished_queue := fq\<rparr>)"
    and boosts: "I s \<Longrightarrow> I (s\<lparr>numBoosts := b\<rparr>)" "I s \<Longrightarrow> I (s\<lparr>lowBoost := x\<rparr>)" "I s \<Longrightarrow> I (s\<lparr>medBoost := x\<rparr>)"
    and fresh: "I s \<Longrightarrow> I (s\<lparr>heap := (heap s)(next_addr s := Some t'), next_addr := m, threads := th,
      conts := (conts s)(next_addr s := Start)\<rparr>)"
    and delete: "I s \<Longrightarrow> I (s\<lparr>threads := th, heap := (heap s)(a := None), finished_queue := fq\<rparr>)"
    and saved: "{AfterYield, AfterExit, AfterSuspend} \<subseteq> K" "AfterJoin i \<in> K"
begin

lemma modify_I: "I s \<Longrightarrow> safe (modify a f s) I"
  by (cases "heap s a"; cases "f (the (heap s a))") (auto simp: modify_def deref_def intro: block)

lemma addToReady_I: "I s \<Longrightarrow> safe (addToReady a s) I"
  by (cases "heap s a") (auto simp: addToReady_def deref_def intro: queues)

lemma popReady_I: "I s \<Longrightarrow> safe (popReady s) (\<lambda>(a, u). I u)"
  by (auto simp: popReady_def getReady_def safe_bind intro: queues split: list.splits)

lemma removeFromReady_I: "I s \<Longrightarrow> safe (removeFromReady i s) (\<lambda>(b, u). I u)"
  by (cases "translatePriority i s"; cases "threads_at i s") (auto simp: removeFromReady_def intro: queues)

lemma removeFromBlock_I: "I s \<Longrightarrow> safe (removeFromBlock i s) I"
  by (cases "threads_at i s") (auto simp: removeFromBlock_def intro: queues)

lemma removeFromFinished_I: "I s \<Longrightarrow> safe (removeFromFinished i s) (\<lambda>(v, u). I u)"
  by (cases "find_finished i (finished_queue s) s") (auto simp: removeFromFinished_def intro: delete split: option.splits)

lemma move_joiners_I: "I s \<Longrightarrow> safe (move_joiners i q s) I"
proof (induction i q s rule: move_joiners.induct)
  case (1 i s)
  then show ?case by simp
next
  case (2 i a w q s)
  show ?case
  proof (cases "i = w")
    case True
    show ?thesis
      using "2.IH"(1) [OF True] "2.prems" True
      by (auto intro!: safe_bindI [OF modify_I] safe_bindI [OF addToReady_I])
  next
    case False
    then show ?thesis
      using "2.IH"(2) [OF False] "2.prems" by (auto intro!: safe_bindI [where P = I] queues)
  qed
qed

lemma moveFromJoinToReady_I: "I s \<Longrightarrow> safe (moveFromJoinToReady i s) I"
  unfolding moveFromJoinToReady_def by (intro move_joiners_I queues)

lemma priority_I:
  assumes "I s"
  shows "safe (uthread_increase_priority_internal a s) I" "safe (uthread_decrease_priority_internal a s) I"
proof -
  have "safe (bindE (removeFromReady i s) (\<lambda>(b, s). bindE (modify a f s) (\<lambda>s. if b then addToReady a s else Inr s))) I" for i f
    by (rule safe_bind_pairI [OF removeFromReady_I [OF assms]], rule safe_bindI [OF modify_I])
       (auto intro: addToReady_I)
  then show "safe (uthread_increase_priority_internal a s) I" "safe (uthread_decrease_priority_internal a s) I"
    by (cases "heap s a"; simp add: uthread_increase_priority_internal_def uthread_decrease_priority_internal_def deref_def)+
qed

lemma boost_set_I: "I s \<Longrightarrow> I (boost_set_update low f s)"
  by (simp add: boost_set_update_def boosts)

lemma boost_thread_I: "I s \<Longrightarrow> safe (boost_thread low a s) I"
  unfolding boost_thread_def
proof (rule safe_bindI [OF priority_I(1)])
  fix u assume "I u"
  then show "safe (bindE (deref a u) (\<lambda>t.
       let s = (if tcb_pr t = ORANGE then boost_set_update False (List.insert a) u else u);
           s = boost_set_update low (remove1 a) s
       in Inr (s\<lparr>numBoosts := (numBoosts s)(tcb_tid t := Some (boosts_of (tcb_tid t) s + 1))\<rparr>))) I"
    by (cases "deref a u") (simp_all add: Let_def boost_set_I boosts)
qed

lemma boosting_I: "I s \<Longrightarrow> safe (boosting_logic low num s) I"
proof -
  have "I s \<Longrightarrow> safe (boosting_loop low num count q s) I" for count q
  proof (induction q arbitrary: count s)
    case (Cons a q)
    then show ?case
      by (cases "deref a s") (auto simp: bindE_assoc intro!: safe_bindI [OF boost_thread_I])
  qed simp
  then show "I s \<Longrightarrow> safe (boosting_logic low num s) I" by (simp add: boosting_logic_def)
qed

lemma boost_all_I: "I s \<Longrightarrow> safe (boost_lp_lock_holding_threads s) I"
  unfolding boost_lp_lock_holding_threads_def by (intro safe_bindI [OF boosting_I] boosting_I)

lemma unboost_I: "I s \<Longrightarrow> safe (unboost_running s) I"
  by (cases "deref (running s) s"; cases "numBoosts s (tcb_tid (the (heap s (running s))))")
     (auto simp: unboost_running_def deref_def Let_def safe_bind boosts split: option.splits intro!: safe_mono [OF modify_I])

lemma check_boost_I: "I s \<Longrightarrow> safe (check_and_update_boost_structures s) I"
proof -
  assume i: "I s"
  have g: "safe (bindE (getBoostingStructureForPriority u) (\<lambda>low. Inr (boost_set_update low (f low) u))) I" if "I u" for u f
    using that by (cases "deref (running u) u") (simp_all add: getBoostingStructureForPriority_def boost_set_I)
  have u: "safe (bindE (unboost_running s) (\<lambda>s. bindE (getBoostingStructureForPriority s) (\<lambda>low.
         Inr (boost_set_update low (remove1 (running s)) s)))) I"
    by (rule safe_bindI [OF unboost_I [OF i]]) (rule g)
  have n: "safe (bindE (getBoostingStructureForPriority (s\<lparr>numBoosts := b\<rparr>)) (\<lambda>low.
            Inr (boost_set_update low (List.insert (running s)) (s\<lparr>numBoosts := b\<rparr>)))) I" for b
    using g [OF boosts(1) [OF i]] .
  have d: "I s" if "deref (running s) s = Inr t" for t using i .
  show ?thesis
    unfolding check_and_update_boost_structures_def
    using g [OF i] u n i
    by (cases "deref (running s) s"; cases "isHigherPriorityThreadPresent s") (auto simp: Let_def)
qed

section \<open>Switches\<close>

lemma switch_W: "I s \<Longrightarrow> k \<in> K \<Longrightarrow> safe (switchToThread nxt k s) W"
  by (auto simp: switchToThread_def modify_def deref_def increaseQuantum_def int_inc_def Let_def safe_bind
      intro!: switch split: option.splits)

lemma switchThreads_W: "I s \<Longrightarrow> k \<in> K \<Longrightarrow> safe (switchThreads k s) W"
  unfolding switchThreads_def
  by (rule safe_bind_pairI [OF popReady_I]) (auto intro: switch_W split: option.splits)

lemma switched_W: "safe m W \<Longrightarrow> safe (switched m) (ended W U)"
  by (cases m) (simp_all add: switched_def ended_def)

lemma return_U: "I s \<Longrightarrow> r \<noteq> Switched \<Longrightarrow> safe (return_to_user r s) (ended W U)"
  by (cases "interrupts_enabled s") (auto simp: return_to_user_def ut_enableInterrupts_def ended_def intro: leave)

lemma disable_I: "U s \<Longrightarrow> safe (ut_disableInterrupts s) I"
  by (cases "interrupts_enabled s") (auto simp: ut_disableInterrupts_def intro: enter)

lemmas ends = switched_W switchThreads_W switch_W return_U

section \<open>Calls\<close>

lemma ended_ret: "U s \<Longrightarrow> ended W U (Ret n, s)"
  by (simp add: ended_def)

lemma create_kept: "U s \<Longrightarrow> safe (uthread_create s) (ended W U)"
  unfolding uthread_create_def
  by (auto simp: Let_def intro!: ended_ret safe_bindI [OF disable_I] safe_bindI [OF addToReady_I] return_U fresh)

lemma join_kept: "U s \<Longrightarrow> safe (uthread_join i s) (ended W U)"
proof -
  assume u: "U s"
  have j: "safe (bindE (deref (running v) v) (\<lambda>t. bindE (threads_at (tcb_tid t) v) (\<lambda>a.
         switched (switchThreads (AfterJoin i) (v\<lparr>join_queue := join_queue v @ [(a, i)]\<rparr>))))) (ended W U)" if "I v" for v
    using that
    by (cases "deref (running v) v"; cases "threads_at (tcb_tid (the (heap v (running v)))) v")
       (auto simp: safe_bind deref_def split: option.splits intro!: ends queues saved safe_mono [of "threads_at x v" for x])
  show ?thesis
    unfolding uthread_join_def
    by (rule safe_bindI [OF disable_I [OF u]], rule safe_bind_pairI [OF removeFromFinished_I])
       (auto intro: j return_U split: option.splits)
qed

lemma yield_kept: "U s \<Longrightarrow> safe (uthread_yield s) (ended W U)"
  unfolding uthread_yield_def
  by (intro safe_bindI [OF disable_I] safe_bindI [OF check_boost_I] safe_bindI [OF boost_all_I]
      safe_bindI [OF modify_I] safe_bindI [OF addToReady_I] ends) (use saved in auto)

lemma exit_kept: "U s \<Longrightarrow> safe (uthread_exit v s) (ended W U)"
proof -
  assume u: "U s"
  have j: "safe (bindE (threads_at i v) (\<lambda>a. switched (switchThreads AfterExit (v\<lparr>finished_queue := fq a\<rparr>)))) (ended W U)" if "I v" for v i fq
    using that saved by (cases "threads_at i v") (auto intro!: ends queues)
  show ?thesis
    unfolding uthread_exit_def
    by (cases "deref (running s) s")
       (auto intro!: safe_bindI [OF disable_I [OF u]] safe_bindI [OF moveFromJoinToReady_I] j)
qed

lemma suspend_kept: "U s \<Longrightarrow> safe (uthread_suspend i s) (ended W U)"
proof -
  assume u: "U s"
  have self: "safe (bindE (modify (running v) (setState BLOCK) v) (\<lambda>s.
            switched (switchThreads AfterSuspend (s\<lparr>blocked := blocked s @ [running s]\<rparr>)))) (ended W U)" if "I v" for v
    by (rule safe_bindI [OF modify_I [OF that]]) (use saved in \<open>auto intro!: ends queues\<close>)
  have other: "safe (bindE (removeFromReady j v) (\<lambda>(in_ready, s).
            if \<not> in_ready then return_to_user (Ret FAIL) s
            else bindE (modify a (setState BLOCK) s) (\<lambda>s.
                 return_to_user (Ret SUCCESS) (s\<lparr>blocked := blocked s @ [a]\<rparr>)))) (ended W U)" if "I v" for v j a
    by (rule safe_bind_pairI [OF removeFromReady_I [OF that]])
       (auto intro!: return_U queues safe_bindI [OF modify_I])
  have other': "safe (bindE (deref a v) (\<lambda>ta. bindE (removeFromReady (tcb_tid ta) v) (\<lambda>(in_ready, s).
            if \<not> in_ready then return_to_user (Ret FAIL) s
            else bindE (modify a (setState BLOCK) s) (\<lambda>s.
                 return_to_user (Ret SUCCESS) (s\<lparr>blocked := blocked s @ [a]\<rparr>))))) (ended W U)" if "I v" for v a
    using other [OF that] by (cases "deref a v") auto
  have both: "safe (bindE (deref (running v) v) (f v)) (ended W U)"
    if "\<And>t. safe (f v t) (ended W U)" for v :: uthreads and f
    using that by (cases "deref (running v) v") auto
  show ?thesis
    using u unfolding uthread_suspend_def
    by (auto simp del: setState_def intro!: ended_ret safe_bindI [OF disable_I] both self other' split: option.splits)
qed

lemma resume_thread_kept: "U s \<Longrightarrow> safe (uthread_resume i s) (ended W U)"
  unfolding uthread_resume_def
  by (auto split: option.splits intro!: ended_ret safe_bindI [OF disable_I] safe_bindI [OF modify_I]
      safe_bindI [OF addToReady_I] safe_bindI [OF removeFromBlock_I] return_U)

lemma quantums_kept: "U s \<Longrightarrow> safe (uthread_get_quantums i s) (ended W U)"
proof -
  assume u: "U s"
  have r: "safe (bindE m (\<lambda>v. return_to_user (Ret v) w)) (ended W U)" if "I w" for w m
    using that by (cases m) (auto intro: return_U)
  show ?thesis
    unfolding uthread_get_quantums_def by (rule safe_bindI [OF disable_I [OF u]]) (rule r)
qed

lemma priorities_kept:
  assumes "U s"
  shows "safe (uthread_increase_priority i s) (ended W U)" "safe (uthread_decrease_priority i s) (ended W U)"
  unfolding uthread_increase_priority_def uthread_decrease_priority_def
  using assms
  by (auto split: option.splits intro!: ended_ret safe_bindI [OF disable_I] safe_bindI [OF priority_I(1)]
      safe_bindI [OF priority_I(2)] return_U)

lemmas calls_kept = create_kept join_kept yield_kept exit_kept suspend_kept resume_thread_kept quantums_kept priorities_kept

text \<open>Going on after a switch, outside locks and condition variables.\<close>

lemma after_join_kept: "W s \<Longrightarrow> safe (after_join i s) (ended W U)"
  unfolding after_join_def
  by (rule safe_bind_pairI [OF removeFromFinished_I [OF rejoin]]) (auto intro: return_U split: option.splits)

lemma after_lock_kept: "W s \<Longrightarrow> safe (after_lock s) (ended W U)"
  unfolding after_lock_def
  by (intro safe_bindI [OF modify_I] return_U) (auto intro: rejoin)

end

section \<open>Locks and condition variables\<close>

locale whole_library = library +
  assumes objects: "I s \<Longrightarrow> I (s\<lparr>locks := ls\<rparr>)" "I s \<Longrightarrow> I (s\<lparr>condvars := cs\<rparr>)"
    and all_saved: "k \<noteq> User \<Longrightarrow> k \<in> K"
begin

lemma set_lock_I: "I s \<Longrightarrow> I (set_lock l lk s)"
  by (simp add: set_lock_def objects)

lemma set_cv_I: "I s \<Longrightarrow> I (set_cv c cv s)"
  by (simp add: set_cv_def objects)

lemma with_vec: "(\<And>x. safe (f x) Q) \<Longrightarrow> safe (bindE (vec_at xs i) f) Q"
  by (cases "vec_at xs i") simp_all

lemma lock_kept: "U s \<Longrightarrow> safe (lock_lock l s) (ended W U)"
  unfolding lock_lock_def
  by (auto simp del: setState_def intro!: safe_bindI [OF disable_I] with_vec safe_bindI [OF modify_I] set_lock_I
      ends all_saved)

lemma handed_not: "I s \<Longrightarrow> handed W I (False, s)"
  by (simp add: handed_def)

lemma unlock_internal_kept:
  assumes "I s" "k \<noteq> User"
  shows "safe (lock_unlock_internal l k s) (handed W I)"
proof -
  have sw: "safe (bindE (switchToThread nxt k v) (\<lambda>s. Inr (True, s))) (handed W I)" if "I v" for v nxt
    by (rule safe_bindI [OF switch_W [OF that all_saved [OF assms(2)]]]) (simp add: handed_def)
  have "I (set_lock l lk s)" for lk by (rule set_lock_I [OF assms(1)])
  then show ?thesis
    unfolding lock_unlock_internal_def
    by (intro with_vec)
       (auto simp del: setState_def split: option.splits list.splits
        intro!: safe_bindI [OF modify_I] safe_bindI [OF addToReady_I] sw handed_not)
qed

lemma after_unlock:
  assumes "I s" "k \<noteq> User" "\<And>v. I v \<Longrightarrow> safe (f v) (ended W U)"
  shows "safe (bindE (lock_unlock_internal l k s) (\<lambda>(sw, s). if sw then Inr (Switched, s) else f s)) (ended W U)"
proof (rule safe_bindI [OF unlock_internal_kept [OF assms(1,2)]])
  fix x assume x: "handed W I x"
  show "safe (case x of (sw, s) \<Rightarrow> if sw then Inr (Switched, s) else f s) (ended W U)"
    using x assms(3) by (cases x) (auto simp: handed_def ended_def [of W U] split: if_splits)
qed

lemma unlock_kept: "U s \<Longrightarrow> safe (lock_unlock l s) (ended W U)"
  unfolding lock_unlock_def
  by (intro safe_bindI [OF disable_I] safe_bindI [OF modify_I] after_unlock return_U) auto

lemma wait_kept: "U s \<Longrightarrow> safe (cv_wait c l s) (ended W U)"
  unfolding cv_wait_def
  by (intro safe_bindI [OF disable_I] with_vec safe_bindI [OF modify_I] after_unlock set_cv_I ends all_saved) auto

lemma signal_kept: "U s \<Longrightarrow> safe (cv_signal c s) (ended W U)"
  unfolding cv_signal_def
  by (auto simp del: setState_def split: list.splits intro!: safe_bindI [OF disable_I] with_vec
      safe_bindI [OF modify_I] set_cv_I ends all_saved)

lemma broadcast_kept: "U s \<Longrightarrow> safe (cv_broadcast c s) (ended W U)"
  unfolding cv_broadcast_def
  by (auto simp del: setState_def split: list.splits intro!: safe_bindI [OF disable_I] with_vec
      safe_bindI [OF modify_I] set_cv_I ends all_saved)

lemma after_wait_kept: "W s \<Longrightarrow> safe (after_wait c l s) (ended W U)"
  unfolding after_wait_def lock_signal_def
  by (auto simp del: setState_def simp: bindE_assoc split: list.splits intro!: with_vec
      safe_bindI [OF modify_I] set_cv_I set_lock_I return_U intro: rejoin)

lemma exec_kept: "U s \<Longrightarrow> safe (exec c s) (ended W U)"
  by (cases c) (simp_all add: calls_kept lock_kept unlock_kept wait_kept signal_kept broadcast_kept)

lemma resume_kept:
  assumes "W s" "conts s (running s) \<noteq> User"
  shows "safe (resume s) (ended W U)"
  using assms rejoin [OF assms(1)]
  by (cases "conts s (running s)")
     (auto simp: resume_def intro!: return_U after_join_kept after_lock_kept after_wait_kept ends all_saved)

end

end
