(* ===== verification/UtExclusion.thy ===== *)
theory UtExclusion
  imports UtBehaviour UtLibrary
begin

text \<open>
  What a program can rely on when it uses locks and condition variables properly.
  A thread holds a lock from the moment \<open>lock\<close> returns until it calls \<open>unlock\<close>; a thread that
  waits or signals holds its lock too, but is outside until it goes on.
\<close>

section \<open>Interrupts\<close>

text \<open>Every state that calls and switches lead to from the start.\<close>

inductive ut_reachable :: "nat \<Rightarrow> nat \<Rightarrow> uthreads \<Rightarrow> bool" for nl nc where
  start: "ut_reachable nl nc (ut_start nl nc)"
| step: "ut_reachable nl nc s \<Longrightarrow> ut_step c s = Inr (r, u) \<Longrightarrow> ut_reachable nl nc u"

definition others_stopped :: "uthreads \<Rightarrow> bool" where
  "others_stopped s \<longleftrightarrow> (\<forall>a. a \<noteq> running s \<longrightarrow> heap s a \<noteq> None \<longrightarrow> conts s a \<noteq> User)"

definition in_user :: "uthreads \<Rightarrow> bool" where
  "in_user s \<longleftrightarrow> others_stopped s \<and> interrupts_enabled s \<and> conts s (running s) = User"

definition in_library :: "uthreads \<Rightarrow> bool" where
  "in_library s \<longleftrightarrow> others_stopped s \<and> \<not> interrupts_enabled s"

definition just_switched :: "uthreads \<Rightarrow> bool" where
  "just_switched s \<longleftrightarrow> in_library s \<and> conts s (running s) \<noteq> User"

interpretation signals: whole_library in_user in_library just_switched "- {User}"
proof unfold_locales
  fix s :: uthreads and k nxt t t' n
  assume "in_library s" "k \<in> - {User}" "heap s nxt = Some t"
  then show "just_switched (s\<lparr>conts := (conts s)(running s := k), running := nxt, heap := (heap s)(nxt := Some t'), quantum_counter := n\<rparr>)"
    by (auto simp: just_switched_def in_library_def others_stopped_def)
qed (auto simp: in_user_def in_library_def others_stopped_def just_switched_def split: if_splits)

lemma step_discipline:
  assumes "if conts s (running s) = User then in_user s else just_switched s" "ut_step c s = Inr (r, u)"
  shows "if conts u (running u) = User then in_user u else just_switched u"
proof -
  have "safe (ut_step c s) (ended just_switched in_user)"
    using assms(1) by (auto simp: ut_step_def intro: signals.exec_kept signals.resume_kept split: if_splits)
  then show ?thesis
    using assms(2) by (auto simp: ended_def in_user_def just_switched_def split: if_splits)
qed

lemma reachable_discipline:
  "ut_reachable nl nc s \<Longrightarrow> if conts s (running s) = User then in_user s else just_switched s"
proof (induction rule: ut_reachable.induct)
  case start
  then show ?case by (auto simp: ut_start_def init_state_def in_user_def others_stopped_def)
next
  case (step s c r u)
  then show ?case by (blast intro: step_discipline)
qed

section \<open>Properly used locks\<close>

text \<open>
  \<open>H\<close> has the pairs of a thread and a lock it holds.  \<open>L c\<close> is the lock that condition
  variable \<open>c\<close> goes with.
\<close>

definition holds_after :: "call \<Rightarrow> uthreads \<Rightarrow> ret \<Rightarrow> (addr \<times> nat) set \<Rightarrow> (addr \<times> nat) set" where
  "holds_after c s r H =
     (if conts s (running s) = User then
        (case c of
           LockCall l \<Rightarrow> if r = Switched then H else insert (running s, l) H
         | UnlockCall l \<Rightarrow> H - {(running s, l)}
         | _ \<Rightarrow> H)
      else (case conts s (running s) of AfterLock l \<Rightarrow> insert (running s, l) H | _ \<Rightarrow> H))"

fun proper :: "(nat \<Rightarrow> nat) \<Rightarrow> call \<Rightarrow> uthreads \<Rightarrow> (addr \<times> nat) set \<Rightarrow> bool" where
  "proper L (UnlockCall l) s H \<longleftrightarrow> (running s, l) \<in> H"
| "proper L (Wait c l) s H \<longleftrightarrow> l = L c \<and> (running s, l) \<in> H \<and> no_handover l s"
| "proper L (Signal c) s H \<longleftrightarrow> (running s, L c) \<in> H \<and> no_handover (L c) s"
| "proper L (Broadcast c) s H \<longleftrightarrow> (running s, L c) \<in> H \<and> no_handover (L c) s"
| "proper L _ s H \<longleftrightarrow> True"

inductive proper_run :: "(nat \<Rightarrow> nat) \<Rightarrow> uthreads \<Rightarrow> (addr \<times> nat) set \<Rightarrow> bool" for L where
  start: "proper_run L (ut_start nl nc) {}"
| step: "proper_run L s H \<Longrightarrow> (conts s (running s) = User \<longrightarrow> proper L c s H) \<Longrightarrow>
    ut_step c s = Inr (r, u) \<Longrightarrow> proper_run L u (holds_after c s r H)"

text \<open>What matters about locks and condition variables.\<close>

definition slot :: "uthreads \<Rightarrow> nat \<Rightarrow> addr option" where
  "slot s l = (if l < length (locks s) then nextThreadToWakeUp (locks s ! l) else None)"

definition waiting_for :: "uthreads \<Rightarrow> nat \<Rightarrow> addr set" where
  "waiting_for s l = (if l < length (locks s) then set (waiting_queue (locks s ! l)) else {})"

definition taken :: "uthreads \<Rightarrow> nat \<Rightarrow> bool" where
  "taken s l \<longleftrightarrow> l < length (locks s) \<and> lock_value (locks s ! l) = 1"

definition parked :: "uthreads \<Rightarrow> nat \<Rightarrow> addr set" where
  "parked s c = (if c < length (condvars s) then set (cv_places (condvars s ! c)) else {})"

definition mon :: "(nat \<Rightarrow> nat) \<Rightarrow> (nat \<Rightarrow> addr option) \<Rightarrow> (nat \<Rightarrow> addr set) \<Rightarrow> nat \<Rightarrow> addr \<Rightarrow> bool" where
  "mon L sl pk l a \<longleftrightarrow> sl l = Some a \<or> (\<exists>c. L c = l \<and> a \<in> pk c)"

text \<open>The threads that wait or signal on a condition variable of the lock: they are outside.\<close>

definition monitor :: "(nat \<Rightarrow> nat) \<Rightarrow> uthreads \<Rightarrow> nat \<Rightarrow> addr set" where
  "monitor L s l = {a. mon L (slot s) (parked s) l a}"

definition excl :: "(nat \<Rightarrow> nat) \<Rightarrow> (nat \<Rightarrow> addr option) \<Rightarrow> (addr \<times> nat) set \<Rightarrow> addr \<Rightarrow> (addr \<Rightarrow> cont) \<Rightarrow>
    (nat \<Rightarrow> addr option) \<Rightarrow> (nat \<Rightarrow> addr set) \<Rightarrow> (nat \<Rightarrow> addr set) \<Rightarrow> (nat \<Rightarrow> bool) \<Rightarrow> bool" where
  "excl L own H r k sl pk wq tk \<longleftrightarrow>
     (\<forall>l a. own l = Some a \<longrightarrow> tk l) \<and>
     (\<forall>a l. k a = AfterLock l \<longrightarrow> own l = Some a \<or> a \<in> wq l) \<and>
     (\<forall>a l. (a, l) \<in> H \<longrightarrow> own l = Some a \<or> mon L sl pk l a) \<and>
     (\<forall>a l. mon L sl pk l a \<longrightarrow> (a, l) \<in> H \<and> (\<forall>c l'. k a = AfterWait c l' \<longrightarrow> l' = l)) \<and>
     (\<forall>a c l. k a = AfterWait c l \<longrightarrow> L c = l \<and> (if a = r then sl l = None else mon L sl pk l a)) \<and>
     (\<forall>a c l. k a \<noteq> AfterWaitUnlock c l)"

abbreviation excl_inv :: "(nat \<Rightarrow> nat) \<Rightarrow> (nat \<Rightarrow> addr option) \<Rightarrow> (addr \<times> nat) set \<Rightarrow> uthreads \<Rightarrow> bool" where
  "excl_inv L own H s \<equiv> excl L own H (running s) (conts s) (slot s) (parked s) (waiting_for s) (taken s)"

lemma exclD:
  assumes "excl L own H r k sl pk wq tk"
  shows "own l = Some a \<Longrightarrow> tk l" "k a = AfterLock l \<Longrightarrow> own l \<noteq> Some a \<Longrightarrow> a \<in> wq l"
    "(a, l) \<in> H \<Longrightarrow> own l \<noteq> Some a \<Longrightarrow> mon L sl pk l a" "mon L sl pk l a \<Longrightarrow> (a, l) \<in> H"
    "mon L sl pk l a \<Longrightarrow> k a = AfterWait c l' \<Longrightarrow> l' = l" "k a = AfterWait c l \<Longrightarrow> L c = l"
    "k a = AfterWait c l \<Longrightarrow> a \<noteq> r \<Longrightarrow> mon L sl pk l a" "k r = AfterWait c l \<Longrightarrow> sl l = None"
    "k a \<noteq> AfterWaitUnlock c l"
  using assms unfolding excl_def by (blast | metis)+

lemma exclI:
  assumes "\<And>l a. own l = Some a \<Longrightarrow> tk l" "\<And>a l. k a = AfterLock l \<Longrightarrow> own l \<noteq> Some a \<Longrightarrow> a \<in> wq l"
    "\<And>a l. (a, l) \<in> H \<Longrightarrow> own l \<noteq> Some a \<Longrightarrow> mon L sl pk l a" "\<And>a l. mon L sl pk l a \<Longrightarrow> (a, l) \<in> H"
    "\<And>a l c l'. mon L sl pk l a \<Longrightarrow> k a = AfterWait c l' \<Longrightarrow> l' = l" "\<And>a c l. k a = AfterWait c l \<Longrightarrow> L c = l"
    "\<And>a c l. k a = AfterWait c l \<Longrightarrow> a \<noteq> r \<Longrightarrow> mon L sl pk l a" "\<And>c l. k r = AfterWait c l \<Longrightarrow> sl l = None"
    "\<And>a c l. k a \<noteq> AfterWaitUnlock c l"
  shows "excl L own H r k sl pk wq tk"
  unfolding excl_def using assms by (simp, blast)

text \<open>The running thread is in no queue.\<close>

lemma running_apart:
  assumes "ut_inv s"
  shows "running s \<notin> waiting_for s l" "\<not> mon L (slot s) (parked s) l (running s)"
proof -
  have p: "placed [running s] s" using assms by (simp add: ut_inv_def)
  have n: "running s \<notin># queued s" using inv_members(3) [OF p, of "running s"] by simp
  have l: "set (lock_places (locks s ! l)) \<subseteq> set_mset (queued s)" if "l < length (locks s)" for l
    using that nth_mem [OF that] by (auto simp: queued_def)
  have c: "set (cv_places (condvars s ! c)) \<subseteq> set_mset (queued s)" if "c < length (condvars s)" for c
    using that nth_mem [OF that] by (auto simp: queued_def)
  show "running s \<notin> waiting_for s l"
    using n l [of l] by (auto simp: waiting_for_def lock_places_def)
  show "\<not> mon L (slot s) (parked s) l (running s)"
    using n l [of l] c by (auto simp: mon_def slot_def parked_def lock_places_def split: if_splits)
qed

section \<open>What the calls do to locks and contexts\<close>

text \<open>Calls that touch neither locks nor condition variables only save harmless contexts.\<close>

definition harmless :: "cont set" where
  "harmless = {k. (\<forall>l. k \<noteq> AfterLock l) \<and> (\<forall>c l. k \<noteq> AfterWait c l) \<and> (\<forall>c l. k \<noteq> AfterWaitUnlock c l)}"

definition calm :: "uthreads \<Rightarrow> uthreads \<Rightarrow> bool" where
  "calm s u \<longleftrightarrow> locks u = locks s \<and> condvars u = condvars s \<and> (\<forall>a. conts u a = conts s a \<or> conts u a \<in> harmless)"

interpretation calmly: library "calm s" "calm s" "calm s" harmless
  by unfold_locales (auto simp: calm_def harmless_def)

lemma calm_refl [simp]: "calm s s"
  by (simp add: calm_def)

text \<open>The same, with contexts and the running thread unchanged.\<close>

definition still :: "uthreads \<Rightarrow> uthreads \<Rightarrow> bool" where
  "still s u \<longleftrightarrow> locks u = locks s \<and> condvars u = condvars s \<and> conts u = conts s \<and> running u = running s"

lemma still_modify: "modify a f s = Inr u \<Longrightarrow> still s u"
  by (auto simp: still_def modify_def bindE_eq_Inr)

lemma still_addToReady: "addToReady a s = Inr u \<Longrightarrow> still s u"
  by (auto simp: still_def addToReady_def bindE_eq_Inr)

lemma still_disable: "ut_disableInterrupts s = Inr u \<Longrightarrow> still s u"
  by (auto simp: still_def ut_disableInterrupts_def bindE_eq_Inr)

lemma still_popReady: "popReady s = Inr (b, u) \<Longrightarrow> still s u"
proof -
  have "safe (popReady s) (\<lambda>(b, u). still s u)"
    by (cases "ready s RED"; cases "ready s ORANGE"; cases "ready s GREEN")
       (simp_all add: popReady_def getReady_def still_def)
  then show "popReady s = Inr (b, u) \<Longrightarrow> still s u" by simp
qed

lemmas still_steps = still_modify still_addToReady still_disable still_popReady

lemma switch_effect:
  assumes "switchToThread nxt k s = Inr u"
  shows "locks u = locks s" "condvars u = condvars s" "conts u = (conts s)(running s := k)" "running u = nxt"
proof -
  have "safe (switchToThread nxt k s) (\<lambda>u. locks u = locks s \<and> condvars u = condvars s \<and>
      conts u = (conts s)(running s := k) \<and> running u = nxt)"
    by (auto simp: switchToThread_def modify_def deref_def increaseQuantum_def int_inc_def Let_def safe_bind split: option.splits)
  then show "locks u = locks s" "condvars u = condvars s" "conts u = (conts s)(running s := k)" "running u = nxt"
    using assms by simp_all
qed

lemma switchThreads_effect:
  assumes "switchThreads k s = Inr u"
  shows "locks u = locks s" "condvars u = condvars s" "conts u = (conts s)(running s := k)"
proof -
  obtain a v where v: "popReady s = Inr (a, v)" "a \<noteq> None" "switchToThread (the a) k v = Inr u"
    using assms by (auto simp: switchThreads_def bindE_eq_Inr split: option.splits)
  show "locks u = locks s" "condvars u = condvars s" "conts u = (conts s)(running s := k)"
    using still_popReady [OF v(1)] switch_effect [OF v(3)] by (simp_all add: still_def)
qed

lemma return_effect:
  "return_to_user r s = Inr (r', u) \<Longrightarrow> r' = r \<and> locks u = locks s \<and> condvars u = condvars s \<and>
     conts u = (conts s)(running s := User) \<and> running u = running s"
  by (auto simp: return_to_user_def ut_enableInterrupts_def bindE_eq_Inr)

lemma vec_at_eq: "vec_at xs (int i) = Inr x \<longleftrightarrow> i < length xs \<and> xs ! i = x"
  by (auto simp: vec_at_def)

lemma lock_effect:
  assumes "lock_lock l s = Inr (r, u)"
  obtains "taken s l" "r = Switched" "condvars u = condvars s" "conts u = (conts s)(running s := AfterLock l)"
      "locks u = (locks s)[l := (locks s ! l)\<lparr>waiting_queue := waiting_queue (locks s ! l) @ [running s]\<rparr>]"
  | "\<not> taken s l" "l < length (locks s)" "r = RetVoid" "condvars u = condvars s" "conts u = (conts s)(running s := User)"
      "locks u = (locks s)[l := (locks s ! l)\<lparr>lock_value := 1\<rparr>]" "running u = running s"
proof -
  obtain v where d: "ut_disableInterrupts s = Inr v" using assms by (auto simp: lock_lock_def bindE_eq_Inr)
  note v = still_disable [OF d]
  have l: "l < length (locks s)"
    using assms d v by (auto simp: lock_lock_def bindE_eq_Inr vec_at_eq still_def)
  then have vl: "vec_at (locks v) (int l) = Inr (locks s ! l)" using v by (simp add: vec_at_eq still_def)
  have b: "(if lock_value (locks s ! l) = 1 then
       bindE (modify (running v) (setState BLOCK) (set_lock l ((locks s ! l)\<lparr>waiting_queue := waiting_queue (locks s ! l) @ [running v]\<rparr>) v)) (\<lambda>s.
       switched (switchThreads (AfterLock l) s))
     else
       bindE (modify (running v) increaseLockCount (set_lock l ((locks s ! l)\<lparr>lock_value := 1\<rparr>) v)) (\<lambda>s.
       return_to_user RetVoid s)) = Inr (r, u)"
    using assms d vl by (simp add: lock_lock_def del: setState_def)
  show thesis
  proof (cases "lock_value (locks s ! l) = 1")
    case True
    then obtain w where w: "still (set_lock l ((locks s ! l)\<lparr>waiting_queue := waiting_queue (locks s ! l) @ [running v]\<rparr>) v) w"
        and u: "switchThreads (AfterLock l) w = Inr u" "r = Switched"
      using b by (auto simp: bindE_eq_Inr switched_def simp del: setState_def dest!: still_modify)
    show ?thesis
      by (rule that(1)) (use v w l u True switchThreads_effect [OF u(1)] in \<open>simp_all add: still_def set_lock_def taken_def\<close>)
  next
    case False
    then obtain w where w: "still (set_lock l ((locks s ! l)\<lparr>lock_value := 1\<rparr>) v) w" and u: "return_to_user RetVoid w = Inr (r, u)"
      using b by (auto simp: bindE_eq_Inr dest!: still_modify)
    show ?thesis
      by (rule that(2)) (use v w l False return_effect [OF u] in \<open>simp_all add: still_def set_lock_def taken_def\<close>)
  qed
qed

text \<open>Whom an unlock hands the lock to, and what it does.\<close>

definition heir :: "uthreads \<Rightarrow> nat \<Rightarrow> addr option" where
  "heir s l = (case slot s l of Some a \<Rightarrow> Some a
     | None \<Rightarrow> (case waiting_queue (locks s ! l) of w # q \<Rightarrow> Some w | [] \<Rightarrow> None))"

lemma unlock_internal_effect:
  assumes "lock_unlock_internal l k s = Inr (sw, u)"
  obtains a where "l < length (locks s)" "nextThreadToWakeUp (locks s ! l) = Some a" "sw" "condvars u = condvars s"
      "conts u = (conts s)(running s := k)" "running u = a"
      "locks u = (locks s)[l := (locks s ! l)\<lparr>nextThreadToWakeUp := None\<rparr>]"
  | w q where "l < length (locks s)" "nextThreadToWakeUp (locks s ! l) = None" "waiting_queue (locks s ! l) = w # q" "\<not> sw"
      "condvars u = condvars s" "conts u = conts s" "running u = running s"
      "locks u = (locks s)[l := (locks s ! l)\<lparr>waiting_queue := q\<rparr>]"
  | "l < length (locks s)" "nextThreadToWakeUp (locks s ! l) = None" "waiting_queue (locks s ! l) = []" "\<not> sw"
      "condvars u = condvars s" "conts u = conts s" "running u = running s"
      "locks u = (locks s)[l := (locks s ! l)\<lparr>lock_value := 0\<rparr>]"
proof -
  have l: "l < length (locks s)" using assms by (auto simp: lock_unlock_internal_def bindE_eq_Inr vec_at_eq)
  have v: "vec_at (locks s) (int l) = Inr (locks s ! l)" using l by (simp add: vec_at_eq)
  show thesis
  proof (cases "nextThreadToWakeUp (locks s ! l)")
    case (Some a)
    then obtain x y where x: "still (set_lock l ((locks s ! l)\<lparr>nextThreadToWakeUp := None\<rparr>) s) x" "still x y"
        and u: "switchToThread a k y = Inr u" "sw"
      using assms by (auto simp: lock_unlock_internal_def v bindE_eq_Inr simp del: setState_def dest!: still_modify still_addToReady)
    show ?thesis
      by (rule that(1) [OF l Some]) (use x u switch_effect [OF u(1)] in \<open>simp_all add: still_def set_lock_def\<close>)
  next
    case None
    show ?thesis
    proof (cases "waiting_queue (locks s ! l)")
      case Nil
      show ?thesis
        by (rule that(3) [OF l None Nil]) (use assms None Nil in \<open>auto simp: lock_unlock_internal_def v set_lock_def\<close>)
    next
      case (Cons w q)
      then obtain x where x: "still (set_lock l ((locks s ! l)\<lparr>waiting_queue := q\<rparr>) s) x" "still x u" "\<not> sw"
        using assms None
        by (auto simp: lock_unlock_internal_def v bindE_eq_Inr simp del: setState_def dest!: still_modify still_addToReady)
      show ?thesis
        by (rule that(2) [OF l None Cons]) (use x in \<open>simp_all add: still_def set_lock_def\<close>)
    qed
  qed
qed

section \<open>The exclusion invariant, step by step\<close>

lemma excl_calm:
  assumes e: "excl L own H r k sl pk wq tk" and k: "\<forall>a. k' a = k a \<or> k' a \<in> harmless" "\<forall>c l. k r \<noteq> AfterWait c l"
    and r': "\<forall>l. \<not> mon L sl pk l r'"
  shows "excl L own H r' k' sl pk wq tk"
proof -
  have l: "k' a = AfterLock l \<Longrightarrow> k a = AfterLock l" "k' a = AfterWait c l \<Longrightarrow> k a = AfterWait c l"
    "k' a \<noteq> AfterWaitUnlock c l" for a c l
    using spec [OF k(1), of a] exclD(9) [OF e, of a] by (auto simp: harmless_def)
  show ?thesis
    by (rule exclI) (use exclD [OF e] l k(2) r' in metis)+
qed

lemma excl_owner:
  assumes e: "excl L own H r k sl pk wq tk" and "(r, l) \<in> H" "\<forall>l. \<not> mon L sl pk l r"
  shows "own l = Some r"
  using exclD(3) [OF e assms(2)] assms(3) by blast

lemma excl_acquire:
  assumes e: "excl L own H r k sl pk wq tk" and a: "\<not> tk l" "k r = User"
  shows "excl L (own(l := Some r)) (insert (r, l) H) r (k(r := User)) sl pk wq (tk(l := True))"
proof -
  have o: "own l = None" using exclD(1) [OF e] a(1) by (cases "own l") auto
  note x = exclD [OF e]
  show ?thesis
  proof (rule exclI; (simp split: if_split_asm)?)
  qed (use o a in \<open>metis x option.distinct(1)\<close>)+
qed

lemma excl_block:
  assumes e: "excl L own H r k sl pk wq tk" and a: "k r = User" "\<forall>l. \<not> mon L sl pk l r'"  "\<forall>l. \<not> mon L sl pk l r"
  shows "excl L own H r' (k(r := AfterLock l)) sl pk (wq(l := insert r (wq l))) tk"
proof -
  note x = exclD [OF e]
  show ?thesis
  proof (rule exclI; (simp split: if_split_asm)?)
  qed (use a in \<open>metis x option.distinct(1)\<close>)+
qed

lemma excl_hand_back:
  assumes e: "excl L own H r k sl pk wq tk" and a: "k r = User" "\<forall>l. \<not> mon L sl pk l r" "(r, l) \<in> H" "sl l = Some b"
  shows "excl L (own(l := Some b)) (H - {(r, l)}) b (k(r := AfterUnlock)) (sl(l := None)) pk wq tk"
proof -
  note o = excl_owner [OF e a(3,2)]
  have m: "mon L (sl(l := None)) pk l' c \<Longrightarrow> mon L sl pk l' c" 
     "mon L sl pk l' c \<Longrightarrow> c = b \<and> l' = l \<or> mon L (sl(l := None)) pk l' c" for l' c
    using a(4) by (auto simp: mon_def split: if_splits)
  have ma: "mon L sl pk l b" using a(4) by (simp add: mon_def)
  note x = exclD [OF e]
  show ?thesis
  proof (rule exclI; (simp split: if_split_asm)?)
  qed (use a o m ma in \<open>metis x option.inject\<close>)+
qed

lemma excl_hand_on:
  assumes e: "excl L own H r k sl pk wq tk" and a: "k r = User" "\<forall>l. \<not> mon L sl pk l r" "(r, l) \<in> H" "wq l = insert w Q"
  shows "excl L (own(l := Some w)) (H - {(r, l)}) r (k(r := User)) sl pk (wq(l := Q)) tk"
proof -
  note o = excl_owner [OF e a(3,2)]
  note x = exclD [OF e]
  show ?thesis
  proof (rule exclI; (simp split: if_split_asm)?)
  qed (use a o in \<open>metis x option.inject insert_iff\<close>)+
qed

lemma excl_free:
  assumes e: "excl L own H r k sl pk wq tk" and a: "k r = User" "\<forall>l. \<not> mon L sl pk l r" "(r, l) \<in> H" "wq l = {}"
  shows "excl L (own(l := None)) (H - {(r, l)}) r (k(r := User)) sl pk wq (tk(l := False))"
proof -
  note o = excl_owner [OF e a(3,2)]
  note x = exclD [OF e]
  show ?thesis
  proof (rule exclI; (simp split: if_split_asm)?)
  qed (use a o in \<open>metis x option.inject empty_iff\<close>)+
qed

lemma excl_wait_on:
  assumes e: "excl L own H r k sl pk wq tk"
    and a: "k r = User" "\<forall>l. \<not> mon L sl pk l r" "(r, l) \<in> H" "wq l = insert w Q" "L c = l"
      "\<forall>l. \<not> mon L sl (pk(c := insert r (pk c))) l r'"
  shows "excl L (own(l := Some w)) H r' (k(r := AfterWait c l)) sl (pk(c := insert r (pk c))) (wq(l := Q)) tk"
proof -
  note o = excl_owner [OF e a(3,2)]
  note x = exclD [OF e]
  have m: "mon L sl (pk(c := insert r (pk c))) l' b \<longleftrightarrow> mon L sl pk l' b \<or> b = r \<and> l' = l" for l' b
    using a(5) by (auto simp: mon_def)
  show ?thesis
  proof (rule exclI; (simp add: m split: if_split_asm)?)
  qed (use a [unfolded m] o in \<open>metis x option.inject insert_iff cont.inject\<close>)+
qed

lemma excl_wait_free:
  assumes e: "excl L own H r k sl pk wq tk"
    and a: "k r = User" "\<forall>l. \<not> mon L sl pk l r" "(r, l) \<in> H" "wq l = {}" "L c = l"
      "\<forall>l. \<not> mon L sl (pk(c := insert r (pk c))) l r'"
  shows "excl L (own(l := None)) H r' (k(r := AfterWait c l)) sl (pk(c := insert r (pk c))) wq (tk(l := False))"
proof -
  note o = excl_owner [OF e a(3,2)]
  note x = exclD [OF e]
  have m: "mon L sl (pk(c := insert r (pk c))) l' b \<longleftrightarrow> mon L sl pk l' b \<or> b = r \<and> l' = l" for l' b
    using a(5) by (auto simp: mon_def)
  show ?thesis
  proof (rule exclI; (simp add: m split: if_split_asm)?)
  qed (use a [unfolded m] o in \<open>metis x option.inject empty_iff cont.inject\<close>)+
qed

lemma excl_signal:
  assumes e: "excl L own H r k sl pk wq tk"
    and a: "k r = User" "\<forall>l. \<not> mon L sl pk l r" "(r, l) \<in> H" "L c = l" "sl l = None" "insert w P = insert r (pk c)" "w \<in> pk c"
      "\<forall>l. \<not> mon L sl (pk(c := P)) l w"
  shows "excl L (own(l := Some w)) H w (k(r := AfterSignal)) sl (pk(c := P)) wq tk"
proof -
  note o = excl_owner [OF e a(3,2)]
  note x = exclD [OF e]
  have wr: "w \<noteq> r" using a(2,4,7) by (auto simp: mon_def)
  have P: "b \<in> P \<Longrightarrow> b = r \<or> b \<in> pk c" "b \<in> pk c \<Longrightarrow> b = w \<or> b \<in> P" for b using a(6) by blast+
  have m1: "mon L sl pk l' b \<or> b = r \<and> l' = l" if "mon L sl (pk(c := P)) l' b" for l' b
    using that a(4) P(1) by (auto simp: mon_def split: if_splits)
  have m2: "b = w \<and> l' = l \<or> mon L sl (pk(c := P)) l' b" if "mon L sl pk l' b" for l' b
    using that a(4) P(2) unfolding mon_def by (metis fun_upd_apply)
  have mr: "mon L sl (pk(c := P)) l r" using a(4,6) wr by (auto simp: mon_def)
  have mw: "mon L sl pk l w" using a(4,7) by (auto simp: mon_def)
  show ?thesis
  proof (rule exclI; (simp split: if_split_asm)?)
  qed (use a o m1 m2 mr mw wr in \<open>metis x option.inject\<close>)+
qed

lemma excl_after_wait:
  assumes e: "excl L own H r k sl pk wq tk" and a: "k r = AfterWait c l" "insert b P = pk c"
  shows "excl L own H r (k(r := User)) (sl(l := Some b)) (pk(c := P)) wq tk"
proof -
  note x = exclD [OF e]
  have l: "L c = l" "sl l = None" using x(6,8) a(1) by blast+
  have m: "mon L (sl(l := Some b)) (pk(c := P)) l' d \<longleftrightarrow> mon L sl pk l' d" for l' d
    using a(2) l by (auto simp: mon_def split: if_splits)
  show ?thesis
  proof (rule exclI; (simp add: m split: if_split_asm)?)
  qed (use a in \<open>metis x\<close>)+
qed

lemma excl_after_lock:
  assumes e: "excl L own H r k sl pk wq tk" and a: "k r = AfterLock l" "r \<notin> wq l"
  shows "excl L own (insert (r, l) H) r (k(r := User)) sl pk wq tk"
proof -
  note x = exclD [OF e]
  have o: "own l = Some r" using x(2) [OF a(1)] a(2) by blast
  show ?thesis
  proof (rule exclI; (simp split: if_split_asm)?)
  qed (use a o in \<open>metis x option.inject\<close>)+
qed

text \<open>A changed lock, seen through the functions of the invariant.\<close>

lemma lock_changed:
  assumes "l < length (locks s)" "locks u = (locks s)[l := lk]"
  shows "slot u = (slot s)(l := nextThreadToWakeUp lk)" "waiting_for u = (waiting_for s)(l := set (waiting_queue lk))"
    "taken u = (taken s)(l := lock_value lk = 1)"
  using assms by (auto simp: fun_eq_iff slot_def waiting_for_def taken_def nth_list_update)

lemma lock_same:
  "locks u = locks s \<Longrightarrow> slot u = slot s" "locks u = locks s \<Longrightarrow> waiting_for u = waiting_for s"
  "locks u = locks s \<Longrightarrow> taken u = taken s" "condvars u = condvars s \<Longrightarrow> parked u = parked s"
  by (auto simp: fun_eq_iff slot_def waiting_for_def taken_def parked_def)

lemma lock_here:
  "l < length (locks s) \<Longrightarrow> slot s l = nextThreadToWakeUp (locks s ! l)"
  "l < length (locks s) \<Longrightarrow> waiting_for s l = set (waiting_queue (locks s ! l))"
  "l < length (locks s) \<Longrightarrow> taken s l \<longleftrightarrow> lock_value (locks s ! l) = 1"
  by (simp_all add: slot_def waiting_for_def taken_def)

lemma fun_upd_same: "f x = v \<Longrightarrow> f(x := v) = f"
  by auto

lemma cv_changed:
  "c < length (condvars s) \<Longrightarrow> condvars u = (condvars s)[c := cv] \<Longrightarrow> parked u = (parked s)(c := set (cv_places cv))"
  by (auto simp: fun_eq_iff parked_def nth_list_update)

lemma calm_step:
  assumes e: "excl_inv L own H s" and u: "ut_inv u" "calm s u" and k: "\<forall>c l. conts s (running s) \<noteq> AfterWait c l"
  shows "excl_inv L own H u"
proof -
  have c: "locks u = locks s" "condvars u = condvars s" "\<forall>a. conts u a = conts s a \<or> conts u a \<in> harmless"
    using u(2) by (simp_all add: calm_def)
  note f = lock_same(1-3) [OF c(1)] lock_same(4) [OF c(2)]
  show ?thesis
    using excl_calm [OF e c(3) k, of "running u"] running_apart(2) [OF u(1), of L] by (simp add: f)
qed

lemma lock_step:
  assumes e: "excl_inv L own H s" and i: "ut_inv s" "ut_inv u" and k: "conts s (running s) = User"
    and r: "lock_lock l s = Inr (r, u)"
  shows "\<exists>own'. excl_inv L own' (if r = Switched then H else insert (running s, l) H) u"
  using r
proof (cases rule: lock_effect)
  case 1
  have l: "l < length (locks s)" using 1(1) by (simp add: taken_def)
  note f = lock_changed [OF l 1(5)] lock_same(4) [OF 1(3)]
  have "excl L own H (running u) (conts u) (slot u) (parked u) (waiting_for u) (taken u)"
    using excl_block [OF e k, of "running u" l] running_apart(2) [OF i(2), of L] running_apart(2) [OF i(1), of L] 1(1,4) lock_here [OF l]
    by (simp add: f fun_upd_same)
  then show ?thesis using 1(2) by auto
next
  case 2
  note f = lock_changed [OF 2(2,6)] lock_same(4) [OF 2(4)]
  have "excl L (own(l := Some (running s))) (insert (running s, l) H) (running u) (conts u) (slot u) (parked u) (waiting_for u) (taken u)"
    using excl_acquire [OF e 2(1) k] 2(5,7) lock_here [OF 2(2)]
    by (simp add: f fun_upd_same)
  then show ?thesis using 2(3) by auto
qed

lemma unlock_step:
  assumes e: "excl_inv L own H s" and i: "ut_inv s" "ut_inv u" and k: "conts s (running s) = User"
    and r: "lock_unlock l s = Inr (r, u)" and h: "(running s, l) \<in> H"
  shows "\<exists>own'. excl_inv L own' (H - {(running s, l)}) u"
proof -
  note ra = running_apart(2) [OF i(1), of L]
  obtain v w sw x where v: "still s v" "still v w" "lock_unlock_internal l AfterUnlock w = Inr (sw, x)"
      "(if sw then Inr (Switched, x) else return_to_user RetVoid x) = Inr (r, u)"
    using r by (auto simp: lock_unlock_def bindE_eq_Inr dest!: still_disable still_modify)
  have sw: "still s w" using v(1,2) by (simp add: still_def)
  from v(3) show ?thesis
  proof (cases rule: unlock_internal_effect)
    case (1 a)
    have u: "u = x" using v(4) 1(3) by simp
    have l: "l < length (locks s)" and lu: "locks u = (locks s)[l := (locks s ! l)\<lparr>nextThreadToWakeUp := None\<rparr>]"
      and cu: "condvars u = condvars s" "conts u = (conts s)(running s := AfterUnlock)" "running u = a"
      using 1 sw u by (simp_all add: still_def)
    note f = lock_changed [OF l lu] lock_same(4) [OF cu(1)]
    have "slot s l = Some a" using 1(2) sw l by (simp add: still_def slot_def)
    then show ?thesis
      using excl_hand_back [OF e k _ h, of a] ra cu lock_here [OF l] by (auto simp: f fun_upd_same)
  next
    case (2 b q)
    have u: "return_to_user RetVoid x = Inr (r, u)" using v(4) 2(4) by simp
    have l: "l < length (locks s)" and lu: "locks u = (locks s)[l := (locks s ! l)\<lparr>waiting_queue := q\<rparr>]"
      and cu: "condvars u = condvars s" "conts u = (conts s)(running s := User)" "running u = running s"
      using 2 sw return_effect [OF u] by (simp_all add: still_def)
    note f = lock_changed [OF l lu] lock_same(4) [OF cu(1)]
    have "waiting_for s l = insert b (set q)" using 2(3) sw l by (simp add: still_def waiting_for_def)
    then show ?thesis
      using excl_hand_on [OF e k _ h, of b "set q"] ra cu lock_here [OF l] by (auto simp: f fun_upd_same)
  next
    case 3
    have u: "return_to_user RetVoid x = Inr (r, u)" using v(4) 3(4) by simp
    have l: "l < length (locks s)" and lu: "locks u = (locks s)[l := (locks s ! l)\<lparr>lock_value := 0\<rparr>]"
      and cu: "condvars u = condvars s" "conts u = (conts s)(running s := User)" "running u = running s"
      using 3 sw return_effect [OF u] by (simp_all add: still_def)
    note f = lock_changed [OF l lu] lock_same(4) [OF cu(1)]
    have "waiting_for s l = {}" using 3(3) sw l by (simp add: still_def waiting_for_def)
    then show ?thesis
      using excl_free [OF e k _ h] ra cu lock_here [OF l] by (auto simp: f fun_upd_same)
  qed
qed

lemma wait_step:
  assumes e: "excl_inv L own H s" and i: "ut_inv s" "ut_inv u" and k: "conts s (running s) = User"
    and r: "cv_wait c l s = Inr (r, u)" and h: "(running s, l) \<in> H" "L c = l" "no_handover l s"
  shows "\<exists>own'. excl_inv L own' H u"
proof -
  note ra = running_apart(2) [OF i(1), of L]
  obtain v cv w sw x where v: "still s v" "c < length (condvars s)" "cv = condvars s ! c"
      "still (set_cv c (cv\<lparr>cond_var_waiting_queue := cond_var_waiting_queue cv @ [running s]\<rparr>) v) w"
      "lock_unlock_internal l (AfterWaitUnlock c l) w = Inr (sw, x)"
      "(if sw then Inr (Switched, x) else switched (switchThreads (AfterWait c l) x)) = Inr (r, u)"
  proof -
    obtain v where v: "ut_disableInterrupts s = Inr v" using r by (auto simp: cv_wait_def bindE_eq_Inr)
    have "still s v" by (rule still_disable [OF v])
    then show thesis
      using r v that [of v "condvars s ! c"]
      by (auto simp: cv_wait_def bindE_eq_Inr vec_at_eq still_def simp del: setState_def dest!: still_modify)
  qed
  have sw: "locks w = locks s" "running w = running s" "conts w = conts s"
      "condvars w = (condvars s)[c := cv\<lparr>cond_var_waiting_queue := cond_var_waiting_queue cv @ [running s]\<rparr>]"
    using v(1,4) by (simp_all add: still_def set_cv_def)
  have sl: "l < length (locks s) \<Longrightarrow> nextThreadToWakeUp (locks s ! l) = None"
    using h(3) by (simp add: no_handover_def vec_at_eq)
  have pk: "parked w = (parked s)(c := insert (running s) (parked s c))"
    using cv_changed [OF v(2) sw(4)] v(2,3) by (auto simp: parked_def cv_places_def)
  from v(5) show ?thesis
  proof (cases rule: unlock_internal_effect)
    case (1 a)
    then show ?thesis using sl sw by simp
  next
    case (2 b q)
    have u: "switchThreads (AfterWait c l) x = Inr u" using v(6) 2(4) by (simp add: switched_def bindE_eq_Inr)
    have l: "l < length (locks s)" and lu: "locks u = (locks s)[l := (locks s ! l)\<lparr>waiting_queue := q\<rparr>]"
      and cu: "condvars u = condvars w" "conts u = (conts s)(running s := AfterWait c l)"
      using 2 sw switchThreads_effect [OF u] by simp_all
    note f = lock_changed [OF l lu] lock_same(4) [OF cu(1)]
    have "waiting_for s l = insert b (set q)" using 2(3) sw l by (simp add: waiting_for_def)
    then show ?thesis
      using excl_wait_on [OF e k _ h(1) _ h(2), of b "set q" "running u"] ra cu lock_here [OF l] running_apart(2) [OF i(2), of L]
      by (auto simp: f pk fun_upd_same)
  next
    case 3
    have u: "switchThreads (AfterWait c l) x = Inr u" using v(6) 3(4) by (simp add: switched_def bindE_eq_Inr)
    have l: "l < length (locks s)" and lu: "locks u = (locks s)[l := (locks s ! l)\<lparr>lock_value := 0\<rparr>]"
      and cu: "condvars u = condvars w" "conts u = (conts s)(running s := AfterWait c l)"
      using 3 sw switchThreads_effect [OF u] by simp_all
    note f = lock_changed [OF l lu] lock_same(4) [OF cu(1)]
    have "waiting_for s l = {}" using 3(3) sw l by (simp add: waiting_for_def)
    then show ?thesis
      using excl_wait_free [OF e k _ h(1) _ h(2), of "running u"] ra cu lock_here [OF l] running_apart(2) [OF i(2), of L]
      by (auto simp: f pk fun_upd_same)
  qed
qed

text \<open>A signal and a broadcast: the first waiter runs, the others go on being parked.\<close>

lemma waking_step:
  assumes e: "excl_inv L own H s" and i: "ut_inv s" "ut_inv u" and k: "conts s (running s) = User"
    and h: "(running s, L c) \<in> H" "no_handover (L c) s"
    and c: "c < length (condvars s)" "cond_var_waiting_queue (condvars s ! c) = w # q"
    and u: "locks u = locks s" "condvars u = (condvars s)[c := cv]" "conts u = (conts s)(running s := AfterSignal)" "running u = w"
    and cv: "insert w (set (cv_places cv)) = insert (running s) (set (cv_places (condvars s ! c)))"
  shows "\<exists>own'. excl_inv L own' H u"
proof -
  note f = lock_same(1-3) [OF u(1)] cv_changed [OF c(1) u(2)]
  have w: "w \<in> parked s c" "parked s c = set (cv_places (condvars s ! c))" using c by (simp_all add: parked_def cv_places_def)
  have sl: "slot s (L c) = None" using h(2) by (simp add: no_handover_def vec_at_eq slot_def)
  show ?thesis
    using excl_signal [OF e k _ h(1) refl sl, of w "set (cv_places cv)"] running_apart(2) [OF i(1), of L]
      running_apart(2) [OF i(2), of L] cv w u(3,4) by (auto simp: f)
qed

lemma signal_step:
  assumes e: "excl_inv L own H s" and i: "ut_inv s" "ut_inv u" and k: "conts s (running s) = User"
    and h: "(running s, L c) \<in> H" "no_handover (L c) s" and r: "cv_signal c s = Inr (r, u)"
  shows "\<exists>own'. excl_inv L own' H u"
proof -
  obtain v where d: "ut_disableInterrupts s = Inr v" using r by (auto simp: cv_signal_def bindE_eq_Inr)
  have v: "still s v" by (rule still_disable [OF d])
  have c: "c < length (condvars s)" using r d v by (auto simp: cv_signal_def bindE_eq_Inr vec_at_eq still_def)
  have cv: "vec_at (condvars v) (int c) = Inr (condvars s ! c)" using c v by (simp add: vec_at_eq still_def)
  show ?thesis
  proof (cases "cond_var_waiting_queue (condvars s ! c)")
    case Nil
    then have u: "return_to_user RetVoid v = Inr (r, u)" using r d cv by (simp add: cv_signal_def)
    have "calm s u" using return_effect [OF u] v by (auto simp: calm_def still_def harmless_def)
    then show ?thesis using calm_step [OF e i(2)] k by auto
  next
    case (Cons w q)
    let ?cv = "(condvars s ! c)\<lparr>cond_var_waiting_queue := q, wake_up_order := wake_up_order (condvars s ! c) @ [running s]\<rparr>"
    obtain x where x: "still (set_cv c ?cv v) x" "switchToThread w AfterSignal x = Inr u"
      using r d cv v Cons by (auto simp: cv_signal_def switched_def bindE_eq_Inr still_def simp del: setState_def dest!: still_modify)
    show ?thesis
      by (rule waking_step [OF e i k h c Cons]) (use switch_effect [OF x(2)] x(1) v Cons in \<open>auto simp: still_def set_cv_def cv_places_def\<close>)
  qed
qed

lemma broadcast_step:
  assumes e: "excl_inv L own H s" and i: "ut_inv s" "ut_inv u" and k: "conts s (running s) = User"
    and h: "(running s, L c) \<in> H" "no_handover (L c) s" and r: "cv_broadcast c s = Inr (r, u)"
  shows "\<exists>own'. excl_inv L own' H u"
proof -
  obtain v where d: "ut_disableInterrupts s = Inr v" using r by (auto simp: cv_broadcast_def bindE_eq_Inr)
  have v: "still s v" by (rule still_disable [OF d])
  have c: "c < length (condvars s)" using r d v by (auto simp: cv_broadcast_def bindE_eq_Inr vec_at_eq still_def)
  have cv: "vec_at (condvars v) (int c) = Inr (condvars s ! c)" using c v by (simp add: vec_at_eq still_def)
  show ?thesis
  proof (cases "cond_var_waiting_queue (condvars s ! c)")
    case Nil
    then have u: "return_to_user RetVoid v = Inr (r, u)" using r d cv by (simp add: cv_broadcast_def)
    have "calm s u" using return_effect [OF u] v by (auto simp: calm_def still_def harmless_def)
    then show ?thesis using calm_step [OF e i(2)] k by auto
  next
    case (Cons w q)
    let ?cv = "(condvars s ! c)\<lparr>cond_var_waiting_queue := [], wake_up_order := wake_up_order (condvars s ! c) @ q @ [running s]\<rparr>"
    obtain x where x: "still (set_cv c ?cv v) x" "switchToThread w AfterSignal x = Inr u"
      using r d cv v Cons by (auto simp: cv_broadcast_def switched_def bindE_eq_Inr still_def simp del: setState_def dest!: still_modify)
    show ?thesis
      by (rule waking_step [OF e i k h c Cons]) (use switch_effect [OF x(2)] x(1) v Cons in \<open>auto simp: still_def set_cv_def cv_places_def\<close>)
  qed
qed

lemma after_wait_step:
  assumes e: "excl_inv L own H s" and k: "conts s (running s) = AfterWait c l" and r: "after_wait c l s = Inr (r, u)"
  shows "excl_inv L own H u"
proof -
  obtain v where v: "still s v" "c < length (condvars s)"
      "(case wake_up_order (condvars s ! c) of [] \<Rightarrow> Inl OutOfBounds
       | a # q \<Rightarrow> bindE (lock_signal l a v) (\<lambda>x. return_to_user RetVoid (set_cv c ((condvars s ! c)\<lparr>wake_up_order := q\<rparr>) x))) = Inr (r, u)"
  proof -
    obtain v where m: "modify (running s) (setState RUNNING) s = Inr v" using r by (auto simp: after_wait_def bindE_eq_Inr simp del: setState_def)
    have "still s v" by (rule still_modify [OF m])
    then show thesis
      using r m that [of v] by (auto simp: after_wait_def bindE_eq_Inr vec_at_eq still_def simp del: setState_def)
  qed
  obtain a q where w: "wake_up_order (condvars s ! c) = a # q" using v(3) by (cases "wake_up_order (condvars s ! c)") auto
  have l: "l < length (locks s)" using v w by (auto simp: lock_signal_def bindE_eq_Inr vec_at_eq still_def)
  then have vl: "vec_at (locks v) (int l) = Inr (locks s ! l)" using v(1) by (simp add: vec_at_eq still_def)
  have u: "return_to_user RetVoid (set_cv c ((condvars s ! c)\<lparr>wake_up_order := q\<rparr>)
      (set_lock l ((locks s ! l)\<lparr>nextThreadToWakeUp := Some a\<rparr>) v)) = Inr (r, u)"
    using v(3) w vl by (simp add: lock_signal_def)
  have lu: "locks u = (locks s)[l := (locks s ! l)\<lparr>nextThreadToWakeUp := Some a\<rparr>]"
    and cu: "condvars u = (condvars s)[c := (condvars s ! c)\<lparr>wake_up_order := q\<rparr>]"
      "conts u = (conts s)(running s := User)" "running u = running s"
    using return_effect [OF u] v(1) by (simp_all add: still_def set_cv_def set_lock_def)
  note f = lock_changed [OF l lu] cv_changed [OF v(2) cu(1)]
  have "insert a (set (cv_places ((condvars s ! c)\<lparr>wake_up_order := q\<rparr>))) = parked s c"
    using w v(2) by (auto simp: parked_def cv_places_def)
  then show ?thesis
    using excl_after_wait [OF e k] cu lock_here [OF l] by (simp add: f fun_upd_same)
qed

lemma after_lock_step:
  assumes e: "excl_inv L own H s" and i: "ut_inv s" and k: "conts s (running s) = AfterLock l" and r: "after_lock s = Inr (r, u)"
  shows "excl_inv L own (insert (running s, l) H) u"
proof -
  obtain v where v: "still s v" "return_to_user RetVoid v = Inr (r, u)"
  proof -
    obtain x v where x: "modify (running s) (setState RUNNING) s = Inr x" "modify (running x) increaseLockCount x = Inr v"
        "return_to_user RetVoid v = Inr (r, u)"
      using r by (auto simp: after_lock_def bindE_eq_Inr simp del: setState_def)
    show thesis
      by (rule that [OF _ x(3)]) (use still_modify [OF x(1)] still_modify [OF x(2)] in \<open>simp add: still_def\<close>)
  qed
  have u: "locks u = locks s" "condvars u = condvars s" "conts u = (conts s)(running s := User)" "running u = running s"
    using return_effect [OF v(2)] v(1) by (simp_all add: still_def)
  note f = lock_same(1-3) [OF u(1)] lock_same(4) [OF u(2)]
  show ?thesis
    using excl_after_lock [OF e k running_apart(1) [OF i]] u by (simp add: f)
qed

lemma calm_exec:
  assumes "exec c s = Inr (r, u)"
    and "\<forall>l. c \<noteq> LockCall l" "\<forall>l. c \<noteq> UnlockCall l" "\<forall>d l. c \<noteq> Wait d l" "\<forall>d. c \<noteq> Signal d" "\<forall>d. c \<noteq> Broadcast d"
  shows "calm s u"
proof -
  have "safe (exec c s) (ended (calm s) (calm s))"
    using assms(2-) by (cases c) (auto intro: calmly.calls_kept [OF calm_refl])
  then show ?thesis using assms(1) by (simp add: ended_def split: if_splits)
qed

lemma calm_resume:
  assumes "resume s = Inr (r, u)" and "\<forall>l. conts s (running s) \<noteq> AfterLock l"
    "\<forall>c l. conts s (running s) \<noteq> AfterWait c l" "\<forall>c l. conts s (running s) \<noteq> AfterWaitUnlock c l"
  shows "calm s u"
proof -
  have user: "ended (calm s) (calm s) (RetVoid, s)" by (simp add: ended_def)
  have "safe (resume s) (ended (calm s) (calm s))"
    using assms(2-)
    by (cases "conts s (running s)")
       (auto simp: resume_def user intro!: calmly.return_U calmly.after_join_kept)
  then show ?thesis using assms(1) by (simp add: ended_def split: if_splits)
qed

text \<open>Every step of a properly behaved program keeps all threads and the exclusion invariant.\<close>

lemma proper_step:
  assumes i: "ut_inv s" and e: "excl_inv L own H s" and p: "conts s (running s) = User \<longrightarrow> proper L c s H"
    and st: "ut_step c s = Inr (r, u)"
  shows "ut_inv u \<and> (\<exists>own'. excl_inv L own' (holds_after c s r H) u)"
proof (cases "conts s (running s) = User")
  case True
  then have x: "exec c s = Inr (r, u)" and pr: "proper L c s H" using st p by (simp_all add: ut_step_def)
  have "orderly c s" using pr by (cases c) auto
  then have iu: "ut_inv u" using safeD [OF exec_inv [OF i] x] by simp
  have "\<exists>own'. excl_inv L own' (holds_after c s r H) u"
  proof (cases "(\<exists>l. c = LockCall l) \<or> (\<exists>l. c = UnlockCall l) \<or> (\<exists>d l. c = Wait d l) \<or> (\<exists>d. c = Signal d) \<or> (\<exists>d. c = Broadcast d)")
    case cc: True
    then show ?thesis
      using lock_step [OF e i iu True] unlock_step [OF e i iu True] wait_step [OF e i iu True]
        signal_step [OF e i iu True] broadcast_step [OF e i iu True] x pr True
      by (auto simp: holds_after_def)
  next
    case False
    then have "calm s u" by (intro calm_exec [OF x]) auto
    then have "excl_inv L own H u" using calm_step [OF e iu] True by auto
    moreover have "holds_after c s r H = H" using False True by (auto simp: holds_after_def split: call.splits)
    ultimately show ?thesis by auto
  qed
  then show ?thesis using iu by blast
next
  case False
  then have x: "resume s = Inr (r, u)" using st by (simp add: ut_step_def)
  have "orderly_rest s"
    using exclD(8,9) [OF e, of "running s"] exclD(8) [OF e]
    by (auto simp: orderly_rest_def no_handover_def slot_def vec_at_eq split: cont.splits)
  then have iu: "ut_inv u" using safeD [OF resume_inv [OF i] x] by simp
  have "\<exists>own'. excl_inv L own' (holds_after c s r H) u"
  proof (cases "conts s (running s)")
    case (AfterLock l)
    then show ?thesis
      using after_lock_step [OF e i AfterLock] x by (auto simp: resume_def holds_after_def)
  next
    case (AfterWait d l)
    then show ?thesis
      using after_wait_step [OF e AfterWait] x by (auto simp: resume_def holds_after_def)
  next
    case (AfterWaitUnlock d l)
    then show ?thesis using exclD(9) [OF e] by blast
  qed (use calm_step [OF e iu calm_resume [OF x]] False in \<open>auto simp: holds_after_def\<close>)
  then show ?thesis using iu by blast
qed

lemma proper_run_inv: "proper_run L s H \<Longrightarrow> ut_inv s \<and> (\<exists>own. excl_inv L own H s)"
proof (induction rule: proper_run.induct)
  case (start nl nc)
  have "slot (ut_start nl nc) l = None" "parked (ut_start nl nc) c = {}" for l c
    by (simp_all add: slot_def parked_def ut_start_def init_state_def new_lock_def new_condvar_def cv_places_def)
  then have "excl_inv L (\<lambda>_. None) {} (ut_start nl nc)"
    by (intro exclI) (auto simp: mon_def ut_start_def init_state_def)
  then show ?case using ut_start_inv by blast
next
  case (step s H c r u)
  then show ?case using proper_step by blast
qed

lemma held_once:
  assumes "excl_inv L own H s" "(a, l) \<in> H" "(b, l) \<in> H" "a \<notin> monitor L s l" "b \<notin> monitor L s l"
  shows "a = b"
proof -
  have "own l = Some a" "own l = Some b"
    using exclD(3) [OF assms(1), of a l] exclD(3) [OF assms(1), of b l] assms(2-) by (auto simp: monitor_def)
  then show ?thesis by simp
qed

text \<open>Concrete runs.\<close>

fun prun :: "(nat \<Rightarrow> nat) \<Rightarrow> call list \<Rightarrow> uthreads \<Rightarrow> (addr \<times> nat) set \<Rightarrow> (uthreads \<times> (addr \<times> nat) set) option" where
  "prun L [] s H = Some (s, H)"
| "prun L (c # cs) s H =
     (if conts s (running s) = User \<and> \<not> proper L c s H then None
      else case ut_step c s of Inl e \<Rightarrow> None | Inr (r, u) \<Rightarrow> prun L cs u (holds_after c s r H))"

lemma prun_proper: "proper_run L s H \<Longrightarrow> prun L cs s H = Some (u, K) \<Longrightarrow> proper_run L u K"
proof (induction L cs s H rule: prun.induct)
  case (2 L c cs s H)
  then obtain r v where v: "ut_step c s = Inr (r, v)" "prun L cs v (holds_after c s r H) = Some (u, K)"
      "conts s (running s) = User \<longrightarrow> proper L c s H"
    by (auto split: sum.splits if_splits)
  have "proper_run L v (holds_after c s r H)" by (rule proper_run.step [OF "2.prems"(1) v(3,1)])
  moreover have "\<not> (conts s (running s) = User \<and> \<not> proper L c s H)" using v(3) by blast
  ultimately show ?case using "2.IH" [OF _ v(1) refl] v(2) by blast
qed simp

end
