(* ===== verification/UtSpin.thy ===== *)
theory UtSpin
  imports Prelude
begin

text \<open>
  The spin lock (\<open>SpinLock.cpp\<close>) as a step relation over any number of threads,
  and asynchronous input and output (\<open>async_io.cpp\<close>) over the answers of the
  operating system.
\<close>

section \<open>Spin locks\<close>

datatype pc = Outside | Spinning | Inside

text \<open>\<open>atomic_flag::test_and_set\<close>: the old value, and the new one.\<close>

definition test_and_set :: "bool \<Rightarrow> bool \<times> bool" where
  "test_and_set f = (f, True)"

definition clear_flag :: "bool \<Rightarrow> bool" where
  "clear_flag f = False"

text \<open>One turn of the loop of \<open>SpinLock::lock\<close>.\<close>

definition spin_try :: "nat \<Rightarrow> bool \<times> (nat \<Rightarrow> pc) \<Rightarrow> bool \<times> (nat \<Rightarrow> pc)" where
  "spin_try i = (\<lambda>(f, at). case test_and_set f of (old, f') \<Rightarrow> (f', at(i := if old then Spinning else Inside)))"

definition spin_unlock :: "nat \<Rightarrow> bool \<times> (nat \<Rightarrow> pc) \<Rightarrow> bool \<times> (nat \<Rightarrow> pc)" where
  "spin_unlock i = (\<lambda>(f, at). (clear_flag f, at(i := Outside)))"

inductive spin_step :: "bool \<times> (nat \<Rightarrow> pc) \<Rightarrow> bool \<times> (nat \<Rightarrow> pc) \<Rightarrow> bool" where
  call: "at i = Outside \<Longrightarrow> spin_step (f, at) (f, at(i := Spinning))"
| turn: "at i = Spinning \<Longrightarrow> spin_step (f, at) (spin_try i (f, at))"
| release: "at i = Inside \<Longrightarrow> spin_step (f, at) (spin_unlock i (f, at))"

inductive_cases spin_stepE: "spin_step s t"

inductive spin_reachable :: "bool \<times> (nat \<Rightarrow> pc) \<Rightarrow> bool" where
  start: "spin_reachable (False, \<lambda>_. Outside)"
| step: "spin_reachable s \<Longrightarrow> spin_step s t \<Longrightarrow> spin_reachable t"

text \<open>The flag is set exactly while one thread is inside.\<close>

definition spin_inv :: "bool \<times> (nat \<Rightarrow> pc) \<Rightarrow> bool" where
  "spin_inv = (\<lambda>(f, at). (f \<longleftrightarrow> (\<exists>i. at i = Inside)) \<and> (\<forall>i j. at i = Inside \<longrightarrow> at j = Inside \<longrightarrow> i = j))"

lemma same_inside:
  assumes "at i \<noteq> Inside" "p \<noteq> Inside"
  shows "(at(i := p)) j = Inside \<longleftrightarrow> at j = Inside"
  using assms by auto

lemma spin_inv_step: "spin_step s t \<Longrightarrow> spin_inv s \<Longrightarrow> spin_inv t"
proof (induction rule: spin_step.induct)
  case (call at i f)
  then show ?case using same_inside [of at i Spinning] by (simp add: spin_inv_def)
next
  case (turn at i f)
  then show ?case
    using same_inside [of at i Spinning]
    by (cases f) (auto simp: spin_inv_def spin_try_def test_and_set_def)
next
  case (release at i f)
  then show ?case by (auto simp: spin_inv_def spin_unlock_def clear_flag_def)
qed

lemma spin_reachable_inv: "spin_reachable s \<Longrightarrow> spin_inv s"
proof (induction rule: spin_reachable.induct)
  case start
  then show ?case by (simp add: spin_inv_def)
next
  case (step s t)
  then show ?case by (blast intro: spin_inv_step)
qed

section \<open>Asynchronous input and output\<close>

record aiocb =
  aio_fildes :: int
  aio_offset :: int
  aio_nbytes :: int
  aio_buf :: int

definition getAioStructure :: "int \<Rightarrow> int \<Rightarrow> int \<Rightarrow> int \<Rightarrow> aiocb" where
  "getAioStructure fd num_bytes off junk = \<lparr>aio_fildes = fd, aio_offset = off, aio_nbytes = num_bytes, aio_buf = junk\<rparr>"

definition EINPROGRESS :: int where "EINPROGRESS = 115"

text \<open>
  \<open>polls\<close> are the values \<open>aio_error\<close> returns, one per call; the loop yields once for
  each \<open>EINPROGRESS\<close>.  The result is what is left of \<open>polls\<close> and the number of
  yields, or nothing when the answers run out before the operation is over.
\<close>

fun wait_loop :: "int list \<Rightarrow> (int list \<times> nat) option" where
  "wait_loop [] = None"
| "wait_loop (e # es) =
     (if e = EINPROGRESS then map_option (\<lambda>(r, n). (r, n + 1)) (wait_loop es) else Some (es, 0))"

definition getSsize :: "int \<Rightarrow> int list \<Rightarrow> int \<Rightarrow> (int \<times> nat) option" where
  "getSsize ret polls res =
     (if ret \<noteq> 0 then Some (0, 0)
      else case wait_loop polls of
        None \<Rightarrow> None
      | Some (rest, n) \<Rightarrow> (case rest of [] \<Rightarrow> None | e # _ \<Rightarrow> Some (if e \<noteq> 0 then 0 else res, n)))"

text \<open>
  \<open>submit\<close> is \<open>aio_read\<close> or \<open>aio_write\<close>: what it returns for a request, the
  answers of \<open>aio_error\<close> and the value of \<open>aio_return\<close>.
\<close>

definition async_read :: "(aiocb \<Rightarrow> int \<times> int list \<times> int) \<Rightarrow> int \<Rightarrow> int \<Rightarrow> int \<Rightarrow> int \<Rightarrow> int \<Rightarrow> (int \<times> nat) option" where
  "async_read aio_read junk fd buf num_bytes off =
     (let s = (getAioStructure fd num_bytes off junk)\<lparr>aio_buf := buf\<rparr>; (ret, polls, res) = aio_read s
      in getSsize ret polls res)"

definition async_write :: "(aiocb \<Rightarrow> int \<times> int list \<times> int) \<Rightarrow> int \<Rightarrow> int \<Rightarrow> int \<Rightarrow> int \<Rightarrow> int \<Rightarrow> (int \<times> nat) option" where
  "async_write aio_write junk fd buf num_bytes off =
     (let s = (getAioStructure fd num_bytes off junk)\<lparr>aio_buf := buf\<rparr>; (ret, polls, res) = aio_write s
      in getSsize ret polls res)"

lemma wait_loop_replicate:
  "e \<noteq> EINPROGRESS \<Longrightarrow> wait_loop (replicate n EINPROGRESS @ e # es) = Some (es, n)"
  by (induction n) simp_all

text \<open>Polling ends as soon as the operating system reports anything but progress.\<close>

lemma wait_loop_ends:
  "wait_loop es \<noteq> None \<longleftrightarrow> (\<exists>e \<in> set es. e \<noteq> EINPROGRESS)"
  by (induction es) auto

end
