(* ===== verification/UtProperties.thy ===== *)
theory UtProperties
  imports UtExclusion UtSpin
begin

text \<open>
  What the thread library (\<open>project_2\<close>) guarantees, and where it fails, stated over
  its calls.
\<close>

text \<open>
  C3.  No thread is lost, duplicated or misfiled.  Whatever call a thread makes, and
  whatever a thread does when it is switched to, with the one exception below, the running thread and all queues
  again hold every allocated thread exactly once, each ready queue holding threads of
  its priority, and ids and control blocks in correspondence.  Excluded are
  a wait on a lock that still owes a hand-over and what is left of such a wait (\<open>orderly\<close>, \<open>orderly_rest\<close>): it
  does not hold there, as \<open>waiting_again_duplicates_thread\<close> shows.
\<close>

theorem no_thread_lost:
  assumes "ut_inv s" "ut_step c s = Inr (r, u)"
    and "if conts s (running s) = User then orderly c s else orderly_rest s"
  shows "ut_inv u"
proof (cases "conts s (running s) = User")
  case True
  then have "safe (exec c s) (\<lambda>(r, u). ut_inv u)" using assms exec_inv by simp
  then show ?thesis using assms(2) True by (simp add: ut_step_def)
next
  case False
  then have "safe (resume s) (\<lambda>(r, u). ut_inv u)" using assms resume_inv by simp
  then show ?thesis using assms(2) False by (simp add: ut_step_def)
qed

lemma no_thread_lost_witness:
  "\<exists>u. ut_step Create (ut_start 1 1) = Inr (Ret 1, u) \<and> ut_inv u"
proof -
  have u: "conts (ut_start 1 1) (running (ut_start 1 1)) = User"
    by (simp add: ut_start_def init_state_def)
  obtain w where w: "ut_step Create (ut_start 1 1) = Inr (Ret 1, w)"
    by (auto simp: ut_step_def ut_eval ut_eval_calls)
  have "ut_inv w" by (rule no_thread_lost [OF ut_start_inv w]) (use u in simp)
  then show ?thesis using w by blast
qed

text \<open>
  C25.  Scheduling: a yield with nothing to boost puts the caller last in the ready
  queue of its priority and switches to the first thread of the highest priority
  that has one; the library's quantum count goes up by one.
\<close>

theorem yield_schedules_highest:
  assumes "ut_inv s" "no_boosts s" "interrupts_enabled s" "counters_small s"
    and "heap s (running s) = Some t" "tcb_lock_count t = 0"
    and "q = (ready s)(tcb_pr t := ready s (tcb_pr t) @ [running s])"
  shows "runs (uthread_yield s) (\<lambda>(r, u). r = Switched \<and> running u = hd (q (highest q)) \<and>
     ready u = q(highest q := tl (q (highest q))) \<and> conts u = (conts s)(running s := AfterYield) \<and>
     quantum_counter u = quantum_counter s + 1)"
  by (rule yield_runs [OF assms])

lemma yield_schedules_highest_witness:
  "runs (uthread_yield (ut_start 0 0)) (\<lambda>(r, u). r = Switched \<and> running u = 0 \<and> quantum_counter u = 2)"
  by (rule runs_mono [OF yield_schedules_highest [OF ut_start_inv]])
     (auto simp: ut_start_def init_state_def new_tcb_def no_boosts_def counters_small_def highest_def INT_MAX_def split: if_splits)

text \<open>
  C28.  Creation gives the thread the least id not in use and appends it to the orange
  ready queue; with 100 threads it fails and changes nothing.
\<close>

theorem create_least_id:
  assumes "ut_inv s" "interrupts_enabled s"
  shows "runs (uthread_create s) (\<lambda>(r, u).
    if length (threads s) = 100 then r = Ret FAIL \<and> u = s
    else r = Ret (getNextId s) \<and> 0 \<le> getNextId s \<and> getNextId s \<notin> fst ` set (threads s) \<and>
      (\<forall>j. 0 \<le> j \<and> j < getNextId s \<longrightarrow> j \<in> fst ` set (threads s)) \<and>
      (\<exists>a. heap s a = None \<and> heap u a = Some (new_tcb (getNextId s) ORANGE READY) \<and>
        ready u = (ready s)(ORANGE := ready s ORANGE @ [a]) \<and> running u = running s))"
proof -
  have p: "placed [running s] s" using assms(1) by (simp add: ut_inv_def)
  note ok = invD(3) [OF p]
  note nid = next_id_free [OF ok]
  have fresh: "heap s (next_addr s) = None"
    using ok by (cases "heap s (next_addr s)") (auto simp: threads_ok_def)
  show ?thesis
    using assms(2) nid fresh
    by (simp add: uthread_create_def ut_disableInterrupts_def ut_enableInterrupts_def Let_def addToReady_def deref_def
        return_to_user_def getNextId_def new_tcb_def) blast
qed

lemma create_least_id_witness:
  "runs (uthread_create (ut_start 0 0)) (\<lambda>(r, u). r = Ret 1 \<and> length (ready u ORANGE) = 1)"
proof -
  have e: "interrupts_enabled (ut_start 0 0)" "getNextId (ut_start 0 0) = 1" "length (threads (ut_start 0 0)) = 1"
      "ready (ut_start 0 0) = (\<lambda>_. [])"
    by (simp_all add: ut_start_def init_state_def getNextId_def)
  show ?thesis
    by (rule runs_mono [OF create_least_id [OF ut_start_inv e(1)]]) (auto simp: e)
qed

text \<open>
  C27.  Unlocking a lock that others wait for, from a good state with counters far from overflow.  If the lock owes a thread that signalled
  a condition variable, control goes to that thread at once, the caller becomes
  ready, and the threads that wait for the lock go on waiting.  Otherwise the lock
  goes to the thread that waited longest: it stays taken, that thread leaves the
  waiting queue for the ready queue of its priority, and the caller goes on running.
\<close>

theorem unlock_hands_to_first_waiter:
  assumes "ut_inv s" "interrupts_enabled s" "counters_small s" "vec_at (locks s) (int l) = Inr lk"
    and "waiting_queue lk = w # q" "heap s (running s) = Some t" "0 < tcb_lock_count t"
  shows "case nextThreadToWakeUp lk of
     None \<Rightarrow> runs (lock_unlock l s) (\<lambda>(r, u). r = RetVoid \<and> running u = running s \<and>
       locks u = (locks s)[l := lk\<lparr>waiting_queue := q\<rparr>] \<and>
       (\<exists>tw. heap s w = Some tw \<and> ready u = (ready s)(tcb_pr tw := ready s (tcb_pr tw) @ [w])))
   | Some a \<Rightarrow> runs (lock_unlock l s) (\<lambda>(r, u). r = Switched \<and> running u = a \<and>
       locks u = (locks s)[l := lk\<lparr>nextThreadToWakeUp := None\<rparr>] \<and>
       ready u = (ready s)(tcb_pr t := ready s (tcb_pr t) @ [running s]))"
proof (cases "nextThreadToWakeUp lk")
  case None
  then show ?thesis using unlock_hand_over [OF assms(1,2,4) None assms(5-7)] by simp
next
  case (Some a)
  then have "a \<in> set (lock_places lk)" by (simp add: lock_places_def)
  note wa = waiting_alloc [OF assms(1,4) this]
  obtain ta where ta: "heap s a = Some ta" using wa(2) by blast
  have c: "tcb_quantum ta < INT_MAX" "quantum_counter s < INT_MAX" using assms(3) ta by (auto simp: counters_small_def)
  from unlock_switches [OF assms(6,7,4) Some wa(1) ta c assms(2)]
  show ?thesis using Some by (simp add: run_next_def set_lock_def)
qed

text \<open>A state in which main holds the only lock and thread 1 waits for it.\<close>

definition contended :: uthreads where
  "contended = (ut_start 1 1)\<lparr>heap := [0 \<mapsto> \<lparr>tcb_tid = 0, tcb_pr = ORANGE, tcb_quantum = 3, tcb_state = RUNNING, tcb_lock_count = 1\<rparr>,
      1 \<mapsto> \<lparr>tcb_tid = 1, tcb_pr = ORANGE, tcb_quantum = 1, tcb_state = BLOCK, tcb_lock_count = 0\<rparr>],
     next_addr := 2, threads := [(0, 0), (1, 1)], quantum_counter := 3, conts := (\<lambda>_. User)(1 := AfterLock 0),
     locks := [\<lparr>lock_value = 1, waiting_queue = [1], nextThreadToWakeUp = None\<rparr>]\<rparr>"

lemma contended_reached:
  "\<exists>rs u. ut_run [Create, LockCall 0, Yield, LockCall 0] (ut_start 1 1) = Inr (rs, u) \<and> running u = 0 \<and>
     locks u = locks contended \<and> ready u = ready contended \<and> conts u 1 = AfterLock 0"
  by (simp add: ut_eval ut_eval_calls contended_def fun_eq_iff)

lemma contended_inv: "ut_inv contended"
proof -
  have d: "dom (heap contended) = {0, 1}" by (auto simp: contended_def)
  have ids: "(x, b) \<in> {(0, 0), (1, 1)} \<longleftrightarrow> (\<exists>t. heap contended b = Some t \<and> tcb_tid t = x)" for x b
    by (auto simp: contended_def)
  have "a < 2 \<and> 0 \<le> tcb_tid t" if "heap contended a = Some t" for a t
    using that by (auto simp: contended_def split: if_splits)
  moreover have "sorted_wrt (<) (map fst (threads contended))" "set (threads contended) = {(0, 0), (1, 1)}" "next_addr contended = 2"
    by (simp_all add: contended_def)
  ultimately have "threads_ok contended"
    using ids_eqI [OF ids] by (simp add: threads_ok_def)
  moreover have "mset [running contended] + queued contended = mset_set (dom (heap contended))"
    unfolding d by (simp add: queued_def ready_all_def contended_def ut_start_def init_state_def lock_places_def
        cv_places_def new_condvar_def)
  moreover have "ready_ok contended" by (simp add: ready_ok_def contended_def ut_start_def init_state_def)
  ultimately show ?thesis by (simp add: ut_inv_def placed_def d)
qed

lemma contended_small: "counters_small contended"
  by (simp add: counters_small_def contended_def INT_MAX_def)

lemma unlock_hands_to_first_waiter_witness:
  "runs (lock_unlock 0 contended) (\<lambda>(r, u). r = RetVoid \<and> running u = 0 \<and>
     locks u = [\<lparr>lock_value = 1, waiting_queue = [], nextThreadToWakeUp = None\<rparr>])"
proof -
  have lk: "vec_at (locks contended) (int 0) = Inr \<lparr>lock_value = 1, waiting_queue = [1], nextThreadToWakeUp = None\<rparr>"
    by (simp add: contended_def)
  have t: "heap contended (running contended) = Some \<lparr>tcb_tid = 0, tcb_pr = ORANGE, tcb_quantum = 3, tcb_state = RUNNING, tcb_lock_count = 1\<rparr>"
    by (simp add: contended_def ut_start_def init_state_def)
  have e: "interrupts_enabled contended" by (simp add: contended_def ut_start_def init_state_def)
  from unlock_hands_to_first_waiter [OF contended_inv e contended_small lk _ t] show ?thesis
    by (auto simp: contended_def ut_start_def init_state_def elim!: runs_mono)
qed

text \<open>
  A thread that asks for a taken lock goes last into the waiting queue and gives
  up the processor; it does not return to its caller.
\<close>

theorem lock_blocks_when_taken:
  assumes "ut_inv s" "interrupts_enabled s" "vec_at (locks s) (int l) = Inr lk" "lock_value lk = 1"
    and "heap s (running s) = Some t" "counters_small s" "ready s (highest (ready s)) \<noteq> []"
  shows "runs (lock_lock l s) (\<lambda>(r, u). r = Switched \<and> running u = hd (ready s (highest (ready s))) \<and>
     locks u = (locks s)[l := lk\<lparr>waiting_queue := waiting_queue lk @ [running s]\<rparr>] \<and>
     conts u = (conts s)(running s := AfterLock l))"
  by (rule lock_busy [OF assms])

lemma lock_blocks_when_taken_witness:
  "\<exists>s. runs (uthread_create contended) (\<lambda>(r, u). u = s) \<and> runs (lock_lock 0 s) (\<lambda>(r, u). r = Switched \<and> running u = 2)"
proof -
  obtain r s where s: "uthread_create contended = Inr (r, s)" "interrupts_enabled s"
      "vec_at (locks s) (int 0) = Inr \<lparr>lock_value = 1, waiting_queue = [1], nextThreadToWakeUp = None\<rparr>"
      "running s = 0" "ready s = (\<lambda>_. [])(ORANGE := [2])" "counters_small s"
      "heap s (running s) = Some \<lparr>tcb_tid = 0, tcb_pr = ORANGE, tcb_quantum = 3, tcb_state = RUNNING, tcb_lock_count = 1\<rparr>"
    by (simp add: ut_eval ut_eval_calls contended_def counters_small_def split: if_splits)
  have "ut_inv s" using create_inv [OF contended_inv] s(1) by simp
  from lock_blocks_when_taken [OF this s(2,3) _ s(7,6)] s show ?thesis
    by (auto simp: highest_def intro!: exI [of _ s] elim!: runs_mono)
qed

text \<open>
  C26.  Hoare semantics: a signal transfers control to the first waiter at once; when
  that thread unlocks, control goes straight back to the signaller, and the thread
  that was waiting is ready.
\<close>

theorem signal_transfers_control_and_back:
  assumes "ut_inv s" "interrupts_enabled s" "vec_at (condvars s) (int c) = Inr cv"
    and "cond_var_waiting_queue cv = w # q" "wake_up_order cv = []" "conts s w = AfterWait c l"
    and "vec_at (locks s) (int l) = Inr lk"
    and "heap s w = Some tw" "0 < tcb_lock_count tw" "tcb_quantum tw < INT_MAX"
    and "quantum_counter s + 1 < INT_MAX" "counters_small s"
  shows "\<exists>s1 s2 s3. cv_signal c s = Inr (Switched, s1) \<and> running s1 = w \<and>
     resume s1 = Inr (RetVoid, s2) \<and> running s2 = w \<and> interrupts_enabled s2 \<and>
     lock_unlock l s2 = Inr (Switched, s3) \<and> running s3 = running s \<and> conts s3 (running s) = AfterSignal \<and>
     ready s3 (tcb_pr tw) = ready s (tcb_pr tw) @ [w]"
  by (rule hoare_round [OF assms])

text \<open>Main holds the lock, thread 1 waits on the condition variable.\<close>

definition one_waiter :: uthreads where
  "one_waiter = contended\<lparr>heap := (heap contended)(1 := Some \<lparr>tcb_tid = 1, tcb_pr = ORANGE, tcb_quantum = 1,
       tcb_state = BLOCK, tcb_lock_count = 1\<rparr>), conts := (\<lambda>_. User)(1 := AfterWait 0 0),
     locks := [\<lparr>lock_value = 1, waiting_queue = [], nextThreadToWakeUp = None\<rparr>],
     condvars := [\<lparr>cond_var_waiting_queue = [1], wake_up_order = []\<rparr>]\<rparr>"

lemma one_waiter_inv: "ut_inv one_waiter"
proof -
  have d: "dom (heap one_waiter) = {0, 1}" by (auto simp: one_waiter_def contended_def)
  have ids: "(x, b) \<in> {(0, 0), (1, 1)} \<longleftrightarrow> (\<exists>t. heap one_waiter b = Some t \<and> tcb_tid t = x)" for x b
    by (auto simp: one_waiter_def contended_def)
  have "a < 2 \<and> 0 \<le> tcb_tid t" if "heap one_waiter a = Some t" for a t
    using that by (auto simp: one_waiter_def contended_def split: if_splits)
  moreover have "sorted_wrt (<) (map fst (threads one_waiter))" "set (threads one_waiter) = {(0, 0), (1, 1)}" "next_addr one_waiter = 2"
    by (simp_all add: one_waiter_def contended_def)
  ultimately have "threads_ok one_waiter"
    using ids_eqI [OF ids] by (simp add: threads_ok_def)
  moreover have "mset [running one_waiter] + queued one_waiter = mset_set (dom (heap one_waiter))"
    unfolding d by (simp add: queued_def ready_all_def one_waiter_def contended_def ut_start_def init_state_def
        lock_places_def cv_places_def)
  moreover have "ready_ok one_waiter"
    by (simp add: ready_ok_def one_waiter_def contended_def ut_start_def init_state_def)
  ultimately show ?thesis by (simp add: ut_inv_def placed_def d)
qed

lemma signal_transfers_control_and_back_witness:
  "\<exists>s1 s2 s3. cv_signal 0 one_waiter = Inr (Switched, s1) \<and> running s1 = 1 \<and> resume s1 = Inr (RetVoid, s2) \<and>
     lock_unlock 0 s2 = Inr (Switched, s3) \<and> running s3 = 0"
proof -
  have "\<exists>s1 s2 s3. cv_signal 0 one_waiter = Inr (Switched, s1) \<and> running s1 = 1 \<and>
     resume s1 = Inr (RetVoid, s2) \<and> running s2 = 1 \<and> interrupts_enabled s2 \<and>
     lock_unlock 0 s2 = Inr (Switched, s3) \<and> running s3 = running one_waiter \<and>
     conts s3 (running one_waiter) = AfterSignal \<and>
     ready s3 (tcb_pr (the (heap one_waiter 1))) = ready one_waiter (tcb_pr (the (heap one_waiter 1))) @ [1]"
    by (rule signal_transfers_control_and_back [OF one_waiter_inv, where q = "[]" and l = 0 and
        cv = "\<lparr>cond_var_waiting_queue = [1], wake_up_order = []\<rparr>" and
        lk = "\<lparr>lock_value = 1, waiting_queue = [], nextThreadToWakeUp = None\<rparr>"])
       (auto simp: one_waiter_def contended_def ut_start_def init_state_def counters_small_def INT_MAX_def split: if_splits)
  then show ?thesis by (auto simp: one_waiter_def contended_def ut_start_def init_state_def)
qed

text \<open>
  C37.  Boosting, from a good state and for a boost set of threads that still exist.  With \<open>num\<close> = 1 only the
  first thread of the set is looked at, otherwise the first one that holds a lock is
  chosen.  If there is none nothing changes.  The chosen thread goes up one priority
  and to the end of that ready queue if it was ready, leaves the set (for the medium set
  if it is orange now), and its number of boosts goes up by one; after that the loop
  gets away with the erased iterator only for \<open>num\<close> = 2, and crashes otherwise.
\<close>

theorem boosting_promotes_first_holder:
  assumes "ut_inv s" "\<forall>a \<in> set (boost_set low s). heap s a \<noteq> None"
  shows "case find (holds_lock s) (if num = 1 then take 1 (boost_set low s) else boost_set low s) of
     None \<Rightarrow> boosting_logic low num s = Inr s
   | Some a \<Rightarrow> if num = 2 then runs (boosting_logic low num s) (\<lambda>u. \<exists>t. heap s a = Some t \<and> boosted low a t s u)
       else boosting_logic low num s = Inl IteratorInvalid"
proof (cases "num = 1")
  case True
  show ?thesis
  proof (cases "boost_set low s")
    case (Cons a rest)
    then obtain t where t: "heap s a = Some t" using assms(2) by auto
    from boost_thread_runs [OF assms(1) t] Cons have "runs (boost_thread low a s) (boosted low a t s)" by simp
    then show ?thesis using True Cons boosting_loop_first [of s a] t by (auto simp: boosting_logic_def runs_iff)
  qed (simp add: True boosting_logic_def)
next
  case False
  show ?thesis
  proof (cases "find (holds_lock s) (boost_set low s)")
    case None
    then show ?thesis using False boosting_loop_find [OF assms(2) False, of low] by (simp add: boosting_logic_def)
  next
    case (Some a)
    then have a: "a \<in> set (boost_set low s)" by (auto simp: find_Some_iff in_set_conv_nth)
    then obtain t where t: "heap s a = Some t" using assms(2) by blast
    from boost_thread_runs [OF assms(1) t a] show ?thesis
      using False Some t boosting_loop_find [OF assms(2) False, of low] by (auto simp: boosting_logic_def runs_iff)
  qed
qed

lemma boosting_promotes_first_holder_witness:
  "runs (boosting_logic False 2 (contended\<lparr>medBoost := [1, 0]\<rparr>)) (\<lambda>u. map_option tcb_pr (heap u 0) = Some RED \<and>
     medBoost u = [1] \<and> numBoosts u 0 = Some 1)"
proof -
  have "ut_inv (contended\<lparr>medBoost := [1, 0]\<rparr>)"
    using contended_inv by (simp add: ut_inv_def placed_def queued_def ready_all_def threads_ok_def ready_ok_def)
  moreover have "\<forall>a \<in> set (boost_set False (contended\<lparr>medBoost := [1, 0]\<rparr>)). heap (contended\<lparr>medBoost := [1, 0]\<rparr>) a \<noteq> None"
    by (simp add: boost_set_def contended_def)
  ultimately have "case find (holds_lock (contended\<lparr>medBoost := [1, 0]\<rparr>)) [1, 0] of
     None \<Rightarrow> boosting_logic False 2 (contended\<lparr>medBoost := [1, 0]\<rparr>) = Inr (contended\<lparr>medBoost := [1, 0]\<rparr>)
   | Some a \<Rightarrow> runs (boosting_logic False 2 (contended\<lparr>medBoost := [1, 0]\<rparr>)) (\<lambda>u. \<exists>t. heap (contended\<lparr>medBoost := [1, 0]\<rparr>) a = Some t \<and>
       boosted False a t (contended\<lparr>medBoost := [1, 0]\<rparr>) u)"
    using boosting_promotes_first_holder [where low = False and num = 2] by (fastforce simp: boost_set_def split: option.splits)
  then show ?thesis
    by (auto simp: holds_lock_def contended_def boosted_def boost_set_def boosts_of_def ut_start_def init_state_def
        elim!: runs_mono)
qed

text \<open>
  A program runs into it with its first boost: a low-priority thread that holds
  a lock yields while a thread of higher priority is ready.
\<close>

theorem first_boost_goes_wrong:
  "ut_run [LockCall 0, DecreasePriority 0, Create, Yield] (ut_start 1 0) = Inl IteratorInvalid"
  by (simp add: ut_eval ut_eval_calls)

text \<open>
  C38.  Joining, from a good state with counters far from overflow.  If a thread with that id has finished, the join returns at once with the
  result that thread gave, and the thread is gone: its control block is freed, its id is
  free, and it has left the queue of finished threads.  Otherwise, known id or not, the
  caller waits in the join queue and the next ready thread runs; without one the
  assertion of the scheduler fails.  A caller that is switched to again does the same, and
  crashes if the thread is not there.
\<close>

theorem join_returns_result:
  assumes "ut_inv s" "interrupts_enabled s" "counters_small s"
  shows "(if has_finished tid s then runs (uthread_join tid s) (\<lambda>(r, u). took_result tid s r u)
      else if ready s (highest (ready s)) \<noteq> [] then runs (uthread_join tid s) (\<lambda>(r, u). r = Switched \<and>
        running u = hd (ready s (highest (ready s))) \<and> ready u = (ready s)(highest (ready s) := tl (ready s (highest (ready s)))) \<and>
        join_queue u = join_queue s @ [(running s, tid)] \<and> finished_queue u = finished_queue s \<and>
        conts u = (conts s)(running s := AfterJoin tid))
      else uthread_join tid s = Inl AssertFail) \<and>
    (if has_finished tid s then runs (after_join tid (s\<lparr>interrupts_enabled := False\<rparr>)) (\<lambda>(r, u). took_result tid s r u)
      else after_join tid (s\<lparr>interrupts_enabled := False\<rparr>) = Inl AssertFail)"
proof (cases "has_finished tid s")
  case True
  from join_found [OF assms(1) True] obtain v w
    where r: "removeFromFinished tid (s\<lparr>interrupts_enabled := False\<rparr>) = Inr (Some v, w)"
      and t: "runs (return_to_user (Joined v) w) (\<lambda>(r, u). took_result tid s r u)" by blast
  show ?thesis using True r t assms(2) by (simp add: uthread_join_def after_join_def ut_disableInterrupts_def)
next
  case False
  then show ?thesis
    using join_not_found [OF assms(1) False] join_switches [OF assms(1,2) False assms(3)] join_stuck [OF assms(1,2) False]
    by (auto simp: after_join_def)
qed

text \<open>Main runs, thread 1 has finished with result 7.\<close>

definition one_finished :: uthreads where
  "one_finished = contended\<lparr>locks := [new_lock], finished_queue := [(1, 7)], conts := (\<lambda>_. User)(1 := AfterExit)\<rparr>"

lemma one_finished_inv: "ut_inv one_finished"
  using contended_inv
  by (simp add: ut_inv_def placed_def one_finished_def queued_def ready_all_def threads_ok_def ready_ok_def contended_def
      ut_start_def init_state_def lock_places_def new_lock_def)

lemma join_returns_result_witness:
  "runs (uthread_join 1 one_finished) (\<lambda>(r, u). r = Joined 7 \<and> heap u 1 = None \<and> finished_queue u = [])"
proof -
  have "has_finished 1 one_finished" by (simp add: has_finished_def one_finished_def id_of_def contended_def)
  moreover have "interrupts_enabled one_finished" "counters_small one_finished"
    using contended_small by (simp_all add: one_finished_def contended_def ut_start_def init_state_def counters_small_def)
  ultimately have "runs (uthread_join 1 one_finished) (\<lambda>(r, u). took_result 1 one_finished r u)"
    using join_returns_result [OF one_finished_inv] by metis
  then show ?thesis
    by (rule runs_mono) (auto simp: took_result_def one_finished_def Cons_eq_append_conv)
qed

text \<open>
  Two threads that join the same thread crash: the first joiner to run deletes
  the control block, the second one's assertion fails.
\<close>

theorem second_joiner_asserts:
  "ut_run [Create, Create, Join 1, Yield, Join 1, Exit 7, Yield] (ut_start 0 0) = Inl AssertFail"
  by (simp add: ut_eval ut_eval_calls)

text \<open>The calls of two threads that both wait on a condition variable and then are both signalled.\<close>

definition nested_signal :: "call list" where
  "nested_signal = [Create, Create, Yield, LockCall 0, Wait 0 0, LockCall 0, Wait 0 0,
     LockCall 0, Signal 0, Signal 0, UnlockCall 0, UnlockCall 0]"

text \<open>
  A signal sent by a thread that was itself just signalled overwrites the
  lock's record of whom to wake: after the last unlock the first signaller (main, at
  address 0) is neither running nor in any queue, and the lock is free.
\<close>

theorem nested_signal_loses_thread:
  "runs (ut_run nested_signal (ut_start 1 1)) (\<lambda>(rs, u).
     heap u 0 \<noteq> None \<and> running u \<noteq> 0 \<and> 0 \<notin># queued u \<and> lock_value (locks u ! 0) = 0)"
  by (simp add: nested_signal_def ut_eval ut_eval_calls queued_def ready_all_def lock_places_def cv_places_def)

text \<open>
  Waiting again before unlocking puts the waiting thread into the ready queue as
  well: thread 1 is then queued twice, so that it is scheduled without a signal.
\<close>

theorem waiting_again_duplicates_thread:
  "runs (ut_run [Create, Yield, LockCall 0, Wait 0 0, LockCall 0, Signal 0, Wait 0 0] (ut_start 1 1))
     (\<lambda>(rs, u). 1 \<in> set (ready u ORANGE) \<and> 1 \<in> set (cond_var_waiting_queue (condvars u ! 0)))"
  by (simp add: ut_eval ut_eval_calls)

text \<open>
  Calls for an id that does not exist report failure and change nothing, as does
  suspending the main thread.
\<close>

theorem unknown_ids_fail:
  assumes "map_of (threads s) tid = None"
  shows "uthread_suspend tid s = Inr (Ret FAIL, s) \<and> uthread_resume tid s = Inr (Ret FAIL, s) \<and>
    uthread_increase_priority tid s = Inr (Ret FAIL, s) \<and> uthread_decrease_priority tid s = Inr (Ret FAIL, s) \<and>
    uthread_suspend MAIN_THREAD s = Inr (Ret FAIL, s)"
  using assms
  by (simp add: uthread_suspend_def uthread_resume_def uthread_increase_priority_def uthread_decrease_priority_def)

lemma unknown_ids_fail_witness:
  "uthread_suspend 9 contended = Inr (Ret FAIL, contended) \<and> uthread_resume 9 contended = Inr (Ret FAIL, contended)"
  using unknown_ids_fail [of contended 9] by (simp add: contended_def)

text \<open>
  Suspending a ready thread and resuming it succeeds, and leaves it last in the
  ready queue of its priority; the blocked list is as before.
\<close>

theorem suspend_resume:
  assumes "ut_inv s" "interrupts_enabled s" "heap s a = Some t" "a \<in> set (ready s (tcb_pr t))"
    and "tcb_tid t \<noteq> MAIN_THREAD"
  shows "runs (uthread_suspend (tcb_tid t) s) (\<lambda>(r, u). r = Ret SUCCESS \<and> blocked u = blocked s @ [a] \<and>
     a \<notin> set (ready u (tcb_pr t)) \<and>
     runs (uthread_resume (tcb_tid t) u) (\<lambda>(r, v). r = Ret SUCCESS \<and> blocked v = blocked s \<and>
       ready v = (ready s)(tcb_pr t := remove1 a (ready s (tcb_pr t)) @ [a])))"
proof -
  have p: "placed [running s] s" using assms(1) by (simp add: ut_inv_def)
  have at: "map_of (threads s) (tcb_tid t) = Some a" using threads_at_iff [OF invD(3) [OF p]] assms(3) by auto
  obtain tr where tr: "heap s (running s) = Some tr" using running_alloc [OF p] by blast
  have ne: "a \<noteq> running s" using inv_members(3) [OF p, of "running s"] ready_queued [OF assms(4)] by auto
  have "map_of (threads s) (tcb_tid tr) = Some (running s)" using threads_at_iff [OF invD(3) [OF p]] tr by auto
  then have ids: "tcb_tid t \<noteq> tcb_tid tr" using at ne by auto
  note tk = ready_take [OF p assms(4)]
  have nr: "a \<notin> set (remove1 a (ready s (tcb_pr t)))"
    using inv_members(3) [OF tk, of a]
      ready_queued [of a "s\<lparr>ready := (ready s)(tcb_pr t := remove1 a (ready s (tcb_pr t)))\<rparr>" "tcb_pr t"] by auto
  have "a \<notin> set (blocked s)"
  proof
    assume "a \<in> set (blocked s)"
    then have "a \<in># queued (s\<lparr>ready := (ready s)(tcb_pr t := remove1 a (ready s (tcb_pr t)))\<rparr>)" by (simp add: queued_def)
    then show False using inv_members(3) [OF tk, of a] by simp
  qed
  then have rb: "remove1 a (blocked s @ [a]) = blocked s" by (simp add: remove1_append)
  show ?thesis
    using assms(2-5) at tr ne ids nr rb
    by (simp add: uthread_suspend_def uthread_resume_def ut_disableInterrupts_def ut_enableInterrupts_def deref_def
        removeFromReady_def translatePriority_def threads_at_def modify_def return_to_user_def addToReady_def
        removeFromBlock_def)
qed

lemma suspend_resume_witness:
  "\<exists>s. runs (uthread_create (ut_start 0 0)) (\<lambda>(r, u). u = s) \<and> runs (uthread_suspend 1 s) (\<lambda>(r, u). r = Ret SUCCESS)"
proof -
  obtain r s where s: "uthread_create (ut_start 0 0) = Inr (r, s)" "interrupts_enabled s" "heap s 1 = Some (new_tcb 1 ORANGE READY)"
      "ready s = (\<lambda>_. [])(ORANGE := [1])"
    by (simp add: ut_eval ut_eval_calls)
  have "ut_inv s" using create_inv [OF ut_start_inv] s(1) by (metis (mono_tags, lifting) case_prod_conv safeD)
  from suspend_resume [OF this s(2,3)] s show ?thesis
    by (auto simp: new_tcb_def MAIN_THREAD_def intro!: exI [of _ s] elim!: runs_mono)
qed

text \<open>
  C29.  The spin lock excludes: in every reachable state at most one thread is inside,
  and the flag is set exactly when one is.
\<close>

theorem spin_lock_excludes:
  assumes "spin_reachable (f, at)"
  shows "(at i = Inside \<longrightarrow> at j = Inside \<longrightarrow> i = j) \<and> (f \<longleftrightarrow> (\<exists>k. at k = Inside))"
  using spin_reachable_inv [OF assms] by (auto simp: spin_inv_def)

lemma spin_lock_excludes_witness:
  "\<exists>f at. spin_reachable (f, at) \<and> at 0 = Inside \<and> at 1 = Spinning \<and>
     (at 0 = Inside \<longrightarrow> at 1 = Inside \<longrightarrow> (0::nat) = 1) \<and> (f \<longleftrightarrow> (\<exists>k. at k = Inside))"
proof -
  have "spin_reachable (False, (\<lambda>_. Outside)(0 := Spinning))"
    by (rule spin_reachable.step [OF spin_reachable.start]) (rule spin_step.call, simp)
  moreover have "spin_step (False, (\<lambda>_. Outside)(0 := Spinning)) (True, (\<lambda>_. Outside)(0 := Inside))"
    using spin_step.turn [of "(\<lambda>_. Outside)(0 := Spinning)" 0 False] by (simp add: spin_try_def test_and_set_def)
  ultimately have "spin_reachable (True, (\<lambda>_. Outside)(0 := Inside))" by (rule spin_reachable.step)
  moreover have "spin_step (True, (\<lambda>_. Outside)(0 := Inside)) (True, (\<lambda>_. Outside)(0 := Inside, 1 := Spinning))"
    by (rule spin_step.call) simp
  ultimately have r: "spin_reachable (True, (\<lambda>_. Outside)(0 := Inside, 1 := Spinning))" by (rule spin_reachable.step)
  show ?thesis
    using spin_lock_excludes [OF r, of 0 1] r by (intro exI [of _ True] exI [of _ "(\<lambda>_. Outside)(0 := Inside, 1 := Spinning)"]) auto
qed

text \<open>
  C39.  Asynchronous reading yields once per poll while the request is in progress, and
  returns the count of bytes when it ends well; every failure is reported as 0.
\<close>

theorem async_io_result:
  assumes "request ((getAioStructure fd num_bytes off junk)\<lparr>aio_buf := buf\<rparr>) =
     (ret, replicate n EINPROGRESS @ [e, e'], res)" "e \<noteq> EINPROGRESS"
  shows "async_read request junk fd buf num_bytes off =
     Some (if ret \<noteq> 0 then (0, 0) else (if e' \<noteq> 0 then 0 else res, n)) \<and>
   async_write request junk fd buf num_bytes off =
     Some (if ret \<noteq> 0 then (0, 0) else (if e' \<noteq> 0 then 0 else res, n))"
  using assms(1) wait_loop_replicate [OF assms(2), of n "[e']"]
  by (simp add: async_read_def async_write_def getSsize_def)

lemma async_io_result_witness:
  "async_read (\<lambda>s. (0, replicate 3 EINPROGRESS @ [0, 0], aio_nbytes s)) 0 5 99 512 0 = Some (512, 3) \<and>
   async_write (\<lambda>s. (0, replicate 1 EINPROGRESS @ [28, 28], -1)) 0 5 99 512 0 = Some (0, 1)"
  using async_io_result [where request = "\<lambda>s. (0, replicate 3 EINPROGRESS @ [0, 0], aio_nbytes s)"
        and fd = 5 and num_bytes = 512 and off = 0 and junk = 0 and buf = 99 and ret = 0 and n = 3
        and e = 0 and e' = 0 and res = 512]
    async_io_result [where request = "\<lambda>s. (0, replicate 1 EINPROGRESS @ [28, 28], -1)"
        and fd = 5 and num_bytes = 512 and off = 0 and junk = 0 and buf = 99 and ret = 0 and n = 1
        and e = 28 and e' = 28 and res = "-1"]
  by (simp add: getAioStructure_def EINPROGRESS_def)

text \<open>
  C4.  Mutual exclusion.  In every state of a program that unlocks only locks it holds,
  waits and signals only while holding the lock of the condition variable and while no
  hand-over is pending, at most one thread holds a lock and is not parked on one of its
  condition variables.
\<close>

theorem locks_exclude:
  assumes "proper_run L s H" "(a, l) \<in> H" "(b, l) \<in> H" "a \<notin> monitor L s l" "b \<notin> monitor L s l"
  shows "a = b"
  using proper_run_inv [OF assms(1)] held_once [OF _ assms(2-5)] by blast

lemma locks_exclude_witness:
  "\<exists>s H. proper_run (\<lambda>_. 0) s H \<and> (0, 0) \<in> H \<and> 0 \<notin> monitor (\<lambda>_. 0) s 0 \<and> 1 \<in> waiting_for s 0 \<and>
     (\<forall>b. (b, 0) \<in> H \<longrightarrow> b \<notin> monitor (\<lambda>_. 0) s 0 \<longrightarrow> b = 0)"
proof -
  have "\<exists>s H. prun (\<lambda>_. 0) [Create, LockCall 0, Yield, Create, LockCall 0, Create] (ut_start 1 1) {} = Some (s, H) \<and>
      (0, 0) \<in> H \<and> 0 \<notin> monitor (\<lambda>_. 0) s 0 \<and> 1 \<in> waiting_for s 0"
    by (simp add: ut_eval ut_eval_calls ut_step_def holds_after_def monitor_def mon_def slot_def parked_def waiting_for_def cv_places_def)
  then obtain s H where s: "prun (\<lambda>_. 0) [Create, LockCall 0, Yield, Create, LockCall 0, Create] (ut_start 1 1) {} = Some (s, H)"
      "(0, 0) \<in> H" "0 \<notin> monitor (\<lambda>_. 0) s 0" "1 \<in> waiting_for s 0" by blast
  have "proper_run (\<lambda>_. 0) s H" by (rule prun_proper [OF proper_run.start s(1)])
  then show ?thesis using s(2-4) locks_exclude [OF _ _ s(2) _ s(3)] by blast
qed

text \<open>
  C23.  Such a program never loses or duplicates a thread: in all its states the running
  thread and the queues hold every allocated thread exactly once.
\<close>

theorem proper_programs_lose_no_thread:
  assumes "proper_run L s H"
  shows "ut_inv s"
  using proper_run_inv [OF assms] by blast

lemma proper_programs_lose_no_thread_witness:
  "\<exists>s H. prun (\<lambda>_. 0) [Create, LockCall 0, Wait 0 0, Create, LockCall 0, Signal 0, Create, UnlockCall 0] (ut_start 1 1) {} = Some (s, H) \<and>
     running s = 1 \<and> ready s ORANGE = [0] \<and> ut_inv s"
proof -
  obtain s H where s: "prun (\<lambda>_. 0) [Create, LockCall 0, Wait 0 0, Create, LockCall 0, Signal 0, Create, UnlockCall 0] (ut_start 1 1) {} = Some (s, H)"
      "running s = 1" "ready s ORANGE = [0]"
    by (simp add: ut_eval ut_eval_calls ut_step_def holds_after_def no_handover_def)
  then show ?thesis using proper_programs_lose_no_thread [OF prun_proper [OF proper_run.start s(1)]] by blast
qed

text \<open>
  C24.  Interrupts are enabled exactly while the running thread is in user code, in every
  state that calls and switches lead to, and no other thread is in user code.
\<close>

theorem interrupts_only_in_user_code:
  assumes "ut_reachable nl nc s"
  shows "(interrupts_enabled s \<longleftrightarrow> conts s (running s) = User) \<and>
    (\<forall>a. a \<noteq> running s \<longrightarrow> heap s a \<noteq> None \<longrightarrow> conts s a \<noteq> User)"
  using reachable_discipline [OF assms]
  by (auto simp: in_user_def in_library_def just_switched_def others_stopped_def split: if_splits)

lemma interrupts_only_in_user_code_witness:
  "\<exists>s. ut_reachable 0 0 s \<and> \<not> interrupts_enabled s \<and> conts s 0 = AfterYield"
proof -
  obtain r s where c: "ut_step Create (ut_start 0 0) = Inr (r, s)" "\<exists>r t. ut_step Yield s = Inr (r, t) \<and> running t = 1 \<and> conts t 0 = AfterYield \<and> conts t 1 = Start"
    by (simp add: ut_eval ut_eval_calls ut_step_def)
  then obtain r' t where t: "ut_step Yield s = Inr (r', t)" "running t = 1" "conts t 0 = AfterYield" "conts t 1 = Start" by blast
  have "ut_reachable 0 0 t"
    by (rule ut_reachable.step [OF ut_reachable.step [OF ut_reachable.start c(1)] t(1)])
  from interrupts_only_in_user_code [OF this] this t show ?thesis by (intro exI [of _ t]) auto
qed

end
