(* ===== verification/FsDisk.thy ===== *)
theory FsDisk
  imports Prelude
begin

unbundle bit_operations_syntax

text \<open>
  The block device of the file system, \<open>project_4/disk.c\<close>, and the four views of a
  block, \<open>project_4/data_structures.h\<close>.  A block is the byte array \<open>data\<close> of the union
  \<open>fs_block\<close>; the other members read and write the same bytes as little-endian 32-bit
  integers.  Only offsets 0 to 4095 of a block are ever used.
\<close>

definition DISK_BLOCK_SIZE :: int where "DISK_BLOCK_SIZE = 4096"
definition INODES_PER_BLOCK :: int where "INODES_PER_BLOCK = 128"
definition POINTERS_PER_INODE :: int where "POINTERS_PER_INODE = 5"
definition POINTERS_PER_BLOCK :: int where "POINTERS_PER_BLOCK = 1024"

lemmas fs_sizes = DISK_BLOCK_SIZE_def INODES_PER_BLOCK_def POINTERS_PER_INODE_def POINTERS_PER_BLOCK_def

section \<open>Views of a block\<close>

type_synonym block = mem
type_synonym i32 = "32 word"

text \<open>\<open>pointers[k]\<close>: the \<open>k\<close>-th integer of the block.\<close>

definition get_int :: "block \<Rightarrow> int \<Rightarrow> i32" where
  "get_int b k = ucast (b (4 * k)) OR push_bit 8 (ucast (b (4 * k + 1))) OR
     push_bit 16 (ucast (b (4 * k + 2))) OR push_bit 24 (ucast (b (4 * k + 3)))"

definition put_int :: "block \<Rightarrow> int \<Rightarrow> i32 \<Rightarrow> block" where
  "put_int b k w = b(4 * k := ucast w, 4 * k + 1 := ucast (drop_bit 8 w),
     4 * k + 2 := ucast (drop_bit 16 w), 4 * k + 3 := ucast (drop_bit 24 w))"

definition zero_block :: block where
  "zero_block = (\<lambda>_. 0)"

record fs_superblock =
  magic :: i32
  sb_nblocks :: i32
  ninodeblocks :: i32
  ninodes :: i32

record fs_inode =
  isvalid :: i32
  i_size :: i32
  direct :: "i32 list"
  indirect :: i32

definition get_super :: "block \<Rightarrow> fs_superblock" where
  "get_super b = \<lparr>magic = get_int b 0, sb_nblocks = get_int b 1, ninodeblocks = get_int b 2, ninodes = get_int b 3\<rparr>"

definition put_super :: "block \<Rightarrow> fs_superblock \<Rightarrow> block" where
  "put_super b sb = put_int (put_int (put_int (put_int b 0 (magic sb)) 1 (sb_nblocks sb)) 2 (ninodeblocks sb)) 3 (ninodes sb)"

text \<open>\<open>inode[j]\<close>: eight integers from the integer \<open>8 j\<close> on.\<close>

definition get_inode_at :: "block \<Rightarrow> int \<Rightarrow> fs_inode" where
  "get_inode_at b j = \<lparr>isvalid = get_int b (8 * j), i_size = get_int b (8 * j + 1),
     direct = map (\<lambda>k. get_int b (8 * j + 2 + int k)) [0..<5], indirect = get_int b (8 * j + 7)\<rparr>"

definition put_inode_at :: "block \<Rightarrow> int \<Rightarrow> fs_inode \<Rightarrow> block" where
  "put_inode_at b j ino =
     put_int (foldl (\<lambda>b k. put_int b (8 * j + 2 + int k) (direct ino ! k))
       (put_int (put_int b (8 * j) (isvalid ino)) (8 * j + 1) (i_size ino)) [0..<5]) (8 * j + 7) (indirect ino)"

definition empty_inode :: fs_inode where
  "empty_inode = \<lparr>isvalid = 0, i_size = 0, direct = replicate 5 0, indirect = 0\<rparr>"

section \<open>The device\<close>

text \<open>
  \<open>nreads\<close> and \<open>nwrites\<close> are statistics, printed at the end; they are counted without
  a bound.
\<close>

record fs_disk =
  nblocks :: int
  nreads :: int
  nwrites :: int
  blocks :: "int \<Rightarrow> block"

text \<open>The device before \<open>disk_init\<close>.\<close>

definition no_disk :: fs_disk where
  "no_disk = \<lparr>nblocks = 0, nreads = 0, nwrites = 0, blocks = (\<lambda>_. zero_block)\<rparr>"

text \<open>
  \<open>open_ok\<close> tells whether one of the two calls of \<open>fopen\<close> succeeds, \<open>old\<close> is the file found.
  \<open>ftruncate\<close> cuts it or extends it with zeros.
\<close>

definition disk_init :: "bool \<Rightarrow> region \<Rightarrow> int \<Rightarrow> fs_disk \<Rightarrow> (int \<times> fs_disk) result" where
  "disk_init open_ok old n d =
     (if \<not> open_ok then Inr (0, d)
      else bindE (int_mul n DISK_BLOCK_SIZE) (\<lambda>_.
        Inr (1, \<lparr>nblocks = n, nreads = 0, nwrites = 0,
          blocks = (\<lambda>b i. if b * DISK_BLOCK_SIZE + i < reg_len old then reg_data old (b * DISK_BLOCK_SIZE + i) else 0)\<rparr>)))"

definition disk_size :: "fs_disk \<Rightarrow> int" where
  "disk_size d = nblocks d"

definition sanity_check :: "int \<Rightarrow> fs_disk \<Rightarrow> unit result" where
  "sanity_check blocknum d =
     (if blocknum < 0 then Inl Abort else if blocknum \<ge> nblocks d then Inl Abort else Inr ())"

definition disk_read :: "int \<Rightarrow> fs_disk \<Rightarrow> (block \<times> fs_disk) result" where
  "disk_read blocknum d =
     bindE (sanity_check blocknum d) (\<lambda>_.
     bindE (int_mul blocknum DISK_BLOCK_SIZE) (\<lambda>_.
     Inr (blocks d blocknum, d\<lparr>nreads := nreads d + 1\<rparr>)))"

definition disk_write :: "int \<Rightarrow> block \<Rightarrow> fs_disk \<Rightarrow> fs_disk result" where
  "disk_write blocknum data d =
     bindE (sanity_check blocknum d) (\<lambda>_.
     bindE (int_mul blocknum DISK_BLOCK_SIZE) (\<lambda>_.
     Inr (d\<lparr>blocks := (blocks d)(blocknum := data), nwrites := nwrites d + 1\<rparr>)))"

section \<open>Reading what was written\<close>

lemma get_put_int_same: "get_int (put_int b k w) k = w"
proof (rule bit_word_eqI)
  fix n assume n: "n < LENGTH(32)"
  then consider "n < 8" | "8 \<le> n" "n < 16" | "16 \<le> n" "n < 24" | "24 \<le> n" "n < 32" by fastforce
  then show "bit (get_int (put_int b k w) k) n = bit w n"
    by cases (auto simp: get_int_def put_int_def bit_simps)
qed

lemma get_put_int_other: "k \<noteq> k' \<Longrightarrow> get_int (put_int b k w) k' = get_int b k'"
proof -
  assume "k \<noteq> k'"
  then have "4 * k + i \<noteq> 4 * k' + j" if "0 \<le> i" "i < 4" "0 \<le> j" "j < 4" for i j :: int using that by presburger
  from this [of 0 0] this [of 0 1] this [of 0 2] this [of 0 3] this [of 1 0] this [of 1 1] this [of 1 2] this [of 1 3]
    this [of 2 0] this [of 2 1] this [of 2 2] this [of 2 3] this [of 3 0] this [of 3 1] this [of 3 2] this [of 3 3]
  show ?thesis by (simp add: get_int_def put_int_def)
qed

lemma get_put_int: "get_int (put_int b k w) k' = (if k = k' then w else get_int b k')"
  by (simp add: get_put_int_same get_put_int_other)

lemma get_int_zero [simp]: "get_int zero_block k = 0"
  by (simp add: get_int_def zero_block_def)

lemma get_super_put_super [simp]: "get_super (put_super b sb) = sb"
  by (simp add: get_super_def put_super_def get_put_int)

text \<open>The integers of an inode, one by one.\<close>

lemma get_int_put_inode_at:
  "get_int (put_inode_at b j ino) k =
    (if k = 8 * j then isvalid ino else if k = 8 * j + 1 then i_size ino
     else if 8 * j + 2 \<le> k \<and> k < 8 * j + 7 then direct ino ! nat (k - 8 * j - 2)
     else if k = 8 * j + 7 then indirect ino else get_int b k)"
proof -
  have p: "put_inode_at b j ino = put_int (put_int (put_int (put_int (put_int (put_int (put_int (put_int b (8 * j) (isvalid ino))
      (8 * j + 1) (i_size ino)) (8 * j + 2) (direct ino ! 0)) (8 * j + 3) (direct ino ! 1)) (8 * j + 4) (direct ino ! 2))
      (8 * j + 5) (direct ino ! 3)) (8 * j + 6) (direct ino ! 4)) (8 * j + 7) (indirect ino)"
    by (simp add: put_inode_at_def upt_rec numeral_2_eq_2 numeral_3_eq_3 eval_nat_numeral ac_simps)
  have "8 * j + 2 \<le> k \<and> k < 8 * j + 7 \<longleftrightarrow> k \<in> {8 * j + 2, 8 * j + 3, 8 * j + 4, 8 * j + 5, 8 * j + 6}" by auto
  then show ?thesis by (auto simp: p get_put_int)
qed

lemma get_put_inode_same:
  assumes "length (direct ino) = 5"
  shows "get_inode_at (put_inode_at b j ino) j = ino"
proof -
  have "map (\<lambda>k. get_int (put_inode_at b j ino) (8 * j + 2 + int k)) [0..<5] = map (\<lambda>k. direct ino ! k) [0..<5]"
    by (rule map_cong [OF refl]) (simp add: get_int_put_inode_at)
  also have "\<dots> = direct ino" using map_nth [of "direct ino"] assms by simp
  finally show ?thesis by (simp add: get_inode_at_def get_int_put_inode_at)
qed

lemma get_put_inode_other:
  assumes "j \<noteq> j'"
  shows "get_inode_at (put_inode_at b j ino) j' = get_inode_at b j'"
proof -
  have "get_int (put_inode_at b j ino) (8 * j' + i) = get_int b (8 * j' + i)" if "0 \<le> i" "i < 8" for i
  proof -
    have "8 * j' + i < 8 * j \<or> 8 * j + 7 < 8 * j' + i" using assms that by presburger
    then show ?thesis by (auto simp: get_int_put_inode_at)
  qed
  from this [of 0] this [of 1] this [of "2 + int k" for k] this [of 7]
  have i: "get_int (put_inode_at b j ino) (8 * j') = get_int b (8 * j')"
     "get_int (put_inode_at b j ino) (8 * j' + 1) = get_int b (8 * j' + 1)"
     "get_int (put_inode_at b j ino) (8 * j' + 7) = get_int b (8 * j' + 7)"
     "\<And>k. k < 5 \<Longrightarrow> get_int (put_inode_at b j ino) (8 * j' + 2 + int k) = get_int b (8 * j' + 2 + int k)"
    by (simp_all add: add.assoc)
  then show ?thesis by (simp add: get_inode_at_def)
qed

lemma get_inode_zero [simp]: "get_inode_at zero_block j = empty_inode"
  by (simp add: get_inode_at_def empty_inode_def map_replicate_const)

lemma length_direct [simp]: "length (direct (get_inode_at b j)) = 5"
  by (simp add: get_inode_at_def)

text \<open>Within the disk, and with offsets that fit an \<open>int\<close>, reading and writing succeed.\<close>

lemma disk_read_ok:
  assumes "0 \<le> b" "b < nblocks d" "nblocks d * DISK_BLOCK_SIZE \<le> INT_MAX"
  shows "disk_read b d = Inr (blocks d b, d\<lparr>nreads := nreads d + 1\<rparr>)"
  using assms int_mul_ok [of b "nblocks d" DISK_BLOCK_SIZE] by (simp add: disk_read_def sanity_check_def DISK_BLOCK_SIZE_def)

lemma disk_write_ok:
  assumes "0 \<le> b" "b < nblocks d" "nblocks d * DISK_BLOCK_SIZE \<le> INT_MAX"
  shows "disk_write b x d = Inr (d\<lparr>blocks := (blocks d)(b := x), nwrites := nwrites d + 1\<rparr>)"
  using assms int_mul_ok [of b "nblocks d" DISK_BLOCK_SIZE] by (simp add: disk_write_def sanity_check_def DISK_BLOCK_SIZE_def)

lemma disk_out_of_range:
  "b < 0 \<or> nblocks d \<le> b \<Longrightarrow> disk_read b d = Inl Abort \<and> disk_write b x d = Inl Abort"
  by (auto simp: disk_read_def disk_write_def sanity_check_def)

end
