(* ===== verification/FsCache.thy ===== *)
theory FsCache
  imports FsDisk
begin

text \<open>
  The inode cache of the file system: \<open>project_4/cache.c\<close> and \<open>project_4/inode_utilities.h\<close>.
  The doubly linked list between the two sentinels is the list \<open>nodes\<close>, least recently
  used first.  Inodes live on a heap, because the file system works on them through
  the pointers the cache hands out; a freed inode has no value there.  Allocation
  never fails.
\<close>

section \<open>The state\<close>

record node =
  n_inumber :: int
  n_inode :: nat
  n_dirty :: bool

record cache =
  capacity :: int
  current_size :: int
  nodes :: "node list"
  c_alive :: bool

text \<open>
  The globals of \<open>fs.c\<close>, with the device and the heap.  \<open>stale a\<close> is what \<open>malloc\<close> leaves in
  \<open>is_dirty\<close> of the node made for the inode at \<open>a\<close>, which \<open>insert_in_the_end\<close> does not set.
  After \<open>destroy\<close> the pointer \<open>cache\<close> is still there, but the sentinels are freed:
  \<open>c_alive\<close> is false.
\<close>

record fs =
  dev :: fs_disk
  block_freemap :: "int list option"
  inode_freemap :: "int list option"
  numblocks :: int
  numinodes :: int
  the_cache :: "cache option"
  heap_inodes :: "nat \<Rightarrow> fs_inode option"
  next_inode :: nat
  stale :: "nat \<Rightarrow> bool"

definition fs_init :: "fs_disk \<Rightarrow> (nat \<Rightarrow> bool) \<Rightarrow> fs" where
  "fs_init d st = \<lparr>dev = d, block_freemap = None, inode_freemap = None, numblocks = -1, numinodes = -1,
     the_cache = None, heap_inodes = (\<lambda>_. None), next_inode = 0, stale = st\<rparr>"

definition read_block :: "int \<Rightarrow> fs \<Rightarrow> (block \<times> fs) result" where
  "read_block b s = bindE (disk_read b (dev s)) (\<lambda>(x, d). Inr (x, s\<lparr>dev := d\<rparr>))"

definition write_block :: "int \<Rightarrow> block \<Rightarrow> fs \<Rightarrow> fs result" where
  "write_block b x s = bindE (disk_write b x (dev s)) (\<lambda>d. Inr (s\<lparr>dev := d\<rparr>))"

definition inode_ptr :: "nat \<Rightarrow> fs \<Rightarrow> fs_inode result" where
  "inode_ptr a s = (case heap_inodes s a of None \<Rightarrow> Inl UseAfterFree | Some ino \<Rightarrow> Inr ino)"

definition free_inode :: "nat \<Rightarrow> fs \<Rightarrow> fs result" where
  "free_inode a s = bindE (inode_ptr a s) (\<lambda>_. Inr (s\<lparr>heap_inodes := (heap_inodes s)(a := None)\<rparr>))"

definition live_cache :: "fs \<Rightarrow> cache result" where
  "live_cache s = (case the_cache s of None \<Rightarrow> Inl NullDeref | Some c \<Rightarrow> if c_alive c then Inr c else Inl UseAfterFree)"

section \<open>Inodes on the disk\<close>

text \<open>The quotient and remainder truncate; a negative index is out of bounds.\<close>

definition inode_index :: "int \<Rightarrow> int result" where
  "inode_index inumber =
     (let j = inumber smod INODES_PER_BLOCK in if j < 0 then Inl OutOfBounds else Inr j)"

definition inode_out_of_range :: "int \<Rightarrow> fs \<Rightarrow> bool" where
  "inode_out_of_range inumber s \<longleftrightarrow>
     numinodes s = -1 \<or> 1 + inumber sdiv INODES_PER_BLOCK \<ge> numinodes s sdiv INODES_PER_BLOCK"

definition inode_load :: "int \<Rightarrow> fs \<Rightarrow> (fs_inode option \<times> fs) result" where
  "inode_load inumber s =
     (if inode_out_of_range inumber s then Inr (None, s)
      else bindE (read_block (1 + inumber sdiv INODES_PER_BLOCK) s) (\<lambda>(x, s).
           bindE (inode_index inumber) (\<lambda>j. Inr (Some (get_inode_at x j), s))))"

text \<open>\<open>src\<close> is what dereferencing the inode's pointer gives.\<close>

definition inode_save :: "int \<Rightarrow> fs_inode result \<Rightarrow> fs \<Rightarrow> (bool \<times> fs) result" where
  "inode_save inumber src s =
     (if inode_out_of_range inumber s then Inr (False, s)
      else bindE (read_block (1 + inumber sdiv INODES_PER_BLOCK) s) (\<lambda>(x, s).
           bindE (inode_index inumber) (\<lambda>j.
           bindE src (\<lambda>ino.
           bindE (write_block (1 + inumber sdiv INODES_PER_BLOCK) (put_inode_at x j ino) s) (\<lambda>s.
           Inr (True, s))))))"

section \<open>The cache\<close>

text \<open>The list up to the first node with the number, that node, and the rest.\<close>

fun find_node :: "int \<Rightarrow> node list \<Rightarrow> (node list \<times> node \<times> node list) option" where
  "find_node inumber [] = None"
| "find_node inumber (n # ns) =
     (if n_inumber n = inumber then Some ([], n, ns)
      else map_option (\<lambda>(xs, m, ys). (n # xs, m, ys)) (find_node inumber ns))"

text \<open>
  \<open>find_node_with_inumber\<close>: the search begins at the head sentinel, whose number is
  -1 and whose inode pointer is never set.
\<close>

definition find_node_with_inumber :: "int \<Rightarrow> cache \<Rightarrow> (node list \<times> node \<times> node list) option result" where
  "find_node_with_inumber inumber c =
     (if inumber = -1 then Inl Uninitialised else Inr (find_node inumber (nodes c)))"

text \<open>\<open>remove_node\<close> without \<open>move\<close>, apart from unlinking.\<close>

definition save_if_dirty :: "node \<Rightarrow> fs \<Rightarrow> fs result" where
  "save_if_dirty n s =
     (if n_dirty n then bindE (inode_save (n_inumber n) (inode_ptr (n_inode n) s) s) (\<lambda>(_, s). Inr s) else Inr s)"

text \<open>The size has grown past the capacity: the least recently used node leaves.\<close>

definition evict_lru :: "cache \<Rightarrow> node list \<Rightarrow> fs \<Rightarrow> fs result" where
  "evict_lru c ns s =
     bindE (save_if_dirty (hd ns) s) (\<lambda>s.
     bindE (if capacity c \<noteq> 0 then free_inode (n_inode (hd ns)) s else Inr s) (\<lambda>s.
     Inr (s\<lparr>the_cache := Some (c\<lparr>nodes := tl ns\<rparr>)\<rparr>)))"

text \<open>\<open>None\<close> is the null pointer.  When loading fails the new inode is leaked.\<close>

definition get_inode :: "int \<Rightarrow> fs \<Rightarrow> (nat option \<times> fs) result" where
  "get_inode inumber s =
     bindE (live_cache s) (\<lambda>c.
     bindE (find_node_with_inumber inumber c) (\<lambda>found.
     case found of
       Some (xs, n, ys) \<Rightarrow> Inr (Some (n_inode n), s\<lparr>the_cache := Some (c\<lparr>nodes := xs @ ys @ [n]\<rparr>)\<rparr>)
     | None \<Rightarrow>
         let a = next_inode s; s = s\<lparr>next_inode := a + 1\<rparr> in
         bindE (inode_load inumber s) (\<lambda>(res, s).
         case res of
           None \<Rightarrow> Inr (None, s)
         | Some ino \<Rightarrow>
             let s = s\<lparr>heap_inodes := (heap_inodes s)(a := Some ino)\<rparr>;
                 ns = nodes c @ [\<lparr>n_inumber = inumber, n_inode = a, n_dirty = stale s a\<rparr>] in
             bindE (int_inc (current_size c)) (\<lambda>size.
             if size > capacity c then bindE (evict_lru c ns s) (\<lambda>s. Inr (Some a, s))
             else Inr (Some a, s\<lparr>the_cache := Some (c\<lparr>nodes := ns, current_size := size\<rparr>)\<rparr>)))))"

definition remove_if_present :: "int \<Rightarrow> nat \<Rightarrow> fs \<Rightarrow> (bool \<times> fs) result" where
  "remove_if_present inumber corresponding_inode s =
     bindE (live_cache s) (\<lambda>c.
     bindE (find_node_with_inumber inumber c) (\<lambda>found.
     bindE (case found of
              Some (xs, n, ys) \<Rightarrow>
                bindE (save_if_dirty n s) (\<lambda>s.
                bindE (free_inode (n_inode n) s) (\<lambda>s.
                Inr (s\<lparr>the_cache := Some (c\<lparr>nodes := xs @ ys\<rparr>)\<rparr>)))
            | None \<Rightarrow> free_inode corresponding_inode s) (\<lambda>s.
     inode_save inumber (Inr empty_inode) s)))"

definition set_dirty :: "int \<Rightarrow> int \<Rightarrow> nat \<Rightarrow> fs \<Rightarrow> fs result" where
  "set_dirty inumber is_dirty corresponding_inode s =
     bindE (live_cache s) (\<lambda>c.
     bindE (find_node_with_inumber inumber c) (\<lambda>found.
     case found of
       Some (xs, n, ys) \<Rightarrow>
         bindE (assertE (corresponding_inode = n_inode n)) (\<lambda>_.
         Inr (s\<lparr>the_cache := Some (c\<lparr>nodes := xs @ n\<lparr>n_dirty := is_dirty \<noteq> 0\<rparr> # ys\<rparr>)\<rparr>))
     | None \<Rightarrow>
         bindE (inode_save inumber (inode_ptr corresponding_inode s) s) (\<lambda>(_, s). Inr s)))"

fun flush_nodes :: "node list \<Rightarrow> fs \<Rightarrow> (node list \<times> fs) result" where
  "flush_nodes [] s = Inr ([], s)"
| "flush_nodes (n # ns) s =
     bindE (save_if_dirty n s) (\<lambda>s.
     bindE (flush_nodes ns s) (\<lambda>(ms, s). Inr (n\<lparr>n_dirty := False\<rparr> # ms, s)))"

definition flush_cache :: "fs \<Rightarrow> fs result" where
  "flush_cache s =
     bindE (live_cache s) (\<lambda>c.
     bindE (flush_nodes (nodes c) s) (\<lambda>(ns, s). Inr (s\<lparr>the_cache := Some (c\<lparr>nodes := ns\<rparr>)\<rparr>)))"

definition new_cache :: "int \<Rightarrow> cache" where
  "new_cache cap = \<lparr>capacity = cap, current_size = 0, nodes = [], c_alive = True\<rparr>"

definition destroy_cache :: "fs \<Rightarrow> fs result" where
  "destroy_cache s =
     bindE (live_cache s) (\<lambda>c.
     bindE (foldE (\<lambda>n s. bindE (save_if_dirty n s) (free_inode (n_inode n))) (nodes c) s) (\<lambda>s.
     Inr (s\<lparr>the_cache := Some (c\<lparr>nodes := [], c_alive := False\<rparr>)\<rparr>)))"

end
