(* ===== verification/FsCore.thy ===== *)
theory FsCore
  imports FsCache
begin

unbundle bit_operations_syntax

text \<open>
  The file system calls of \<open>project_4/fs.c\<close>.  Buffers of the caller are byte memories; what the
  calls print is left out, except for \<open>fs_debug\<close>.  A partly initialised union
  (\<open>= {0}\<close>) is zero throughout, as GCC made it before version 15.
\<close>

lemma bindE_cong [fundef_cong]:
  "m = m' \<Longrightarrow> (\<And>x. m' = Inr x \<Longrightarrow> f x = g x) \<Longrightarrow> bindE m f = bindE m' g"
  by (cases m') simp_all

definition FS_MAGIC :: i32 where "FS_MAGIC = 0xf0f03410"

definition NUM_INODE_BLOCKS :: "int \<Rightarrow> int" where
  "NUM_INODE_BLOCKS n = 1 + n sdiv 10"

text \<open>An array behind a pointer that may be null.\<close>

definition arr_at :: "int list option \<Rightarrow> int \<Rightarrow> int result" where
  "arr_at a i = (case a of None \<Rightarrow> Inl NullDeref | Some xs \<Rightarrow> vec_at xs i)"

definition arr_set :: "int list option \<Rightarrow> int \<Rightarrow> int \<Rightarrow> int list option result" where
  "arr_set a i v = (case a of None \<Rightarrow> Inl NullDeref | Some xs \<Rightarrow> bindE (vec_set xs i v) (\<lambda>ys. Inr (Some ys)))"

definition mark_block :: "int \<Rightarrow> int \<Rightarrow> fs \<Rightarrow> fs result" where
  "mark_block b v s = bindE (arr_set (block_freemap s) b v) (\<lambda>m. Inr (s\<lparr>block_freemap := m\<rparr>))"

definition mark_inode :: "int \<Rightarrow> int \<Rightarrow> fs \<Rightarrow> fs result" where
  "mark_inode i v s = bindE (arr_set (inode_freemap s) i v) (\<lambda>m. Inr (s\<lparr>inode_freemap := m\<rparr>))"

text \<open>\<open>calloc\<close> of \<open>n\<close> integers; a negative count is a huge size, which it refuses.\<close>

definition calloc_ints :: "int \<Rightarrow> int list option" where
  "calloc_ints n = (if n < 0 then None else Some (replicate (nat n) 0))"

definition is_mounted :: "fs \<Rightarrow> bool" where
  "is_mounted s \<longleftrightarrow> block_freemap s \<noteq> None \<or> inode_freemap s \<noteq> None"

section \<open>Formatting and mounting\<close>

text \<open>\<open>junk\<close> is what the stack holds where the superblock's block is.\<close>

definition fs_format :: "block \<Rightarrow> fs \<Rightarrow> (int \<times> fs) result" where
  "fs_format junk s =
     (if is_mounted s then Inr (0, s)
      else
        let n = disk_size (dev s); ib = NUM_INODE_BLOCKS n;
            super = \<lparr>magic = FS_MAGIC, sb_nblocks = word_of_int n, ninodeblocks = word_of_int ib,
              ninodes = word_of_int (ib * INODES_PER_BLOCK)\<rparr>
        in bindE (foldE (\<lambda>i s. write_block (int i + 1) zero_block s) [0..<nat ib] s) (\<lambda>s.
           bindE (write_block 0 (put_super junk super) s) (\<lambda>s. Inr (1, s))))"

text \<open>Mark the blocks of a list of pointers with \<open>v\<close>, up to the first that is 0.\<close>

fun mark_until_zero :: "int \<Rightarrow> i32 list \<Rightarrow> fs \<Rightarrow> fs result" where
  "mark_until_zero v [] s = Inr s"
| "mark_until_zero v (p # ps) s =
     (if p \<noteq> 0 then bindE (mark_block (sint p) v s) (mark_until_zero v ps) else Inr s)"

definition pointers_of :: "block \<Rightarrow> i32 list" where
  "pointers_of x = map (\<lambda>k. get_int x (int k)) [0..<1024]"

definition mount_inode :: "int \<Rightarrow> fs_inode \<Rightarrow> fs \<Rightarrow> fs result" where
  "mount_inode i ino s =
     (if isvalid ino \<noteq> 0 then
        bindE (mark_inode i 1 s) (\<lambda>s.
        bindE (mark_until_zero 1 (direct ino) s) (\<lambda>s.
        if indirect ino \<noteq> 0 then
          bindE (mark_block (sint (indirect ino)) 1 s) (\<lambda>s.
          bindE (read_block (sint (indirect ino)) s) (\<lambda>(x, s).
          mark_until_zero 1 (pointers_of x) s))
        else Inr s))
      else Inr s)"

definition mount_inode_block :: "fs_superblock \<Rightarrow> nat \<Rightarrow> fs \<Rightarrow> fs result" where
  "mount_inode_block sb i s =
     bindE (assertE (int i + 1 < sint (sb_nblocks sb))) (\<lambda>_.
     bindE (read_block (int i + 1) s) (\<lambda>(x, s).
     bindE (mark_block (int i + 1) 1 s) (\<lambda>s.
     foldE (\<lambda>j s. mount_inode (int j + int i * INODES_PER_BLOCK) (get_inode_at x (int j)) s) [0..<128] s)))"

definition fs_mount :: "int \<Rightarrow> fs \<Rightarrow> (int \<times> fs) result" where
  "fs_mount cache_capacity s =
     bindE (read_block 0 s) (\<lambda>(x, s).
     let sb = get_super x in
     if magic sb \<noteq> FS_MAGIC then Inr (0, s)
     else
       let s = s\<lparr>numblocks := sint (sb_nblocks sb), numinodes := sint (ninodes sb),
             block_freemap := calloc_ints (sint (sb_nblocks sb))\<rparr> in
       if block_freemap s = None then Inr (0, s)
       else
         let s = s\<lparr>inode_freemap := calloc_ints (sint (ninodes sb))\<rparr> in
         if inode_freemap s = None then Inr (0, s)
         else
           bindE (mark_block 0 1 s) (\<lambda>s.
           bindE (foldE (mount_inode_block sb) [0..<nat (sint (ninodeblocks sb))]
             (s\<lparr>the_cache := Some (new_cache cache_capacity)\<rparr>)) (\<lambda>s. Inr (1, s))))"

definition fs_unmount :: "fs \<Rightarrow> (int \<times> fs) result" where
  "fs_unmount s =
     (if is_mounted s then
        bindE (destroy_cache s) (\<lambda>s.
        Inr (1, s\<lparr>block_freemap := None, numblocks := -1, inode_freemap := None, numinodes := -1\<rparr>))
      else Inr (0, s))"

section \<open>Debugging output\<close>

text \<open>What \<open>fs_debug\<close> prints: the superblock, then the used inodes with their blocks.\<close>

datatype debug_line =
    BadMagic
  | SuperLine i32 i32 i32
  | InodeLine int i32 "i32 list"
  | IndirectLine i32 "i32 list"

definition debug_inode :: "int \<Rightarrow> fs_inode \<Rightarrow> fs \<Rightarrow> (debug_line list \<times> fs) result" where
  "debug_inode i ino s =
     (if isvalid ino = 0 then Inr ([], s)
      else
        let l = InodeLine i (i_size ino) (takeWhile (\<lambda>p. p \<noteq> 0) (direct ino)) in
        if indirect ino = 0 then Inr ([l], s)
        else bindE (read_block (sint (indirect ino)) s) (\<lambda>(x, s).
          Inr ([l, IndirectLine (indirect ino) (takeWhile (\<lambda>p. p \<noteq> 0) (pointers_of x))], s)))"

definition debug_inode_block :: "fs_superblock \<Rightarrow> nat \<Rightarrow> debug_line list \<times> fs \<Rightarrow> (debug_line list \<times> fs) result" where
  "debug_inode_block sb i = (\<lambda>(out, s).
     bindE (assertE (int i + 1 < sint (sb_nblocks sb))) (\<lambda>_.
     bindE (read_block (int i + 1) s) (\<lambda>(x, s).
     foldE (\<lambda>j (out, s). bindE (debug_inode (int j + int i * INODES_PER_BLOCK) (get_inode_at x (int j)) s)
         (\<lambda>(ls, s). Inr (out @ ls, s))) [0..<128] (out, s))))"

definition fs_debug :: "fs \<Rightarrow> (debug_line list \<times> fs) result" where
  "fs_debug s =
     bindE (read_block 0 s) (\<lambda>(x, s).
     let sb = get_super x in
     if magic sb \<noteq> FS_MAGIC then Inr ([BadMagic], s)
     else
       bindE (if the_cache s \<noteq> None then flush_cache s else Inr s) (\<lambda>s.
       foldE (debug_inode_block sb) [0..<nat (sint (ninodeblocks sb))]
         ([SuperLine (sb_nblocks sb) (ninodeblocks sb) (ninodes sb)], s)))"

section \<open>Files\<close>

text \<open>The first inode that is free; \<open>-1\<close> when saving it fails, and when there is none.\<close>

fun create_in :: "nat list \<Rightarrow> fs \<Rightarrow> (int \<times> fs) result" where
  "create_in [] s = Inr (-1, s)"
| "create_in (i # is) s =
     bindE (arr_at (inode_freemap s) (int i)) (\<lambda>v.
     if v = 0 then
       bindE (inode_save (int i) (Inr (empty_inode\<lparr>isvalid := 1\<rparr>)) s) (\<lambda>(res, s).
       if \<not> res then Inr (-1, s)
       else bindE (mark_inode (int i) 1 s) (\<lambda>s. Inr (int i, s)))
     else create_in is s)"

definition fs_create :: "fs \<Rightarrow> (int \<times> fs) result" where
  "fs_create s = (if \<not> is_mounted s then Inr (-1, s) else create_in [0..<nat (numinodes s)] s)"

definition fs_delete :: "int \<Rightarrow> fs \<Rightarrow> (int \<times> fs) result" where
  "fs_delete inumber s =
     (if \<not> is_mounted s then Inr (0, s)
      else bindE (get_inode inumber s) (\<lambda>(res, s).
        case res of
          None \<Rightarrow> Inr (0, s)
        | Some a \<Rightarrow>
            bindE (inode_ptr a s) (\<lambda>ino.
            if isvalid ino = 0 then Inr (0, s)
            else
              bindE (mark_until_zero 0 (direct ino) s) (\<lambda>s.
              bindE (if indirect ino \<noteq> 0 then
                       bindE (read_block (sint (indirect ino)) s) (\<lambda>(x, s).
                       bindE (mark_until_zero 0 (pointers_of x) s) (mark_block (sint (indirect ino)) 0))
                     else Inr s) (\<lambda>s.
              bindE (remove_if_present inumber a s) (\<lambda>(ok, s).
              if \<not> ok then Inr (0, s)
              else bindE (mark_inode inumber 0 s) (\<lambda>s. Inr (1, s))))))))"

definition fs_getsize :: "int \<Rightarrow> fs \<Rightarrow> (int \<times> fs) result" where
  "fs_getsize inumber s =
     (if \<not> is_mounted s then Inr (-1, s)
      else bindE (get_inode inumber s) (\<lambda>(res, s).
        case res of
          None \<Rightarrow> Inr (-1, s)
        | Some a \<Rightarrow> bindE (inode_ptr a s) (\<lambda>ino. if isvalid ino = 0 then Inr (-1, s) else Inr (sint (i_size ino), s))))"

section \<open>Reading and writing\<close>

definition MAX_OFFSET :: int where
  "MAX_OFFSET = POINTERS_PER_INODE * DISK_BLOCK_SIZE + POINTERS_PER_BLOCK * DISK_BLOCK_SIZE"

definition is_arg_valid :: "int \<Rightarrow> int \<Rightarrow> int \<Rightarrow> fs \<Rightarrow> bool result" where
  "is_arg_valid inumber len offset s =
     (if len < 0 \<or> offset < 0 then Inr False
      else if inumber \<ge> numinodes s then Inr False
      else bindE (arr_at (inode_freemap s) inumber) (\<lambda>v.
        if v = 0 then Inr False
        else Inr (\<not> offset > MAX_OFFSET)))"

text \<open>\<open>pointers[k]\<close> with its bounds.\<close>

definition pointer_at :: "block \<Rightarrow> int \<Rightarrow> i32 result" where
  "pointer_at x k = (if 0 \<le> k \<and> k < POINTERS_PER_BLOCK then Inr (get_int x k) else Inl OutOfBounds)"

definition set_pointer :: "block \<Rightarrow> int \<Rightarrow> i32 \<Rightarrow> block result" where
  "set_pointer x k v = (if 0 \<le> k \<and> k < POINTERS_PER_BLOCK then Inr (put_int x k v) else Inl OutOfBounds)"

definition get_block_number_for_offset :: "nat \<Rightarrow> int \<Rightarrow> fs \<Rightarrow> (int \<times> fs) result" where
  "get_block_number_for_offset a offset s =
     bindE (inode_ptr a s) (\<lambda>ino.
     let p = offset sdiv DISK_BLOCK_SIZE in
     if p < POINTERS_PER_INODE then bindE (vec_at (direct ino) p) (\<lambda>b. Inr (sint b, s))
     else if indirect ino = 0 then Inr (0, s)
     else
       bindE (read_block (sint (indirect ino)) s) (\<lambda>(x, s).
       bindE (pointer_at x (p - POINTERS_PER_INODE)) (\<lambda>b. Inr (sint b, s))))"

fun find_free :: "int list \<Rightarrow> fs \<Rightarrow> int result" where
  "find_free [] s = Inr 0"
| "find_free (i # is) s = bindE (arr_at (block_freemap s) i) (\<lambda>v. if v = 0 then Inr i else find_free is s)"

definition find_free_block :: "fs \<Rightarrow> int result" where
  "find_free_block s = find_free [1 + NUM_INODE_BLOCKS (numblocks s)..numblocks s - 1] s"

definition set_inode :: "nat \<Rightarrow> fs_inode \<Rightarrow> fs \<Rightarrow> fs" where
  "set_inode a ino s = s\<lparr>heap_inodes := (heap_inodes s)(a := Some ino)\<rparr>"

text \<open>
  The block for a pointer beyond the direct ones: first a block for the pointers
  themselves if there is none yet.  The result is the block, or 0, and \<open>write_inode\<close>.
\<close>

definition new_indirect_block :: "nat \<Rightarrow> fs_inode \<Rightarrow> int \<Rightarrow> int \<Rightarrow> int \<Rightarrow> fs \<Rightarrow> (int \<times> int \<times> fs) result" where
  "new_indirect_block a ino p b write_inode s =
     bindE (if indirect ino = 0 then
              bindE (mark_block b 1 s) (\<lambda>s. bindE (find_free_block s) (\<lambda>b2. Inr (b, b2, s)))
            else Inr (sint (indirect ino), b, s)) (\<lambda>(ib, b, s).
     if b = 0 then bindE (mark_block ib 0 s) (\<lambda>s. Inr (0, write_inode, s))
     else
       bindE (if sint (indirect ino) \<noteq> ib
              then Inr (zero_block, 1, set_inode a (ino\<lparr>indirect := word_of_int ib\<rparr>) s)
              else bindE (read_block ib s) (\<lambda>(x, s). Inr (x, write_inode, s))) (\<lambda>(x, write_inode, s).
       bindE (set_pointer x (p - POINTERS_PER_INODE) (word_of_int b)) (\<lambda>x.
       bindE (write_block ib x s) (\<lambda>s. Inr (b, write_inode, s)))))"

definition create_new_data_block :: "nat \<Rightarrow> int \<Rightarrow> int \<Rightarrow> fs \<Rightarrow> (int \<times> int \<times> fs) result" where
  "create_new_data_block a offset write_inode s =
     (let p = offset sdiv DISK_BLOCK_SIZE in
      bindE (find_free_block s) (\<lambda>b.
      if b = 0 then Inr (0, write_inode, s)
      else
        bindE (inode_ptr a s) (\<lambda>ino.
        bindE (if p < POINTERS_PER_INODE then
                 bindE (vec_set (direct ino) p (word_of_int b)) (\<lambda>ds.
                 Inr (b, 1, set_inode a (ino\<lparr>direct := ds\<rparr>) s))
               else new_indirect_block a ino p b write_inode s) (\<lambda>(b, write_inode, s).
        if b = 0 then Inr (0, write_inode, s)
        else
          bindE (mark_block b 1 s) (\<lambda>s.
          bindE (write_block b zero_block s) (\<lambda>s. Inr (b, write_inode, s)))))))"

text \<open>Each turn of the two loops moves at least one byte.\<close>

lemma chunk_positive:
  "0 < left \<Longrightarrow> 0 < min left (DISK_BLOCK_SIZE - offset smod DISK_BLOCK_SIZE)"
proof -
  have "offset smod DISK_BLOCK_SIZE < DISK_BLOCK_SIZE"
  proof (cases "0 \<le> offset")
    case True
    then show ?thesis using smod_nonneg(3) [of offset DISK_BLOCK_SIZE] by (simp add: DISK_BLOCK_SIZE_def)
  next
    case False
    then have "offset smod DISK_BLOCK_SIZE = - ((- offset) mod DISK_BLOCK_SIZE)"
      by (simp add: signed_modulo_int_def signed_divide_int_def DISK_BLOCK_SIZE_def sgn_if minus_div_mult_eq_mod [symmetric])
    then show ?thesis by (simp add: DISK_BLOCK_SIZE_def)
  qed
  then show "0 < left \<Longrightarrow> 0 < min left (DISK_BLOCK_SIZE - offset smod DISK_BLOCK_SIZE)" by simp
qed

text \<open>The loop of \<open>fs_read\<close>: \<open>left\<close> bytes are still to be read, \<open>n\<close> have been read into \<open>buf\<close>.\<close>

function read_loop :: "nat \<Rightarrow> int \<Rightarrow> int \<Rightarrow> int \<Rightarrow> mem \<Rightarrow> fs \<Rightarrow> (int \<times> mem \<times> fs) result" where
  "read_loop a left offset n buf s =
     (if left \<le> 0 then Inr (n, buf, s)
      else
        let start = offset smod DISK_BLOCK_SIZE in
        bindE (get_block_number_for_offset a offset s) (\<lambda>(b, s).
        if b = 0 then Inr (n, buf, s)
        else
          let k = min left (DISK_BLOCK_SIZE - start) in
          bindE (read_block b s) (\<lambda>(x, s).
          bindE (int_add offset k) (\<lambda>offset'.
          read_loop a (left - k) offset' (n + k) (copy_bytes buf n x start k) s))))"
  by pat_completeness auto
termination
proof (relation "measure (\<lambda>(a, left, offset, n, buf, s). nat left)", goal_cases)
  case (2 a left offset n buf s start x y b s' k)
  then show ?case using chunk_positive [of left offset] by simp
qed simp

declare read_loop.simps [simp del]

definition fs_read :: "int \<Rightarrow> mem \<Rightarrow> int \<Rightarrow> int \<Rightarrow> fs \<Rightarrow> (int \<times> mem \<times> fs) result" where
  "fs_read inumber data len offset s =
     (if \<not> is_mounted s then Inr (0, data, s)
      else bindE (is_arg_valid inumber len offset s) (\<lambda>ok.
        if \<not> ok then Inr (0, data, s)
        else
          bindE (get_inode inumber s) (\<lambda>(res, s).
          case res of
            None \<Rightarrow> Inr (0, data, s)
          | Some a \<Rightarrow>
              bindE (inode_ptr a s) (\<lambda>ino.
              if isvalid ino = 0 then Inr (0, data, s)
              else bindE (int_add (sint (i_size ino)) (- offset)) (\<lambda>rest.
                read_loop a (min rest len) offset 0 data s)))))"

text \<open>The loop of \<open>fs_write\<close>: \<open>len\<close> bytes are still to be written, \<open>n\<close> have been written.\<close>

function write_loop :: "nat \<Rightarrow> mem \<Rightarrow> int \<Rightarrow> int \<Rightarrow> int \<Rightarrow> int \<Rightarrow> fs \<Rightarrow> (int \<times> int \<times> fs) result" where
  "write_loop a data len offset n write_inode s =
     (if len \<le> 0 then Inr (n, write_inode, s)
      else
        let start = offset smod DISK_BLOCK_SIZE in
        bindE (get_block_number_for_offset a offset s) (\<lambda>(b, s).
        bindE (if b = 0 then create_new_data_block a offset write_inode s else Inr (b, write_inode, s)) (\<lambda>(b, write_inode, s).
        if b = 0 then Inr (n, write_inode, s)
        else
          let k = min (DISK_BLOCK_SIZE - start) len in
          bindE (read_block b s) (\<lambda>(x, s).
          bindE (write_block b (copy_bytes x start data n k) s) (\<lambda>s.
          bindE (int_add offset k) (\<lambda>offset'.
          write_loop a data (len - k) offset' (n + k) write_inode s))))))"
  by pat_completeness auto
termination
proof (relation "measure (\<lambda>(a, data, len, offset, n, w, s). nat len)", goal_cases)
  case (2 a data len offset n w s)
  then show ?case using chunk_positive [of len offset] by (simp add: min.commute)
qed simp

declare write_loop.simps [simp del]

definition fs_write :: "int \<Rightarrow> mem \<Rightarrow> int \<Rightarrow> int \<Rightarrow> fs \<Rightarrow> (int \<times> fs) result" where
  "fs_write inumber data len offset s =
     (if \<not> is_mounted s then Inr (0, s)
      else bindE (is_arg_valid inumber len offset s) (\<lambda>ok.
        if \<not> ok then Inr (0, s)
        else
          bindE (get_inode inumber s) (\<lambda>(res, s).
          case res of
            None \<Rightarrow> Inr (0, s)
          | Some a \<Rightarrow>
              bindE (inode_ptr a s) (\<lambda>ino.
              bindE (write_loop a data len offset 0 (if isvalid ino = 0 then 1 else 0) (set_inode a (ino\<lparr>isvalid := 1\<rparr>) s))
                (\<lambda>(n, write_inode, s).
              bindE (int_add n offset) (\<lambda>written.
              bindE (inode_ptr a s) (\<lambda>ino.
              let write_inode = (if written > sint (i_size ino) then 1 else write_inode);
                  s = set_inode a (ino\<lparr>i_size := (if written > sint (i_size ino) then word_of_int written else i_size ino)\<rparr>) s
              in bindE (if write_inode \<noteq> 0 then set_dirty inumber write_inode a s else Inr s) (\<lambda>s. Inr (n, s)))))))))"

end
