(* ===== verification/FsCacheProps.thy ===== *)
theory FsCacheProps
  imports FsCache
begin

text \<open>
  The cache is invisible: \<open>table s i\<close> is inode \<open>i\<close> as the file system sees it, from the cache
  if it is there and from the disk otherwise.  Every cache operation keeps the
  invariant \<open>cache_inv\<close> and changes the table as an uncached operation would.  The inode of a
  number in \<open>X\<close> may have been changed through its pointer without being marked.
\<close>

abbreviation D :: "fs \<Rightarrow> int \<Rightarrow> block" where
  "D s \<equiv> blocks (dev s)"

definition nib :: "fs \<Rightarrow> int" where
  "nib s = numinodes s div 128"

text \<open>The inodes that can be loaded and saved.\<close>

definition reach :: "fs \<Rightarrow> int set" where
  "reach s = {i. 0 \<le> i \<and> i div 128 + 1 < nib s}"

definition disk_inode :: "fs \<Rightarrow> int \<Rightarrow> fs_inode" where
  "disk_inode s i = get_inode_at (D s (1 + i div 128)) (i mod 128)"

definition cnodes :: "fs \<Rightarrow> node list" where
  "cnodes s = (case the_cache s of Some c \<Rightarrow> nodes c | None \<Rightarrow> [])"

definition cached :: "node list \<Rightarrow> int \<Rightarrow> node option" where
  "cached ns i = find (\<lambda>n. n_inumber n = i) ns"

definition table :: "fs \<Rightarrow> int \<Rightarrow> fs_inode" where
  "table s i = (case cached (cnodes s) i of Some n \<Rightarrow> the (heap_inodes s (n_inode n)) | None \<Rightarrow> disk_inode s i)"

definition disk_ok :: "fs \<Rightarrow> bool" where
  "disk_ok s \<longleftrightarrow> nblocks (dev s) * DISK_BLOCK_SIZE \<le> INT_MAX \<and> 0 \<le> numinodes s \<and> nib s \<le> nblocks (dev s)"

definition node_ok :: "int set \<Rightarrow> fs \<Rightarrow> node \<Rightarrow> bool" where
  "node_ok X s n \<longleftrightarrow> n_inumber n \<in> reach s \<and> (\<exists>ino. heap_inodes s (n_inode n) = Some ino \<and> length (direct ino) = 5 \<and>
     (n_inumber n \<notin> X \<longrightarrow> \<not> n_dirty n \<longrightarrow> ino = disk_inode s (n_inumber n)))"

definition list_ok :: "cache \<Rightarrow> bool" where
  "list_ok c \<longleftrightarrow> c_alive c \<and> 0 \<le> capacity c \<and> capacity c < INT_MAX \<and> int (length (nodes c)) \<le> current_size c \<and>
     current_size c \<le> capacity c \<and> distinct (map n_inumber (nodes c)) \<and> distinct (map n_inode (nodes c))"

definition cache_inv :: "int set \<Rightarrow> fs \<Rightarrow> bool" where
  "cache_inv X s \<longleftrightarrow> disk_ok s \<and> (\<forall>a. heap_inodes s a \<noteq> None \<longrightarrow> a < next_inode s) \<and>
     (\<exists>c. the_cache s = Some c \<and> list_ok c) \<and> (\<forall>n \<in> set (cnodes s). node_ok X s n)"

section \<open>Looking up nodes\<close>

lemma find_node_Some: "find_node i ns = Some (xs, n, ys) \<Longrightarrow> ns = xs @ n # ys \<and> n_inumber n = i"
  by (induction ns arbitrary: xs) (auto split: if_splits)

lemma find_node_None: "find_node i ns = None \<longleftrightarrow> i \<notin> n_inumber ` set ns"
  by (induction ns) auto

lemma cached_None: "cached ns i = None \<longleftrightarrow> i \<notin> n_inumber ` set ns"
  unfolding cached_def by (induction ns) auto

lemma cached_Some:
  assumes "distinct (map n_inumber ns)"
  shows "cached ns i = Some n \<longleftrightarrow> n \<in> set ns \<and> n_inumber n = i"
  using assms unfolding cached_def by (induction ns) (auto simp: image_iff)

lemma cached_perm:
  assumes "distinct (map n_inumber ns)" "distinct (map n_inumber ms)" "set ms = set ns"
  shows "cached ms i = cached ns i"
proof (cases "cached ns i")
  case None
  then have "cached ms i = None" using assms(3) by (simp add: cached_None)
  then show ?thesis using None by simp
next
  case (Some n)
  then have "cached ms i = Some n" using cached_Some [OF assms(1)] cached_Some [OF assms(2)] assms(3) by simp
  then show ?thesis using Some by simp
qed

lemma node_numbers:
  assumes "distinct (map n_inumber ns)" "n \<in> set ns" "m \<in> set ns" "n_inumber n = n_inumber m"
  shows "n = m"
  using assms by (auto simp: distinct_map dest: inj_onD)

lemma node_pointers:
  assumes "distinct (map n_inode ns)" "n \<in> set ns" "m \<in> set ns" "n_inode n = n_inode m"
  shows "n = m"
  using assms by (auto simp: distinct_map dest: inj_onD)

section \<open>Loading and saving\<close>

lemma reachD:
  assumes "i \<in> reach s"
  shows "0 \<le> i" "1 + i div 128 < nib s" "1 \<le> 1 + i div 128" "0 \<le> i mod 128" "i \<noteq> -1"
  using assms by (auto simp: reach_def pos_imp_zdiv_nonneg_iff)

lemma trunc_nonneg:
  fixes i :: int
  assumes "0 \<le> i"
  shows "i sdiv 128 = i div 128" "i smod 128 = i mod 128"
  using assms smod_nonneg(1) [of i 128] by (simp_all add: signed_divide_int_def sgn_if)

lemma inode_in_range:
  assumes "disk_ok s" "i \<in> reach s"
  shows "\<not> inode_out_of_range i s" "inode_index i = Inr (i mod 128)"
    "read_block (1 + i sdiv INODES_PER_BLOCK) s = Inr (D s (1 + i div 128), s\<lparr>dev := (dev s)\<lparr>nreads := nreads (dev s) + 1\<rparr>\<rparr>)"
proof -
  note r = reachD [OF assms(2)]
  have n: "0 \<le> numinodes s" "nib s \<le> nblocks (dev s)" "nblocks (dev s) * DISK_BLOCK_SIZE \<le> INT_MAX"
    using assms(1) by (simp_all add: disk_ok_def)
  have q: "numinodes s sdiv 128 = nib s" using trunc_nonneg(1) [OF n(1)] by (simp add: nib_def)
  show "\<not> inode_out_of_range i s"
    using r n(1) by (simp add: inode_out_of_range_def INODES_PER_BLOCK_def trunc_nonneg q)
  show "inode_index i = Inr (i mod 128)"
    using r by (simp add: inode_index_def INODES_PER_BLOCK_def trunc_nonneg Let_def)
  have "disk_read (1 + i div 128) (dev s) = Inr (D s (1 + i div 128), (dev s)\<lparr>nreads := nreads (dev s) + 1\<rparr>)"
    by (rule disk_read_ok) (use r n in auto)
  then show "read_block (1 + i sdiv INODES_PER_BLOCK) s = Inr (D s (1 + i div 128), s\<lparr>dev := (dev s)\<lparr>nreads := nreads (dev s) + 1\<rparr>\<rparr>)"
    using r(1) by (simp add: read_block_def INODES_PER_BLOCK_def trunc_nonneg)
qed

text \<open>Only the statistics change.\<close>

definition reads :: "fs \<Rightarrow> fs \<Rightarrow> bool" where
  "reads s u \<longleftrightarrow> (\<exists>k. u = s\<lparr>dev := (dev s)\<lparr>nreads := k\<rparr>\<rparr>)"

lemma readsD:
  assumes "reads s u"
  shows "D u = D s" "nblocks (dev u) = nblocks (dev s)" "numblocks u = numblocks s" "numinodes u = numinodes s"
    "block_freemap u = block_freemap s" "inode_freemap u = inode_freemap s" "the_cache u = the_cache s"
    "heap_inodes u = heap_inodes s" "next_inode u = next_inode s" "stale u = stale s"
  using assms by (auto simp: reads_def)

lemma reads_refl [simp]: "reads s s"
  unfolding reads_def by (rule exI [of _ "nreads (dev s)"]) simp

lemma reads_trans: "reads s t \<Longrightarrow> reads t u \<Longrightarrow> reads s u"
  by (auto simp: reads_def)

lemma inode_load_runs:
  assumes "disk_ok s" "i \<in> reach s"
  shows "runs (inode_load i s) (\<lambda>(r, u). r = Some (disk_inode s i) \<and> reads s u)"
  using inode_in_range [OF assms] by (auto simp: inode_load_def disk_inode_def reads_def)

text \<open>The disk has changed at one inode.\<close>

definition saved :: "int \<Rightarrow> fs_inode \<Rightarrow> fs \<Rightarrow> fs \<Rightarrow> bool" where
  "saved i ino s u \<longleftrightarrow> (\<exists>d. u = s\<lparr>dev := d\<rparr> \<and> nblocks d = nblocks (dev s)) \<and>
     disk_inode u = (disk_inode s)(i := ino) \<and>
     (\<forall>b. b < 1 \<or> nib s \<le> b \<longrightarrow> D u b = D s b)"

lemma inode_save_runs:
  assumes "disk_ok s" "i \<in> reach s" "length (direct ino) = 5"
  shows "runs (inode_save i (Inr ino) s) (\<lambda>(r, u). r \<and> saved i ino s u)"
proof -
  note r = reachD [OF assms(2)]
  let ?s = "s\<lparr>dev := (dev s)\<lparr>nreads := nreads (dev s) + 1\<rparr>\<rparr>"
  let ?b = "1 + i div 128"
  let ?x = "put_inode_at (D s ?b) (i mod 128) ino"
  have "disk_write ?b ?x (dev ?s) = Inr ((dev ?s)\<lparr>blocks := (D ?s)(?b := ?x), nwrites := nwrites (dev ?s) + 1\<rparr>)"
    by (rule disk_write_ok) (use r assms(1) in \<open>auto simp: disk_ok_def\<close>)
  then have "write_block ?b ?x ?s = Inr (?s\<lparr>dev := (dev ?s)\<lparr>blocks := (D ?s)(?b := ?x), nwrites := nwrites (dev ?s) + 1\<rparr>\<rparr>)"
    by (simp add: write_block_def)
  moreover have "saved i ino s (?s\<lparr>dev := (dev ?s)\<lparr>blocks := (D ?s)(?b := ?x), nwrites := nwrites (dev ?s) + 1\<rparr>\<rparr>)"
  proof -
    have "get_inode_at (((D s)(?b := ?x)) (1 + j div 128)) (j mod 128) = (if j = i then ino else disk_inode s j)" for j
    proof (cases "j div 128 = i div 128")
      case True
      then have "j = i \<longleftrightarrow> j mod 128 = i mod 128" by (metis div_mult_mod_eq)
      then show ?thesis
        using True assms(3) by (auto simp: get_put_inode_same get_put_inode_other disk_inode_def)
    next
      case False
      then show ?thesis by (auto simp: disk_inode_def)
    qed
    then have "disk_inode (?s\<lparr>dev := (dev ?s)\<lparr>blocks := (D ?s)(?b := ?x), nwrites := nwrites (dev ?s) + 1\<rparr>\<rparr>) = (disk_inode s)(i := ino)"
      by (simp add: disk_inode_def fun_eq_iff)
    then show ?thesis using r by (auto simp: saved_def)
  qed
  ultimately show ?thesis
    using inode_in_range [OF assms(1,2)] r(1) by (simp add: inode_save_def INODES_PER_BLOCK_def trunc_nonneg)
qed

lemma savedD:
  assumes "saved i ino s u"
  shows "nblocks (dev u) = nblocks (dev s)" "numblocks u = numblocks s" "numinodes u = numinodes s"
    "block_freemap u = block_freemap s" "inode_freemap u = inode_freemap s" "the_cache u = the_cache s"
    "heap_inodes u = heap_inodes s" "next_inode u = next_inode s" "stale u = stale s"
    "disk_inode u = (disk_inode s)(i := ino)" "b < 1 \<or> nib s \<le> b \<Longrightarrow> D u b = D s b"
  using assms by (auto simp: saved_def)

lemma same_geometry:
  assumes "numinodes u = numinodes s" "nblocks (dev u) = nblocks (dev s)"
  shows "nib u = nib s" "reach u = reach s" "disk_ok u = disk_ok s"
  using assms by (simp_all add: nib_def reach_def disk_ok_def)

section \<open>The contract of the cache\<close>

text \<open>What no cache operation touches: everything but the cache itself, the heap and the inode blocks.\<close>

definition only_inodes :: "fs \<Rightarrow> fs \<Rightarrow> bool" where
  "only_inodes s u \<longleftrightarrow> numblocks u = numblocks s \<and> numinodes u = numinodes s \<and> block_freemap u = block_freemap s \<and>
     inode_freemap u = inode_freemap s \<and> nblocks (dev u) = nblocks (dev s) \<and>
     map_option capacity (the_cache u) = map_option capacity (the_cache s) \<and> (\<forall>b. b < 1 \<or> nib s \<le> b \<longrightarrow> D u b = D s b)"

text \<open>The cache has a node to evict, or need not evict one to take another inode.\<close>

definition room :: "fs \<Rightarrow> bool" where
  "room s \<longleftrightarrow> (\<forall>c. the_cache s = Some c \<longrightarrow> capacity c = 0 \<or> nodes c \<noteq> [] \<or> current_size c < capacity c)"

text \<open>\<open>a\<close> is the pointer that \<open>get_inode\<close> handed out last, for inode \<open>i\<close>.\<close>

definition handle :: "int \<Rightarrow> nat \<Rightarrow> fs \<Rightarrow> bool" where
  "handle i a s \<longleftrightarrow> cnodes s = [] \<and> map_option capacity (the_cache s) = Some 0 \<or> (\<exists>n \<in> set (cnodes s). n_inumber n = i \<and> n_inode n = a)"

lemma only_inodes_refl [simp]: "only_inodes s s"
  by (simp add: only_inodes_def)

lemma only_inodes_trans: "only_inodes s t \<Longrightarrow> only_inodes t u \<Longrightarrow> only_inodes s u"
  by (auto simp: only_inodes_def nib_def)

lemma saved_only_inodes: "saved i ino s u \<Longrightarrow> only_inodes s u"
  by (auto simp: only_inodes_def saved_def)

lemma saved_refl: "ino = disk_inode s i \<Longrightarrow> saved i ino s s"
  unfolding saved_def by (auto simp: exI [of _ "dev s"])

lemma cache_invE:
  assumes "cache_inv X s"
  obtains c where "the_cache s = Some c" "list_ok c" "cnodes s = nodes c" "disk_ok s" "live_cache s = Inr c"
    "\<And>n. n \<in> set (nodes c) \<Longrightarrow> node_ok X s n" "\<And>a. heap_inodes s a \<noteq> None \<Longrightarrow> a < next_inode s"
  using assms by (auto simp: cache_inv_def cnodes_def live_cache_def list_ok_def)

lemma node_okD:
  assumes "node_ok X s n"
  obtains ino where "heap_inodes s (n_inode n) = Some ino" "length (direct ino) = 5" "n_inumber n \<in> reach s"
    "n_inumber n \<notin> X \<Longrightarrow> \<not> n_dirty n \<Longrightarrow> ino = disk_inode s (n_inumber n)"
  using assms by (auto simp: node_ok_def)

lemma table_in:
  assumes "distinct (map n_inumber (cnodes s))" "n \<in> set (cnodes s)"
  shows "table s (n_inumber n) = the (heap_inodes s (n_inode n))"
proof -
  have "cached (cnodes s) (n_inumber n) = Some n" using assms cached_Some [OF assms(1)] by simp
  then show ?thesis by (simp add: table_def)
qed

lemma table_out: "i \<notin> n_inumber ` set (cnodes s) \<Longrightarrow> table s i = disk_inode s i"
  using cached_None [of "cnodes s" i] by (simp add: table_def)

lemma table_eqI:
  assumes "distinct (map n_inumber (cnodes u))"
    "\<And>n. n \<in> set (cnodes u) \<Longrightarrow> the (heap_inodes u (n_inode n)) = f (n_inumber n)"
    "\<And>j. j \<notin> n_inumber ` set (cnodes u) \<Longrightarrow> disk_inode u j = f j"
  shows "table u = f"
proof
  fix j show "table u j = f j"
    using assms table_in [OF assms(1)] table_out [of j u] by (cases "j \<in> n_inumber ` set (cnodes u)") auto
qed

lemma find_node_found:
  assumes "i \<in> reach s" "find_node i (nodes c) = r"
  shows "find_node_with_inumber i c = Inr r"
  using assms reachD(5) [OF assms(1)] by (simp add: find_node_with_inumber_def)

lemma save_if_dirty_runs:
  assumes "disk_ok s" "node_ok X s n" "n_inumber n \<notin> X"
  shows "runs (save_if_dirty n s) (saved (n_inumber n) (the (heap_inodes s (n_inode n))) s)"
proof -
  obtain ino where h: "heap_inodes s (n_inode n) = Some ino" "length (direct ino) = 5" "n_inumber n \<in> reach s"
    "\<not> n_dirty n \<Longrightarrow> ino = disk_inode s (n_inumber n)"
    using node_okD [OF assms(2)] assms(3) by metis
  show ?thesis
  proof (cases "n_dirty n")
    case True
    then show ?thesis
      using inode_save_runs [OF assms(1) h(3,2)] h(1)
      by (auto simp: save_if_dirty_def inode_ptr_def runs_bind elim!: runs_mono)
  next
    case False
    then show ?thesis using saved_refl h by (simp add: save_if_dirty_def)
  qed
qed

lemma get_inode_hit:
  assumes inv: "cache_inv {} s" and i: "i \<in> reach s" and c: "the_cache s = Some c" and f: "find_node i (nodes c) = Some (xs, n, ys)"
  shows "runs (get_inode i s) (\<lambda>(r, u). \<exists>a. r = Some a \<and> cache_inv {} u \<and> room u \<and> table u = table s \<and>
    heap_inodes u a = Some (table s i) \<and> handle i a u \<and> only_inodes s u)"
proof -
  from inv obtain c' where c': "the_cache s = Some c'" "list_ok c'" "cnodes s = nodes c'" "disk_ok s" "live_cache s = Inr c'"
    "\<And>n. n \<in> set (nodes c') \<Longrightarrow> node_ok {} s n" "\<And>a. heap_inodes s a \<noteq> None \<Longrightarrow> a < next_inode s" by (elim cache_invE) blast
  have [simp]: "c' = c" using c c'(1) by simp
  let ?u = "s\<lparr>the_cache := Some (c\<lparr>nodes := xs @ ys @ [n]\<rparr>)\<rparr>"
  have split: "nodes c = xs @ n # ys" "n_inumber n = i" using find_node_Some [OF f] by simp_all
  have perm: "set (xs @ ys @ [n]) = set (nodes c)" using split by auto
  have cu: "cnodes ?u = xs @ ys @ [n]" by (simp add: cnodes_def)
  have ok: "node_ok {} ?u m" if "m \<in> set (nodes c)" for m
    using c'(6) that by (simp add: node_ok_def reach_def nib_def disk_inode_def)
  have lo: "list_ok (c\<lparr>nodes := xs @ ys @ [n]\<rparr>)" using c'(2) split by (auto simp: list_ok_def)
  have inv': "cache_inv {} ?u"
    using c'(4,7) lo ok perm unfolding cache_inv_def cu by (auto simp: disk_ok_def nib_def)
  have d: "distinct (map n_inumber (nodes c))" "distinct (map n_inumber (xs @ ys @ [n]))"
    using c'(2) lo by (simp_all add: list_ok_def)
  have t: "table ?u = table s"
    using cached_perm [OF d perm] cu c'(3) by (simp add: table_def fun_eq_iff disk_inode_def split: option.split)
  have "table s i = the (heap_inodes s (n_inode n))"
    using table_in [of s n] c'(3) d(1) split by simp
  then have h: "heap_inodes ?u (n_inode n) = Some (table s i)"
    using c'(6) [of n] split by (auto simp: node_ok_def)
  have "get_inode i s = Inr (Some (n_inode n), ?u)"
    using c'(5) find_node_found [OF i f] by (simp add: get_inode_def)
  then show ?thesis using inv' t h split by (auto simp: room_def handle_def cu only_inodes_def c)
qed

lemma get_inode_miss:
  assumes inv: "cache_inv {} s" and i: "i \<in> reach s" and room: "room s" and c: "the_cache s = Some c" and f: "find_node i (nodes c) = None"
  shows "runs (get_inode i s) (\<lambda>(r, u). \<exists>a. r = Some a \<and> cache_inv {} u \<and> room u \<and> table u = table s \<and>
    heap_inodes u a = Some (table s i) \<and> handle i a u \<and> only_inodes s u)"
proof -
  from inv obtain c' where c': "the_cache s = Some c'" "list_ok c'" "cnodes s = nodes c'" "disk_ok s" "live_cache s = Inr c'"
    "\<And>n. n \<in> set (nodes c') \<Longrightarrow> node_ok {} s n" "\<And>a. heap_inodes s a \<noteq> None \<Longrightarrow> a < next_inode s" by (elim cache_invE) blast
  have [simp]: "c' = c" using c c'(1) by simp
  have out: "i \<notin> n_inumber ` set (nodes c)" using f by (simp add: find_node_None)
  let ?a = "next_inode s" and ?ino = "disk_inode s i"
  let ?n = "\<lparr>n_inumber = i, n_inode = ?a, n_dirty = stale s ?a\<rparr>"
  have ti: "table s i = ?ino" using table_out [of i s] out c'(3) by simp
  have len: "length (direct ?ino) = 5" by (simp add: disk_inode_def)
  have "runs (inode_load i (s\<lparr>next_inode := ?a + 1\<rparr>)) (\<lambda>(r, u). r = Some ?ino \<and> reads (s\<lparr>next_inode := ?a + 1\<rparr>) u)"
    using inode_load_runs [of "s\<lparr>next_inode := ?a + 1\<rparr>" i] c'(4) i by (simp add: disk_ok_def nib_def reach_def disk_inode_def)
  then obtain u0 where u0: "inode_load i (s\<lparr>next_inode := ?a + 1\<rparr>) = Inr (Some ?ino, u0)" "reads (s\<lparr>next_inode := ?a + 1\<rparr>) u0"
    by (auto simp: runs_iff)
  note r0 = readsD [OF u0(2), simplified]
  define u1 where "u1 = u0\<lparr>heap_inodes := (heap_inodes u0)(?a := Some ?ino)\<rparr>"
  have u1: "heap_inodes u1 = (heap_inodes s)(?a := Some ?ino)" "next_inode u1 = ?a + 1" "D u1 = D s" "nblocks (dev u1) = nblocks (dev s)"
    "numinodes u1 = numinodes s" "numblocks u1 = numblocks s" "block_freemap u1 = block_freemap s" "inode_freemap u1 = inode_freemap s"
    "the_cache u1 = Some c" "stale u1 = stale s"
    using r0 c by (simp_all add: u1_def)
  have g: "nib u1 = nib s" "reach u1 = reach s" "disk_ok u1 = disk_ok s" by (rule same_geometry; simp add: u1)+
  have di: "disk_inode u1 = disk_inode s" by (simp add: disk_inode_def fun_eq_iff u1)
  have fresh: "n_inode m \<noteq> ?a" if "m \<in> set (nodes c)" for m
    using c'(6) [of m] c'(7) [of "n_inode m"] that by (auto simp: node_ok_def)
  then have fresh': "?a \<notin> n_inode ` set (nodes c)" by (metis imageE)
  have ok: "node_ok {} u1 m" if "m \<in> set (nodes c)" for m
    using c'(6) [of m] that fresh [OF that] by (simp add: node_ok_def g di u1)
  have okn: "node_ok {} u1 ?n" using i len by (simp add: node_ok_def g di u1)
  have old: "the (heap_inodes u1 (n_inode m)) = table s (n_inumber m)" if "m \<in> set (nodes c)" for m
    using table_in [of s m] that c'(2,3) fresh [OF that] by (simp add: u1 list_ok_def)
  have dist: "distinct (map n_inumber (nodes c @ [?n]))" "distinct (map n_inode (nodes c @ [?n]))"
    using c'(2) out fresh' by (auto simp: list_ok_def)
  have run: "get_inode i s = (if current_size c + 1 > capacity c then bindE (evict_lru c (nodes c @ [?n]) u1) (\<lambda>s. Inr (Some ?a, s))
      else Inr (Some ?a, u1\<lparr>the_cache := Some (c\<lparr>nodes := nodes c @ [?n], current_size := current_size c + 1\<rparr>)\<rparr>))"
    using c'(2,5) find_node_found [OF i f] u0(1) r0 by (simp add: get_inode_def Let_def u1_def list_ok_def)
  consider (fits) "current_size c < capacity c" | (zero) "capacity c = 0" "nodes c = []" "current_size c = 0"
    | (evict) m ms where "nodes c = m # ms" "capacity c \<noteq> 0" "current_size c = capacity c"
  proof -
    have "current_size c < capacity c \<or> current_size c = capacity c" using c'(2) by (auto simp: list_ok_def)
    then show thesis using that c'(2) room c by (cases "nodes c") (auto simp: list_ok_def room_def)
  qed
  then show ?thesis
  proof cases
    case fits
    let ?u = "u1\<lparr>the_cache := Some (c\<lparr>nodes := nodes c @ [?n], current_size := current_size c + 1\<rparr>)\<rparr>"
    have cu: "cnodes ?u = nodes c @ [?n]" by (simp add: cnodes_def)
    have "node_ok {} ?u m" if "m \<in> set (nodes c @ [?n])" for m
      using ok [of m] okn that by (auto simp: node_ok_def reach_def nib_def disk_inode_def)
    moreover have "list_ok (c\<lparr>nodes := nodes c @ [?n], current_size := current_size c + 1\<rparr>)"
      using c'(2) dist fits by (simp add: list_ok_def)
    ultimately have inv': "cache_inv {} ?u"
      using c'(4,7) g(3) unfolding cache_inv_def cu by (auto simp: u1 disk_ok_def nib_def less_SucI)
    have t: "table ?u = table s"
    proof (rule table_eqI)
      show "distinct (map n_inumber (cnodes ?u))" using dist by (simp add: cu)
      show "the (heap_inodes ?u (n_inode m)) = table s (n_inumber m)" if "m \<in> set (cnodes ?u)" for m
        using that old [of m] ti by (auto simp: cu u1)
      show "disk_inode ?u j = table s j" if "j \<notin> n_inumber ` set (cnodes ?u)" for j
        using that table_out [of j s] c'(3) by (simp add: cu disk_inode_def u1)
    qed
    have "handle i ?a ?u" "room ?u" "only_inodes s ?u" "heap_inodes ?u ?a = Some ?ino"
      by (simp_all add: handle_def cu room_def only_inodes_def c u1)
    moreover have "get_inode i s = Inr (Some ?a, ?u)" using run fits by simp
    ultimately show ?thesis using inv' t ti by simp
  next
    case zero
    obtain u2 where u2: "save_if_dirty ?n u1 = Inr u2" "saved i ?ino u1 u2"
      using save_if_dirty_runs [of u1 "{}" ?n] c'(4) g(3) okn u1(1) by (auto simp: runs_iff)
    let ?u = "u2\<lparr>the_cache := Some (c\<lparr>nodes := []\<rparr>)\<rparr>"
    note s2 = savedD [OF u2(2)]
    have di2: "disk_inode u2 = disk_inode s" using s2(10) by (simp add: di)
    have cu: "cnodes ?u = []" by (simp add: cnodes_def)
    have inv': "cache_inv {} ?u"
      using c'(2,4,7) g(3) zero unfolding cache_inv_def cu by (auto simp: s2 u1 disk_ok_def nib_def list_ok_def less_SucI)
    have t: "table ?u = table s"
    proof (rule table_eqI)
      show "distinct (map n_inumber (cnodes ?u))" by (simp add: cu)
      show "the (heap_inodes ?u (n_inode m)) = table s (n_inumber m)" if "m \<in> set (cnodes ?u)" for m
        using that by (simp add: cu)
      show "disk_inode ?u j = table s j" if "j \<notin> n_inumber ` set (cnodes ?u)" for j
        using table_out [of j s] c'(3) zero arg_cong [OF di2, of "\<lambda>f. f j"] by (simp add: disk_inode_def)
    qed
    have "handle i ?a ?u" "room ?u" "only_inodes s ?u" "heap_inodes ?u ?a = Some ?ino"
      using zero by (simp_all add: handle_def cu room_def only_inodes_def c u1 s2 g)
    moreover have "get_inode i s = Inr (Some ?a, ?u)" using run zero u2(1) by (simp add: evict_lru_def)
    ultimately show ?thesis using inv' t ti by simp
  next
    case evict
    obtain u2 where u2: "save_if_dirty m u1 = Inr u2" "saved (n_inumber m) (the (heap_inodes u1 (n_inode m))) u1 u2"
      using save_if_dirty_runs [of u1 "{}" m] c'(4) g(3) ok [of m] evict by (auto simp: runs_iff)
    note s2 = savedD [OF u2(2)]
    define u3 where "u3 = u2\<lparr>heap_inodes := (heap_inodes u2)(n_inode m := None)\<rparr>"
    have f3: "free_inode (n_inode m) u2 = Inr u3"
      using ok [of m] evict by (auto simp: free_inode_def inode_ptr_def s2 node_ok_def u3_def)
    define u where "u = u3\<lparr>the_cache := Some (c\<lparr>nodes := ms @ [?n]\<rparr>)\<rparr>"
    have u: "the_cache u = Some (c\<lparr>nodes := ms @ [?n]\<rparr>)" "heap_inodes u = (heap_inodes u1)(n_inode m := None)" "next_inode u = ?a + 1"
      "D u = D u2" "nblocks (dev u) = nblocks (dev s)" "numinodes u = numinodes s" "numblocks u = numblocks s"
      "block_freemap u = block_freemap s" "inode_freemap u = inode_freemap s"
      by (simp_all add: u_def u3_def s2 u1)
    have cu: "cnodes u = ms @ [?n]" by (simp add: cnodes_def u(1))
    have gu: "reach u = reach u1" "disk_ok u" using c'(4) by (simp_all add: reach_def nib_def disk_ok_def u u1)
    have "disk_inode u = disk_inode u2" by (simp add: disk_inode_def fun_eq_iff u(4))
    then have du: "disk_inode u = (disk_inode s)(n_inumber m := table s (n_inumber m))"
      using s2(10) old [of m] evict by (simp add: di)
    have hp: "heap_inodes u x = heap_inodes u1 x" if "x \<noteq> n_inode m" for x using that by (simp add: u(2))
    have "n_inode m \<notin> n_inode ` set (ms @ [?n])" "n_inumber m \<notin> n_inumber ` set (ms @ [?n])"
      using dist evict by auto
    then have ne: "n_inode m' \<noteq> n_inode m" "n_inumber m' \<noteq> n_inumber m" if "m' \<in> set (ms @ [?n])" for m'
      using that by (metis image_eqI)+
    have nodes_ok: "node_ok {} u m'" if "m' \<in> set (ms @ [?n])" for m'
    proof -
      have "node_ok {} u1 m'" using ok [of m'] okn that evict(1) by auto
      then show ?thesis
        using hp [OF ne(1) [OF that]] gu(1) ne(2) [OF that] by (simp add: node_ok_def du di)
    qed
    have lo: "list_ok (c\<lparr>nodes := ms @ [?n]\<rparr>)"
      using c'(2) dist evict by (simp add: list_ok_def)
    have "x < next_inode u" if "heap_inodes u x \<noteq> None" for x
      using that c'(7) [of x] by (auto simp: u u1(1) split: if_splits)
    then have inv': "cache_inv {} u"
      using lo gu(2) nodes_ok u(1) unfolding cache_inv_def cu by blast
    have t: "table u = table s"
    proof (rule table_eqI)
      show "distinct (map n_inumber (cnodes u))" using dist evict by (simp add: cu)
      show "the (heap_inodes u (n_inode m')) = table s (n_inumber m')" if "m' \<in> set (cnodes u)" for m'
      proof (cases "m' \<in> set ms")
        case True
        then show ?thesis using old [of m'] hp [OF ne(1), of m'] evict by simp
      next
        case False
        then have "m' = ?n" using that by (simp add: cu)
        then show ?thesis using hp [OF ne(1), of m'] ti by (simp add: u1(1))
      qed
      show "disk_inode u j = table s j" if "j \<notin> n_inumber ` set (cnodes u)" for j
        using that table_out [of j s] c'(3) evict by (auto simp: cu du)
    qed
    have "heap_inodes u ?a = Some ?ino" using fresh [of m] evict hp [of ?a] by (simp add: u1(1))
    moreover have "handle i ?a u" by (simp add: handle_def cu)
    moreover have "room u" by (simp add: room_def u(1))
    moreover have "only_inodes s u" using u s2(11) g(1) u1(3) c by (simp add: only_inodes_def)
    moreover have "get_inode i s = Inr (Some ?a, u)"
      using run evict u2(1) f3 by (simp add: evict_lru_def u_def)
    ultimately show ?thesis using inv' t ti by simp
  qed
qed

theorem get_inode_runs:
  assumes "cache_inv {} s" "i \<in> reach s" "room s"
  shows "runs (get_inode i s) (\<lambda>(r, u). \<exists>a. r = Some a \<and> cache_inv {} u \<and> room u \<and> table u = table s \<and>
    heap_inodes u a = Some (table s i) \<and> handle i a u \<and> only_inodes s u)"
proof -
  from assms(1) obtain c where c: "the_cache s = Some c" by (elim cache_invE) blast
  show ?thesis
  proof (cases "find_node i (nodes c)")
    case None
    then show ?thesis using get_inode_miss assms c by blast
  next
    case (Some t)
    obtain xs n ys where "t = (xs, n, ys)" by (cases t)
    then show ?thesis using get_inode_hit assms c Some by blast
  qed
qed

lemma handle_found:
  assumes "list_ok c" "n \<in> set (nodes c)" "n_inumber n = i"
  obtains xs ys where "find_node i (nodes c) = Some (xs, n, ys)" "nodes c = xs @ n # ys"
    "i \<notin> n_inumber ` set (xs @ ys)" "n_inode n \<notin> n_inode ` set (xs @ ys)"
    "distinct (map n_inumber (xs @ ys))" "distinct (map n_inode (xs @ ys))"
proof -
  have d: "distinct (map n_inumber (nodes c))" "distinct (map n_inode (nodes c))" using assms(1) by (simp_all add: list_ok_def)
  have "find_node i (nodes c) \<noteq> None" using assms(2,3) by (auto simp: find_node_None)
  then obtain xs m ys where f: "find_node i (nodes c) = Some (xs, m, ys)" by auto
  note m = find_node_Some [OF f]
  have "m = n" using node_numbers [OF d(1), of m n] m assms(2,3) by simp
  then show thesis using that [of xs ys] f m d by (auto simp: image_Un)
qed

theorem set_dirty_runs:
  assumes inv: "cache_inv {i} s" and i: "i \<in> reach s" and h: "heap_inodes s a = Some ino" "length (direct ino) = 5"
    and hd: "handle i a s" and flag: "flag \<noteq> 0" and room: "room s"
  shows "runs (set_dirty i flag a s) (\<lambda>u. cache_inv {} u \<and> room u \<and> table u = (table s)(i := ino) \<and>
    heap_inodes u = heap_inodes s \<and> handle i a u \<and> only_inodes s u)"
proof -
  from inv obtain c where c: "the_cache s = Some c" "list_ok c" "cnodes s = nodes c" "disk_ok s" "live_cache s = Inr c"
    "\<And>n. n \<in> set (nodes c) \<Longrightarrow> node_ok {i} s n" "\<And>a. heap_inodes s a \<noteq> None \<Longrightarrow> a < next_inode s" by (elim cache_invE) blast
  show ?thesis
  proof (cases "nodes c = []")
    case True
    obtain u where u: "inode_save i (Inr ino) s = Inr (True, u)" "saved i ino s u"
      using inode_save_runs [OF c(4) i h(2)] by (auto simp: runs_iff)
    note sd = savedD [OF u(2)]
    have cu: "cnodes u = []" using True c(1) sd(6) by (simp add: cnodes_def)
    have "find_node_with_inumber i c = Inr None" using find_node_found [OF i] True by simp
    then have run: "set_dirty i flag a s = Inr u" using c(5) u(1) h(1) by (simp add: set_dirty_def inode_ptr_def)
    have inv': "cache_inv {} u"
      using c(1,2,4,7) sd unfolding cache_inv_def cu by (auto simp: disk_ok_def nib_def)
    have t: "table u = (table s)(i := ino)"
    proof (rule table_eqI)
      show "disk_inode u j = ((table s)(i := ino)) j" if "j \<notin> n_inumber ` set (cnodes u)" for j
        using table_out [of j s] c(3) True sd(10) by simp
    qed (simp_all add: cu)
    show ?thesis using run inv' t room hd c(3) True saved_only_inodes [OF u(2)] sd(6,7) by (simp add: room_def handle_def cu)
  next
    case False
    then obtain n where n: "n \<in> set (nodes c)" "n_inumber n = i" "n_inode n = a"
      using hd c(3) by (auto simp: handle_def)
    obtain xs ys where f: "find_node i (nodes c) = Some (xs, n, ys)" "nodes c = xs @ n # ys"
      "i \<notin> n_inumber ` set (xs @ ys)" "n_inode n \<notin> n_inode ` set (xs @ ys)"
      "distinct (map n_inumber (xs @ ys))" "distinct (map n_inode (xs @ ys))" using handle_found [OF c(2) n(1,2)] .
    let ?n = "n\<lparr>n_dirty := True\<rparr>"
    let ?u = "s\<lparr>the_cache := Some (c\<lparr>nodes := xs @ ?n # ys\<rparr>)\<rparr>"
    have run: "set_dirty i flag a s = Inr ?u"
      using c(5) find_node_found [OF i f(1)] n(3) flag by (simp add: set_dirty_def)
    have cu: "cnodes ?u = xs @ ?n # ys" by (simp add: cnodes_def)
    have du: "disk_inode ?u = disk_inode s" by (simp add: disk_inode_def fun_eq_iff)
    have g: "reach ?u = reach s" by (simp add: reach_def nib_def)
    have "node_ok {} ?u m" if "m \<in> set (xs @ ys)" for m
    proof -
      have "n_inumber m \<noteq> i" using that f(3) by (metis image_eqI)
      then show ?thesis using c(6) [of m] that f(2) by (auto simp: node_ok_def du g)
    qed
    moreover have "node_ok {} ?u ?n" using c(6) [OF n(1)] by (auto simp: node_ok_def g)
    moreover have "list_ok (c\<lparr>nodes := xs @ ?n # ys\<rparr>)" using c(2) f(2) by (auto simp: list_ok_def)
    ultimately have inv': "cache_inv {} ?u"
      using c(4,7) unfolding cache_inv_def cu by (auto simp: disk_ok_def nib_def)
    have t: "table ?u = (table s)(i := ino)"
    proof (rule table_eqI)
      show "distinct (map n_inumber (cnodes ?u))" using c(2) f(2) by (simp add: cu list_ok_def)
      show "the (heap_inodes ?u (n_inode m)) = ((table s)(i := ino)) (n_inumber m)" if "m \<in> set (cnodes ?u)" for m
      proof (cases "m \<in> set (xs @ ys)")
        case True
        then have "n_inumber m \<noteq> i" using f(3) by (metis image_eqI)
        then show ?thesis using True table_in [of s m] c(2,3) f(2) by (auto simp: list_ok_def)
      next
        case False
        then show ?thesis using that n h by (auto simp: cu)
      qed
      show "disk_inode ?u j = ((table s)(i := ino)) j" if "j \<notin> n_inumber ` set (cnodes ?u)" for j
        using that table_out [of j s] c(3) f(2) n(2) by (simp add: cu du)
    qed
    have "handle i a ?u" "room ?u" "only_inodes s ?u" using n by (simp_all add: handle_def cu room_def only_inodes_def c(1))
    then show ?thesis using run inv' t by simp
  qed
qed

theorem remove_if_present_runs:
  assumes inv: "cache_inv {} s" and i: "i \<in> reach s" and h: "heap_inodes s a = Some ino" and hd: "handle i a s"
  shows "runs (remove_if_present i a s) (\<lambda>(r, u). r \<and> cache_inv {} u \<and> table u = (table s)(i := empty_inode) \<and>
    i \<notin> n_inumber ` set (cnodes u) \<and> map_option current_size (the_cache u) = map_option current_size (the_cache s) \<and>
    set (cnodes u) \<subseteq> set (cnodes s) \<and> only_inodes s u)"
proof -
  from inv obtain c where c: "the_cache s = Some c" "list_ok c" "cnodes s = nodes c" "disk_ok s" "live_cache s = Inr c"
    "\<And>n. n \<in> set (nodes c) \<Longrightarrow> node_ok {} s n" "\<And>a. heap_inodes s a \<noteq> None \<Longrightarrow> a < next_inode s" by (elim cache_invE) blast
  have len: "length (direct empty_inode) = 5" by (simp add: empty_inode_def)
  show ?thesis
  proof (cases "nodes c = []")
    case True
    let ?s = "s\<lparr>heap_inodes := (heap_inodes s)(a := None)\<rparr>"
    have g: "disk_ok ?s" "i \<in> reach ?s" using c(4) i by (simp_all add: disk_ok_def reach_def nib_def)
    obtain u where u: "inode_save i (Inr empty_inode) ?s = Inr (True, u)" "saved i empty_inode ?s u"
      using inode_save_runs [OF g len] by (auto simp: runs_iff)
    note sd = savedD [OF u(2)]
    have cu: "cnodes u = []" using True c(1) sd(6) by (simp add: cnodes_def)
    have "find_node_with_inumber i c = Inr None" using find_node_found [OF i] True by simp
    then have run: "remove_if_present i a s = Inr (True, u)"
      using c(5) u(1) h(1) by (simp add: remove_if_present_def free_inode_def inode_ptr_def)
    have inv': "cache_inv {} u"
      using c(1,2,4,7) sd unfolding cache_inv_def cu by (auto simp: disk_ok_def nib_def)
    have t: "table u = (table s)(i := empty_inode)"
    proof (rule table_eqI)
      show "disk_inode u j = ((table s)(i := empty_inode)) j" if "j \<notin> n_inumber ` set (cnodes u)" for j
        using table_out [of j s] c(3) True sd(10) by (simp add: disk_inode_def)
    qed (simp_all add: cu)
    have "only_inodes s u" using saved_only_inodes [OF u(2)] by (simp add: only_inodes_def nib_def)
    then show ?thesis using run inv' t sd(6) c(1) by (simp add: cu)
  next
    case False
    then obtain n where n: "n \<in> set (nodes c)" "n_inumber n = i" "n_inode n = a"
      using hd c(3) by (auto simp: handle_def)
    obtain xs ys where f: "find_node i (nodes c) = Some (xs, n, ys)" "nodes c = xs @ n # ys"
      "i \<notin> n_inumber ` set (xs @ ys)" "n_inode n \<notin> n_inode ` set (xs @ ys)"
      "distinct (map n_inumber (xs @ ys))" "distinct (map n_inode (xs @ ys))" using handle_found [OF c(2) n(1,2)] .
    obtain u1 where u1: "save_if_dirty n s = Inr u1" "saved (n_inumber n) (the (heap_inodes s (n_inode n))) s u1"
      using save_if_dirty_runs [OF c(4) c(6) [OF n(1)]] by (auto simp: runs_iff)
    note s1 = savedD [OF u1(2)]
    define u2 where "u2 = u1\<lparr>heap_inodes := (heap_inodes s)(a := None), the_cache := Some (c\<lparr>nodes := xs @ ys\<rparr>)\<rparr>"
    have g: "disk_ok u2" "reach u2 = reach s" using c(4) s1 by (simp_all add: u2_def disk_ok_def reach_def nib_def)
    have i2: "i \<in> reach u2" using g i by simp
    obtain u where u: "inode_save i (Inr empty_inode) u2 = Inr (True, u)" "saved i empty_inode u2 u"
      using inode_save_runs [OF g(1) i2 len] by (auto simp: runs_iff)
    note sd = savedD [OF u(2)]
    have run: "remove_if_present i a s = Inr (True, u)"
      using c(5) u(1) u1(1) h(1) n(3) find_node_found [OF i f(1)] s1(7)
      by (simp add: remove_if_present_def free_inode_def inode_ptr_def u2_def)
    have cu: "cnodes u = xs @ ys" using sd(6) by (simp add: cnodes_def u2_def)
    have du: "disk_inode u = (disk_inode s)(i := empty_inode)"
      using sd(10) s1(10) n(2) by (simp add: u2_def disk_inode_def fun_eq_iff)
    have hu: "heap_inodes u = (heap_inodes s)(a := None)" using sd(7) by (simp add: u2_def)
    have ne: "n_inumber m \<noteq> i" "n_inode m \<noteq> a" if "m \<in> set (xs @ ys)" for m
      using that f(3,4) n(3) by (metis image_eqI)+
    have gu: "reach u = reach s" "disk_ok u" using sd s1 g by (simp_all add: reach_def nib_def u2_def disk_ok_def)
    have "node_ok {} u m" if "m \<in> set (xs @ ys)" for m
      using c(6) [of m] that f(2) ne [OF that] by (auto simp: node_ok_def du hu gu)
    moreover have "list_ok (c\<lparr>nodes := xs @ ys\<rparr>)" using c(2) f(2) by (auto simp: list_ok_def)
    moreover have "the_cache u = Some (c\<lparr>nodes := xs @ ys\<rparr>)" using sd(6) by (simp add: u2_def)
    moreover have "x < next_inode u" if "heap_inodes u x \<noteq> None" for x
      using that c(7) [of x] sd(8) s1(8) by (auto simp: hu u2_def split: if_splits)
    ultimately have inv': "cache_inv {} u"
      using gu unfolding cache_inv_def cu by auto
    have t: "table u = (table s)(i := empty_inode)"
    proof (rule table_eqI)
      show "distinct (map n_inumber (cnodes u))" using f(5) by (simp add: cu)
      show "the (heap_inodes u (n_inode m)) = ((table s)(i := empty_inode)) (n_inumber m)" if "m \<in> set (cnodes u)" for m
        using that ne [of m] table_in [of s m] c(2,3) f(2) by (auto simp: list_ok_def cu hu)
      show "disk_inode u j = ((table s)(i := empty_inode)) j" if "j \<notin> n_inumber ` set (cnodes u)" for j
        using that table_out [of j s] c(3) f(2) n(2) by (auto simp: cu du)
    qed
    have "only_inodes s u"
      using sd s1 c(1) by (simp add: only_inodes_def u2_def nib_def)
    moreover have "map_option current_size (the_cache u) = map_option current_size (the_cache s)"
      using sd(6) c(1) by (simp add: u2_def)
    moreover have "set (cnodes u) \<subseteq> set (cnodes s)" using cu c(3) f(2) by auto
    ultimately show ?thesis using run inv' t f(3) by (simp add: cu)
  qed
qed

text \<open>Writing back every node: the disk then holds what the nodes held.\<close>

definition written_back :: "node list \<Rightarrow> fs \<Rightarrow> int \<Rightarrow> fs_inode" where
  "written_back ns s j = (case cached ns j of Some n \<Rightarrow> the (heap_inodes s (n_inode n)) | None \<Rightarrow> disk_inode s j)"

lemma written_back_Cons:
  assumes "distinct (map n_inumber (n # ns))" "distinct (map n_inode (n # ns))"
    "disk_inode u = (disk_inode s)(n_inumber n := the (heap_inodes s (n_inode n)))"
    "\<And>m. m \<in> set ns \<Longrightarrow> heap_inodes u (n_inode m) = heap_inodes s (n_inode m)"
  shows "written_back ns u = written_back (n # ns) s"
proof
  fix j
  have "m \<in> set ns \<and> n_inumber m = j" if "cached ns j = Some m" for m
    using that cached_Some [of ns j m] assms(1) by simp
  moreover have "cached ns (n_inumber n) = None" using assms(1) by (simp add: cached_None)
  moreover have "cached (n # ns) j = (if n_inumber n = j then Some n else cached ns j)" by (simp add: cached_def)
  ultimately show "written_back ns u j = written_back (n # ns) s j"
    using assms(3,4) by (auto simp: written_back_def split: option.split)
qed

lemma node_ok_rest:
  assumes "node_ok {} s m" "m \<in> set ns" "distinct (map n_inumber (n # ns))" "reach u = reach s"
    "disk_inode u = (disk_inode s)(n_inumber n := ino)" "heap_inodes u (n_inode m) = heap_inodes s (n_inode m)"
  shows "node_ok {} u m"
proof -
  have "n_inumber n \<notin> n_inumber ` set ns" using assms(3) by simp
  then have "n_inumber m \<noteq> n_inumber n" using assms(2) by (metis image_eqI)
  then show ?thesis using assms by (simp add: node_ok_def)
qed

lemma free_nodes_runs:
  assumes "disk_ok s" "\<And>n. n \<in> set ns \<Longrightarrow> node_ok {} s n" "distinct (map n_inumber ns)" "distinct (map n_inode ns)"
  shows "runs (foldE (\<lambda>n s. bindE (save_if_dirty n s) (free_inode (n_inode n))) ns s)
    (\<lambda>u. the_cache u = the_cache s \<and> disk_inode u = written_back ns s \<and> only_inodes s u \<and>
      next_inode u = next_inode s \<and> (\<forall>a. heap_inodes u a \<noteq> None \<longrightarrow> heap_inodes s a \<noteq> None))"
  using assms
proof (induction ns arbitrary: s)
  case Nil
  then show ?case by (simp add: written_back_def cached_def fun_eq_iff)
next
  case (Cons n ns)
  let ?ino = "the (heap_inodes s (n_inode n))"
  obtain u1 where u1: "save_if_dirty n s = Inr u1" "saved (n_inumber n) ?ino s u1"
    using save_if_dirty_runs [OF Cons.prems(1), of "{}" n] Cons.prems(2) by (auto simp: runs_iff)
  note sd = savedD [OF u1(2)]
  let ?u = "u1\<lparr>heap_inodes := (heap_inodes s)(n_inode n := None)\<rparr>"
  have f: "free_inode (n_inode n) u1 = Inr ?u"
    using Cons.prems(2) [of n] sd(7) by (auto simp: free_inode_def inode_ptr_def node_ok_def)
  have h: "heap_inodes ?u (n_inode m) = heap_inodes s (n_inode m)" if "m \<in> set ns" for m
  proof -
    have "n_inode n \<notin> n_inode ` set ns" using Cons.prems(4) by simp
    then show ?thesis using that by (auto simp: image_iff)
  qed
  have di: "disk_inode ?u = (disk_inode s)(n_inumber n := ?ino)" using sd(10) by (simp add: disk_inode_def fun_eq_iff)
  have g: "disk_ok ?u" "reach ?u = reach s" using Cons.prems(1) sd by (simp_all add: disk_ok_def reach_def nib_def)
  have "runs (foldE (\<lambda>n s. bindE (save_if_dirty n s) (free_inode (n_inode n))) ns ?u)
    (\<lambda>u. the_cache u = the_cache ?u \<and> disk_inode u = written_back ns ?u \<and> only_inodes ?u u \<and>
      next_inode u = next_inode ?u \<and> (\<forall>a. heap_inodes u a \<noteq> None \<longrightarrow> heap_inodes ?u a \<noteq> None))"
    by (rule Cons.IH [OF g(1)]) (use Cons.prems node_ok_rest [OF _ _ Cons.prems(3) g(2) di h] in auto)
  moreover have "only_inodes s ?u" using saved_only_inodes [OF u1(2)] by (simp add: only_inodes_def)
  ultimately show ?case
    using written_back_Cons [OF Cons.prems(3,4) di h] sd(6,8) only_inodes_trans [of s ?u]
    by (simp add: u1(1) f) (erule runs_mono, auto split: if_splits, metis option.distinct(1))
qed

lemma flush_nodes_runs:
  assumes "disk_ok s" "\<And>n. n \<in> set ns \<Longrightarrow> node_ok {} s n" "distinct (map n_inumber ns)" "distinct (map n_inode ns)"
  shows "runs (flush_nodes ns s) (\<lambda>(ms, u). ms = map (\<lambda>n. n\<lparr>n_dirty := False\<rparr>) ns \<and> the_cache u = the_cache s \<and>
    heap_inodes u = heap_inodes s \<and> next_inode u = next_inode s \<and> disk_inode u = written_back ns s \<and> only_inodes s u)"
  using assms
proof (induction ns arbitrary: s)
  case Nil
  then show ?case by (simp add: written_back_def cached_def fun_eq_iff)
next
  case (Cons n ns)
  let ?ino = "the (heap_inodes s (n_inode n))"
  obtain u where u: "save_if_dirty n s = Inr u" "saved (n_inumber n) ?ino s u"
    using save_if_dirty_runs [OF Cons.prems(1), of "{}" n] Cons.prems(2) by (auto simp: runs_iff)
  note sd = savedD [OF u(2)]
  have h: "heap_inodes u (n_inode m) = heap_inodes s (n_inode m)" if "m \<in> set ns" for m using sd(7) by simp
  have g: "disk_ok u" "reach u = reach s" using Cons.prems(1) sd by (simp_all add: disk_ok_def reach_def nib_def)
  have "runs (flush_nodes ns u) (\<lambda>(ms, v). ms = map (\<lambda>n. n\<lparr>n_dirty := False\<rparr>) ns \<and> the_cache v = the_cache u \<and>
    heap_inodes v = heap_inodes u \<and> next_inode v = next_inode u \<and> disk_inode v = written_back ns u \<and> only_inodes u v)"
    by (rule Cons.IH [OF g(1)]) (use Cons.prems node_ok_rest [OF _ _ Cons.prems(3) g(2) sd(10) h] in auto)
  then show ?case
    using written_back_Cons [OF Cons.prems(3,4) sd(10) h] sd only_inodes_trans [OF saved_only_inodes [OF u(2)]]
    by (simp add: u(1) runs_bind) (erule runs_mono, auto)
qed

lemma table_written_back: "table s = written_back (cnodes s) s"
  by (simp add: fun_eq_iff table_def written_back_def)

text \<open>Destroying the cache leaves on the disk every inode as the file system saw it.\<close>

theorem destroy_cache_runs:
  assumes "cache_inv {} s"
  shows "runs (destroy_cache s) (\<lambda>u. disk_inode u = table s \<and> only_inodes s u \<and>
    (\<exists>c. the_cache u = Some c \<and> \<not> c_alive c) \<and> (\<forall>a. heap_inodes u a \<noteq> None \<longrightarrow> a < next_inode u))"
proof -
  from assms obtain c where c: "the_cache s = Some c" "list_ok c" "cnodes s = nodes c" "disk_ok s" "live_cache s = Inr c"
    "\<And>n. n \<in> set (nodes c) \<Longrightarrow> node_ok {} s n" "\<And>a. heap_inodes s a \<noteq> None \<Longrightarrow> a < next_inode s" by (elim cache_invE) blast
  obtain u where u: "foldE (\<lambda>n s. bindE (save_if_dirty n s) (free_inode (n_inode n))) (nodes c) s = Inr u"
      "the_cache u = the_cache s" "disk_inode u = written_back (nodes c) s" "only_inodes s u"
      "next_inode u = next_inode s" "\<forall>a. heap_inodes u a \<noteq> None \<longrightarrow> heap_inodes s a \<noteq> None"
  proof -
    have "distinct (map n_inumber (nodes c))" "distinct (map n_inode (nodes c))" using c(2) by (simp_all add: list_ok_def)
    from free_nodes_runs [OF c(4) c(6) this] that show thesis unfolding runs_iff by blast
  qed
  let ?u = "u\<lparr>the_cache := Some (c\<lparr>nodes := [], c_alive := False\<rparr>)\<rparr>"
  have "destroy_cache s = Inr ?u" using c(5) u(1) by (simp add: destroy_cache_def)
  moreover have "disk_inode ?u = table s" using u(3) c(3) by (simp add: table_written_back disk_inode_def fun_eq_iff)
  moreover have "only_inodes s ?u" using u(4) c(1) by (simp add: only_inodes_def)
  ultimately show ?thesis using c(7) u(5,6) by simp
qed

theorem flush_cache_runs:
  assumes "cache_inv {} s"
  shows "runs (flush_cache s) (\<lambda>u. cache_inv {} u \<and> room u = room s \<and> table u = table s \<and> disk_inode u = table s \<and> only_inodes s u)"
proof -
  from assms obtain c where c: "the_cache s = Some c" "list_ok c" "cnodes s = nodes c" "disk_ok s" "live_cache s = Inr c"
    "\<And>n. n \<in> set (nodes c) \<Longrightarrow> node_ok {} s n" "\<And>a. heap_inodes s a \<noteq> None \<Longrightarrow> a < next_inode s" by (elim cache_invE) blast
  let ?ns = "map (\<lambda>n. n\<lparr>n_dirty := False\<rparr>) (nodes c)"
  obtain u where u: "flush_nodes (nodes c) s = Inr (?ns, u)" "the_cache u = the_cache s" "heap_inodes u = heap_inodes s"
      "next_inode u = next_inode s" "disk_inode u = written_back (nodes c) s" "only_inodes s u"
    using flush_nodes_runs [OF c(4) c(6)] c(2) by (auto simp: list_ok_def runs_iff)
  let ?u = "u\<lparr>the_cache := Some (c\<lparr>nodes := ?ns\<rparr>)\<rparr>"
  have run: "flush_cache s = Inr ?u" using c(5) u(1) by (simp add: flush_cache_def)
  have cu: "cnodes ?u = ?ns" by (simp add: cnodes_def)
  have du: "disk_inode ?u = table s" using u(5) c(3) by (simp add: table_written_back disk_inode_def fun_eq_iff)
  have g: "disk_ok ?u" "reach ?u = reach s" using c(4) u(6) by (simp_all add: disk_ok_def reach_def nib_def only_inodes_def)
  have num: "map n_inumber ?ns = map n_inumber (nodes c)" "map n_inode ?ns = map n_inode (nodes c)" by (simp_all add: comp_def)
  have tn: "table s (n_inumber m) = the (heap_inodes s (n_inode m))" if "m \<in> set (nodes c)" for m
    using table_in [of s m] that c(2,3) by (simp add: list_ok_def)
  have "node_ok {} ?u m" if "m \<in> set ?ns" for m
  proof -
    from that obtain n where n: "n \<in> set (nodes c)" "m = n\<lparr>n_dirty := False\<rparr>" by auto
    then show ?thesis using c(6) [OF n(1)] tn [OF n(1)] g(2) u(3) by (auto simp: node_ok_def du)
  qed
  moreover have "list_ok (c\<lparr>nodes := ?ns\<rparr>)" using c(2) by (simp add: list_ok_def comp_def)
  ultimately have inv': "cache_inv {} ?u" using g c(7) u(3,4) unfolding cache_inv_def cu by simp
  have "table ?u = table s"
  proof (rule table_eqI)
    show "distinct (map n_inumber (cnodes ?u))" using c(2) unfolding cu by (simp add: list_ok_def comp_def)
    show "the (heap_inodes ?u (n_inode m)) = table s (n_inumber m)" if "m \<in> set (cnodes ?u)" for m
      using that tn u(3) by (auto simp: cu)
  qed (simp add: du)
  moreover have "only_inodes s ?u" "room ?u = room s" using u(6) c(1) by (simp_all add: only_inodes_def room_def)
  ultimately show ?thesis using run inv' du by simp
qed

end
