(* ===== verification/FsFiles.thy ===== *)
theory FsFiles
  imports FsCore FsCacheProps
begin

text \<open>
  Files as maps from offsets to bytes.  The block behind the slots of an inode is given by
  \<open>ptr\<close>: slots 0 to 4 are the direct pointers, 5 to 1028 those in the indirect block, and
  the slot -1 is the indirect block itself.  \<open>pointers_ok\<close> is the invariant of the pointers: blocks in
  use are data blocks, marked in the free map, and none is used twice.
\<close>

section \<open>Slots\<close>

definition ptr :: "(int \<Rightarrow> block) \<Rightarrow> fs_inode \<Rightarrow> int \<Rightarrow> int" where
  "ptr B ino q = (if q = -1 then sint (indirect ino) else if q < 5 then sint (direct ino ! nat q)
     else if indirect ino = 0 then 0 else sint (get_int (B (sint (indirect ino))) (q - 5)))"

definition slots :: "int set" where
  "slots = {-1..<1029}"

definition data_block :: "int \<Rightarrow> int \<Rightarrow> bool" where
  "data_block nb b \<longleftrightarrow> 2 + nb div 10 \<le> b \<and> b < nb"

definition pointers_ok :: "int \<Rightarrow> int \<Rightarrow> (int \<Rightarrow> int \<Rightarrow> int) \<Rightarrow> int list \<Rightarrow> bool" where
  "pointers_ok nb ni P bm \<longleftrightarrow>
     (\<forall>j q. 0 \<le> j \<and> j < ni \<and> q \<in> slots \<and> P j q \<noteq> 0 \<longrightarrow> data_block nb (P j q) \<and> bm ! nat (P j q) \<noteq> 0) \<and>
     (\<forall>j q k r. 0 \<le> j \<and> j < ni \<and> q \<in> slots \<and> 0 \<le> k \<and> k < ni \<and> r \<in> slots \<and> P j q \<noteq> 0 \<and> P j q = P k r \<longrightarrow> j = k \<and> q = r)"

text \<open>The byte at an offset, \<open>None\<close> where no block is.\<close>

definition content :: "(int \<Rightarrow> block) \<Rightarrow> fs_inode \<Rightarrow> int \<Rightarrow> byte option" where
  "content B ino off = (if off < 0 \<or> MAX_OFFSET \<le> off \<or> ptr B ino (off div 4096) = 0 then None
     else Some (B (ptr B ino (off div 4096)) (off mod 4096)))"

lemma MAX_OFFSET_val: "MAX_OFFSET = 1029 * 4096"
  by (simp add: MAX_OFFSET_def fs_sizes)

lemma sint_eq_0 [simp]: "sint (w :: i32) = 0 \<longleftrightarrow> w = 0"
  by (rule signed_eq_0_iff)

lemma sint_small: "0 \<le> b \<Longrightarrow> b \<le> INT_MAX \<Longrightarrow> sint (word_of_int b :: i32) = b"
  by (simp add: INT_MAX_def sint_sbintrunc' signed_take_bit_int_eq_self)

lemma slot_of_offset:
  assumes "0 \<le> off" "off < MAX_OFFSET"
  shows "0 \<le> off div 4096" "off div 4096 < 1029" "off div 4096 \<in> slots"
  using assms by (auto simp: MAX_OFFSET_val slots_def)

lemma pointers_okD:
  assumes "pointers_ok nb ni P bm" "0 \<le> j" "j < ni" "q \<in> slots" "P j q \<noteq> 0"
  shows "data_block nb (P j q)" "bm ! nat (P j q) \<noteq> 0"
    "\<And>k r. 0 \<le> k \<Longrightarrow> k < ni \<Longrightarrow> r \<in> slots \<Longrightarrow> P j q = P k r \<Longrightarrow> j = k \<and> q = r"
  using assms unfolding pointers_ok_def by blast+

lemma pointers_ok_cong:
  assumes "pointers_ok nb ni P bm" "\<And>j q. 0 \<le> j \<Longrightarrow> j < ni \<Longrightarrow> q \<in> slots \<Longrightarrow> P' j q = P j q"
  shows "pointers_ok nb ni P' bm"
  unfolding pointers_ok_def
proof (intro conjI allI impI; elim conjE)
  fix j q assume a: "0 \<le> j" "j < ni" "q \<in> slots" "P' j q \<noteq> 0"
  then show "data_block nb (P' j q)" "bm ! nat (P' j q) \<noteq> 0"
    using pointers_okD(1,2) [OF assms(1) a(1-3)] assms(2) [OF a(1-3)] by simp_all
next
  fix j q k r
  assume a: "0 \<le> j" "j < ni" "q \<in> slots" "0 \<le> k" "k < ni" "r \<in> slots" "P' j q \<noteq> 0" "P' j q = P' k r"
  then have "j = k \<and> q = r"
    using pointers_okD(3) [OF assms(1) a(1-3) _ a(4-6)] assms(2) [OF a(1-3)] assms(2) [OF a(4-6)] by simp
  then show "j = k" "q = r" by simp_all
qed

text \<open>A free block becomes the block of one slot.\<close>

lemma pointers_ok_alloc:
  assumes ok: "pointers_ok nb ni P bm" and len: "length bm = nat nb" and b: "data_block nb b" "bm ! nat b = 0" "0 \<le> nb"
    and P': "\<And>j q. 0 \<le> j \<Longrightarrow> j < ni \<Longrightarrow> q \<in> slots \<Longrightarrow> P' j q = (if j = i \<and> q = p then b else P j q)"
  shows "pointers_ok nb ni P' (bm[nat b := 1])"
proof -
  have ne: "P j q \<noteq> b" if "0 \<le> j" "j < ni" "q \<in> slots" "P j q \<noteq> 0" for j q
    using pointers_okD(2) [OF ok that] b(2) by auto
  have range: "0 \<le> x" if "data_block nb x" for x
    using that b(3) pos_imp_zdiv_nonneg_iff [of 10 nb] unfolding data_block_def by linarith
  have bnd: "0 \<le> b" "b < nb" using b(1) range by (simp_all add: data_block_def)
  then have nth: "bm[nat b := 1] ! nat x = (if x = b then 1 else bm ! nat x)" if "0 \<le> x" for x
    using that len by (auto simp: nth_list_update)
  have new: "P' i p = b" if "0 \<le> i" "i < ni" "p \<in> slots" using P' [OF that] by simp
  have old: "P' j q = P j q" if "0 \<le> j" "j < ni" "q \<in> slots" "(j, q) \<noteq> (i, p)" for j q using P' [OF that(1-3)] that(4) by auto
  show ?thesis
    unfolding pointers_ok_def
  proof (intro conjI allI impI; elim conjE)
    fix j q assume a: "0 \<le> j" "j < ni" "q \<in> slots" "P' j q \<noteq> 0"
    have "data_block nb (P' j q) \<and> bm[nat b := 1] ! nat (P' j q) \<noteq> 0"
    proof (cases "(j, q) = (i, p)")
      case True
      then have "P' j q = b" using new a by blast
      then show ?thesis using b(1) nth [OF bnd(1)] by simp
    next
      case False
      note o = old [OF a(1-3) False]
      then have P: "P j q \<noteq> 0" using a(4) by simp
      then show ?thesis using pointers_okD(1,2) [OF ok a(1-3) P] nth [OF range] by (simp add: o)
    qed
    then show "data_block nb (P' j q)" "bm[nat b := 1] ! nat (P' j q) \<noteq> 0" by blast+
  next
    fix j q k r
    assume a: "0 \<le> j" "j < ni" "q \<in> slots" "0 \<le> k" "k < ni" "r \<in> slots" and nz: "P' j q \<noteq> 0" and eq: "P' j q = P' k r"
    have nz': "P' k r \<noteq> 0" using nz eq by metis
    have "j = k \<and> q = r"
    proof (cases "(j, q) = (i, p) \<or> (k, r) = (i, p)")
      case True
      then show ?thesis using a nz nz' eq new old ne by (metis prod.inject)
    next
      case False
      then have o: "P' j q = P j q" "P' k r = P k r" using a old by blast+
      then show ?thesis using pointers_okD(3) [OF ok a(1-3) _ a(4-6)] nz eq by metis
    qed
    then show "j = k" "q = r" by blast+
  qed
qed

section \<open>Blocks that do not matter\<close>

lemma ptr_direct: "0 \<le> q \<Longrightarrow> q < 5 \<Longrightarrow> ptr B ino q = sint (direct ino ! nat q)"
  by (simp add: ptr_def)

lemma ptr_indirect_block: "ptr B ino (-1) = sint (indirect ino)"
  by (simp add: ptr_def)

lemma ptr_other_block: "indirect ino \<noteq> 0 \<Longrightarrow> sint (indirect ino) \<noteq> b \<Longrightarrow> ptr (B(b := x)) ino q = ptr B ino q"
  by (simp add: ptr_def)

lemma ptr_no_indirect: "indirect ino = 0 \<Longrightarrow> ptr B' ino q = ptr B ino q"
  by (simp add: ptr_def)

lemma ptr_unused_block: "ptr B ino (-1) = 0 \<or> ptr B ino (-1) \<noteq> b \<Longrightarrow> ptr (B(b := x)) ino q = ptr B ino q"
  using ptr_other_block ptr_no_indirect by (simp add: ptr_indirect_block) metis

lemma content_cong:
  assumes "\<And>q. 0 \<le> q \<Longrightarrow> q < 1029 \<Longrightarrow> ptr B' ino' q = ptr B ino q"
    "\<And>q. 0 \<le> q \<Longrightarrow> q < 1029 \<Longrightarrow> ptr B ino q \<noteq> 0 \<Longrightarrow> B' (ptr B ino q) = B (ptr B ino q)"
  shows "content B' ino' = content B ino"
  using assms slot_of_offset by (auto simp: content_def fun_eq_iff not_less not_le)

lemma content_empty [simp]: "content B empty_inode = (\<lambda>_. None)"
  using slot_of_offset by (auto simp: content_def fun_eq_iff empty_inode_def ptr_def nth_Cons' not_less not_le nat_less_iff)

section \<open>The pointer operations on the state\<close>

text \<open>The layout of the disk the free map stands for.\<close>

definition geometry :: "fs \<Rightarrow> bool" where
  "geometry s \<longleftrightarrow> numblocks s = nblocks (dev s) \<and> 2 + numblocks s div 10 \<le> numblocks s \<and>
     numblocks s * DISK_BLOCK_SIZE \<le> INT_MAX \<and> (\<exists>bm. block_freemap s = Some bm \<and> length bm = nat (numblocks s))"

definition bmap :: "fs \<Rightarrow> int list" where
  "bmap s = the (block_freemap s)"

lemma geometryD:
  assumes "geometry s"
  shows "numblocks s = nblocks (dev s)" "2 + numblocks s div 10 \<le> numblocks s" "2 \<le> numblocks s" "numblocks s \<le> INT_MAX"
    "nblocks (dev s) * DISK_BLOCK_SIZE \<le> INT_MAX" "block_freemap s = Some (bmap s)" "length (bmap s) = nat (numblocks s)"
proof -
  show g: "numblocks s = nblocks (dev s)" "2 + numblocks s div 10 \<le> numblocks s"
    "nblocks (dev s) * DISK_BLOCK_SIZE \<le> INT_MAX" "block_freemap s = Some (bmap s)" "length (bmap s) = nat (numblocks s)"
    using assms by (auto simp: geometry_def bmap_def)
  show "2 \<le> numblocks s" using g(2) by presburger
  then show "numblocks s \<le> INT_MAX" using g(1,3) by (simp add: DISK_BLOCK_SIZE_def)
qed

lemma data_block_range:
  assumes "geometry s" "data_block (numblocks s) b"
  shows "2 \<le> b" "b < numblocks s" "b < nblocks (dev s)" "b \<noteq> 0" "b \<le> INT_MAX"
proof -
  show b: "2 \<le> b" "b < numblocks s" using assms(2) geometryD(3) [OF assms(1)] unfolding data_block_def by presburger+
  then show "b < nblocks (dev s)" "b \<noteq> 0" "b \<le> INT_MAX" using geometryD(1,4) [OF assms(1)] by linarith+
qed

lemma geometry_cong:
  "\<lbrakk>geometry s; numblocks u = numblocks s; nblocks (dev u) = nblocks (dev s); block_freemap u = block_freemap s\<rbrakk> \<Longrightarrow> geometry u"
  by (auto simp: geometry_def)

lemma read_block_runs:
  assumes "geometry s" "0 \<le> b" "b < numblocks s"
  shows "runs (read_block b s) (\<lambda>(x, u). x = D s b \<and> reads s u)"
  using disk_read_ok [of b "dev s"] assms geometryD [OF assms(1)] by (auto simp: read_block_def reads_def)

text \<open>Only block \<open>b\<close> of the disk has changed.\<close>

definition wrote :: "int \<Rightarrow> block \<Rightarrow> fs \<Rightarrow> fs \<Rightarrow> bool" where
  "wrote b x s u \<longleftrightarrow> (\<exists>d. u = s\<lparr>dev := d\<rparr> \<and> nblocks d = nblocks (dev s) \<and> blocks d = (D s)(b := x))"

lemma wroteD:
  assumes "wrote b x s u"
  shows "D u = (D s)(b := x)" "nblocks (dev u) = nblocks (dev s)" "numblocks u = numblocks s" "numinodes u = numinodes s"
    "block_freemap u = block_freemap s" "inode_freemap u = inode_freemap s" "the_cache u = the_cache s"
    "heap_inodes u = heap_inodes s" "next_inode u = next_inode s" "bmap u = bmap s"
  using assms by (auto simp: wrote_def bmap_def)

lemma write_block_runs:
  assumes "geometry s" "0 \<le> b" "b < numblocks s"
  shows "runs (write_block b x s) (wrote b x s)"
  using disk_write_ok [of b "dev s" x] assms geometryD [OF assms(1)] by (auto simp: write_block_def wrote_def)

lemma mark_block_runs:
  assumes "geometry s" "0 \<le> b" "b < numblocks s"
  shows "mark_block b v s = Inr (s\<lparr>block_freemap := Some ((bmap s)[nat b := v])\<rparr>)"
  using assms geometryD [OF assms(1)] by (simp add: mark_block_def arr_set_def vec_set_def)

text \<open>The search for a free block finds one unless none is left.\<close>

lemma find_free_runs:
  assumes "geometry s" "\<And>i. i \<in> set is \<Longrightarrow> 0 \<le> i \<and> i < numblocks s"
  shows "runs (find_free is s) (\<lambda>b. (b = 0 \<and> (\<forall>i \<in> set is. bmap s ! nat i \<noteq> 0)) \<or> (b \<in> set is \<and> bmap s ! nat b = 0))"
  using assms(2)
proof (induction "is")
  case (Cons i "is")
  then have "arr_at (block_freemap s) i = Inr (bmap s ! nat i)"
    using geometryD [OF assms(1)] by (simp add: arr_at_def)
  then show ?case using Cons by (auto simp: runs_bind intro: runs_mono)
qed simp

lemma NUM_INODE_BLOCKS_nonneg: "0 \<le> n \<Longrightarrow> NUM_INODE_BLOCKS n = 1 + n div 10"
  by (simp add: NUM_INODE_BLOCKS_def signed_divide_int_def sgn_if)

theorem find_free_block_runs:
  assumes "geometry s"
  shows "runs (find_free_block s) (\<lambda>b. if b = 0 then \<forall>x. data_block (numblocks s) x \<longrightarrow> bmap s ! nat x \<noteq> 0
    else data_block (numblocks s) b \<and> bmap s ! nat b = 0)"
proof -
  note g = geometryD [OF assms]
  let ?is = "[1 + NUM_INODE_BLOCKS (numblocks s)..numblocks s - 1]"
  have set: "set ?is = {x. data_block (numblocks s) x}"
    using NUM_INODE_BLOCKS_nonneg [of "numblocks s"] g(3) by (auto simp: data_block_def)
  have "runs (find_free ?is s) (\<lambda>b. (b = 0 \<and> (\<forall>i \<in> set ?is. bmap s ! nat i \<noteq> 0)) \<or> (b \<in> set ?is \<and> bmap s ! nat b = 0))"
    by (rule find_free_runs [OF assms]) (use set data_block_range [OF assms] in force)
  then show ?thesis
    unfolding find_free_block_def set using data_block_range(4) [OF assms] by (auto elim!: runs_mono)
qed

text \<open>The block of an offset.\<close>

definition pointers_in_range :: "int \<Rightarrow> fs_inode \<Rightarrow> bool" where
  "pointers_in_range nb ino \<longleftrightarrow> length (direct ino) = 5 \<and> (indirect ino = 0 \<or> data_block nb (sint (indirect ino)))"

theorem get_block_number_runs:
  assumes "geometry s" "heap_inodes s a = Some ino" "pointers_in_range (numblocks s) ino" "0 \<le> off" "off < MAX_OFFSET"
  shows "runs (get_block_number_for_offset a off s) (\<lambda>(b, u). b = ptr (D s) ino (off div 4096) \<and> reads s u)"
proof -
  let ?p = "off div 4096"
  have p: "off sdiv 4096 = ?p" "0 \<le> ?p" "?p < 1029" using assms(4,5) slot_of_offset by (simp_all add: signed_divide_int_def sgn_if)
  have len: "length (direct ino) = 5" using assms(3) by (simp add: pointers_in_range_def)
  consider "?p < 5" | "5 \<le> ?p" "indirect ino = 0" | "5 \<le> ?p" "indirect ino \<noteq> 0" by linarith
  then show ?thesis
  proof cases
    case 1
    then show ?thesis
      using p len assms(2) by (simp add: get_block_number_for_offset_def inode_ptr_def fs_sizes Let_def ptr_def)
  next
    case 2
    then show ?thesis
      using p assms(2) by (simp add: get_block_number_for_offset_def inode_ptr_def fs_sizes Let_def ptr_def)
  next
    case 3
    then have "data_block (numblocks s) (sint (indirect ino))" using assms(3) by (simp add: pointers_in_range_def)
    then have "runs (read_block (sint (indirect ino)) s) (\<lambda>(x, u). x = D s (sint (indirect ino)) \<and> reads s u)"
      using read_block_runs [OF assms(1)] data_block_range [OF assms(1)] by force
    then show ?thesis
      using 3 p assms(2)
      by (auto simp: get_block_number_for_offset_def inode_ptr_def fs_sizes Let_def ptr_def pointer_at_def runs_bind elim!: runs_mono)
  qed
qed

section \<open>What a change of one block does to the files\<close>

text \<open>A block that is not an indirect block in use: the pointers stay.\<close>

lemma ptr_write_data:
  assumes ok: "pointers_ok nb ni (\<lambda>j. ptr B (T j)) bm" and i: "0 \<le> i" "i < ni" "0 \<le> q" "q < 1029" and nz: "ptr B (T i) q \<noteq> 0"
    and j: "0 \<le> j" "j < ni"
  shows "ptr (B(ptr B (T i) q := x)) (T j) = ptr B (T j)"
proof
  fix r
  have "ptr B (T j) (-1) = 0 \<or> ptr B (T j) (-1) \<noteq> ptr B (T i) q"
  proof (rule ccontr)
    assume "\<not> ?thesis"
    then have "i = j \<and> q = -1"
      using pointers_okD(3) [OF ok i(1,2) _ nz j, of "-1"] i by (simp add: slots_def)
    then show False using i by simp
  qed
  then show "ptr (B(ptr B (T i) q := x)) (T j) r = ptr B (T j) r" by (rule ptr_unused_block)
qed

lemma content_write_data:
  assumes ok: "pointers_ok nb ni (\<lambda>j. ptr B (T j)) bm" and i: "0 \<le> i" "i < ni" "0 \<le> q" "q < 1029" and nz: "ptr B (T i) q \<noteq> 0"
    and j: "0 \<le> j" "j < ni"
  shows "content (B(ptr B (T i) q := x)) (T j) off =
    (if j = i \<and> 0 \<le> off \<and> off < MAX_OFFSET \<and> off div 4096 = q then Some (x (off mod 4096)) else content B (T j) off)"
proof -
  let ?r = "off div 4096"
  have *: "j = i \<and> ?r = q" if "0 \<le> off" "off < MAX_OFFSET" "ptr B (T j) ?r = ptr B (T i) q"
    using pointers_okD(3) [OF ok i(1,2) _ nz j slot_of_offset(3) [OF that(1,2)]] that(3) i by (simp add: slots_def)
  show ?thesis unfolding content_def ptr_write_data [OF ok i nz j] using * nz by auto
qed

lemma ptr_write_free:
  assumes ok: "pointers_ok nb ni (\<lambda>j. ptr B (T j)) bm" and b: "bm ! nat b = 0" and j: "0 \<le> j" "j < ni"
  shows "ptr (B(b := x)) (T j) = ptr B (T j)"
proof
  fix r
  have "ptr B (T j) (-1) = 0 \<or> ptr B (T j) (-1) \<noteq> b"
    using pointers_okD(2) [OF ok j, of "-1"] b by (auto simp: slots_def)
  then show "ptr (B(b := x)) (T j) r = ptr B (T j) r" by (rule ptr_unused_block)
qed

text \<open>A pointer in an indirect block.\<close>

lemma ptr_write_indirect:
  assumes ok: "pointers_ok nb ni (\<lambda>j. ptr B (T j)) bm" and i: "0 \<le> i" "i < ni" "5 \<le> q" "q < 1029"
    and nz: "ptr B (T i) (-1) \<noteq> 0" and j: "0 \<le> j" "j < ni"
  shows "ptr (B(ptr B (T i) (-1) := put_int (B (ptr B (T i) (-1))) (q - 5) w)) (T j) r = (if j = i \<and> r = q then sint w else ptr B (T j) r)"
proof (cases "j = i")
  case True
  have "indirect (T i) \<noteq> 0" using nz by (simp add: ptr_indirect_block)
  then show ?thesis using True i by (auto simp: ptr_def get_put_int)
next
  case False
  have "ptr B (T j) (-1) = 0 \<or> ptr B (T j) (-1) \<noteq> ptr B (T i) (-1)"
    using pointers_okD(3) [OF ok i(1,2) _ nz j, of "-1"] False by (auto simp: slots_def)
  from ptr_unused_block [OF this] show ?thesis using False by simp
qed

lemma ptr_set_direct:
  assumes "length (direct ino) = 5" "0 \<le> q" "q < 5" "0 \<le> b" "b \<le> INT_MAX" "r \<in> slots"
  shows "ptr B (ino\<lparr>direct := (direct ino)[nat q := word_of_int b]\<rparr>) r = (if r = q then b else ptr B ino r)"
  using assms by (auto simp: ptr_def slots_def nth_list_update sint_small nat_eq_iff2)

lemma ptr_set_indirect:
  assumes "indirect ino = 0" "5 \<le> q" "q < 1029" "0 < ib" "ib \<le> INT_MAX" "0 \<le> b" "b \<le> INT_MAX" "r \<in> slots"
  shows "ptr (B(ib := put_int zero_block (q - 5) (word_of_int b))) (ino\<lparr>indirect := word_of_int ib\<rparr>) r =
    (if r = q then b else if r = -1 then ib else ptr B ino r)"
proof -
  have "(word_of_int ib :: i32) \<noteq> 0" using sint_small [of ib] assms sint_eq_0 [of "word_of_int ib"] by force
  then show ?thesis using assms by (auto simp: ptr_def slots_def sint_small get_put_int)
qed

text \<open>A slot gets a zeroed block; the other slots keep theirs, with what is in them.\<close>

lemma content_alloc:
  assumes P: "\<And>r. 0 \<le> r \<Longrightarrow> r < 1029 \<Longrightarrow> ptr B' ino' r = (if r = q then b else ptr B ino r)"
    and B: "\<And>r. 0 \<le> r \<Longrightarrow> r < 1029 \<Longrightarrow> r \<noteq> q \<Longrightarrow> ptr B ino r \<noteq> 0 \<Longrightarrow> B' (ptr B ino r) = B (ptr B ino r)"
    and b: "B' b = zero_block" "b \<noteq> 0"
  shows "content B' ino' off = (if 0 \<le> off \<and> off < MAX_OFFSET \<and> off div 4096 = q then Some 0 else content B ino off)"
proof (cases "0 \<le> off \<and> off < MAX_OFFSET")
  case True
  then show ?thesis
    using P [of "off div 4096"] B [of "off div 4096"] slot_of_offset [of off] b by (auto simp: content_def zero_block_def)
qed (auto simp: content_def)

text \<open>At most one data block is free.\<close>

definition nearly_full :: "fs \<Rightarrow> bool" where
  "nearly_full s \<longleftrightarrow> (\<exists>y. \<forall>x. data_block (numblocks s) x \<and> x \<noteq> y \<longrightarrow> bmap s ! nat x \<noteq> 0)"

end
