(* ===== verification/FsWrites.thy ===== *)
theory FsWrites
  imports FsFiles
begin

text \<open>
  Reading and writing through an open inode.  Between \<open>get_inode\<close> and \<open>set_dirty\<close> the file
  system changes the inode behind the pointer \<open>a\<close>, the free map and data blocks, and nothing
  else: this is \<open>opened\<close>, relative to the state \<open>s\<close> in which the pointer was handed out.
\<close>

definition opened :: "fs \<Rightarrow> int \<Rightarrow> nat \<Rightarrow> fs_inode \<Rightarrow> fs \<Rightarrow> bool" where
  "opened s i a ino u \<longleftrightarrow> geometry u \<and> the_cache u = the_cache s \<and> heap_inodes u = (heap_inodes s)(a := Some ino) \<and>
     next_inode u = next_inode s \<and> numblocks u = numblocks s \<and> numinodes u = numinodes s \<and>
     inode_freemap u = inode_freemap s \<and> nblocks (dev u) = nblocks (dev s) \<and>
     (\<forall>b < 2 + numblocks s div 10. D u b = D s b) \<and> length (direct ino) = 5 \<and>
     pointers_ok (numblocks s) (numinodes s) (\<lambda>j. ptr (D u) (((table s)(i := ino)) j)) (bmap u) \<and>
     (\<forall>j. 0 \<le> j \<and> j < numinodes s \<and> j \<noteq> i \<longrightarrow> content (D u) (table s j) = content (D s) (table s j))"

lemma openedD:
  assumes "opened s i a ino u"
  shows "geometry u" "the_cache u = the_cache s" "heap_inodes u = (heap_inodes s)(a := Some ino)"
    "next_inode u = next_inode s" "numblocks u = numblocks s" "numinodes u = numinodes s"
    "inode_freemap u = inode_freemap s" "nblocks (dev u) = nblocks (dev s)"
    "\<And>b. b < 2 + numblocks s div 10 \<Longrightarrow> D u b = D s b" "length (direct ino) = 5"
    "pointers_ok (numblocks s) (numinodes s) (\<lambda>j. ptr (D u) (((table s)(i := ino)) j)) (bmap u)"
    "\<And>j. 0 \<le> j \<Longrightarrow> j < numinodes s \<Longrightarrow> j \<noteq> i \<Longrightarrow> content (D u) (table s j) = content (D s) (table s j)"
    "heap_inodes u a = Some ino"
  using assms by (auto simp: opened_def)

lemma opened_ptr:
  assumes "opened s i a ino u" "0 \<le> i" "i < numinodes s" "q \<in> slots" "ptr (D u) ino q \<noteq> 0"
  shows "data_block (numblocks u) (ptr (D u) ino q)" "bmap u ! nat (ptr (D u) ino q) \<noteq> 0"
  using pointers_okD(1,2) [OF openedD(11) [OF assms(1)] assms(2,3,4)] assms(5) openedD(5) [OF assms(1)] by simp_all

lemma opened_in_range:
  assumes "opened s i a ino u" "0 \<le> i" "i < numinodes s"
  shows "pointers_in_range (numblocks u) ino"
proof -
  have "indirect ino \<noteq> 0 \<Longrightarrow> data_block (numblocks u) (sint (indirect ino))"
    using opened_ptr(1) [OF assms, of "-1"] by (simp add: ptr_indirect_block slots_def)
  then show ?thesis using openedD(10) [OF assms(1)] by (auto simp: pointers_in_range_def)
qed

text \<open>A step that changes the open inode, the free map and data blocks.\<close>

lemma opened_step:
  assumes u: "opened s i a ino u"
    and v: "the_cache v = the_cache u" "heap_inodes v = (heap_inodes u)(a := Some ino')" "next_inode v = next_inode u"
      "numblocks v = numblocks u" "numinodes v = numinodes u" "inode_freemap v = inode_freemap u" "nblocks (dev v) = nblocks (dev u)"
      "block_freemap v = Some bm" "length bm = nat (numblocks u)"
      "\<And>b. b < 2 + numblocks s div 10 \<Longrightarrow> D v b = D u b" "length (direct ino') = 5"
    and P: "pointers_ok (numblocks s) (numinodes s) (\<lambda>j. ptr (D v) (((table s)(i := ino')) j)) bm"
    and C: "\<And>j. 0 \<le> j \<Longrightarrow> j < numinodes s \<Longrightarrow> j \<noteq> i \<Longrightarrow> content (D v) (table s j) = content (D u) (table s j)"
  shows "opened s i a ino' v"
proof -
  note o = openedD [OF u]
  have "geometry v" using o(1) v by (auto simp: geometry_def)
  then show ?thesis using o v P C by (simp add: opened_def bmap_def)
qed

lemma opened_reads:
  assumes "opened s i a ino u" "reads u v"
  shows "opened s i a ino v" "D v = D u" "bmap v = bmap u" "numblocks v = numblocks u"
proof -
  note r = readsD [OF assms(2)]
  note o = openedD [OF assms(1)] and g = geometryD [OF openedD(1) [OF assms(1)]]
  show "D v = D u" "bmap v = bmap u" "numblocks v = numblocks u" using r by (simp_all add: bmap_def)
  show "opened s i a ino v"
    by (rule opened_step [OF assms(1)]) (use r o g(6,7) in \<open>simp_all add: fun_upd_idem\<close>)
qed

text \<open>Writing into a block the file has.\<close>

lemma opened_write:
  assumes u: "opened s i a ino u" and i: "0 \<le> i" "i < numinodes s" and q: "0 \<le> q" "q < 1029" "ptr (D u) ino q \<noteq> 0"
    and w: "wrote (ptr (D u) ino q) x u v"
  shows "opened s i a ino v" "bmap v = bmap u" "ptr (D v) ino = ptr (D u) ino"
    "content (D v) ino off = (if 0 \<le> off \<and> off < MAX_OFFSET \<and> off div 4096 = q then Some (x (off mod 4096)) else content (D u) ino off)"
proof -
  note o = openedD [OF u] and w = wroteD [OF w] and g = geometryD [OF openedD(1) [OF u]]
  have ok: "pointers_ok (numblocks s) (numinodes s) (\<lambda>j. ptr (D u) (((table s)(i := ino)) j)) (bmap u)" by (fact o(11))
  have nz: "ptr (D u) (((table s)(i := ino)) i) q \<noteq> 0" using q by simp
  note pw = ptr_write_data [OF ok i q(1,2) nz, of _ x] and cw = content_write_data [OF ok i q(1,2) nz, of _ x]
  have range: "2 + numblocks s div 10 \<le> ptr (D u) ino q"
    using opened_ptr(1) [OF u i _ q(3)] q o(5) by (simp add: slots_def data_block_def)
  show "ptr (D v) ino = ptr (D u) ino" using pw [of i] i by (simp add: w)
  show "content (D v) ino off = (if 0 \<le> off \<and> off < MAX_OFFSET \<and> off div 4096 = q then Some (x (off mod 4096)) else content (D u) ino off)"
    using cw [of i] i by (simp add: w)
  show "bmap v = bmap u" by (fact w(10))
  show "opened s i a ino v"
  proof (rule opened_step [OF u])
    show "pointers_ok (numblocks s) (numinodes s) (\<lambda>j. ptr (D v) (((table s)(i := ino)) j)) (bmap u)"
      by (rule pointers_ok_cong [OF ok]) (use pw in \<open>simp add: w\<close>)
    show "content (D v) (table s j) = content (D u) (table s j)" if "0 \<le> j" "j < numinodes s" "j \<noteq> i" for j
      using cw [OF that(1,2)] that(3) by (auto simp: w fun_eq_iff)
    show "D v b = D u b" if "b < 2 + numblocks s div 10" for b using that range by (simp add: w)
  qed (use w o g(6,7) in \<open>simp_all add: fun_upd_idem\<close>)
qed

section \<open>Giving a slot a block\<close>

definition stepped :: "nat \<Rightarrow> fs_inode \<Rightarrow> int list \<Rightarrow> (int \<Rightarrow> block) \<Rightarrow> fs \<Rightarrow> fs \<Rightarrow> bool" where
  "stepped a ino bm B u v \<longleftrightarrow> the_cache v = the_cache u \<and> heap_inodes v = (heap_inodes u)(a := Some ino) \<and>
     next_inode v = next_inode u \<and> numblocks v = numblocks u \<and> numinodes v = numinodes u \<and>
     inode_freemap v = inode_freemap u \<and> nblocks (dev v) = nblocks (dev u) \<and> block_freemap v = Some bm \<and> D v = B"

lemma content_other_slot:
  assumes "\<And>r. 0 \<le> r \<Longrightarrow> r < 1029 \<Longrightarrow> r \<noteq> q \<Longrightarrow> ptr B' ino' r = ptr B ino r"
    "\<And>r. 0 \<le> r \<Longrightarrow> r < 1029 \<Longrightarrow> r \<noteq> q \<Longrightarrow> ptr B ino r \<noteq> 0 \<Longrightarrow> B' (ptr B ino r) = B (ptr B ino r)"
    "off div 4096 \<noteq> q"
  shows "content B' ino' off = content B ino off"
  using assms(1) [of "off div 4096"] assms(2) [of "off div 4096"] assms(3) slot_of_offset [of off] by (auto simp: content_def)

text \<open>The slot points to the block, which is in use now; what the other slots hold is as before.\<close>

definition assigned :: "fs \<Rightarrow> int \<Rightarrow> nat \<Rightarrow> int \<Rightarrow> fs_inode \<Rightarrow> fs \<Rightarrow> fs_inode \<Rightarrow> int \<Rightarrow> fs \<Rightarrow> bool" where
  "assigned s i a q ino u ino' b v \<longleftrightarrow> opened s i a ino' v \<and> ptr (D v) ino' q = b \<and>
     (\<forall>off. off div 4096 \<noteq> q \<longrightarrow> content (D v) ino' off = content (D u) ino off) \<and>
     isvalid ino' = isvalid ino \<and> i_size ino' = i_size ino"

lemma assigned_direct:
  assumes u: "opened s i a ino u" and i: "0 \<le> i" "i < numinodes s" and q: "0 \<le> q" "q < 5"
    and b: "data_block (numblocks u) b" "bmap u ! nat b = 0"
    and v: "stepped a (ino\<lparr>direct := (direct ino)[nat q := word_of_int b]\<rparr>) ((bmap u)[nat b := 1]) (D u) u v"
  shows "assigned s i a q ino u (ino\<lparr>direct := (direct ino)[nat q := word_of_int b]\<rparr>) b v"
proof -
  let ?ino = "ino\<lparr>direct := (direct ino)[nat q := word_of_int b]\<rparr>"
  note o = openedD [OF u] and g = geometryD [OF openedD(1) [OF u]] and bb = data_block_range [OF openedD(1) [OF u] b(1)]
  have p: "ptr (D u) ?ino r = (if r = q then b else ptr (D u) ino r)" if "r \<in> slots" for r
    using ptr_set_direct [OF o(10) q _ bb(5) that] bb(1) by simp
  have "opened s i a ?ino v"
  proof (rule opened_step [OF u])
    show "pointers_ok (numblocks s) (numinodes s) (\<lambda>j. ptr (D v) (((table s)(i := ?ino)) j)) ((bmap u)[nat b := 1])"
      by (rule pointers_ok_alloc [OF o(11), where i = i and p = q and b = b]) (use b g o(5) v p in \<open>auto simp: stepped_def\<close>)
  qed (use v g o(10) in \<open>simp_all add: stepped_def\<close>)
  moreover have "ptr (D v) ?ino q = b" using p [of q] q v by (simp add: slots_def stepped_def)
  moreover have "content (D v) ?ino off = content (D u) ino off" if "off div 4096 \<noteq> q" for off
    by (rule content_other_slot [OF _ _ that]) (use p v in \<open>auto simp: slots_def stepped_def\<close>)
  ultimately show ?thesis by (simp add: assigned_def)
qed

lemma assigned_indirect:
  assumes u: "opened s i a ino u" and i: "0 \<le> i" "i < numinodes s" and q: "5 \<le> q" "q < 1029"
    and ib: "ib = sint (indirect ino)" "indirect ino \<noteq> 0"
    and b: "data_block (numblocks u) b" "bmap u ! nat b = 0"
    and v: "stepped a ino ((bmap u)[nat b := 1]) ((D u)(ib := put_int (D u ib) (q - 5) (word_of_int b))) u v"
  shows "assigned s i a q ino u ino b v"
proof -
  note o = openedD [OF u] and g = geometryD [OF openedD(1) [OF u]] and bb = data_block_range [OF openedD(1) [OF u] b(1)]
  let ?T = "(table s)(i := ino)" and ?w = "word_of_int b :: i32"
  have ibp: "ib = ptr (D u) (?T i) (-1)" by (simp add: ptr_indirect_block ib)
  have nz: "ptr (D u) (?T i) (-1) \<noteq> 0" using ib by (simp add: ptr_indirect_block)
  have sw: "sint ?w = b" using sint_small bb by simp
  have Dv: "D v = (D u)(ib := put_int (D u ib) (q - 5) ?w)" using v by (simp add: stepped_def)
  have p: "ptr (D v) (?T j) r = (if j = i \<and> r = q then b else ptr (D u) (?T j) r)" if "0 \<le> j" "j < numinodes s" for j r
    using ptr_write_indirect [OF o(11) i q nz that, of ?w r] sw unfolding Dv ibp by simp
  have ne: "ptr (D u) (?T j) r \<noteq> ib" if "0 \<le> j" "j < numinodes s" "0 \<le> r" "r < 1029" for j r
    using pointers_okD(3) [OF o(11) i _ nz that(1,2), of r] that ibp by (force simp: slots_def)
  have low: "2 + numblocks s div 10 \<le> ib"
    using opened_ptr(1) [OF u i, of "-1"] ib o(5) by (simp add: ptr_indirect_block slots_def data_block_def)
  have "opened s i a ino v"
  proof (rule opened_step [OF u])
    show "pointers_ok (numblocks s) (numinodes s) (\<lambda>j. ptr (D v) (((table s)(i := ino)) j)) ((bmap u)[nat b := 1])"
      by (rule pointers_ok_alloc [OF o(11), where i = i and p = q and b = b]) (use b g o(5) p in auto)
    show "content (D v) (table s j) = content (D u) (table s j)" if "0 \<le> j" "j < numinodes s" "j \<noteq> i" for j
      by (rule content_cong) (use p [OF that(1,2)] ne [OF that(1,2)] that(3) Dv in auto)
    show "D v b = D u b" if "b < 2 + numblocks s div 10" for b using that low by (simp add: Dv)
  qed (use v g o(10) in \<open>simp_all add: stepped_def\<close>)
  moreover have "ptr (D v) ino q = b" using p [OF i, of q] by simp
  moreover have "content (D v) ino off = content (D u) ino off" if "off div 4096 \<noteq> q" for off
    by (rule content_other_slot [OF _ _ that]) (use p [OF i] ne [OF i] Dv in auto)
  ultimately show ?thesis by (simp add: assigned_def)
qed

lemma assigned_both:
  assumes u: "opened s i a ino u" and i: "0 \<le> i" "i < numinodes s" and q: "5 \<le> q" "q < 1029" and no: "indirect ino = 0"
    and ib: "data_block (numblocks u) ib" "bmap u ! nat ib = 0"
    and b: "data_block (numblocks u) b" "(bmap u)[nat ib := 1] ! nat b = 0"
    and v: "stepped a (ino\<lparr>indirect := word_of_int ib\<rparr>) ((bmap u)[nat ib := 1, nat b := 1])
      ((D u)(ib := put_int zero_block (q - 5) (word_of_int b))) u v"
  shows "assigned s i a q ino u (ino\<lparr>indirect := word_of_int ib\<rparr>) b v"
proof -
  let ?ino = "ino\<lparr>indirect := word_of_int ib\<rparr>"
  note o = openedD [OF u] and g = geometryD [OF openedD(1) [OF u]]
    and bb = data_block_range [OF openedD(1) [OF u] b(1)] and ibb = data_block_range [OF openedD(1) [OF u] ib(1)]
  let ?T = "(table s)(i := ino)" and ?T' = "(table s)(i := ?ino)"
  have Dv: "D v = (D u)(ib := put_int zero_block (q - 5) (word_of_int b))" using v by (simp add: stepped_def)
  have p: "ptr (D v) ?ino r = (if r = q then b else if r = -1 then ib else ptr (D u) ino r)" if "r \<in> slots" for r
    using ptr_set_indirect [OF no q _ ibb(5) _ bb(5) that] ibb(1) bb(1) Dv by simp
  have pj: "ptr (D v) (table s j) = ptr (D u) (table s j)" if "0 \<le> j" "j < numinodes s" "j \<noteq> i" for j
    using ptr_write_free [OF o(11) ib(2) that(1,2)] that(3) Dv by simp
  have ne: "ptr (D u) (?T j) r \<noteq> ib" if "0 \<le> j" "j < numinodes s" "r \<in> slots" "ptr (D u) (?T j) r \<noteq> 0" for j r
    using pointers_okD(2) [OF o(11) that] ib(2) by auto
  let ?P = "\<lambda>j r. if j = i \<and> r = -1 then ib else ptr (D u) (?T j) r"
  have ok1: "pointers_ok (numblocks s) (numinodes s) ?P ((bmap u)[nat ib := 1])"
    by (rule pointers_ok_alloc [OF o(11), where i = i and p = "-1" and b = ib]) (use ib g o(5) in auto)
  have ok2: "pointers_ok (numblocks s) (numinodes s) (\<lambda>j. ptr (D v) (?T' j)) ((bmap u)[nat ib := 1, nat b := 1])"
  proof (rule pointers_ok_alloc [OF ok1, where i = i and p = q and b = b])
    fix j r assume j: "0 \<le> j" "j < numinodes s" "r \<in> slots"
    show "ptr (D v) (?T' j) r = (if j = i \<and> r = q then b else if j = i \<and> r = -1 then ib else ptr (D u) (?T j) r)"
      using p [OF j(3)] pj [OF j(1,2)] by (cases "j = i") auto
  qed (use b g o(5) in auto)
  have low: "2 + numblocks s div 10 \<le> ib" using ib(1) o(5) by (simp add: data_block_def)
  have "opened s i a ?ino v"
  proof (rule opened_step [OF u])
    show "pointers_ok (numblocks s) (numinodes s) (\<lambda>j. ptr (D v) (?T' j)) ((bmap u)[nat ib := 1, nat b := 1])" by (fact ok2)
    show "content (D v) (table s j) = content (D u) (table s j)" if "0 \<le> j" "j < numinodes s" "j \<noteq> i" for j
      by (rule content_cong) (use pj [OF that] ne [OF that(1,2)] that(3) Dv in \<open>auto simp: slots_def\<close>)
    show "D v b = D u b" if "b < 2 + numblocks s div 10" for b using that low by (simp add: Dv)
  qed (use v g o(10) in \<open>simp_all add: stepped_def\<close>)
  moreover have "ptr (D v) ?ino q = b" using p [of q] q by (simp add: slots_def)
  moreover have "content (D v) ?ino off = content (D u) ino off" if "off div 4096 \<noteq> q" for off
  proof (rule content_other_slot [OF _ _ that])
    fix r :: int assume r: "0 \<le> r" "r < 1029" "r \<noteq> q"
    show "ptr (D v) ?ino r = ptr (D u) ino r" using p [of r] r by (simp add: slots_def)
    show "D v (ptr (D u) ino r) = D u (ptr (D u) ino r)" if "ptr (D u) ino r \<noteq> 0"
      using ne [OF i, of r] r that Dv by (simp add: slots_def)
  qed
  ultimately show ?thesis by (simp add: assigned_def)
qed

text \<open>The block that was assigned is zeroed at last.\<close>

definition allocated :: "fs \<Rightarrow> int \<Rightarrow> nat \<Rightarrow> int \<Rightarrow> fs_inode \<Rightarrow> fs \<Rightarrow> fs_inode \<Rightarrow> int \<Rightarrow> fs \<Rightarrow> bool" where
  "allocated s i a q ino u ino' b v \<longleftrightarrow> opened s i a ino' v \<and> b \<noteq> 0 \<and> b = ptr (D v) ino' q \<and>
     (\<forall>off. content (D v) ino' off = (if 0 \<le> off \<and> off < MAX_OFFSET \<and> off div 4096 = q then Some 0 else content (D u) ino off)) \<and>
     isvalid ino' = isvalid ino \<and> i_size ino' = i_size ino"

lemma assigned_zeroed:
  assumes as: "assigned s i a q ino u ino' b v" and i: "0 \<le> i" "i < numinodes s" and q: "0 \<le> q" "q < 1029" and b: "b \<noteq> 0"
  shows "runs (write_block b zero_block v) (allocated s i a q ino u ino' b)"
proof -
  have v: "opened s i a ino' v" and p: "ptr (D v) ino' q = b" using as by (simp_all add: assigned_def)
  have "data_block (numblocks v) b" using opened_ptr(1) [OF v i, of q] p q b by (simp add: slots_def)
  then obtain w where w: "write_block b zero_block v = Inr w" "wrote b zero_block v w"
    using write_block_runs [OF openedD(1) [OF v], of b zero_block] data_block_range [OF openedD(1) [OF v], of b] by (auto simp: runs_iff)
  have "ptr (D v) ino' q \<noteq> 0" using p b by simp
  note ow = opened_write [OF v i q this, of zero_block w] 
  have c: "content (D w) ino' off = (if 0 \<le> off \<and> off < MAX_OFFSET \<and> off div 4096 = q then Some 0 else content (D u) ino off)" for off
  proof (cases "0 \<le> off \<and> off < MAX_OFFSET")
    case True
    then show ?thesis using ow(4) [of off] w(2) p as by (simp add: assigned_def zero_block_def)
  qed (auto simp: content_def)
  have "allocated s i a q ino u ino' b w"
    using ow(1,3) w(2) p b c as by (simp add: allocated_def assigned_def)
  then show ?thesis using w(1) by simp
qed

lemma set_inode_simps [simp]:
  "the_cache (set_inode a ino s) = the_cache s" "heap_inodes (set_inode a ino s) = (heap_inodes s)(a := Some ino)"
  "next_inode (set_inode a ino s) = next_inode s" "numblocks (set_inode a ino s) = numblocks s"
  "numinodes (set_inode a ino s) = numinodes s" "inode_freemap (set_inode a ino s) = inode_freemap s"
  "block_freemap (set_inode a ino s) = block_freemap s" "dev (set_inode a ino s) = dev s" "bmap (set_inode a ino s) = bmap s"
  "geometry (set_inode a ino s) = geometry s"
  by (simp_all add: set_inode_def bmap_def geometry_def)

abbreviation set_bmap :: "int list \<Rightarrow> fs \<Rightarrow> fs" where
  "set_bmap bm s \<equiv> s\<lparr>block_freemap := Some bm\<rparr>"

lemma geometry_set_bmap: "geometry s \<Longrightarrow> length bm = nat (numblocks s) \<Longrightarrow> geometry (set_bmap bm s)"
  by (auto simp: geometry_def)

lemma bmap_set_bmap [simp]: "bmap (set_bmap bm s) = bm"
  by (simp add: bmap_def)

text \<open>What \<open>create_new_data_block\<close> promises, with the flag that tells that the inode was changed.\<close>

definition created :: "fs \<Rightarrow> int \<Rightarrow> nat \<Rightarrow> int \<Rightarrow> fs_inode \<Rightarrow> fs \<Rightarrow> int \<Rightarrow> int \<times> int \<times> fs \<Rightarrow> bool" where
  "created s i a q ino u w = (\<lambda>(b, w', v).
     if b = 0 then opened s i a ino v \<and> D v = D u \<and> w' = w \<and> nearly_full v
     else \<exists>ino'. allocated s i a q ino u ino' b v \<and> (w' = 0 \<longrightarrow> ino' = ino \<and> w = 0))"

lemma create_direct:
  assumes u: "opened s i a ino u" and i: "0 \<le> i" "i < numinodes s" and q: "0 \<le> q" "q < 5"
    and b: "data_block (numblocks u) b" "bmap u ! nat b = 0"
  shows "runs (bindE (mark_block b 1 (set_inode a (ino\<lparr>direct := (direct ino)[nat q := word_of_int b]\<rparr>) u)) (write_block b zero_block))
    (allocated s i a q ino u (ino\<lparr>direct := (direct ino)[nat q := word_of_int b]\<rparr>) b)"
proof -
  let ?ino = "ino\<lparr>direct := (direct ino)[nat q := word_of_int b]\<rparr>"
  note o = openedD [OF u] and bb = data_block_range [OF openedD(1) [OF u] b(1)]
  let ?v = "set_bmap ((bmap u)[nat b := 1]) (set_inode a ?ino u)"
  have "mark_block b 1 (set_inode a ?ino u) = Inr ?v"
    using mark_block_runs [of "set_inode a ?ino u" b 1] o(1) bb by simp
  moreover have "assigned s i a q ino u ?ino b ?v"
    by (rule assigned_direct [OF u i q b]) (simp add: stepped_def)
  ultimately show ?thesis using assigned_zeroed [OF _ i q(1) _ bb(4)] q by simp
qed

lemma create_indirect:
  assumes u: "opened s i a ino u" and i: "0 \<le> i" "i < numinodes s" and q: "5 \<le> q" "q < 1029" and no: "indirect ino \<noteq> 0"
    and b: "data_block (numblocks u) b" "bmap u ! nat b = 0"
  shows "runs (bindE (new_indirect_block a ino q b w u) (\<lambda>(b, w', v).
      if b = 0 then Inr (0, w', v) else bindE (mark_block b 1 v) (\<lambda>v. bindE (write_block b zero_block v) (\<lambda>v. Inr (b, w', v)))))
    (created s i a q ino u w)"
proof -
  let ?ib = "sint (indirect ino)"
  note o = openedD [OF u] and bb = data_block_range [OF openedD(1) [OF u] b(1)]
  have ibp: "data_block (numblocks u) ?ib" using opened_ptr(1) [OF u i, of "-1"] no by (simp add: ptr_indirect_block slots_def)
  note ibb = data_block_range [OF o(1) ibp]
  obtain u1 where u1: "read_block ?ib u = Inr (D u ?ib, u1)" "reads u u1"
    using read_block_runs [OF o(1), of ?ib] ibb by (auto simp: runs_iff)
  note r = opened_reads [OF u u1(2)] readsD [OF u1(2)]
  let ?x = "put_int (D u ?ib) (q - 5) (word_of_int b)"
  obtain u2 where u2: "write_block ?ib ?x u1 = Inr u2" "wrote ?ib ?x u1 u2"
    using write_block_runs [OF openedD(1) [OF r(1)], of ?ib ?x] ibb r by (auto simp: runs_iff)
  note w2 = wroteD [OF u2(2)]
  have run: "new_indirect_block a ino q b w u = Inr (b, w, u2)"
    using no bb u1(1) u2(1) q by (simp add: new_indirect_block_def set_pointer_def fs_sizes)
  have g2: "geometry u2" by (rule geometry_cong [OF o(1)]) (use w2 r in simp_all)
  let ?v = "set_bmap ((bmap u)[nat b := 1]) u2"
  have m: "mark_block b 1 u2 = Inr ?v" using mark_block_runs [OF g2, of b 1] bb w2(3,10) r(3,4) by simp
  have "assigned s i a q ino u ino b ?v"
    by (rule assigned_indirect [OF u i q refl no b]) (use w2 r o(13) in \<open>simp add: stepped_def fun_upd_idem\<close>)
  then have "runs (write_block b zero_block ?v) (allocated s i a q ino u ino b)"
    using assigned_zeroed [OF _ i _ q(2) bb(4)] q by simp
  then show ?thesis using run m bb(4) by (auto simp: created_def runs_bind elim!: runs_mono)
qed

lemma create_both:
  assumes u: "opened s i a ino u" and i: "0 \<le> i" "i < numinodes s" and q: "5 \<le> q" "q < 1029" and no: "indirect ino = 0"
    and ib: "data_block (numblocks u) ib" "bmap u ! nat ib = 0"
  shows "runs (bindE (new_indirect_block a ino q ib w u) (\<lambda>(b, w', v).
      if b = 0 then Inr (0, w', v) else bindE (mark_block b 1 v) (\<lambda>v. bindE (write_block b zero_block v) (\<lambda>v. Inr (b, w', v)))))
    (created s i a q ino u w)"
proof -
  note o = openedD [OF u] and ibb = data_block_range [OF openedD(1) [OF u] ib(1)] and g = geometryD [OF openedD(1) [OF u]]
  let ?u1 = "set_bmap ((bmap u)[nat ib := 1]) u"
  have m1: "mark_block ib 1 u = Inr ?u1" using mark_block_runs [OF o(1)] ibb by simp
  have g1: "geometry ?u1" using geometry_set_bmap [OF o(1)] g(7) by simp
  have nth: "(bmap u)[nat ib := 1] ! nat x = (if x = ib then 1 else bmap u ! nat x)" if "data_block (numblocks u) x" for x
    using data_block_range [OF o(1) that] ibb g(7) by (auto simp: nth_list_update)
  have "runs (find_free_block ?u1) (\<lambda>b. if b = 0 then \<forall>x. data_block (numblocks u) x \<longrightarrow> (bmap u)[nat ib := 1] ! nat x \<noteq> 0
      else data_block (numblocks u) b \<and> (bmap u)[nat ib := 1] ! nat b = 0)"
    by (rule runs_mono [OF find_free_block_runs [OF g1]]) (simp split: if_splits)
  then obtain b where b: "find_free_block ?u1 = Inr b" "if b = 0 then \<forall>x. data_block (numblocks u) x \<longrightarrow> (bmap u)[nat ib := 1] ! nat x \<noteq> 0
      else data_block (numblocks u) b \<and> (bmap u)[nat ib := 1] ! nat b = 0"
    by (auto simp: runs_iff)
  show ?thesis
  proof (cases "b = 0")
    case True
    have undo: "(bmap u)[nat ib := 0] = bmap u"
      using ib(2) g(7) ibb(1,2) by (simp add: list_update_same_conv)
    have m2: "mark_block ib 0 ?u1 = Inr (set_bmap (bmap u) u)"
      using mark_block_runs [OF g1, of ib 0] ibb by (simp add: undo)
    have same: "set_bmap (bmap u) u = u" using g(6) by simp
    have "nearly_full u"
      unfolding nearly_full_def using b(2) True nth by (auto intro!: exI [of _ ib] split: if_splits)
    then show ?thesis using True no m1 m2 b(1) u same by (simp add: new_indirect_block_def created_def)
  next
    case False
    then have bd: "data_block (numblocks u) b" "(bmap u)[nat ib := 1] ! nat b = 0" using b(2) by simp_all
    note bb = data_block_range [OF o(1) bd(1)]
    let ?ino = "ino\<lparr>indirect := word_of_int ib\<rparr>" and ?x = "put_int zero_block (q - 5) (word_of_int b)"
    let ?u2 = "set_inode a ?ino ?u1"
    obtain u3 where u3: "write_block ib ?x ?u2 = Inr u3" "wrote ib ?x ?u2 u3"
      using write_block_runs [of ?u2 ib ?x] g1 ibb by (auto simp: runs_iff)
    note w3 = wroteD [OF u3(2), simplified]
    have "sint (indirect ino) \<noteq> ib" using no ibb(4) by simp
    then have run: "new_indirect_block a ino q ib w u = Inr (b, 1, u3)"
      using no False m1 b(1) u3(1) q by (simp add: new_indirect_block_def set_pointer_def fs_sizes)
    have g3: "geometry u3" by (rule geometry_cong [OF g1]) (use w3 in simp_all)
    let ?v = "set_bmap ((bmap u)[nat ib := 1, nat b := 1]) u3"
    have m: "mark_block b 1 u3 = Inr ?v" using mark_block_runs [OF g3, of b 1] bb w3 by simp
    have "assigned s i a q ino u ?ino b ?v"
      by (rule assigned_both [OF u i q no ib bd]) (use w3 in \<open>simp add: stepped_def\<close>)
    then have "runs (write_block b zero_block ?v) (allocated s i a q ino u ?ino b)"
      using assigned_zeroed [OF _ i _ q(2) bb(4)] q by simp
    then show ?thesis using run m bb(4) by (auto simp: created_def runs_bind elim!: runs_mono)
  qed
qed

theorem create_new_data_block_runs:
  assumes u: "opened s i a ino u" and i: "0 \<le> i" "i < numinodes s" and off: "0 \<le> off" "off < MAX_OFFSET"
  shows "runs (create_new_data_block a off w u) (created s i a (off div 4096) ino u w)"
proof -
  let ?q = "off div 4096"
  note o = openedD [OF u]
  have q: "off sdiv 4096 = ?q" "0 \<le> ?q" "?q < 1029" using off slot_of_offset by (simp_all add: signed_divide_int_def sgn_if)
  obtain b where b: "find_free_block u = Inr b" "if b = 0 then \<forall>x. data_block (numblocks u) x \<longrightarrow> bmap u ! nat x \<noteq> 0
      else data_block (numblocks u) b \<and> bmap u ! nat b = 0"
    using find_free_block_runs [OF o(1)] by (auto simp: runs_iff)
  show ?thesis
  proof (cases "b = 0")
    case True
    then have "nearly_full u" using b(2) by (auto simp: nearly_full_def)
    then show ?thesis using True b(1) u by (simp add: create_new_data_block_def created_def Let_def)
  next
    case False
    then have bd: "data_block (numblocks u) b" "bmap u ! nat b = 0" using b(2) by simp_all
    show ?thesis
    proof (cases "?q < 5")
      case True
      show ?thesis
        using create_direct [OF u i q(2) True bd] b(1) False o(10,13) q True
        by (auto simp: create_new_data_block_def created_def Let_def fs_sizes inode_ptr_def runs_bind elim!: runs_mono)
    next
      case F: False
      then show ?thesis
        using create_indirect [OF u i _ q(3) _ bd, of w] create_both [OF u i _ q(3) _ bd, of w] b(1) False o(13) q
        by (cases "indirect ino = 0") (simp_all add: create_new_data_block_def Let_def fs_sizes inode_ptr_def)
    qed
  qed
qed

section \<open>The loops\<close>

text \<open>
  Writing \<open>k\<close> bytes of \<open>data\<close> from \<open>n\<close> on at the offset \<open>off\<close>.  The blocks that are touched
  are blocks of the file from then on; where they had no byte they are zero.
\<close>

definition slot_of :: "int \<Rightarrow> int" where
  "slot_of x = x div 4096"

definition overwrite :: "mem \<Rightarrow> int \<Rightarrow> int \<Rightarrow> int \<Rightarrow> (int \<Rightarrow> byte option) \<Rightarrow> int \<Rightarrow> byte option" where
  "overwrite data n off k f x =
     (if off \<le> x \<and> x < off + k then Some (data (n + (x - off)))
      else if 0 < k \<and> slot_of off \<le> slot_of x \<and> slot_of x \<le> slot_of (off + k - 1) \<and> f x = None then Some 0
      else f x)"

lemma overwrite_none [simp]: "k \<le> 0 \<Longrightarrow> overwrite data n off k f = f"
  by (auto simp: overwrite_def fun_eq_iff)

lemma slot_of_mono: "x \<le> y \<Longrightarrow> slot_of x \<le> slot_of y"
  by (simp add: slot_of_def zdiv_mono1)

lemma slot_of_mult: "slot_of x * 4096 + x mod 4096 = x" "0 \<le> x mod 4096" "(x :: int) mod 4096 < 4096"
  using div_mod_block [of 4096 x] by (simp_all add: slot_of_def)

lemma slot_of_eqI:
  assumes "q * 4096 \<le> x" "x < q * 4096 + 4096"
  shows "slot_of x = q"
  using block_offset(1) [of "x - q * 4096" 4096 q] assms by (simp add: slot_of_def)

lemma slot_of_range: "0 \<le> slot_of x \<Longrightarrow> slot_of x < 1029 \<Longrightarrow> 0 \<le> x \<and> x < MAX_OFFSET"
  using slot_of_mult [of x] unfolding MAX_OFFSET_val by linarith

lemma overwrite_append:
  assumes "0 < k" "0 \<le> l" "l = 0 \<or> (off + k) mod 4096 = 0"
  shows "overwrite data (n + k) (off + k) l (overwrite data n off k f) = overwrite data n off (k + l) f"
proof (cases "l = 0")
  case False
  then have l: "0 < l" "(off + k) mod 4096 = 0" using assms by auto
  have m: "slot_of (off + k - 1) = slot_of (off + k) - 1"
  proof (rule slot_of_eqI)
    have "slot_of (off + k) * 4096 = off + k" using slot_of_mult(1) [of "off + k"] by (simp only: l(2) add_0_right)
    then show "(slot_of (off + k) - 1) * 4096 \<le> off + k - 1" "off + k - 1 < (slot_of (off + k) - 1) * 4096 + 4096"
      by (simp_all only: left_diff_distrib)
  qed
  have "slot_of off \<le> slot_of (off + k - 1)" "slot_of (off + k) \<le> slot_of (off + k + l - 1)"
    using assms(1) l(1) by (auto intro: slot_of_mono)
  then have t: "slot_of off \<le> slot_of x \<and> slot_of x \<le> slot_of (off + (k + l) - 1) \<longleftrightarrow>
      (slot_of off \<le> slot_of x \<and> slot_of x \<le> slot_of (off + k - 1)) \<or>
      (slot_of (off + k) \<le> slot_of x \<and> slot_of x \<le> slot_of (off + k + l - 1))" for x
    using m by (simp only: add.assoc) linarith
  show ?thesis
  proof
    fix x
    consider "off + k \<le> x \<and> x < off + k + l" | "off \<le> x \<and> x < off + k" | "\<not> (off \<le> x \<and> x < off + k + l)" by linarith
    then show "overwrite data (n + k) (off + k) l (overwrite data n off k f) x = overwrite data n off (k + l) f x"
    proof cases
      case 1
      then have "off + k \<le> x" "x < off + k + l" "off \<le> x" "x < off + (k + l)" "\<not> x < off + k" using assms(1) by linarith+
      then show ?thesis by (simp only: overwrite_def if_True if_False simp_thms) (simp add: algebra_simps)
    next
      case 2
      then have "\<not> off + k \<le> x" "off \<le> x" "x < off + (k + l)" "x < off + k" using l by linarith+
      then show ?thesis by (simp only: overwrite_def if_True if_False simp_thms) simp
    next
      case 3
      have logic: "(if A \<and> (if A' \<and> v = None then Some 0 else v) = None then Some 0 else (if A' \<and> v = None then Some 0 else v)) =
        (if (A' \<or> A) \<and> v = None then Some 0 else v)" for A A' and v :: "byte option" by auto
      have "\<not> (off \<le> x \<and> x < off + k)" "\<not> (off + k \<le> x \<and> x < off + k + l)" "\<not> (off \<le> x \<and> x < off + (k + l))"
        using 3 assms(1) l(1) by linarith+
      moreover have "slot_of off \<le> slot_of x \<and> slot_of x \<le> slot_of (off + (k + l) - 1) \<and> f x = None \<longleftrightarrow>
          (slot_of off \<le> slot_of x \<and> slot_of x \<le> slot_of (off + k - 1) \<or>
           slot_of (off + k) \<le> slot_of x \<and> slot_of x \<le> slot_of (off + k + l - 1)) \<and> f x = None" using t [of x] by blast
      moreover have "0 < k + l" using assms(1) l(1) by linarith
      ultimately show ?thesis
        using assms(1) l(1) logic [of "slot_of (off + k) \<le> slot_of x \<and> slot_of x \<le> slot_of (off + k + l - 1)"
          "slot_of off \<le> slot_of x \<and> slot_of x \<le> slot_of (off + k - 1)" "f x"]
        by (simp only: overwrite_def if_False simp_thms conj_assoc)
    qed
  qed
qed simp

lemma overwrite_zeroed:
  assumes "0 < k" "slot_of off = slot_of (off + k - 1)" "\<And>x. 0 \<le> x \<Longrightarrow> x < MAX_OFFSET \<Longrightarrow> slot_of x = slot_of off \<Longrightarrow> f x = None"
    "0 \<le> off" "off + k \<le> MAX_OFFSET"
  shows "overwrite data n off k (\<lambda>x. if 0 \<le> x \<and> x < MAX_OFFSET \<and> slot_of x = slot_of off then Some 0 else f x) = overwrite data n off k f"
proof
  fix x
  have "0 \<le> x \<and> x < MAX_OFFSET" if "slot_of x = slot_of off"
    using slot_of_range [of x] that slot_of_offset [of off, folded slot_of_def] assms(1,4,5) by simp
  then show "overwrite data n off k (\<lambda>x. if 0 \<le> x \<and> x < MAX_OFFSET \<and> slot_of x = slot_of off then Some 0 else f x) x = overwrite data n off k f x"
    using assms(1,3) by (cases "slot_of x = slot_of off") (simp_all add: overwrite_def assms(2) [symmetric])
qed

text \<open>One turn: a piece that lies within one block.\<close>

lemma chunk_bounds:
  fixes off len k :: int
  assumes "0 \<le> off" "0 < len" "k = min (4096 - off mod 4096) len"
  shows "0 < k" "k \<le> len" "off mod 4096 + k \<le> 4096" "slot_of off = slot_of (off + k - 1)" "len - k = 0 \<or> (off + k) mod 4096 = 0"
proof -
  have m: "0 \<le> off mod 4096" "off mod 4096 < 4096" by simp_all
  show k: "0 < k" "k \<le> len" "off mod 4096 + k \<le> 4096" using assms m by auto
  show "slot_of off = slot_of (off + k - 1)"
    by (rule slot_of_eqI [symmetric]) (use slot_of_mult [of off] k(1,3) in linarith)+
  have "(off + k) mod 4096 = 0" if "k = 4096 - off mod 4096"
  proof -
    have "off + k = (slot_of off + 1) * 4096 + 0" using that slot_of_mult(1) [of off] by (simp add: algebra_simps)
    then show ?thesis using block_offset(2) [of 0 4096 "slot_of off + 1"] by simp
  qed
  then show "len - k = 0 \<or> (off + k) mod 4096 = 0" using assms(3) by (auto simp: min_def)
qed

lemma opened_write_chunk:
  assumes u: "opened s i a ino u" and i: "0 \<le> i" "i < numinodes s" and off: "0 \<le> off" "off + k \<le> MAX_OFFSET"
    and k: "0 < k" "off mod 4096 + k \<le> 4096" and nz: "ptr (D u) ino (slot_of off) \<noteq> 0"
    and w: "wrote (ptr (D u) ino (slot_of off)) (copy_bytes (D u (ptr (D u) ino (slot_of off))) (off mod 4096) data n k) u v"
  shows "content (D v) ino = overwrite data n off k (content (D u) ino)"
proof
  fix x
  let ?b = "ptr (D u) ino (slot_of off)"
  have off': "off < MAX_OFFSET" using off k by simp
  note q = slot_of_offset [OF off(1) off', folded slot_of_def]
  have c: "content (D v) ino x = (if 0 \<le> x \<and> x < MAX_OFFSET \<and> slot_of x = slot_of off
      then Some (copy_bytes (D u ?b) (off mod 4096) data n k (x mod 4096)) else content (D u) ino x)"
    using opened_write(4) [OF u i q(1,2) nz w, of x] by (simp only: slot_of_def)
  have range: "0 \<le> x \<and> x < MAX_OFFSET" if "slot_of x = slot_of off"
    using that q slot_of_range [of x] by simp
  have e: "slot_of off = slot_of (off + k - 1)"
    by (rule slot_of_eqI [symmetric]) (use slot_of_mult [of off] k in linarith)+
  show "content (D v) ino x = overwrite data n off k (content (D u) ino) x"
  proof (cases "slot_of x = slot_of off")
    case True
    have d: "x mod 4096 - off mod 4096 = x - off" using True slot_of_mult(1) [of x] slot_of_mult(1) [of off] by linarith
    then have "off mod 4096 \<le> x mod 4096 \<and> x mod 4096 < off mod 4096 + k \<longleftrightarrow> off \<le> x \<and> x < off + k" by linarith
    moreover have "content (D u) ino x = Some (D u ?b (x mod 4096))"
      using True range nz by (simp add: content_def slot_of_def)
    ultimately show ?thesis
      using c True range d by (simp add: overwrite_def copy_bytes_def add.commute)
  next
    case False
    have "\<not> (off \<le> x \<and> x < off + k)" using slot_of_mono [of off x] slot_of_mono [of x "off + k - 1"] False e by auto
    then show ?thesis using c False e by (auto simp: overwrite_def)
  qed
qed

text \<open>What the loop of \<open>fs_write\<close> has done after writing \<open>n' - n\<close> bytes.\<close>

definition loop_post :: "fs \<Rightarrow> int \<Rightarrow> nat \<Rightarrow> mem \<Rightarrow> int \<Rightarrow> int \<Rightarrow> int \<Rightarrow> fs_inode \<Rightarrow> fs \<Rightarrow> int \<Rightarrow> int \<times> int \<times> fs \<Rightarrow> bool" where
  "loop_post s i a data len off n ino u w = (\<lambda>(n', w', v). \<exists>ino'. opened s i a ino' v \<and> n \<le> n' \<and> n' \<le> n + len \<and>
     (n' < n + len \<longrightarrow> nearly_full v) \<and> (w' = 0 \<longrightarrow> ino' = ino \<and> w = 0) \<and> isvalid ino' = isvalid ino \<and> i_size ino' = i_size ino \<and>
     content (D v) ino' = overwrite data n off (n' - n) (content (D u) ino))"

lemma created_cases:
  assumes "created s i a q ino u w (b, w', v)" "opened s i a ino u"
  obtains (full) "b = 0" "opened s i a ino v" "D v = D u" "w' = w" "nearly_full v"
    | (new) ino' where "b \<noteq> 0" "allocated s i a q ino u ino' b v" "w' = 0 \<longrightarrow> ino' = ino \<and> w = 0"
  using assms by (auto simp: created_def split: if_splits)

text \<open>Writing the piece into the block found or made.\<close>

lemma write_chunk_runs:
  assumes u: "opened s i a ino u" and i: "0 \<le> i" "i < numinodes s" and off: "0 \<le> off" "off + k \<le> MAX_OFFSET"
    and k: "0 < k" "off mod 4096 + k \<le> 4096" and b: "b = ptr (D u) ino (slot_of off)" "b \<noteq> 0"
  shows "runs (bindE (read_block b u) (\<lambda>(x, v). write_block b (copy_bytes x (off mod 4096) data n k) v))
    (\<lambda>v. opened s i a ino v \<and> content (D v) ino = overwrite data n off k (content (D u) ino))"
proof -
  have off': "off < MAX_OFFSET" using off k by simp
  note q = slot_of_offset [OF off(1) off', folded slot_of_def]
  have "data_block (numblocks u) b" using opened_ptr(1) [OF u i q(3)] b by simp
  note bb = data_block_range [OF openedD(1) [OF u] this]
  obtain u1 where u1: "read_block b u = Inr (D u b, u1)" "reads u u1"
    using read_block_runs [OF openedD(1) [OF u], of b] bb by (auto simp: runs_iff)
  note r = opened_reads [OF u u1(2)]
  let ?x = "copy_bytes (D u b) (off mod 4096) data n k"
  obtain v where v: "write_block b ?x u1 = Inr v" "wrote b ?x u1 v"
    using write_block_runs [OF openedD(1) [OF r(1)], of b ?x] bb r by (auto simp: runs_iff)
  have w: "wrote (ptr (D u1) ino (slot_of off)) (copy_bytes (D u1 (ptr (D u1) ino (slot_of off))) (off mod 4096) data n k) u1 v"
    using v(2) b r(2) by simp
  have nz: "ptr (D u1) ino (slot_of off) \<noteq> 0" using b r(2) by simp
  show ?thesis
    using u1(1) v(1) opened_write(1) [OF r(1) i q(1,2) nz w] opened_write_chunk [OF r(1) i off k nz w] r(2) by simp
qed

lemma allocated_overwrite:
  assumes al: "allocated s i a (slot_of off) ino u ino' b v" and z: "ptr (D u) ino (slot_of off) = 0"
    and off: "0 \<le> off" "off + k \<le> MAX_OFFSET" and k: "0 < k" "slot_of off = slot_of (off + k - 1)"
  shows "overwrite data n off k (content (D v) ino') = overwrite data n off k (content (D u) ino)"
proof -
  have "content (D v) ino' = (\<lambda>x. if 0 \<le> x \<and> x < MAX_OFFSET \<and> slot_of x = slot_of off then Some 0 else content (D u) ino x)"
    using al by (simp only: allocated_def slot_of_def fun_eq_iff simp_thms)
  moreover have "content (D u) ino x = None" if "slot_of x = slot_of off" for x
    using z that by (simp add: content_def slot_of_def)
  ultimately show ?thesis using overwrite_zeroed [OF k _ off] by simp
qed

lemma loop_post_step:
  assumes "loop_post s i a data (len - k) (off + k) (n + k) ino' v w' r" and "0 < k" "k \<le> len" "len - k = 0 \<or> (off + k) mod 4096 = 0"
    and "content (D v) ino' = overwrite data n off k (content (D u) ino)" and "w' = 0 \<longrightarrow> ino' = ino \<and> w = 0"
    and "isvalid ino' = isvalid ino" "i_size ino' = i_size ino"
  shows "loop_post s i a data len off n ino u w r"
proof -
  obtain n' w'' v' where r: "r = (n', w'', v')" by (cases r)
  then obtain ino'' where p: "opened s i a ino'' v'" "n + k \<le> n'" "n' \<le> n + len" "n' < n + len \<longrightarrow> nearly_full v'"
      "w'' = 0 \<longrightarrow> ino'' = ino' \<and> w' = 0" "isvalid ino'' = isvalid ino'" "i_size ino'' = i_size ino'"
      "content (D v') ino'' = overwrite data (n + k) (off + k) (n' - (n + k)) (content (D v) ino')"
    using assms(1) by (auto simp: loop_post_def)
  have "n' - (n + k) = 0 \<or> (off + k) mod 4096 = 0" using p(2,3) assms(4) by auto
  then have "content (D v') ino'' = overwrite data n off (n' - n) (content (D u) ino)"
    using p(8) assms(5) overwrite_append [OF assms(2), of "n' - (n + k)"] p(2) by simp
  then show ?thesis using p assms by (auto simp: loop_post_def r)
qed

theorem write_loop_runs:
  assumes "opened s i a ino u" and i: "0 \<le> i" "i < numinodes s" and "0 \<le> len" "0 \<le> off" "off + len \<le> MAX_OFFSET"
  shows "runs (write_loop a data len off n w u) (loop_post s i a data len off n ino u w)"
  using assms(1,4,5,6)
proof (induction "nat len" arbitrary: len off n w ino u rule: less_induct)
  case less
  show ?case
  proof (cases "len = 0")
    case True
    then show ?thesis using less.prems(1) by (subst write_loop.simps) (auto simp: loop_post_def)
  next
    case False
    note u = less.prems(1)
    define k where "k = min (4096 - off mod 4096) len"
    have len: "0 < len" using False less.prems(2) by simp
    note k = chunk_bounds [OF less.prems(3) len k_def]
    have off: "0 \<le> off" "off + k \<le> MAX_OFFSET" "off < MAX_OFFSET" using less.prems k by auto
    note q = slot_of_offset [OF off(1,3), folded slot_of_def]
    have start: "off smod DISK_BLOCK_SIZE = off mod 4096" using smod_nonneg(1) [OF off(1), of DISK_BLOCK_SIZE] by (simp add: DISK_BLOCK_SIZE_def)
    have add: "int_add off k = Inr (off + k)" using off k by (intro int_add_ok) (auto simp: MAX_OFFSET_val INT_MAX_def)
    obtain u1 where u1: "get_block_number_for_offset a off u = Inr (ptr (D u) ino (slot_of off), u1)" "reads u u1"
      using get_block_number_runs [OF openedD(1,13) [OF u] opened_in_range [OF u i] off(1,3)] by (auto simp: runs_iff slot_of_def)
    note r = opened_reads [OF u u1(2)]
    let ?rest = "\<lambda>(b, w', v). if b = 0 then Inr (n, w', v) else
       bindE (bindE (read_block b v) (\<lambda>(x, v). write_block b (copy_bytes x (off mod 4096) data n k) v))
         (\<lambda>v. write_loop a data (len - k) (off + k) (n + k) w' v)"
    have turn: "runs (?rest (b, w', v)) (loop_post s i a data len off n ino u w)"
      if v: "opened s i a ino' v" and b: "b = ptr (D v) ino' (slot_of off)" "b \<noteq> 0"
        and c: "overwrite data n off k (content (D v) ino') = overwrite data n off k (content (D u) ino)"
        and e: "w' = 0 \<longrightarrow> ino' = ino \<and> w = 0" "isvalid ino' = isvalid ino" "i_size ino' = i_size ino" for b w' v ino'
    proof -
      obtain v' where v': "bindE (read_block b v) (\<lambda>(x, v). write_block b (copy_bytes x (off mod 4096) data n k) v) = Inr v'"
          "opened s i a ino' v'" "content (D v') ino' = overwrite data n off k (content (D u) ino)"
        using write_chunk_runs [where data = data and n = n, OF v i off(1,2) k(1,3) b] c by (auto simp: runs_iff)
      have "runs (write_loop a data (len - k) (off + k) (n + k) w' v') (loop_post s i a data (len - k) (off + k) (n + k) ino' v' w')"
        by (rule less.hyps [OF _ v'(2)]) (use k off less.prems in auto)
      then have "runs (write_loop a data (len - k) (off + k) (n + k) w' v') (loop_post s i a data len off n ino u w)"
        by (rule runs_mono) (rule loop_post_step [OF _ k(1,2,5) v'(3) e])
      then show ?thesis using b(2) v'(1) by simp
    qed
    have loop: "write_loop a data len off n w u = bindE (if ptr (D u) ino (slot_of off) = 0 then create_new_data_block a off w u1
        else Inr (ptr (D u) ino (slot_of off), w, u1)) ?rest"
      using len u1(1) add
      by (subst write_loop.simps)
        (simp add: start [unfolded DISK_BLOCK_SIZE_def] Let_def bindE_assoc split_def DISK_BLOCK_SIZE_def k_def cong: if_cong)
    show ?thesis
    proof (cases "ptr (D u) ino (slot_of off) = 0")
      case False
      show ?thesis unfolding loop using False turn [OF r(1), of "ptr (D u) ino (slot_of off)" w] r(2) by simp
    next
      case True
      then have z: "ptr (D u1) ino (slot_of off) = 0" using r(2) by simp
      obtain b w' v where c: "create_new_data_block a off w u1 = Inr (b, w', v)" "created s i a (slot_of off) ino u1 w (b, w', v)"
        using create_new_data_block_runs [OF r(1) i off(1,3), of w] by (auto simp: runs_iff slot_of_def)
      from c(2) r(1) show ?thesis
      proof (cases rule: created_cases)
        case full
        then show ?thesis unfolding loop using True c(1) r(2) less.prems(2) by (auto simp: loop_post_def)
      next
        case (new ino')
        have o: "opened s i a ino' v" "b = ptr (D v) ino' (slot_of off)" "isvalid ino' = isvalid ino" "i_size ino' = i_size ino"
          using new(2) by (simp_all add: allocated_def)
        have "overwrite data n off k (content (D v) ino') = overwrite data n off k (content (D u) ino)"
          using allocated_overwrite [OF new(2) z off(1,2) k(1,4)] r(2) by simp
        from turn [OF o(1,2) new(1) this new(3) o(3,4)] show ?thesis unfolding loop using True c(1) by simp
      qed
    qed
  qed
qed

text \<open>Reading \<open>k\<close> bytes at \<open>off\<close> of a file into a buffer, from \<open>n\<close> on.\<close>

definition read_into :: "(int \<Rightarrow> byte option) \<Rightarrow> int \<Rightarrow> int \<Rightarrow> int \<Rightarrow> mem \<Rightarrow> mem" where
  "read_into f off n k buf x = (if n \<le> x \<and> x < n + k then the (f (off + (x - n))) else buf x)"

definition read_post :: "(int \<Rightarrow> byte option) \<Rightarrow> int \<Rightarrow> int \<Rightarrow> int \<Rightarrow> mem \<Rightarrow> fs \<Rightarrow> int \<times> mem \<times> fs \<Rightarrow> bool" where
  "read_post f left off n buf u = (\<lambda>(n', buf', v). reads u v \<and> n \<le> n' \<and> n' \<le> n + max 0 left \<and>
     (n' < n + left \<longrightarrow> f (off + (n' - n)) = None) \<and> (\<forall>x. off \<le> x \<and> x < off + (n' - n) \<longrightarrow> f x \<noteq> None) \<and>
     buf' = read_into f off n (n' - n) buf)"

lemma read_into_none [simp]: "k \<le> 0 \<Longrightarrow> read_into f off n k buf = buf"
  by (auto simp: read_into_def fun_eq_iff)

lemma read_into_append:
  "0 \<le> k \<Longrightarrow> 0 \<le> l \<Longrightarrow> read_into f (off + k) (n + k) l (read_into f off n k buf) = read_into f off n (k + l) buf"
  by (auto simp: read_into_def fun_eq_iff add.assoc)

lemma content_in_block:
  assumes "ptr B ino (slot_of off) \<noteq> 0" "0 \<le> off" "off < MAX_OFFSET" "off mod 4096 + k \<le> 4096" "off \<le> x" "x < off + k"
  shows "content B ino x = Some (B (ptr B ino (slot_of off)) (off mod 4096 + (x - off)))"
proof -
  have s: "slot_of x = slot_of off"
    by (rule slot_of_eqI) (use slot_of_mult [of off] assms in linarith)+
  then have "x mod 4096 = off mod 4096 + (x - off)" using slot_of_mult(1) [of x] slot_of_mult(1) [of off] by linarith
  moreover have "0 \<le> x \<and> x < MAX_OFFSET"
    using slot_of_range [of x] slot_of_offset [OF assms(2,3), folded slot_of_def] s by simp
  ultimately show ?thesis using assms(1) s by (simp add: content_def slot_of_def)
qed

theorem read_loop_runs:
  assumes "opened s i a ino u" and i: "0 \<le> i" "i < numinodes s" and "0 \<le> off" "left \<le> 0 \<or> off + left \<le> MAX_OFFSET"
  shows "runs (read_loop a left off n buf u) (read_post (content (D u) ino) left off n buf u)"
  using assms(1,4,5)
proof (induction "nat left" arbitrary: left off n buf u rule: less_induct)
  case less
  show ?case
  proof (cases "left \<le> 0")
    case True
    then show ?thesis by (subst read_loop.simps) (auto simp: read_post_def)
  next
    case False
    note u = less.prems(1)
    let ?f = "content (D u) ino"
    define k where "k = min (4096 - off mod 4096) left"
    have left: "0 < left" using False by simp
    note k = chunk_bounds [OF less.prems(2) left k_def]
    have off: "0 \<le> off" "off + k \<le> MAX_OFFSET" "off < MAX_OFFSET" using less.prems k by auto
    note q = slot_of_offset [OF off(1,3), folded slot_of_def]
    have start: "off smod 4096 = off mod 4096" using smod_nonneg(1) [OF off(1), of 4096] by simp
    have kmin: "min left (4096 - off mod 4096) = k" by (simp add: k_def min.commute)
    have add: "int_add off k = Inr (off + k)" using off k by (intro int_add_ok) (auto simp: MAX_OFFSET_val INT_MAX_def)
    let ?b = "ptr (D u) ino (slot_of off)"
    obtain u1 where u1: "get_block_number_for_offset a off u = Inr (?b, u1)" "reads u u1"
      using get_block_number_runs [OF openedD(1,13) [OF u] opened_in_range [OF u i] off(1,3)] by (auto simp: runs_iff slot_of_def)
    note r = opened_reads [OF u u1(2)]
    show ?thesis
    proof (cases "?b = 0")
      case True
      have "?f off = None" using True by (simp add: content_def slot_of_def)
      moreover have "read_loop a left off n buf u = Inr (n, buf, u1)"
        using left u1(1) True by (subst read_loop.simps) (simp add: Let_def)
      ultimately show ?thesis using u1(2) left by (auto simp: read_post_def)
    next
      case False
      have "data_block (numblocks u) ?b" using opened_ptr(1) [OF u i q(3)] False by simp
      note bb = data_block_range [OF openedD(1) [OF u] this]
      obtain u2 where u2: "read_block ?b u1 = Inr (D u ?b, u2)" "reads u1 u2"
        using read_block_runs [OF openedD(1) [OF r(1)], of ?b] bb r by (auto simp: runs_iff)
      note r2 = opened_reads [OF r(1) u2(2)]
      let ?buf = "copy_bytes buf n (D u ?b) (off mod 4096) k"
      have f: "?f x = Some (D u ?b (off mod 4096 + (x - off)))" if "off \<le> x" "x < off + k" for x
        by (rule content_in_block [OF False off(1,3) k(3) that])
      have "?f (off + (x - n)) = Some (D u ?b (off mod 4096 + (x - n)))" if "n \<le> x" "x < n + k" for x
        using f [of "off + (x - n)"] that by simp
      then have buf: "?buf = read_into ?f off n k buf"
        by (auto simp: fun_eq_iff copy_bytes_def read_into_def add.commute)
      have loop: "read_loop a left off n buf u = read_loop a (left - k) (off + k) (n + k) ?buf u2"
        using left u1(1) u2(1) False add by (subst read_loop.simps) (simp add: Let_def DISK_BLOCK_SIZE_def start kmin)
      have "runs (read_loop a (left - k) (off + k) (n + k) ?buf u2) (read_post (content (D u2) ino) (left - k) (off + k) (n + k) ?buf u2)"
        by (rule less.hyps [OF _ r2(1)]) (use k off less.prems in auto)
      then obtain n' buf' v where p: "read_loop a (left - k) (off + k) (n + k) ?buf u2 = Inr (n', buf', v)"
          "read_post ?f (left - k) (off + k) (n + k) ?buf u2 (n', buf', v)"
        using r2(2) r(2) by (auto simp: runs_iff)
      have v: "reads u v" using p(2) reads_trans [OF u1(2) reads_trans [OF u2(2)]] by (simp add: read_post_def)
      have b: "n + k \<le> n'" "n' \<le> n + left" "n' < n + left \<longrightarrow> ?f (off + (n' - n)) = None"
          "\<forall>x. off + k \<le> x \<and> x < off + (n' - n) \<longrightarrow> ?f x \<noteq> None"
        using p(2) k by (auto simp: read_post_def max_def algebra_simps split: if_splits)
      have "buf' = read_into ?f (off + k) (n + k) (n' - (n + k)) ?buf" using p(2) by (simp add: read_post_def)
      then have "buf' = read_into ?f off n (n' - n) buf"
        using read_into_append [of k "n' - (n + k)" ?f off n buf] b(1) k(1) by (simp only: buf) simp
      moreover have "?f x \<noteq> None" if "off \<le> x" "x < off + (n' - n)" for x
        using f [of x] b(4) that by (cases "x < off + k") auto
      ultimately show ?thesis using loop p(1) v b k(1,2) left by (simp add: read_post_def)
    qed
  qed
qed

end
