(* ===== verification/FsSystem.thy ===== *)
theory FsSystem
  imports FsWrites
begin

text \<open>
  The mounted file system as a map from inode numbers to files, and the invariant
  \<open>fs_inv\<close> that the calls keep.  A file is its size with the bytes at its offsets.
\<close>

type_synonym contents = "int \<times> (int \<Rightarrow> byte option)"

definition used :: "fs \<Rightarrow> int \<Rightarrow> bool" where
  "used s i \<longleftrightarrow> the (inode_freemap s) ! nat i \<noteq> 0"

definition inodes_ok :: "fs \<Rightarrow> bool" where
  "inodes_ok s \<longleftrightarrow> (\<forall>j. 0 \<le> j \<and> j < numinodes s \<longrightarrow>
     length (direct (table s j)) = 5 \<and> 0 \<le> sint (i_size (table s j)) \<and> sint (i_size (table s j)) \<le> MAX_OFFSET \<and>
     (isvalid (table s j) = 0 \<and> table s j = empty_inode \<and> \<not> used s j \<or> isvalid (table s j) = 1 \<and> used s j \<and> j \<in> reach s))"

text \<open>The superblock describes this layout.\<close>

definition layout :: "int \<Rightarrow> fs_superblock" where
  "layout n = \<lparr>magic = FS_MAGIC, sb_nblocks = word_of_int n, ninodeblocks = word_of_int (1 + n div 10),
     ninodes = word_of_int (128 * (1 + n div 10))\<rparr>"

definition fs_inv :: "fs \<Rightarrow> bool" where
  "fs_inv s \<longleftrightarrow> geometry s \<and> get_super (D s 0) = layout (numblocks s) \<and> numinodes s = 128 * (1 + numblocks s div 10) \<and>
     (\<exists>im. inode_freemap s = Some im \<and> length im = nat (numinodes s)) \<and> cache_inv {} s \<and> inodes_ok s \<and>
     pointers_ok (numblocks s) (numinodes s) (\<lambda>j. ptr (D s) (table s j)) (bmap s)"

definition file_at :: "fs \<Rightarrow> int \<Rightarrow> contents option" where
  "file_at s i = (if 0 \<le> i \<and> i < numinodes s \<and> isvalid (table s i) \<noteq> 0
     then Some (sint (i_size (table s i)), content (D s) (table s i)) else None)"

text \<open>What stays for as long as the file system is mounted.\<close>

definition mount_of :: "fs \<Rightarrow> int \<times> int option" where
  "mount_of s = (numblocks s, map_option capacity (the_cache s))"

lemma mount_of_simps:
  "only_inodes s u \<Longrightarrow> mount_of u = mount_of s"
  "reads s u \<Longrightarrow> mount_of u = mount_of s"
  "opened s i a ino u \<Longrightarrow> mount_of u = mount_of s"
  by (auto simp: mount_of_def only_inodes_def reads_def opened_def)

lemma fs_invD:
  assumes "fs_inv s"
  shows "geometry s" "numinodes s = 128 * (1 + numblocks s div 10)" "inode_freemap s \<noteq> None"
    "length (the (inode_freemap s)) = nat (numinodes s)" "cache_inv {} s" "inodes_ok s"
    "pointers_ok (numblocks s) (numinodes s) (\<lambda>j. ptr (D s) (table s j)) (bmap s)"
    "nib s = 1 + numblocks s div 10" "0 < numinodes s" "is_mounted s"
    "get_super (D s 0) = layout (numblocks s)"
proof -
  show g: "geometry s" and "get_super (D s 0) = layout (numblocks s)" and n: "numinodes s = 128 * (1 + numblocks s div 10)" and im: "inode_freemap s \<noteq> None"
    "length (the (inode_freemap s)) = nat (numinodes s)" and "cache_inv {} s" "inodes_ok s"
    "pointers_ok (numblocks s) (numinodes s) (\<lambda>j. ptr (D s) (table s j)) (bmap s)"
    using assms by (auto simp: fs_inv_def)
  show "nib s = 1 + numblocks s div 10" using n by (simp add: nib_def)
  have "0 \<le> numblocks s div 10" using geometryD(3) [OF g] by (simp add: pos_imp_zdiv_nonneg_iff)
  then show "0 < numinodes s" using n by simp
  show "is_mounted s" using im by (simp add: is_mounted_def)
qed

lemma inodes_okD:
  assumes "inodes_ok s" "0 \<le> j" "j < numinodes s"
  shows "length (direct (table s j)) = 5" "0 \<le> sint (i_size (table s j))" "sint (i_size (table s j)) \<le> MAX_OFFSET"
    "isvalid (table s j) = 0 \<and> table s j = empty_inode \<and> \<not> used s j \<or> isvalid (table s j) = 1 \<and> used s j \<and> j \<in> reach s"
  using assms unfolding inodes_ok_def by blast+

lemma file_atD:
  assumes "fs_inv s" "file_at s i = Some (sz, f)"
  shows "0 \<le> i" "i < numinodes s" "i \<in> reach s" "used s i" "isvalid (table s i) = 1" "sz = sint (i_size (table s i))"
    "f = content (D s) (table s i)" "0 \<le> sz" "sz \<le> MAX_OFFSET"
proof -
  show i: "0 \<le> i" "i < numinodes s" and "sz = sint (i_size (table s i))" "f = content (D s) (table s i)"
    using assms(2) by (auto simp: file_at_def split: if_splits)
  then show "i \<in> reach s" "used s i" "isvalid (table s i) = 1" "0 \<le> sz" "sz \<le> MAX_OFFSET"
    using inodes_okD [OF fs_invD(6) [OF assms(1)] i] assms(2) by (auto simp: file_at_def split: if_splits)
qed

section \<open>Changes outside the data blocks\<close>

lemma files_frame:
  assumes ok: "pointers_ok nb ni (\<lambda>j. ptr B (T j)) bm" and B: "\<And>b. data_block nb b \<Longrightarrow> B' b = B b" and j: "0 \<le> j" "j < ni"
  shows "ptr B' (T j) = ptr B (T j)" "content B' (T j) = content B (T j)"
proof -
  have "B' (sint (indirect (T j))) = B (sint (indirect (T j)))" if "indirect (T j) \<noteq> 0"
    using pointers_okD(1) [OF ok j, of "-1"] that by (intro B) (simp add: slots_def ptr_indirect_block)
  then show p: "ptr B' (T j) = ptr B (T j)" by (intro ext) (simp add: ptr_def)
  show "content B' (T j) = content B (T j)"
    by (rule content_cong) (use p B pointers_okD(1) [OF ok j] in \<open>auto simp: slots_def\<close>)
qed

lemma only_inodes_data:
  assumes "only_inodes s u" "nib s = 1 + numblocks s div 10" "data_block (numblocks s) b"
  shows "D u b = D s b"
  using assms by (simp add: only_inodes_def data_block_def)

lemma fs_inv_frame:
  assumes inv: "fs_inv s" and o: "only_inodes s u" and c: "cache_inv {} u" and t: "table u = table s"
  shows "fs_inv u" "file_at u = file_at s"
proof -
  note s = fs_invD [OF inv]
  have e: "numblocks u = numblocks s" "numinodes u = numinodes s" "block_freemap u = block_freemap s" "inode_freemap u = inode_freemap s"
      "nblocks (dev u) = nblocks (dev s)" "bmap u = bmap s"
    using o by (simp_all add: only_inodes_def bmap_def)
  note ff = files_frame [OF s(7) only_inodes_data [OF o s(8)]]
  have "geometry u" by (rule geometry_cong [OF s(1)]) (use e in simp_all)
  moreover have "inodes_ok u" using s(6) e t by (simp add: inodes_ok_def used_def reach_def nib_def)
  moreover have "pointers_ok (numblocks u) (numinodes u) (\<lambda>j. ptr (D u) (table u j)) (bmap u)"
    unfolding e t by (rule pointers_ok_cong [OF s(7)]) (simp add: ff)
  moreover have "numinodes u = 128 * (1 + numblocks u div 10)" "\<exists>im. inode_freemap u = Some im \<and> length im = nat (numinodes u)"
    using s(2,3,4) e by auto
  moreover have "get_super (D u 0) = layout (numblocks u)" using s(11) o e by (simp add: only_inodes_def)
  ultimately show "fs_inv u" using c unfolding fs_inv_def by blast
  show "file_at u = file_at s" using ff by (auto simp: file_at_def fun_eq_iff e t)
qed

lemma fs_inv_reads:
  assumes inv: "fs_inv s" and r: "reads s u"
  shows "fs_inv u" "file_at u = file_at s" "room u = room s"
proof -
  note e = readsD [OF r]
  have d: "disk_inode u = disk_inode s" by (intro ext) (simp add: disk_inode_def e)
  have c: "cnodes u = cnodes s" by (simp add: cnodes_def e)
  have t: "table u = table s" "nib u = nib s" "bmap u = bmap s"
    by (intro ext, simp only: table_def c d e) (simp_all add: nib_def bmap_def e)
  have "geometry u" by (rule geometry_cong [OF fs_invD(1) [OF inv]]) (use e in simp_all)
  moreover have "cache_inv {} u"
    using fs_invD(5) [OF inv] e t c d by (simp add: cache_inv_def disk_ok_def node_ok_def reach_def)
  moreover have "inodes_ok u" using fs_invD(6) [OF inv] e t by (simp add: inodes_ok_def used_def reach_def)
  moreover have "numinodes u = 128 * (1 + numblocks u div 10)" "\<exists>im. inode_freemap u = Some im \<and> length im = nat (numinodes u)"
    using fs_invD(2,3,4) [OF inv] e by auto
  moreover have "pointers_ok (numblocks u) (numinodes u) (\<lambda>j. ptr (D u) (table u j)) (bmap u)"
    using fs_invD(7) [OF inv] e(1,3,4) t by simp
  moreover have "get_super (D u 0) = layout (numblocks u)" using fs_invD(11) [OF inv] e by simp
  ultimately show "fs_inv u" unfolding fs_inv_def by blast
  show "file_at u = file_at s" by (intro ext) (simp add: file_at_def e t)
  show "room u = room s" by (simp add: room_def e)
qed

lemma fs_inv_opened:
  assumes inv: "fs_inv s" and h: "heap_inodes s a = Some (table s i)" and i: "0 \<le> i" "i < numinodes s"
  shows "opened s i a (table s i) s"
  using fs_invD [OF inv] h inodes_okD(1) [OF fs_invD(6) [OF inv] i] by (simp add: opened_def fun_upd_idem)

lemma is_arg_valid_ok:
  assumes "fs_inv s" "0 \<le> i" "i < numinodes s" "used s i" "0 \<le> len" "0 \<le> off" "off \<le> MAX_OFFSET"
  shows "is_arg_valid i len off s = Inr True"
  using assms fs_invD(3,4) [OF assms(1)] by (auto simp: is_arg_valid_def arr_at_def used_def)

section \<open>Reading a file\<close>

theorem fs_read_runs:
  assumes inv: "fs_inv s" and room: "room s" and f: "file_at s i = Some (sz, f)" and a: "0 \<le> len" "0 \<le> off" "off \<le> MAX_OFFSET"
  shows "runs (fs_read i buf len off s) (\<lambda>(n, buf', u). fs_inv u \<and> room u \<and> mount_of u = mount_of s \<and> file_at u = file_at s \<and>
    0 \<le> n \<and> n \<le> max 0 (min (sz - off) len) \<and> (n < min (sz - off) len \<longrightarrow> f (off + n) = None) \<and>
    (\<forall>x. off \<le> x \<and> x < off + n \<longrightarrow> f x \<noteq> None) \<and> buf' = read_into f off 0 n buf)"
proof -
  note fd = file_atD [OF inv f] and s = fs_invD [OF inv]
  obtain a' u where g: "get_inode i s = Inr (Some a', u)" "cache_inv {} u" "room u" "table u = table s"
      "heap_inodes u a' = Some (table s i)" "handle i a' u" "only_inodes s u"
    using get_inode_runs [OF s(5) fd(3) room] by (auto simp: runs_iff)
  note fu = fs_inv_frame [OF inv g(7,2,4)]
  have i: "0 \<le> i" "i < numinodes u" using fd g(7) by (simp_all add: only_inodes_def)
  have o: "opened u i a' (table s i) u" using fs_inv_opened [OF fu(1) _ i, of a'] g(4,5) by simp
  have "file_at u i = Some (sz, f)" using f fu(2) by simp
  then have f': "f = content (D u) (table s i)" using file_atD(7) [OF fu(1)] g(4) by simp
  let ?left = "min (sz - off) len"
  obtain n buf' v where r: "read_loop a' ?left off 0 buf u = Inr (n, buf', v)" "read_post f ?left off 0 buf u (n, buf', v)"
  proof -
    have "?left \<le> 0 \<or> off + ?left \<le> MAX_OFFSET" using fd(9) by linarith
    then show thesis using read_loop_runs [OF o i a(2), of ?left 0 buf] f' that by (auto simp: runs_iff)
  qed
  have add: "int_add (sint (i_size (table s i))) (- off) = Inr (sz - off)"
    using a fd int_add_ok [of sz "- off"] by (simp add: MAX_OFFSET_val INT_MAX_def)
  have "fs_read i buf len off s = Inr (n, buf', v)"
    using s(10) is_arg_valid_ok [OF inv fd(1,2,4) a] g(1,5) fd(5) add r(1) by (simp add: fs_read_def inode_ptr_def)
  moreover have v: "reads u v" using r(2) by (simp add: read_post_def)
  ultimately show ?thesis
    using r(2) fs_inv_reads [OF fu(1) v] fu(2) g(3) mount_of_simps(1) [OF g(7)] mount_of_simps(2) [OF v] by (simp add: read_post_def)
qed

section \<open>Writing a file\<close>

lemma div_below:
  fixes m j k :: int
  assumes "0 < m" "j div m + 1 < k"
  shows "j < k * m"
proof -
  have "j < j div m * m + m" using div_mod_block [OF assms(1), of j] by linarith
  also have "\<dots> \<le> k * m" by (rule block_end) (use assms in auto)
  finally show ?thesis .
qed

lemma div_above:
  fixes m j k :: int
  assumes "0 < m" "j < k * m"
  shows "j div m < k"
proof -
  have "j div m * m \<le> j" using div_mod_block [OF assms(1), of j] by linarith
  then have "j div m * m < k * m" using assms(2) by linarith
  then show ?thesis using assms(1) by simp
qed

text \<open>The cache sees the open inode through its pointer.\<close>

lemma opened_cache_inv:
  assumes inv: "cache_inv {} s" and o: "opened s i a ino v" and h: "heap_inodes s a = Some ino0" and hd: "handle i a s"
    and n: "nib s = 1 + numblocks s div 10" "numinodes s = 128 * nib s"
  shows "cache_inv {i} v" "heap_inodes v = heap_inodes s \<Longrightarrow> cache_inv {} v" "handle i a v" "room v = room s"
    "\<And>j. 0 \<le> j \<Longrightarrow> j < numinodes s \<Longrightarrow> j \<noteq> i \<Longrightarrow> table v j = table s j"
proof -
  note e = openedD [OF o]
  from inv obtain c where c: "the_cache s = Some c" "list_ok c" "cnodes s = nodes c" "disk_ok s" "live_cache s = Inr c"
    "\<And>n. n \<in> set (nodes c) \<Longrightarrow> node_ok {} s n" "\<And>a. heap_inodes s a \<noteq> None \<Longrightarrow> a < next_inode s" by (elim cache_invE) blast
  have cv: "cnodes v = nodes c" using e(2) c(1) by (simp add: cnodes_def)
  have g: "reach v = reach s" "disk_ok v" using c(4) e by (simp_all add: reach_def nib_def disk_ok_def)
  have low: "D v b = D s b" if "b < 1 + nib s" for b using e(9) [of b] that n(1) by simp
  have d: "disk_inode v j = disk_inode s j" if "j < numinodes s" for j
  proof -
    have "j div 128 < nib s" using div_above [of 128 j "nib s"] that n(2) by (simp only: mult.commute)
    then have "D v (1 + j div 128) = D s (1 + j div 128)" by (intro low) (simp only: add_less_cancel_left)
    then show ?thesis by (simp only: disk_inode_def)
  qed
  have r: "j < numinodes s" if "j \<in> reach s" for j
    using div_below [of 128 j "nib s"] that n(2) by (simp add: reach_def mult.commute)
  have num: "n_inumber m = i" if "m \<in> set (nodes c)" "n_inode m = a" for m
  proof -
    from hd c(3) that(1) obtain n where "n \<in> set (nodes c)" "n_inumber n = i" "n_inode n = a"
      by (cases "nodes c = []") (auto simp: handle_def)
    moreover have "distinct (map n_inode (nodes c))" using c(2) by (simp add: list_ok_def)
    ultimately show ?thesis using node_pointers [of "nodes c" m n] that by simp
  qed
  have ok: "node_ok {i} v m" if m: "m \<in> set (nodes c)" for m
  proof (cases "n_inode m = a")
    case True
    then show ?thesis using c(6) [OF m] num [OF m True] e(10,13) g by (auto simp: node_ok_def)
  next
    case False
    then show ?thesis using c(6) [OF m] e(3) g d r by (auto simp: node_ok_def)
  qed
  have heap: "heap_inodes v x \<noteq> None \<Longrightarrow> x < next_inode v" for x
    using c(7) [of x] c(7) [of a] h e(3,4) by (auto split: if_splits)
  show "cache_inv {i} v" using ok heap g e(2) c(1,2) unfolding cache_inv_def cv by auto
  show "cache_inv {} v" if hv: "heap_inodes v = heap_inodes s"
  proof -
    have "node_ok {} v m" if m: "m \<in> set (nodes c)" for m
      using c(6) [OF m] g d r hv by (auto simp: node_ok_def)
    then show ?thesis using heap g e(2) c(1,2) unfolding cache_inv_def cv by auto
  qed
  show "handle i a v" using hd c(3) cv by (simp add: handle_def e(2))
  show "room v = room s" by (simp add: room_def e(2))
  show "table v j = table s j" if j: "0 \<le> j" "j < numinodes s" "j \<noteq> i" for j
  proof (cases "cached (nodes c) j")
    case None
    then show ?thesis using d [OF j(2)] cv c(3) by (simp add: table_def)
  next
    case (Some m)
    then have "m \<in> set (nodes c)" "n_inumber m = j"
      using cached_Some [of "nodes c" j m] c(2) by (simp_all add: list_ok_def)
    then have "n_inode m \<noteq> a" using num [of m] j(3) by auto
    then show ?thesis using Some e(3) cv c(3) by (simp add: table_def)
  qed
qed

text \<open>The state after the inode was saved: the files are those of the open state.\<close>

lemma fs_inv_close:
  assumes inv: "fs_inv s" and o: "opened s i a ino v" and i: "0 \<le> i" "i < numinodes s" "i \<in> reach s" "used s i"
    and ino: "0 \<le> sint (i_size ino)" "sint (i_size ino) \<le> MAX_OFFSET" "isvalid ino = 1"
    and x: "cache_inv {} x" "only_inodes v x" "\<And>j. 0 \<le> j \<Longrightarrow> j < numinodes s \<Longrightarrow> table x j = ((table s)(i := ino)) j"
  shows "fs_inv x" "file_at x = (file_at s)(i := Some (sint (i_size ino), content (D v) ino))"
proof -
  note s = fs_invD [OF inv] and e = openedD [OF o]
  have ex: "numblocks x = numblocks s" "numinodes x = numinodes s" "inode_freemap x = inode_freemap s"
      "nblocks (dev x) = nblocks (dev v)" "block_freemap x = block_freemap v" "numblocks x = numblocks v" "bmap x = bmap v"
    using x(2) e by (simp_all add: only_inodes_def bmap_def)
  have nv: "nib v = 1 + numblocks v div 10" using s(8) e(5,6) by (simp add: nib_def)
  have B: "D x b = D v b" if "data_block (numblocks s) b" for b
    using only_inodes_data [OF x(2) nv] that e(5) by simp
  note ff = files_frame [OF e(11) B]
  have "geometry x" by (rule geometry_cong [OF e(1)]) (use ex in simp_all)
  moreover have "inodes_ok x"
  proof -
    have "reach x = reach s" using ex by (simp add: reach_def nib_def)
    then show ?thesis using inodes_okD [OF s(6)] x(3) i ino e(10) ex by (auto simp: inodes_ok_def used_def)
  qed
  moreover have "pointers_ok (numblocks x) (numinodes x) (\<lambda>j. ptr (D x) (table x j)) (bmap x)"
    unfolding ex(1,2,7) by (rule pointers_ok_cong [OF e(11)]) (simp only: x(3) ff)
  moreover have "numinodes x = 128 * (1 + numblocks x div 10)" "\<exists>im. inode_freemap x = Some im \<and> length im = nat (numinodes x)"
    using s(2,3,4) ex by auto
  moreover have "get_super (D x 0) = layout (numblocks x)"
  proof -
    have "0 < 2 + numblocks s div 10" using geometryD(3) [OF s(1)] by (simp add: pos_imp_zdiv_nonneg_iff add_pos_nonneg)
    then show ?thesis using s(11) e(9) [of 0] x(2) ex(1) by (simp add: only_inodes_def)
  qed
  ultimately show "fs_inv x" using x(1) unfolding fs_inv_def by blast
  show "file_at x = (file_at s)(i := Some (sint (i_size ino), content (D v) ino))"
  proof
    fix j show "file_at x j = ((file_at s)(i := Some (sint (i_size ino), content (D v) ino))) j"
    proof (cases "0 \<le> j \<and> j < numinodes s")
      case True
      then have "content (D x) (table x j) = content (D v) (((table s)(i := ino)) j)" using ff(2) x(3) by simp
      then show ?thesis using True x(3) [of j] e(12) [of j] ino(3) by (cases "j = i") (simp_all add: file_at_def ex(2))
    next
      case False
      then show ?thesis using i by (auto simp: file_at_def ex(2))
    qed
  qed
qed

lemma content_size: "content B (ino\<lparr>i_size := z\<rparr>) = content B ino" "ptr B (ino\<lparr>i_size := z\<rparr>) = ptr B ino"
  by (simp_all add: content_def ptr_def fun_eq_iff)

lemma opened_size:
  assumes "opened s i a ino v"
  shows "opened s i a (ino\<lparr>i_size := z\<rparr>) (set_inode a (ino\<lparr>i_size := z\<rparr>) v)"
proof (rule opened_step [OF assms])
  show "pointers_ok (numblocks s) (numinodes s) (\<lambda>j. ptr (D (set_inode a (ino\<lparr>i_size := z\<rparr>) v)) (((table s)(i := ino\<lparr>i_size := z\<rparr>)) j)) (bmap v)"
    by (rule pointers_ok_cong [OF openedD(11) [OF assms]]) (auto simp: content_size)
qed (use openedD [OF assms] geometryD [OF openedD(1) [OF assms]] in simp_all)

theorem fs_write_runs:
  assumes inv: "fs_inv s" and room: "room s" and f: "file_at s i = Some (sz, f)" and a: "0 \<le> len" "0 \<le> off" "off + len \<le> MAX_OFFSET"
  shows "runs (fs_write i data len off s) (\<lambda>(n, u). fs_inv u \<and> room u \<and> mount_of u = mount_of s \<and> 0 \<le> n \<and> n \<le> len \<and> (n < len \<longrightarrow> nearly_full u) \<and>
    file_at u = (file_at s)(i := Some (max sz (off + n), overwrite data 0 off n f)))"
proof -
  note fd = file_atD [OF inv f] and s = fs_invD [OF inv]
  obtain a' u where g: "get_inode i s = Inr (Some a', u)" "cache_inv {} u" "room u" "table u = table s"
      "heap_inodes u a' = Some (table s i)" "handle i a' u" "only_inodes s u"
    using get_inode_runs [OF s(5) fd(3) room] by (auto simp: runs_iff)
  note fu = fs_inv_frame [OF inv g(7,2,4)]
  note du = file_atD [OF fu(1)] and u = fs_invD [OF fu(1)]
  have fi: "file_at u i = Some (sz, f)" using f fu(2) by simp
  note i = du(1,2) [OF fi]
  let ?ino = "table s i"
  have o: "opened u i a' ?ino u" using fs_inv_opened [OF fu(1) _ i, of a'] g(4,5) by simp
  have same: "set_inode a' (?ino\<lparr>isvalid := 1\<rparr>) u = u"
    using fd(5) g(5) by (simp add: set_inode_def fun_upd_idem)
  obtain n w v where l: "write_loop a' data len off 0 0 u = Inr (n, w, v)" "loop_post u i a' data len off 0 ?ino u 0 (n, w, v)"
    using write_loop_runs [where n = 0 and w = 0 and data = data, OF o i a] by (auto simp: runs_iff)
  then obtain ino where p: "opened u i a' ino v" "0 \<le> n" "n \<le> len" "n < len \<longrightarrow> nearly_full v" "w = 0 \<longrightarrow> ino = ?ino"
      "isvalid ino = 1" "i_size ino = i_size ?ino" "content (D v) ino = overwrite data 0 off n (content (D u) ?ino)"
    using fd(5) by (auto simp: loop_post_def)
  have fc: "f = content (D u) ?ino" using du(7) [OF fi] g(4) by simp
  let ?z = "if n + off > sint (i_size ino) then word_of_int (n + off) else i_size ino" 
  let ?ino' = "ino\<lparr>i_size := ?z\<rparr>" and ?w = "if n + off > sint (i_size ino) then 1 else w"
  let ?v = "set_inode a' ?ino' v"
  have o': "opened u i a' ?ino' ?v" by (rule opened_size [OF p(1)])
  have nm: "n + off \<le> MAX_OFFSET" "n + off \<le> INT_MAX" using p(3) a by (auto simp: MAX_OFFSET_val INT_MAX_def)
  have z: "sint ?z = max sz (off + n)"
    using sint_small [of "n + off"] nm p(2,7) a fd(6) by (simp add: max_def)
  have add: "int_add n off = Inr (n + off)" using p(2) nm a by (intro int_add_ok) (auto simp: INT_MAX_def)
  have n: "numinodes u = 128 * nib u" using u(2,8) by simp
  note oc = opened_cache_inv [OF u(5) o' g(5,6) u(8) n]
  have iu: "i \<in> reach u" "used u i" using du(3,4) [OF fi] .
  have run: "fs_write i data len off s = bindE (if ?w \<noteq> 0 then set_dirty i ?w a' ?v else Inr ?v) (\<lambda>s. Inr (n, s))"
    using s(10) is_arg_valid_ok [OF inv fd(1,2,4) a(1,2)] a(1,3) g(1,5) fd(5) same l(1) openedD(13) [OF p(1)] add
    by (simp add: fs_write_def inode_ptr_def Let_def)
  have "runs (if ?w \<noteq> 0 then set_dirty i ?w a' ?v else Inr ?v) (\<lambda>x. cache_inv {} x \<and> room x \<and> only_inodes ?v x \<and>
      (\<forall>j. 0 \<le> j \<and> j < numinodes u \<longrightarrow> table x j = ((table u)(i := ?ino')) j))"
  proof (cases "?w = 0")
    case True
    then have "w = 0" "\<not> n + off > sint (i_size ino)" by (auto split: if_splits)
    then have e: "?ino' = ?ino" using p(5) by simp
    then have hv: "heap_inodes ?v = heap_inodes u" using openedD(3) [OF o'] g(5) by (simp add: fun_upd_idem)
    have iv: "table ?v i = ?ino"
    proof -
      have "cache_inv {} ?v" by (rule oc(2) [OF hv])
      have "table ?v i = table u i" 
      proof -
        have "disk_inode ?v i = disk_inode u i"
          using openedD(9) [OF o'] iu(1) u(8) by (simp add: disk_inode_def reach_def)
        moreover have "cnodes ?v = cnodes u" using openedD(2) [OF o'] by (simp add: cnodes_def)
        ultimately show ?thesis by (simp only: table_def hv)
      qed
      then show ?thesis using g(4) by simp
    qed
    have "table ?v j = ((table u)(i := ?ino')) j" if "0 \<le> j" "j < numinodes u" for j
      using oc(5) [OF that] iv e by (cases "j = i") auto
    then show ?thesis using True oc(2) [OF hv] oc(4) g(3) by simp
  next
    case False
    have iv: "i \<in> reach ?v" using iu(1) openedD(6) [OF o'] by (simp add: reach_def nib_def)
    have "room ?v" using oc(4) g(3) by simp
    from set_dirty_runs [OF oc(1) iv openedD(13,10) [OF o'] oc(3) False this]
    show ?thesis using False oc(5) by (auto elim!: runs_mono)
  qed
  then obtain x where x: "(if ?w \<noteq> 0 then set_dirty i ?w a' ?v else Inr ?v) = Inr x" "cache_inv {} x" "room x" "only_inodes ?v x"
      "\<And>j. 0 \<le> j \<Longrightarrow> j < numinodes u \<Longrightarrow> table x j = ((table u)(i := ?ino')) j"
    by (auto simp: runs_iff)
  have bounds: "0 \<le> sint (i_size ?ino')" "sint (i_size ?ino') \<le> MAX_OFFSET" "isvalid ?ino' = 1"
    using z fd(8,9) nm p(6) by simp_all
  note cl = fs_inv_close [OF fu(1) o' i iu bounds x(2,4,5)]
  have "nearly_full x = nearly_full v" using x(4) by (simp add: nearly_full_def only_inodes_def bmap_def)
  moreover have "file_at x = (file_at s)(i := Some (max sz (off + n), overwrite data 0 off n f))"
    using cl(2) z p(8) fc fu(2) by (simp add: content_size)
  moreover have "mount_of x = mount_of s"
    using mount_of_simps(1) [OF x(4)] mount_of_simps(3) [OF o'] mount_of_simps(1) [OF g(7)] by simp
  ultimately show ?thesis using run x(1,3) cl(1) p(2,3,4) by simp
qed

end
