(* ===== verification/FsCalls.thy ===== *)
theory FsCalls
  imports FsSystem
begin

text \<open>Creating, deleting and measuring files, on the map of files.\<close>

section \<open>Sizes\<close>

theorem fs_getsize_runs:
  assumes inv: "fs_inv s" and room: "room s" and i: "i \<in> reach s"
  shows "runs (fs_getsize i s) (\<lambda>(r, u). fs_inv u \<and> room u \<and> mount_of u = mount_of s \<and> file_at u = file_at s \<and>
    r = (case file_at s i of None \<Rightarrow> -1 | Some (sz, f) \<Rightarrow> sz))"
proof -
  note s = fs_invD [OF inv]
  obtain a u where g: "get_inode i s = Inr (Some a, u)" "cache_inv {} u" "room u" "table u = table s"
      "heap_inodes u a = Some (table s i)" "handle i a u" "only_inodes s u"
    using get_inode_runs [OF s(5) i room] by (auto simp: runs_iff)
  have "0 \<le> i" "i < numinodes s"
    using reachD(1,2) [OF i] div_below [of 128 i "nib s"] s(2,8) by (simp_all add: mult.commute add.commute)
  then show ?thesis
    using g fs_inv_frame [OF inv g(7,2,4)] s(10) mount_of_simps(1) [OF g(7)] by (simp add: fs_getsize_def inode_ptr_def file_at_def)
qed

section \<open>Creating a file\<close>

lemma ptr_new_inode: "q \<in> slots \<Longrightarrow> ptr B (empty_inode\<lparr>isvalid := v\<rparr>) q = 0"
  by (auto simp: ptr_def empty_inode_def slots_def nth_Cons' nat_eq_iff)

text \<open>An inode that is not in the cache is saved: the table changes there.\<close>

lemma saved_cache_inv:
  assumes inv: "cache_inv {} s" and sv: "saved i ino s u" and i: "i \<notin> n_inumber ` set (cnodes s)"
  shows "cache_inv {} u" "table u = (table s)(i := ino)" "room u = room s"
proof -
  note sd = savedD [OF sv]
  from inv obtain c where c: "the_cache s = Some c" "list_ok c" "cnodes s = nodes c" "disk_ok s" "live_cache s = Inr c"
    "\<And>n. n \<in> set (nodes c) \<Longrightarrow> node_ok {} s n" "\<And>a. heap_inodes s a \<noteq> None \<Longrightarrow> a < next_inode s" by (elim cache_invE) blast
  have cu: "cnodes u = nodes c" using c(1) sd(6) by (simp add: cnodes_def)
  have g: "reach u = reach s" "disk_ok u" using c(4) sd by (simp_all add: reach_def nib_def disk_ok_def)
  have "node_ok {} u n" if "n \<in> set (nodes c)" for n
  proof -
    have "n_inumber n \<noteq> i" using that i c(3) by auto
    then show ?thesis using c(6) [OF that] g(1) sd(7,10) by (simp add: node_ok_def)
  qed
  then show "cache_inv {} u" using c g(2) sd(6,7,8) unfolding cache_inv_def cu by simp
  show "table u = (table s)(i := ino)"
  proof (rule table_eqI)
    show "distinct (map n_inumber (cnodes u))" using c(2) by (simp add: cu list_ok_def)
    show "the (heap_inodes u (n_inode n)) = ((table s)(i := ino)) (n_inumber n)" if "n \<in> set (cnodes u)" for n
    proof -
      have "n_inumber n \<noteq> i" using that i c(3) cu by auto
      then show ?thesis using that table_in [of s n] c(2,3) cu sd(7) by (simp add: list_ok_def)
    qed
    show "disk_inode u j = ((table s)(i := ino)) j" if "j \<notin> n_inumber ` set (cnodes u)" for j
      using that table_out [of j s] c(3) cu sd(10) by simp
  qed
  show "room u = room s" by (simp add: room_def sd(6))
qed

text \<open>The files of a state that differs in one inode and its mark.\<close>

lemma fs_inv_update:
  assumes inv: "fs_inv s" and o: "only_inodes s u" and c: "cache_inv {} u" and t: "table u = (table s)(i := ino)"
    and i: "0 \<le> i" "i < numinodes s" "i \<in> reach s"
    and ino: "length (direct ino) = 5" "\<And>q. q \<in> slots \<Longrightarrow> ptr (D s) ino q = 0" "indirect ino = 0" "i_size ino = 0"
      "isvalid ino = 1 \<and> m = 1 \<or> ino = empty_inode \<and> m = 0"
    and bm: "length bm = nat (numblocks s)"
      "\<And>j q. 0 \<le> j \<Longrightarrow> j < numinodes s \<Longrightarrow> j \<noteq> i \<Longrightarrow> q \<in> slots \<Longrightarrow> ptr (D s) (table s j) q \<noteq> 0 \<Longrightarrow> bm ! nat (ptr (D s) (table s j) q) \<noteq> 0"
    and v: "v = u\<lparr>block_freemap := Some bm, inode_freemap := Some ((the (inode_freemap s))[nat i := m])\<rparr>"
  shows "fs_inv v" "file_at v = (file_at s)(i := if m = 0 then None else Some (0, \<lambda>_. None))"
proof -
  note s = fs_invD [OF inv]
  have e: "numblocks v = numblocks s" "numinodes v = numinodes s" "block_freemap v = Some bm" "nblocks (dev v) = nblocks (dev s)"
      "the (inode_freemap v) = (the (inode_freemap s))[nat i := m]" "the_cache v = the_cache u" "heap_inodes v = heap_inodes u"
      "next_inode v = next_inode u" "D v = D u" "bmap v = bm" "dev v = dev u" "numinodes u = numinodes s"
    using o by (simp_all add: only_inodes_def v bmap_def)
  have B: "D v b = D s b" if "data_block (numblocks s) b" for b
    using only_inodes_data [OF o s(8) that] e(9) by simp
  have ff: "ptr (D v) (table s j) = ptr (D s) (table s j)" "content (D v) (table s j) = content (D s) (table s j)"
    if "0 \<le> j" "j < numinodes s" for j
    using files_frame [OF s(7) B that] by blast+
  have d: "disk_inode v = disk_inode u" by (intro ext) (simp add: disk_inode_def e(9))
  have cn: "cnodes v = cnodes u" by (simp add: cnodes_def e(6))
  have tv: "table v = (table s)(i := ino)" unfolding t [symmetric] by (intro ext) (simp only: table_def d cn e(7))
  have r: "reach v = reach s" "nib v = nib s" "reach u = reach s" using e by (simp_all add: reach_def nib_def)
  have dok: "disk_ok v = disk_ok u" by (simp add: disk_ok_def e(11) nib_def) (simp add: e(2,12))
  have cv: "cache_inv {} v"
    using c unfolding cache_inv_def cn node_ok_def e(6,7,8) d r dok by simp
  have pi: "ptr (D v) ino q = ptr (D s) ino q" for q by (rule ptr_no_indirect [OF ino(3)])
  have pt: "ptr (D v) (((table s)(i := ino)) j) q = (if j = i then 0 else ptr (D s) (table s j) q)"
    if "0 \<le> j" "j < numinodes s" "q \<in> slots" for j q
    using ff(1) [OF that(1,2)] ino(2) [OF that(3)] pi by (cases "j = i") simp_all
  have "pointers_ok (numblocks v) (numinodes v) (\<lambda>j. ptr (D v) (table v j)) (bmap v)"
    unfolding e(1,2,10) tv pointers_ok_def
  proof (intro conjI allI impI; elim conjE)
    fix j q assume j: "0 \<le> j" "j < numinodes s" "q \<in> slots" "ptr (D v) (((table s)(i := ino)) j) q \<noteq> 0"
    then have p: "j \<noteq> i" "ptr (D v) (((table s)(i := ino)) j) q = ptr (D s) (table s j) q" "ptr (D s) (table s j) q \<noteq> 0"
      using pt [OF j(1-3)] by (auto split: if_splits)
    show "data_block (numblocks s) (ptr (D v) (((table s)(i := ino)) j) q)"
      unfolding p(2) by (rule pointers_okD(1) [OF s(7) j(1-3) p(3)])
    show "bm ! nat (ptr (D v) (((table s)(i := ino)) j) q) \<noteq> 0" unfolding p(2) by (rule bm(2) [OF j(1,2) p(1) j(3) p(3)])
  next
    fix j q k r assume a: "0 \<le> j" "j < numinodes s" "q \<in> slots" "0 \<le> k" "k < numinodes s" "r \<in> slots"
      and nz: "ptr (D v) (((table s)(i := ino)) j) q \<noteq> 0" and eq: "ptr (D v) (((table s)(i := ino)) j) q = ptr (D v) (((table s)(i := ino)) k) r"
    have p: "ptr (D s) (table s j) q \<noteq> 0" "ptr (D s) (table s j) q = ptr (D s) (table s k) r"
      using nz eq pt [OF a(1-3)] pt [OF a(4-6)] by (auto split: if_splits)
    show "j = k" "q = r" using pointers_okD(3) [OF s(7) a(1-3) p(1) a(4-6) p(2)] by simp_all
  qed
  moreover have "geometry v" using geometryD(1,2,5) [OF s(1)] bm(1) e by (simp add: geometry_def)
  moreover have "inodes_ok v"
    unfolding inodes_ok_def
  proof (intro allI impI; elim conjE)
    fix j assume j: "0 \<le> j" "j < numinodes v"
    then have j': "j < numinodes s" by (simp add: e)
    have u: "used v j = (if j = i then m \<noteq> 0 else used s j)"
      using i j(1) j' s(4) by (auto simp: used_def e(5) nth_list_update nat_eq_iff2)
    show "length (direct (table v j)) = 5 \<and> 0 \<le> sint (i_size (table v j)) \<and> sint (i_size (table v j)) \<le> MAX_OFFSET \<and>
      (isvalid (table v j) = 0 \<and> table v j = empty_inode \<and> \<not> used v j \<or> isvalid (table v j) = 1 \<and> used v j \<and> j \<in> reach v)"
    proof (cases "j = i")
      case True
      then show ?thesis using ino i(3) u r tv by (auto simp: MAX_OFFSET_val empty_inode_def)
    next
      case False
      then show ?thesis using inodes_okD [OF s(6) j(1) j'] u r tv by auto
    qed
  qed
  moreover have "numinodes v = 128 * (1 + numblocks v div 10)" "\<exists>im. inode_freemap v = Some im \<and> length im = nat (numinodes v)"
    using s(2,4) e by (auto simp: v)
  moreover have "get_super (D v 0) = layout (numblocks v)" using s(11) o e by (simp add: only_inodes_def)
  ultimately show "fs_inv v" using cv unfolding fs_inv_def by blast
  show "file_at v = (file_at s)(i := if m = 0 then None else Some (0, \<lambda>_. None))"
  proof
    fix j
    have "content (D v) ino off = None" for off
    proof (cases "0 \<le> off \<and> off < MAX_OFFSET")
      case True
      then show ?thesis using pi ino(2) slot_of_offset(3) [of off] by (simp add: content_def)
    qed (auto simp: content_def)
    then have ci: "content (D v) ino = (\<lambda>_. None)" by (rule ext)
    show "file_at v j = ((file_at s)(i := if m = 0 then None else Some (0, \<lambda>_. None))) j"
      using ff(2) [of j] i ino(4,5) ci by (cases "j = i") (auto simp: file_at_def e tv empty_inode_def)
  qed
qed
text \<open>The entries of the inode map.\<close>

lemma inode_map:
  assumes "fs_inv s" "0 \<le> i" "i < numinodes s"
  shows "arr_at (inode_freemap s) i = Inr (the (inode_freemap s) ! nat i)"
    "mark_inode i m s = Inr (s\<lparr>inode_freemap := Some ((the (inode_freemap s))[nat i := m])\<rparr>)"
  using fs_invD(3,4) [OF assms(1)] assms(2,3) by (auto simp: arr_at_def mark_inode_def arr_set_def vec_set_def)

lemma create_in_skip:
  assumes "fs_inv s" "\<And>j. j \<in> set xs \<Longrightarrow> int j < numinodes s \<and> used s (int j)"
  shows "create_in (xs @ ys) s = create_in ys s"
  using assms(2)
proof (induction xs)
  case (Cons j xs)
  then show ?case using inode_map(1) [OF assms(1), of "int j"] by (simp add: used_def)
qed simp

lemma create_search:
  assumes "fs_inv s" "0 \<le> i" "i < numinodes s" "\<And>j. 0 \<le> j \<Longrightarrow> j < i \<Longrightarrow> used s j" "\<not> used s i"
  shows "fs_create s = bindE (inode_save i (Inr (empty_inode\<lparr>isvalid := 1\<rparr>)) s) (\<lambda>(res, s).
       if \<not> res then Inr (-1, s) else bindE (mark_inode i 1 s) (\<lambda>s. Inr (i, s)))"
proof -
  have "[0..<nat (numinodes s)] = [0..<nat i] @ nat i # [Suc (nat i)..<nat (numinodes s)]"
    using assms(2,3) upt_add_eq_append [of 0 "nat i" "nat (numinodes s) - nat i"] upt_conv_Cons [of "nat i" "nat (numinodes s)"] by simp
  then have "fs_create s = create_in (nat i # [Suc (nat i)..<nat (numinodes s)]) s"
    using create_in_skip [OF assms(1), of "[0..<nat i]"] assms(2-4) fs_invD(10) [OF assms(1)]
    by (simp add: fs_create_def del: create_in.simps)
  moreover have "int (nat i) = i" using assms(2) by simp
  ultimately show ?thesis using inode_map(1) [OF assms(1-3)] assms(5) by (simp only: create_in.simps bindE_simps used_def if_True simp_thms)
qed

theorem fs_create_runs:
  assumes inv: "fs_inv s" and i: "i \<in> reach s" "\<not> used s i" "\<And>j. 0 \<le> j \<Longrightarrow> j < i \<Longrightarrow> used s j" "i \<notin> n_inumber ` set (cnodes s)"
  shows "runs (fs_create s) (\<lambda>(r, u). r = i \<and> fs_inv u \<and> room u = room s \<and> mount_of u = mount_of s \<and> file_at u = (file_at s)(i := Some (0, \<lambda>_. None)))"
proof -
  note s = fs_invD [OF inv]
  let ?ino = "empty_inode\<lparr>isvalid := 1\<rparr>"
  have r: "0 \<le> i" "i < numinodes s"
    using reachD(1,2) [OF i(1)] div_below [of 128 i "nib s"] s(2,8) by (simp_all add: mult.commute add.commute)
  have "disk_ok s" using s(5) by (simp add: cache_inv_def)
  then obtain u where u: "inode_save i (Inr ?ino) s = Inr (True, u)" "saved i ?ino s u"
    using inode_save_runs [OF _ i(1), of ?ino] by (auto simp: runs_iff empty_inode_def)
  note c = saved_cache_inv [OF s(5) u(2) i(4)]
  note sd = savedD [OF u(2)]
  let ?v = "u\<lparr>inode_freemap := Some ((the (inode_freemap s))[nat i := 1])\<rparr>"
  have v: "?v = u\<lparr>block_freemap := Some (bmap s), inode_freemap := Some ((the (inode_freemap s))[nat i := 1])\<rparr>"
    using sd(4) geometryD(6) [OF s(1)] by simp
  have up: "fs_inv ?v" "file_at ?v = (file_at s)(i := if (1::int) = 0 then None else Some (0, \<lambda>_. None))"
    by (rule fs_inv_update [OF inv saved_only_inodes [OF u(2)] c(1,2) r i(1) _ _ _ _ _ geometryD(7) [OF s(1)] _ v];
      use pointers_okD(2) [OF s(7)] ptr_new_inode in \<open>auto simp: empty_inode_def\<close>)+
  have "fs_create s = Inr (i, ?v)"
    using create_search [OF inv r i(3,2)] u(1) s(3,4) r sd(5) by (auto simp: mark_inode_def arr_set_def vec_set_def)
  moreover have "room ?v = room s" using c(3) by (simp add: room_def)
  moreover have "mount_of ?v = mount_of s" using sd(2,6) by (simp add: mount_of_def)
  ultimately show ?thesis using up by simp
qed

text \<open>When every inode that can be reached is in use, creation fails and changes nothing.\<close>

theorem fs_create_full:
  assumes inv: "fs_inv s" and full: "\<And>j. j \<in> reach s \<Longrightarrow> used s j"
  shows "fs_create s = Inr (-1, s)"
proof -
  note s = fs_invD [OF inv]
  let ?i = "128 * (nib s - 1)"
  have n: "numinodes s = 128 * nib s" "0 < nib s" using s(2,8,9) by simp_all
  then have i: "0 \<le> ?i" "?i < numinodes s" by simp_all
  have used: "used s j" if "0 \<le> j" "j < ?i" for j
  proof (rule full)
    show "j \<in> reach s" using that div_above [of 128 j "nib s - 1"] by (simp add: reach_def mult.commute)
  qed
  have out: "?i div 128 + 1 = nib s" by simp
  then have "?i \<notin> reach s" by (simp add: reach_def)
  then have nu: "\<not> used s ?i" using inodes_okD(4) [OF s(6) i] by blast
  have "inode_out_of_range ?i s"
  proof -
    have "?i sdiv 128 = nib s - 1" using trunc_nonneg(1) [OF i(1)] by simp
    moreover have "numinodes s sdiv 128 = nib s" using trunc_nonneg(1) [of "numinodes s"] n by simp
    ultimately show ?thesis by (simp add: inode_out_of_range_def INODES_PER_BLOCK_def)
  qed
  then show ?thesis using create_search [OF inv i used nu] by (simp add: inode_save_def)
qed

section \<open>Deleting a file\<close>

definition marked :: "int list \<Rightarrow> i32 list \<Rightarrow> int \<Rightarrow> int list" where
  "marked bm ps v = foldl (\<lambda>bm p. bm[nat (sint p) := v]) bm ps"

lemma marked_simps [simp]:
  "marked bm [] v = bm"
  "marked bm (p # ps) v = marked (bm[nat (sint p) := v]) ps v"
  "length (marked bm ps v) = length bm"
proof -
  show "length (marked bm ps v) = length bm" unfolding marked_def by (induction ps arbitrary: bm) simp_all
qed (simp_all add: marked_def)

lemma nth_marked:
  "x < length bm \<Longrightarrow> marked bm ps v ! x = (if x \<in> (\<lambda>p. nat (sint p)) ` set ps then v else bm ! x)"
  by (induction ps arbitrary: bm) (auto simp: nth_list_update)

lemma mark_until_zero_runs:
  assumes "geometry s" "\<And>p. p \<in> set (takeWhile (\<lambda>p. p \<noteq> 0) ps) \<Longrightarrow> 0 \<le> sint p \<and> sint p < numblocks s"
  shows "mark_until_zero v ps s = Inr (set_bmap (marked (bmap s) (takeWhile (\<lambda>p. p \<noteq> 0) ps) v) s)"
  using assms
proof (induction ps arbitrary: s)
  case Nil
  then show ?case using geometryD(6) [OF Nil(1)] by simp
next
  case (Cons p ps)
  show ?case
  proof (cases "p = 0")
    case True
    then show ?thesis using geometryD(6) [OF Cons.prems(1)] by simp
  next
    case False
    let ?u = "set_bmap ((bmap s)[nat (sint p) := v]) s"
    have m: "mark_block (sint p) v s = Inr ?u" using mark_block_runs [OF Cons.prems(1)] Cons.prems(2) [of p] False by simp
    have "geometry ?u" using geometry_set_bmap [OF Cons.prems(1)] geometryD(7) [OF Cons.prems(1)] by simp
    then have "mark_until_zero v ps ?u = Inr (set_bmap (marked (bmap ?u) (takeWhile (\<lambda>p. p \<noteq> 0) ps) v) ?u)"
      by (rule Cons.IH) (use Cons.prems(2) False in auto)
    then show ?thesis using m False by simp
  qed
qed

lemma ptr_of_direct:
  assumes "p \<in> set (direct ino)" "length (direct ino) = 5"
  obtains q where "q \<in> slots" "ptr B ino q = sint p"
proof -
  obtain k where k: "k < 5" "direct ino ! k = p" using assms by (auto simp: in_set_conv_nth)
  then show thesis using that [of "int k"] by (auto simp: ptr_def slots_def)
qed

lemma ptr_of_indirect:
  assumes "p \<in> set (pointers_of (B (sint (indirect ino))))" "indirect ino \<noteq> 0"
  obtains q where "q \<in> slots" "ptr B ino q = sint p"
proof -
  obtain k where k: "k < 1024" "p = get_int (B (sint (indirect ino))) (int k)" using assms(1) by (auto simp: pointers_of_def)
  then show thesis using that [of "int k + 5"] assms(2) by (auto simp: ptr_def slots_def)
qed

lemma set_takeWhile_nonzero: "p \<in> set (takeWhile (\<lambda>p. p \<noteq> 0) ps) \<Longrightarrow> p \<in> set ps \<and> p \<noteq> 0"
  by (auto dest: set_takeWhileD)

text \<open>The cache does not look at the free map or the statistics.\<close>

lemma cache_inv_bmap:
  "cache_inv X (set_bmap bm s) = cache_inv X s" "table (set_bmap bm s) = table s" "cnodes (set_bmap bm s) = cnodes s"
  "handle i a (set_bmap bm s) = handle i a s" "room (set_bmap bm s) = room s" "reach (set_bmap bm s) = reach s"
proof -
  have d: "disk_inode (set_bmap bm s) = disk_inode s" by (intro ext) (simp add: disk_inode_def)
  show c: "cnodes (set_bmap bm s) = cnodes s" by (simp add: cnodes_def)
  show r: "reach (set_bmap bm s) = reach s" by (simp add: reach_def nib_def)
  show "cache_inv X (set_bmap bm s) = cache_inv X s" by (simp add: cache_inv_def node_ok_def d c r disk_ok_def nib_def)
  have h: "heap_inodes (set_bmap bm s) = heap_inodes s" by simp
  show "table (set_bmap bm s) = table s" by (intro ext) (simp only: table_def c d h)
  show "handle i a (set_bmap bm s) = handle i a s" by (simp add: handle_def c)
  show "room (set_bmap bm s) = room s" by (simp add: room_def)
qed

lemma cache_inv_reads:
  assumes "reads s u"
  shows "cache_inv X u = cache_inv X s" "table u = table s" "cnodes u = cnodes s" "handle i a u = handle i a s" "reach u = reach s"
proof -
  note e = readsD [OF assms]
  have d: "disk_inode u = disk_inode s" by (intro ext) (simp add: disk_inode_def e)
  show c: "cnodes u = cnodes s" by (simp add: cnodes_def e)
  show r: "reach u = reach s" by (simp add: reach_def nib_def e)
  show "cache_inv X u = cache_inv X s" by (simp add: cache_inv_def node_ok_def d c r disk_ok_def nib_def e)
  show "table u = table s" by (intro ext) (simp only: table_def c d e)
  show "handle i a u = handle i a s" by (simp add: handle_def c e)
qed

text \<open>A state reached by reading and by changing the free map.\<close>

definition remarked :: "int list \<Rightarrow> fs \<Rightarrow> fs \<Rightarrow> bool" where
  "remarked bm s u \<longleftrightarrow> length bm = nat (numblocks s) \<and> reads (set_bmap bm s) u"

lemma remarkedD:
  assumes "remarked bm s u"
  shows "length bm = nat (numblocks s)" "D u = D s" "nblocks (dev u) = nblocks (dev s)" "numblocks u = numblocks s"
    "numinodes u = numinodes s" "inode_freemap u = inode_freemap s" "the_cache u = the_cache s" "heap_inodes u = heap_inodes s"
    "bmap u = bm" "cache_inv X u = cache_inv X s" "table u = table s" "cnodes u = cnodes s" "handle i a u = handle i a s"
    "reach u = reach s" "geometry s \<Longrightarrow> geometry u"
proof -
  show len: "length bm = nat (numblocks s)" using assms by (simp add: remarked_def)
  have r: "reads (set_bmap bm s) u" using assms by (simp add: remarked_def)
  note e = readsD [OF r]
  show "D u = D s" "nblocks (dev u) = nblocks (dev s)" "numblocks u = numblocks s" "numinodes u = numinodes s"
    "inode_freemap u = inode_freemap s" "the_cache u = the_cache s" "heap_inodes u = heap_inodes s" "bmap u = bm"
    using e by (simp_all add: bmap_def)
  show "cache_inv X u = cache_inv X s" "table u = table s" "cnodes u = cnodes s" "handle i a u = handle i a s" "reach u = reach s"
    using cache_inv_reads [OF r] cache_inv_bmap by simp_all
  show "geometry u" if "geometry s"
  proof -
    have "geometry (set_bmap bm s)" using geometry_set_bmap [OF that len] .
    then show ?thesis by (rule geometry_cong) (use e in simp_all)
  qed
qed

lemma remarked_bmap: "remarked bm s u \<Longrightarrow> length bm' = length bm \<Longrightarrow> remarked bm' s (set_bmap bm' u)"
proof -
  assume "remarked bm s u" "length bm' = length bm"
  moreover from this obtain k where "u = (set_bmap bm s)\<lparr>dev := (dev s)\<lparr>nreads := k\<rparr>\<rparr>" by (auto simp: remarked_def reads_def)
  ultimately show "remarked bm' s (set_bmap bm' u)" by (auto simp: remarked_def reads_def intro: exI [of _ k])
qed

lemma remarked_reads: "remarked bm s u \<Longrightarrow> reads u v \<Longrightarrow> remarked bm s v"
  using reads_trans by (auto simp: remarked_def)

lemma remarked_self: "geometry s \<Longrightarrow> remarked (bmap s) s s"
proof -
  assume g: "geometry s"
  have "set_bmap (bmap s) s = s" using geometryD(6) [OF g] by simp
  then show ?thesis using geometryD(7) [OF g] by (simp add: remarked_def)
qed

lemma mark_list_runs:
  assumes g: "geometry s" and r: "remarked bm s u" and ps: "\<And>p. p \<in> set ps \<Longrightarrow> p \<noteq> 0 \<Longrightarrow> data_block (numblocks s) (sint p)"
  shows "runs (mark_until_zero v ps u) (\<lambda>w. \<exists>bm'. remarked bm' s w \<and>
    (\<forall>x. (\<forall>p \<in> set ps. p \<noteq> 0 \<longrightarrow> nat (sint p) \<noteq> x) \<and> x < length bm \<longrightarrow> bm' ! x = bm ! x))"
proof -
  let ?ps = "takeWhile (\<lambda>p. p \<noteq> 0) ps"
  have range: "0 \<le> sint p \<and> sint p < numblocks u" if "p \<in> set ?ps" for p
    using set_takeWhile_nonzero [OF that] ps [of p] data_block_range [OF g, of "sint p"] remarkedD(4) [OF r] by auto
  have "mark_until_zero v ps u = Inr (set_bmap (marked bm ?ps v) u)"
    using mark_until_zero_runs [OF remarkedD(15) [OF r g] range] remarkedD(9) [OF r] by simp
  moreover have "remarked (marked bm ?ps v) s (set_bmap (marked bm ?ps v) u)" by (rule remarked_bmap [OF r]) simp
  moreover have "marked bm ?ps v ! x = bm ! x" if "\<forall>p \<in> set ps. p \<noteq> 0 \<longrightarrow> nat (sint p) \<noteq> x" "x < length bm" for x
    using that set_takeWhile_nonzero by (auto simp: nth_marked)
  ultimately show ?thesis by auto
qed

text \<open>Freeing the blocks of a file leaves all other marks.\<close>

lemma free_blocks_runs:
  assumes g: "geometry s" and len: "length (direct ino) = 5"
    and ptrs: "\<And>q. q \<in> slots \<Longrightarrow> ptr (D s) ino q \<noteq> 0 \<Longrightarrow> data_block (numblocks s) (ptr (D s) ino q)"
  shows "runs (bindE (mark_until_zero 0 (direct ino) s) (\<lambda>s.
      if indirect ino \<noteq> 0 then
        bindE (read_block (sint (indirect ino)) s) (\<lambda>(x, s).
        bindE (mark_until_zero 0 (pointers_of x) s) (mark_block (sint (indirect ino)) 0))
      else Inr s))
    (\<lambda>u. \<exists>bm. remarked bm s u \<and>
      (\<forall>b. data_block (numblocks s) b \<and> (\<forall>q \<in> slots. ptr (D s) ino q \<noteq> 0 \<longrightarrow> ptr (D s) ino q \<noteq> b) \<longrightarrow> bm ! nat b = bmap s ! nat b))"
proof -
  have nat_eq: "nat x \<noteq> nat b" if "data_block (numblocks s) x" "data_block (numblocks s) b" "x \<noteq> b" for x b
    using that(3) data_block_range(1) [OF g that(1)] data_block_range(1) [OF g that(2)] by simp
  have lt: "nat b < nat (numblocks s)" if "data_block (numblocks s) b" for b using data_block_range [OF g that] by simp
  have dp: "data_block (numblocks s) (sint p)" if "p \<in> set (direct ino)" "p \<noteq> 0" for p
  proof -
    note p = that
    obtain q where "q \<in> slots" "ptr (D s) ino q = sint p" using ptr_of_direct [OF p(1) len] by metis
    then show ?thesis using ptrs [of q] p(2) by simp
  qed
  obtain u1 bm1 where u1: "mark_until_zero 0 (direct ino) s = Inr u1" "remarked bm1 s u1"
      "\<forall>x. (\<forall>p \<in> set (direct ino). p \<noteq> 0 \<longrightarrow> nat (sint p) \<noteq> x) \<and> x < length (bmap s) \<longrightarrow> bm1 ! x = bmap s ! x"
    using mark_list_runs [where v = 0 and ps = "direct ino", OF g remarked_self [OF g] dp] by (auto simp: runs_iff)
  have k1: "bm1 ! nat b = bmap s ! nat b"
    if b: "data_block (numblocks s) b" "\<forall>q \<in> slots. ptr (D s) ino q \<noteq> 0 \<longrightarrow> ptr (D s) ino q \<noteq> b" for b
  proof (rule u1(3) [rule_format], rule conjI)
    show "\<forall>p \<in> set (direct ino). p \<noteq> 0 \<longrightarrow> nat (sint p) \<noteq> nat b"
    proof (intro ballI impI)
      fix p assume p: "p \<in> set (direct ino)" "p \<noteq> 0"
      obtain q where "q \<in> slots" "ptr (D s) ino q = sint p" using ptr_of_direct [OF p(1) len] by metis
      then have "sint p \<noteq> b" using b(2) p(2) by auto
      then show "nat (sint p) \<noteq> nat b" by (rule nat_eq [OF dp [OF p] b(1)])
    qed
    show "nat b < length (bmap s)" using lt [OF b(1)] geometryD(7) [OF g] by simp
  qed
  show ?thesis
  proof (cases "indirect ino = 0")
    case True
    then show ?thesis using u1 k1 by auto
  next
    case False
    let ?ib = "sint (indirect ino)"
    have ibd: "data_block (numblocks s) ?ib" using ptrs [of "-1"] False by (simp add: ptr_indirect_block slots_def)
    note ibb = data_block_range [OF g ibd] and g1 = remarkedD(15) [OF u1(2) g]
    obtain u2 where u2: "read_block ?ib u1 = Inr (D s ?ib, u2)" "reads u1 u2"
      using read_block_runs [OF g1, of ?ib] ibb remarkedD(2,4) [OF u1(2)] by (auto simp: runs_iff)
    note r2 = remarked_reads [OF u1(2) u2(2)]
    have ip: "data_block (numblocks s) (sint p)" if "p \<in> set (pointers_of (D s ?ib))" "p \<noteq> 0" for p
    proof -
      note p = that
      obtain q where "q \<in> slots" "ptr (D s) ino q = sint p" using ptr_of_indirect [where B = "D s", OF p(1) False] by metis
      then show ?thesis using ptrs [of q] p(2) by simp
    qed
    obtain u3 bm3 where u3: "mark_until_zero 0 (pointers_of (D s ?ib)) u2 = Inr u3" "remarked bm3 s u3"
        "\<forall>x. (\<forall>p \<in> set (pointers_of (D s ?ib)). p \<noteq> 0 \<longrightarrow> nat (sint p) \<noteq> x) \<and> x < length bm1 \<longrightarrow> bm3 ! x = bm1 ! x"
      using mark_list_runs [where v = 0 and ps = "pointers_of (D s ?ib)", OF g r2 ip] by (auto simp: runs_iff)
    let ?bm = "bm3[nat ?ib := 0]"
    have m: "mark_block ?ib 0 u3 = Inr (set_bmap ?bm u3)"
      using mark_block_runs [OF remarkedD(15) [OF u3(2) g], of ?ib 0] ibb remarkedD(4,9) [OF u3(2)] by simp
    have r4: "remarked ?bm s (set_bmap ?bm u3)" by (rule remarked_bmap [OF u3(2)]) simp
    have k: "?bm ! nat b = bmap s ! nat b"
      if b: "data_block (numblocks s) b" "\<forall>q \<in> slots. ptr (D s) ino q \<noteq> 0 \<longrightarrow> ptr (D s) ino q \<noteq> b" for b
    proof -
      have "?ib \<noteq> b" using b(2) [rule_format, of "-1"] False by (simp add: ptr_indirect_block slots_def)
      then have "nat ?ib \<noteq> nat b" by (rule nat_eq [OF ibd b(1)])
      moreover have "bm3 ! nat b = bm1 ! nat b"
      proof (rule u3(3) [rule_format], rule conjI)
        show "\<forall>p \<in> set (pointers_of (D s ?ib)). p \<noteq> 0 \<longrightarrow> nat (sint p) \<noteq> nat b"
        proof (intro ballI impI)
          fix p assume p: "p \<in> set (pointers_of (D s ?ib))" "p \<noteq> 0"
          obtain q where "q \<in> slots" "ptr (D s) ino q = sint p" using ptr_of_indirect [where B = "D s", OF p(1) False] by metis
          then have "sint p \<noteq> b" using b(2) p(2) by auto
          then show "nat (sint p) \<noteq> nat b" by (rule nat_eq [OF ip [OF p] b(1)])
        qed
        show "nat b < length bm1" using lt [OF b(1)] remarkedD(1) [OF u1(2)] by simp
      qed
      ultimately show ?thesis using k1 [OF b] by simp
    qed
    show ?thesis using u1(1) u2(1) u3(1) m False r4 k by auto
  qed
qed

lemma fs_delete_unfold:
  assumes "is_mounted s" "get_inode i s = Inr (Some a, u)" "heap_inodes u a = Some ino" "isvalid ino \<noteq> 0"
  shows "fs_delete i s = bindE (bindE (mark_until_zero 0 (direct ino) u) (\<lambda>s.
      if indirect ino \<noteq> 0 then
        bindE (read_block (sint (indirect ino)) s) (\<lambda>(x, s).
        bindE (mark_until_zero 0 (pointers_of x) s) (mark_block (sint (indirect ino)) 0))
      else Inr s)) (\<lambda>s. bindE (remove_if_present i a s) (\<lambda>(ok, s).
        if \<not> ok then Inr (0, s) else bindE (mark_inode i 0 s) (\<lambda>s. Inr (1, s))))"
  using assms by (simp add: fs_delete_def inode_ptr_def bindE_assoc)

theorem fs_delete_runs:
  assumes inv: "fs_inv s" and room: "room s" and f: "file_at s i = Some (sz, f)"
  shows "runs (fs_delete i s) (\<lambda>(r, u). r = 1 \<and> fs_inv u \<and> file_at u = (file_at s)(i := None) \<and>
    i \<notin> n_inumber ` set (cnodes u) \<and> mount_of u = mount_of s \<and>
    (map_option capacity (the_cache s) = Some 1 \<longrightarrow> cnodes u = [] \<and> map_option current_size (the_cache u) = Some 1))"
proof -
  note fd = file_atD [OF inv f] and s = fs_invD [OF inv]
  let ?ino = "table s i"
  obtain a u where g: "get_inode i s = Inr (Some a, u)" "cache_inv {} u" "room u" "table u = table s"
      "heap_inodes u a = Some ?ino" "handle i a u" "only_inodes s u"
    using get_inode_runs [OF s(5) fd(3) room] by (auto simp: runs_iff)
  note fu = fs_inv_frame [OF inv g(7,2,4)]
  note du = file_atD [OF fu(1)] and u = fs_invD [OF fu(1)]
  have fi: "file_at u i = Some (sz, f)" using f fu(2) by simp
  note i = du(1,2,3) [OF fi]
  have len: "length (direct ?ino) = 5" by (rule inodes_okD(1) [OF s(6) fd(1,2)])
  have ptrs: "data_block (numblocks u) (ptr (D u) ?ino q)" if "q \<in> slots" "ptr (D u) ?ino q \<noteq> 0" for q
    using pointers_okD(1) [OF u(7) i(1,2) that(1)] that(2) g(4) by simp
  from free_blocks_runs [OF u(1) len ptrs] obtain v bm where
    free: "bindE (mark_until_zero 0 (direct ?ino) u) (\<lambda>s.
      if indirect ?ino \<noteq> 0 then
        bindE (read_block (sint (indirect ?ino)) s) (\<lambda>(x, s).
        bindE (mark_until_zero 0 (pointers_of x) s) (mark_block (sint (indirect ?ino)) 0))
      else Inr s) = Inr v" and v: "remarked bm u v"
    and bm: "\<And>b. data_block (numblocks u) b \<Longrightarrow> (\<And>q. q \<in> slots \<Longrightarrow> ptr (D u) ?ino q \<noteq> 0 \<Longrightarrow> ptr (D u) ?ino q \<noteq> b) \<Longrightarrow>
        bm ! nat b = bmap u ! nat b"
    by (auto simp: runs_iff)
  note e = remarkedD [OF v]
  obtain w where w: "remove_if_present i a v = Inr (True, w)" "cache_inv {} w" "table w = (table v)(i := empty_inode)"
      "i \<notin> n_inumber ` set (cnodes w)" "only_inodes v w"
      "set (cnodes w) \<subseteq> set (cnodes v)" "map_option current_size (the_cache w) = map_option current_size (the_cache v)"
    using remove_if_present_runs [of v i a ?ino] g(2,5,6) i(3) e by (auto simp: runs_iff)
  have ow: "numblocks w = numblocks u" "numinodes w = numinodes u" "inode_freemap w = inode_freemap u" "block_freemap w = Some bm"
    using w(5) e geometryD(6) [OF e(15) [OF u(1)]] by (simp_all add: only_inodes_def)
  let ?w = "set_bmap (bmap u) w"
  let ?x = "w\<lparr>inode_freemap := Some ((the (inode_freemap u))[nat i := 0])\<rparr>"
  have ci: "nib v = nib u" using e by (simp add: nib_def)
  have owu: "only_inodes u ?w"
    using w(5) e(2-7) ci geometryD(6) [OF u(1)] by (simp add: only_inodes_def)
  have x: "?x = ?w\<lparr>block_freemap := Some bm, inode_freemap := Some ((the (inode_freemap u))[nat i := 0])\<rparr>"
    using ow(4) by simp
  have others: "bm ! nat (ptr (D u) (table u j) q) \<noteq> 0"
    if "0 \<le> j" "j < numinodes u" "j \<noteq> i" "q \<in> slots" "ptr (D u) (table u j) q \<noteq> 0" for j q
  proof -
    note p = pointers_okD [OF u(7) that(1,2,4,5)]
    have "ptr (D u) ?ino r \<noteq> ptr (D u) (table u j) q" if "r \<in> slots" "ptr (D u) ?ino r \<noteq> 0" for r
      using p(3) [OF i(1,2) that(1)] \<open>j \<noteq> i\<close> g(4) by auto
    from bm [OF p(1) this] show ?thesis using p(2) by simp
  qed
  have cw: "cache_inv {} ?w" "table ?w = (table u)(i := empty_inode)"
    using w(2,3) e(11) cache_inv_bmap by simp_all
  have up: "fs_inv ?x" "file_at ?x = (file_at u)(i := if (0::int) = 0 then None else Some (0, \<lambda>_. None))"
    by (rule fs_inv_update [OF fu(1) owu cw i _ _ _ _ _ e(1) others x];
      use ptr_new_inode [of _ _ 0] in \<open>simp add: empty_inode_def\<close>)+
  have mi: "mark_inode i 0 w = Inr ?x"
    using inode_map(2) [OF fu(1) i(1,2), of 0] u(3,4) i ow(3) by (auto simp: mark_inode_def arr_set_def vec_set_def)
  have "fs_delete i s = Inr (1, ?x)"
    using fs_delete_unfold [OF s(10) g(1,5)] free w(1) mi fd(5) by simp
  moreover have "cnodes ?x = cnodes w" by (simp add: cnodes_def)
  moreover have "mount_of ?x = mount_of s"
    using w(5) e(4,7) g(7) by (simp add: only_inodes_def mount_of_def)
  moreover have "cnodes w = [] \<and> map_option current_size (the_cache w) = Some 1" if one: "map_option capacity (the_cache s) = Some 1"
  proof -
    obtain c where c: "the_cache u = Some c" "list_ok c" "cnodes u = nodes c" using g(2) by (elim cache_invE) blast
    have cap: "capacity c = 1" using one g(7) c(1) by (auto simp: only_inodes_def)
    then obtain n where n: "n \<in> set (nodes c)" "n_inumber n = i" using g(6) c(1,3) by (auto simp: handle_def)
    have l: "length (nodes c) \<le> 1" "int (length (nodes c)) \<le> current_size c" "current_size c \<le> 1"
      using c(2) cap by (simp_all add: list_ok_def)
    then have nc: "nodes c = [n]" using n(1) by (cases "nodes c") (auto simp: Suc_le_eq)
    then have "set (cnodes w) \<subseteq> {n}" using w(6) e(12) c(3) by simp
    then have "cnodes w = []" using w(4) n(2) by (cases "cnodes w") auto
    moreover have "current_size c = 1" using l nc by simp
    ultimately show ?thesis using w(7) e(7) c(1) by simp
  qed
  ultimately show ?thesis using up w(4) fu(2) by simp
qed

text \<open>Deleting what is not there.\<close>

theorem fs_delete_missing:
  assumes inv: "fs_inv s" and room: "room s" and i: "i \<in> reach s" and f: "file_at s i = None"
  shows "runs (fs_delete i s) (\<lambda>(r, u). r = 0 \<and> fs_inv u \<and> room u \<and> mount_of u = mount_of s \<and> file_at u = file_at s)"
proof -
  note s = fs_invD [OF inv]
  obtain a u where g: "get_inode i s = Inr (Some a, u)" "cache_inv {} u" "room u" "table u = table s"
      "heap_inodes u a = Some (table s i)" "only_inodes s u"
    using get_inode_runs [OF s(5) i room] by (auto simp: runs_iff)
  have "0 \<le> i" "i < numinodes s"
    using reachD(1,2) [OF i] div_below [of 128 i "nib s"] s(2,8) by (simp_all add: mult.commute add.commute)
  then have "isvalid (table s i) = 0" using f by (auto simp: file_at_def split: if_splits)
  then show ?thesis
    using g fs_inv_frame [OF inv g(6,2,4)] s(10) mount_of_simps(1) [OF g(6)] by (simp add: fs_delete_def inode_ptr_def)
qed

end
