(* ===== verification/FsMount.thy ===== *)
theory FsMount
  imports FsCalls
begin

text \<open>
  Formatting, mounting and unmounting.  \<open>disk_inv\<close> says that the disk alone, without cache and
  maps, holds a file system; \<open>dense\<close> that no file on it has a hole among its pointers,
  because mounting stops at the first pointer that is 0.
\<close>

section \<open>What mounting marks\<close>

definition nonzero :: "i32 list \<Rightarrow> i32 list" where
  "nonzero ps = takeWhile (\<lambda>p. p \<noteq> 0) ps"

definition seen :: "(int \<Rightarrow> block) \<Rightarrow> fs_inode \<Rightarrow> int set" where
  "seen B ino = sint ` set (nonzero (direct ino)) \<union>
     (if indirect ino = 0 then {} else insert (sint (indirect ino)) (sint ` set (nonzero (pointers_of (B (sint (indirect ino)))))))"

definition valid_on_disk :: "fs \<Rightarrow> int \<Rightarrow> bool" where
  "valid_on_disk s j \<longleftrightarrow> isvalid (disk_inode s j) \<noteq> 0"

text \<open>A state while mounting, with the blocks \<open>M\<close> and the inodes \<open>I\<close> marked so far.\<close>

definition mounting :: "fs \<Rightarrow> int \<Rightarrow> int set \<Rightarrow> int set \<Rightarrow> fs \<Rightarrow> bool" where
  "mounting s cap M I u \<longleftrightarrow> geometry u \<and> D u = D s \<and> nblocks (dev u) = nblocks (dev s) \<and> numinodes u = 128 * (1 + numblocks u div 10) \<and>
     the_cache u = Some (new_cache cap) \<and> heap_inodes u = heap_inodes s \<and> next_inode u = next_inode s \<and>
     (\<exists>im. inode_freemap u = Some im \<and> length im = nat (numinodes u)) \<and>
     (\<forall>b. 0 \<le> b \<and> b < numblocks u \<longrightarrow> (bmap u ! nat b \<noteq> 0 \<longleftrightarrow> b \<in> M)) \<and>
     (\<forall>j. 0 \<le> j \<and> j < numinodes u \<longrightarrow> (used u j \<longleftrightarrow> j \<in> I))"

lemma mountingD:
  assumes "mounting s cap M I u"
  shows "geometry u" "D u = D s" "nblocks (dev u) = nblocks (dev s)" "numblocks u = nblocks (dev s)"
    "numinodes u = 128 * (1 + nblocks (dev s) div 10)"
    "the_cache u = Some (new_cache cap)" "heap_inodes u = heap_inodes s" "next_inode u = next_inode s"
    "inode_freemap u \<noteq> None" "length (the (inode_freemap u)) = nat (numinodes u)"
    "\<And>b. 0 \<le> b \<Longrightarrow> b < numblocks u \<Longrightarrow> bmap u ! nat b \<noteq> 0 \<longleftrightarrow> b \<in> M"
    "\<And>j. 0 \<le> j \<Longrightarrow> j < numinodes u \<Longrightarrow> used u j \<longleftrightarrow> j \<in> I"
  using assms geometryD(1) [of u] by (auto simp: mounting_def)

lemma mounting_reads:
  assumes "mounting s cap M I u" "reads u v"
  shows "mounting s cap M I v"
proof -
  note e = readsD [OF assms(2)]
  have "geometry v" by (rule geometry_cong [OF mountingD(1) [OF assms(1)]]) (use e in simp_all)
  then show ?thesis using assms(1) e by (auto simp: mounting_def bmap_def used_def)
qed

lemma mounting_set_bmap:
  assumes m: "mounting s cap M I u" and len: "length bm = nat (numblocks u)"
    and bm: "\<And>b. 0 \<le> b \<Longrightarrow> b < numblocks u \<Longrightarrow> bm ! nat b \<noteq> 0 \<longleftrightarrow> b \<in> M'"
  shows "mounting s cap M' I (set_bmap bm u)"
  using geometry_set_bmap [OF mountingD(1) [OF m] len] m bm by (auto simp: mounting_def used_def)

lemma mount_mark:
  assumes m: "mounting s cap M I u" and b: "0 \<le> b" "b < nblocks (dev s)"
  shows "runs (mark_block b 1 u) (mounting s cap (insert b M) I)"
proof -
  note e = mountingD [OF m]
  have "mounting s cap (insert b M) I (set_bmap ((bmap u)[nat b := 1]) u)"
    by (rule mounting_set_bmap [OF m]) (use b e(4,11) geometryD(7) [OF e(1)] in \<open>auto simp: nth_list_update\<close>)
  then show ?thesis using mark_block_runs [OF e(1), of b 1] b e(4) by simp
qed

lemma mount_marks:
  assumes m: "mounting s cap M I u" and b: "\<And>p. p \<in> set (nonzero ps) \<Longrightarrow> 0 \<le> sint p \<and> sint p < nblocks (dev s)"
  shows "runs (mark_until_zero 1 ps u) (mounting s cap (M \<union> sint ` set (nonzero ps)) I)"
proof -
  note e = mountingD [OF m]
  have "mounting s cap (M \<union> sint ` set (nonzero ps)) I (set_bmap (marked (bmap u) (nonzero ps) 1) u)"
  proof (rule mounting_set_bmap [OF m])
    fix x assume x: "0 \<le> x" "x < numblocks u"
    have "nat x \<in> (\<lambda>p. nat (sint p)) ` set (nonzero ps) \<longleftrightarrow> x \<in> sint ` set (nonzero ps)"
    proof
      assume "nat x \<in> (\<lambda>p. nat (sint p)) ` set (nonzero ps)"
      then obtain p where p: "p \<in> set (nonzero ps)" "nat x = nat (sint p)" by auto
      then have "x = sint p" using eq_nat_nat_iff [OF x(1), of "sint p"] b [OF p(1)] by blast
      then show "x \<in> sint ` set (nonzero ps)" using p(1) by simp
    qed auto
    moreover have "nat x < length (bmap u)" using x geometryD(7) [OF e(1)] by simp
    ultimately show "marked (bmap u) (nonzero ps) 1 ! nat x \<noteq> 0 \<longleftrightarrow> x \<in> M \<union> sint ` set (nonzero ps)"
      using e(11) [OF x] by (simp add: nth_marked)
  qed (use geometryD(7) [OF e(1)] in simp)
  moreover have "mark_until_zero 1 ps u = Inr (set_bmap (marked (bmap u) (nonzero ps) 1) u)"
    unfolding nonzero_def by (rule mark_until_zero_runs [OF e(1)]) (use b e(4) in \<open>simp add: nonzero_def\<close>)
  ultimately show ?thesis by simp
qed

lemma mount_mark_inode:
  assumes m: "mounting s cap M I u" and j: "0 \<le> j" "j < numinodes u"
  shows "runs (mark_inode j 1 u) (mounting s cap M (insert j I))"
proof -
  note e = mountingD [OF m]
  let ?v = "u\<lparr>inode_freemap := Some ((the (inode_freemap u))[nat j := 1])\<rparr>"
  have "geometry ?v" by (rule geometry_cong [OF e(1)]) simp_all
  moreover have "used ?v k \<longleftrightarrow> k \<in> insert j I" if "0 \<le> k" "k < numinodes u" for k
    using that e(10,12) j by (auto simp: used_def nth_list_update nat_eq_iff2)
  ultimately have "mounting s cap M (insert j I) ?v" using m by (auto simp: mounting_def bmap_def)
  moreover have "mark_inode j 1 u = Inr ?v" using e(9,10) j by (auto simp: mark_inode_def arr_set_def vec_set_def)
  ultimately show ?thesis by simp
qed

theorem mount_inode_runs:
  assumes m: "mounting s cap M I u" and j: "0 \<le> j" "j < 128 * (1 + nblocks (dev s) div 10)"
    and b: "isvalid ino \<noteq> 0 \<Longrightarrow> \<forall>b \<in> seen (D s) ino. 0 \<le> b \<and> b < nblocks (dev s)"
  shows "runs (mount_inode j ino u) (mounting s cap (M \<union> (if isvalid ino = 0 then {} else seen (D s) ino)) (if isvalid ino = 0 then I else insert j I))"
proof (cases "isvalid ino = 0")
  case True
  then show ?thesis using m by (simp add: mount_inode_def)
next
  case False
  note b = b [OF False]
  obtain u1 where u1: "mark_inode j 1 u = Inr u1" "mounting s cap M (insert j I) u1"
    using mount_mark_inode [OF m j(1)] j(2) mountingD(5) [OF m] by (auto simp: runs_iff)
  obtain u2 where u2: "mark_until_zero 1 (direct ino) u1 = Inr u2" "mounting s cap (M \<union> sint ` set (nonzero (direct ino))) (insert j I) u2"
    using mount_marks [OF u1(2), of "direct ino"] b by (auto simp: runs_iff seen_def)
  show ?thesis
  proof (cases "indirect ino = 0")
    case True
    then show ?thesis using False u1(1) u2 by (simp add: mount_inode_def seen_def)
  next
    case ind: False
    let ?ib = "sint (indirect ino)"
    have ib: "0 \<le> ?ib" "?ib < nblocks (dev s)" using b ind by (simp_all add: seen_def)
    obtain u3 where u3: "mark_block ?ib 1 u2 = Inr u3" "mounting s cap (insert ?ib (M \<union> sint ` set (nonzero (direct ino)))) (insert j I) u3"
      using mount_mark [OF u2(2) ib] by (auto simp: runs_iff)
    note e3 = mountingD [OF u3(2)]
    obtain u4 where u4: "read_block ?ib u3 = Inr (D s ?ib, u4)" "reads u3 u4"
      using read_block_runs [OF e3(1), of ?ib] ib e3(2,4) by (auto simp: runs_iff)
    note m4 = mounting_reads [OF u3(2) u4(2)]
    have "runs (mark_until_zero 1 (pointers_of (D s ?ib)) u4) (mounting s cap
        (insert ?ib (M \<union> sint ` set (nonzero (direct ino))) \<union> sint ` set (nonzero (pointers_of (D s ?ib)))) (insert j I))"
      by (rule mount_marks [OF m4]) (use b ind in \<open>auto simp: seen_def\<close>)
    moreover have "insert ?ib (M \<union> sint ` set (nonzero (direct ino))) \<union> sint ` set (nonzero (pointers_of (D s ?ib))) = M \<union> seen (D s) ino"
      using ind by (auto simp: seen_def)
    ultimately show ?thesis using False ind u1(1) u2(1) u3(1) u4(1) by (simp add: mount_inode_def)
  qed
qed

section \<open>Mounting\<close>

definition seen_upto :: "fs \<Rightarrow> int \<Rightarrow> int set" where
  "seen_upto s k = (\<Union>j \<in> {j. 0 \<le> j \<and> j < k \<and> valid_on_disk s j}. seen (D s) (disk_inode s j))"

definition valid_upto :: "fs \<Rightarrow> int \<Rightarrow> int set" where
  "valid_upto s k = {j. 0 \<le> j \<and> j < k \<and> valid_on_disk s j}"

lemma upto_Suc:
  assumes "0 \<le> k"
  shows "seen_upto s (k + 1) = seen_upto s k \<union> (if isvalid (disk_inode s k) = 0 then {} else seen (D s) (disk_inode s k))"
    "valid_upto s (k + 1) = (if isvalid (disk_inode s k) = 0 then valid_upto s k else insert k (valid_upto s k))"
proof -
  have "{j. 0 \<le> j \<and> j < k + 1 \<and> valid_on_disk s j} =
      (if isvalid (disk_inode s k) = 0 then {j. 0 \<le> j \<and> j < k \<and> valid_on_disk s j} else insert k {j. 0 \<le> j \<and> j < k \<and> valid_on_disk s j})"
    using assms by (auto simp: valid_on_disk_def order_le_less)
  then show "seen_upto s (k + 1) = seen_upto s k \<union> (if isvalid (disk_inode s k) = 0 then {} else seen (D s) (disk_inode s k))"
    "valid_upto s (k + 1) = (if isvalid (disk_inode s k) = 0 then valid_upto s k else insert k (valid_upto s k))"
    unfolding seen_upto_def valid_upto_def by auto
qed

lemma upto_0 [simp]: "seen_upto s 0 = {}" "valid_upto s 0 = {}"
  by (auto simp: seen_upto_def valid_upto_def)

text \<open>What mounting needs of the disk.\<close>

definition mountable :: "fs \<Rightarrow> bool" where
  "mountable s \<longleftrightarrow> 2 + nblocks (dev s) div 10 \<le> nblocks (dev s) \<and> nblocks (dev s) * DISK_BLOCK_SIZE \<le> INT_MAX \<and>
     get_super (D s 0) = layout (nblocks (dev s)) \<and>
     (\<forall>b \<in> seen_upto s (128 * (1 + nblocks (dev s) div 10)). 0 \<le> b \<and> b < nblocks (dev s))"

lemma layout_sint:
  assumes "2 + n div 10 \<le> n" "n * DISK_BLOCK_SIZE \<le> INT_MAX"
  shows "sint (sb_nblocks (layout n)) = n" "sint (ninodeblocks (layout n)) = 1 + n div 10"
    "sint (ninodes (layout n)) = 128 * (1 + n div 10)" "2 \<le> n"
proof -
  have n: "2 \<le> n" "n \<le> 524287" using assms by (auto simp: DISK_BLOCK_SIZE_def INT_MAX_def)
  then have d: "0 \<le> n div 10" "n div 10 \<le> n" by (auto simp: pos_imp_zdiv_nonneg_iff)
  show "sint (sb_nblocks (layout n)) = n" using n sint_small [of n] by (simp add: layout_def INT_MAX_def)
  show "sint (ninodeblocks (layout n)) = 1 + n div 10"
    using n d sint_small [of "1 + n div 10"] by (simp add: layout_def INT_MAX_def)
  show "sint (ninodes (layout n)) = 128 * (1 + n div 10)"
    using n d sint_small [of "128 * (1 + n div 10)"] by (simp add: layout_def INT_MAX_def)
  show "2 \<le> n" by (rule n(1))
qed

lemma mount_inode_block_runs:
  assumes m: "mountable s" and i: "int i < 1 + nblocks (dev s) div 10"
    and u: "mounting s cap ({0..int i} \<union> seen_upto s (128 * int i)) (valid_upto s (128 * int i)) u"
  shows "runs (mount_inode_block (layout (nblocks (dev s))) i u)
    (mounting s cap ({0..int (Suc i)} \<union> seen_upto s (128 * int (Suc i))) (valid_upto s (128 * int (Suc i))))"
proof -
  let ?n = "nblocks (dev s)" and ?B = "int i + 1"
  have g: "2 + ?n div 10 \<le> ?n" "?n * DISK_BLOCK_SIZE \<le> INT_MAX" using m by (simp_all add: mountable_def)
  have B: "0 \<le> ?B" "?B < ?n" using i g(1) by auto
  note e = mountingD [OF u]
  obtain u1 where u1: "read_block ?B u = Inr (D s ?B, u1)" "reads u u1"
    using read_block_runs [OF e(1), of ?B] B e(2,4) by (auto simp: runs_iff)
  obtain u2 where u2: "mark_block ?B 1 u1 = Inr u2"
      "mounting s cap (insert ?B ({0..int i} \<union> seen_upto s (128 * int i))) (valid_upto s (128 * int i)) u2"
    using mount_mark [OF mounting_reads [OF u u1(2)] B] by (auto simp: runs_iff)
  have M0: "insert ?B ({0..int i} \<union> seen_upto s (128 * int i)) = {0..?B} \<union> seen_upto s (128 * int i)" by auto
  have loop: "runs (foldE (\<lambda>j s'. mount_inode (int j + int i * 128) (get_inode_at (D s ?B) (int j)) s') [0..<128] u2)
      (mounting s cap ({0..?B} \<union> seen_upto s (128 * int i + int 128)) (valid_upto s (128 * int i + int 128)))"
  proof (rule runs_foldE_upto [where I = "\<lambda>j. mounting s cap ({0..?B} \<union> seen_upto s (128 * int i + int j)) (valid_upto s (128 * int i + int j))"])
    show "mounting s cap ({0..?B} \<union> seen_upto s (128 * int i + int 0)) (valid_upto s (128 * int i + int 0)) u2" using u2(2) M0 by simp
  next
    fix j v assume j: "j < 128" and v: "mounting s cap ({0..?B} \<union> seen_upto s (128 * int i + int j)) (valid_upto s (128 * int i + int j)) v"
    let ?k = "128 * int i + int j"
    have k: "0 \<le> ?k" "int j + int i * 128 = ?k" by simp_all
    have "?k div 128 = int i" "?k mod 128 = int j" using block_offset [of "int j" 128 "int i"] j by (simp_all add: mult.commute)
    then have d: "get_inode_at (D s ?B) (int j) = disk_inode s ?k" by (simp add: disk_inode_def add.commute)
    have kn: "?k < 128 * (1 + ?n div 10)"
    proof -
      have "?k < 128 * (int i + 1)" using j by simp
      also have "\<dots> \<le> 128 * (1 + ?n div 10)" by (rule mult_left_mono) (use i in simp_all)
      finally show ?thesis .
    qed
    have "\<forall>b \<in> seen (D s) (disk_inode s ?k). 0 \<le> b \<and> b < ?n" if "isvalid (disk_inode s ?k) \<noteq> 0"
    proof -
      have "seen (D s) (disk_inode s ?k) \<subseteq> seen_upto s (128 * (1 + ?n div 10))"
        unfolding seen_upto_def by (rule UN_upper) (use that k(1) kn in \<open>simp add: valid_on_disk_def\<close>)
      then show ?thesis using m by (auto simp: mountable_def)
    qed
    from mount_inode_runs [OF v k(1) kn this]
    show "runs (mount_inode (int j + int i * 128) (get_inode_at (D s ?B) (int j)) v)
        (mounting s cap ({0..?B} \<union> seen_upto s (128 * int i + int (Suc j))) (valid_upto s (128 * int i + int (Suc j))))"
      using upto_Suc [OF k(1), of s] unfolding d k(2) by (simp add: add.assoc add.commute [of 1] Un_assoc)
  qed
  have a: "assertE (?B < sint (sb_nblocks (layout ?n))) = Inr ()" using layout_sint(1) [OF g] B by simp
  have k: "128 * int i + int 128 = 128 * int (Suc i)" "int (Suc i) = ?B" by simp_all
  show ?thesis
    using loop a u1(1) u2(1) by (simp only: mount_inode_block_def INODES_PER_BLOCK_def bindE_simps prod.case k)
qed

theorem fs_mount_marks:
  assumes m: "mountable s"
  shows "runs (fs_mount cap s) (\<lambda>(r, u). r = 1 \<and>
    mounting s cap ({0..1 + nblocks (dev s) div 10} \<union> seen_upto s (128 * (1 + nblocks (dev s) div 10)))
      (valid_upto s (128 * (1 + nblocks (dev s) div 10))) u)"
proof -
  let ?n = "nblocks (dev s)"
  let ?ib = "1 + ?n div 10"
  have g: "2 + ?n div 10 \<le> ?n" "?n * DISK_BLOCK_SIZE \<le> INT_MAX" and sb: "get_super (D s 0) = layout ?n" using m by (simp_all add: mountable_def)
  note l = layout_sint [OF g]
  have d: "0 \<le> ?n div 10" using l(4) by (simp add: pos_imp_zdiv_nonneg_iff)
  have "disk_read 0 (dev s) = Inr (D s 0, (dev s)\<lparr>nreads := nreads (dev s) + 1\<rparr>)"
    by (rule disk_read_ok) (use l(4) g in auto)
  then have r: "read_block 0 s = Inr (D s 0, s\<lparr>dev := (dev s)\<lparr>nreads := nreads (dev s) + 1\<rparr>\<rparr>)" by (simp add: read_block_def)
  define u where "u = s\<lparr>dev := (dev s)\<lparr>nreads := nreads (dev s) + 1\<rparr>, numblocks := ?n, numinodes := 128 * ?ib,
      block_freemap := Some (replicate (nat ?n) 0), inode_freemap := Some (replicate (nat (128 * ?ib)) 0)\<rparr>"
  let ?u1 = "set_bmap ((replicate (nat ?n) 0)[0 := 1]) u"
  let ?u2 = "?u1\<lparr>the_cache := Some (new_cache cap)\<rparr>"
  have gu: "geometry u" using g l(4) by (simp add: geometry_def u_def)
  have mk: "mark_block 0 1 u = Inr ?u1" using mark_block_runs [OF gu, of 0 1] l(4) by (simp add: u_def bmap_def)
  have m0: "mounting s cap ({0..int 0} \<union> seen_upto s (128 * int 0)) (valid_upto s (128 * int 0)) ?u2"
    using g l(4) d by (simp add: mounting_def geometry_def u_def bmap_def used_def nth_list_update)
  have "runs (foldE (mount_inode_block (layout ?n)) [0..<nat ?ib] ?u2)
      (mounting s cap ({0..int (nat ?ib)} \<union> seen_upto s (128 * int (nat ?ib))) (valid_upto s (128 * int (nat ?ib))))"
    by (rule runs_foldE_upto [where I = "\<lambda>i. mounting s cap ({0..int i} \<union> seen_upto s (128 * int i)) (valid_upto s (128 * int i))", OF _ m0])
      (rule mount_inode_block_runs [OF m], simp_all add: zless_nat_eq_int_zless)
  then obtain v where v: "foldE (mount_inode_block (layout ?n)) [0..<nat ?ib] ?u2 = Inr v"
      "mounting s cap ({0..?ib} \<union> seen_upto s (128 * ?ib)) (valid_upto s (128 * ?ib)) v"
    using d by (auto simp: runs_iff)
  have "fs_mount cap s = Inr (1, v)"
    using r sb l v(1) mk d by (simp add: fs_mount_def Let_def layout_def [THEN arg_cong, of magic] calloc_ints_def u_def)
  then show ?thesis using v(2) by simp
qed

section \<open>File systems on disk\<close>

text \<open>
  \<open>replicate (nat n) 1\<close> is a map with every block in use: on the disk alone only the
  range and the distinctness of the pointers count.
\<close>

definition disk_inv :: "fs \<Rightarrow> bool" where
  "disk_inv s \<longleftrightarrow> 2 + nblocks (dev s) div 10 \<le> nblocks (dev s) \<and> nblocks (dev s) * DISK_BLOCK_SIZE \<le> INT_MAX \<and>
     get_super (D s 0) = layout (nblocks (dev s)) \<and> (\<forall>a. heap_inodes s a \<noteq> None \<longrightarrow> a < next_inode s) \<and>
     (\<forall>j. 0 \<le> j \<and> j < 128 * (1 + nblocks (dev s) div 10) \<longrightarrow>
       0 \<le> sint (i_size (disk_inode s j)) \<and> sint (i_size (disk_inode s j)) \<le> MAX_OFFSET \<and>
       (isvalid (disk_inode s j) = 0 \<and> disk_inode s j = empty_inode \<or>
        isvalid (disk_inode s j) = 1 \<and> j div 128 < nblocks (dev s) div 10)) \<and>
     pointers_ok (nblocks (dev s)) (128 * (1 + nblocks (dev s) div 10)) (\<lambda>j. ptr (D s) (disk_inode s j)) (replicate (nat (nblocks (dev s))) 1)"

definition file_on_disk :: "fs \<Rightarrow> int \<Rightarrow> contents option" where
  "file_on_disk s i = (if 0 \<le> i \<and> i < 128 * (1 + nblocks (dev s) div 10) \<and> isvalid (disk_inode s i) \<noteq> 0
     then Some (sint (i_size (disk_inode s i)), content (D s) (disk_inode s i)) else None)"

text \<open>A file has no hole among the direct pointers and none among those of its indirect block.\<close>

definition no_holes :: "(int \<Rightarrow> block) \<Rightarrow> fs_inode \<Rightarrow> bool" where
  "no_holes B ino \<longleftrightarrow> (\<forall>q r. (0 \<le> q \<and> q < r \<and> r < 5 \<or> 5 \<le> q \<and> q < r \<and> r < 1029) \<and> ptr B ino r \<noteq> 0 \<longrightarrow> ptr B ino q \<noteq> 0)"

lemma disk_invD:
  assumes "disk_inv s"
  shows "2 + nblocks (dev s) div 10 \<le> nblocks (dev s)" "nblocks (dev s) * DISK_BLOCK_SIZE \<le> INT_MAX"
    "get_super (D s 0) = layout (nblocks (dev s))" "\<And>a. heap_inodes s a \<noteq> None \<Longrightarrow> a < next_inode s"
    "\<And>j. 0 \<le> j \<Longrightarrow> j < 128 * (1 + nblocks (dev s) div 10) \<Longrightarrow> 0 \<le> sint (i_size (disk_inode s j)) \<and> sint (i_size (disk_inode s j)) \<le> MAX_OFFSET"
    "\<And>j. 0 \<le> j \<Longrightarrow> j < 128 * (1 + nblocks (dev s) div 10) \<Longrightarrow> isvalid (disk_inode s j) = 0 \<and> disk_inode s j = empty_inode \<or>
        isvalid (disk_inode s j) = 1 \<and> j div 128 < nblocks (dev s) div 10"
    "pointers_ok (nblocks (dev s)) (128 * (1 + nblocks (dev s) div 10)) (\<lambda>j. ptr (D s) (disk_inode s j)) (replicate (nat (nblocks (dev s))) 1)"
  using assms unfolding disk_inv_def by blast+

lemma nonzero_member:
  assumes "l < length ps" "ps ! l \<noteq> 0" "\<And>k. k < l \<Longrightarrow> ps ! k \<noteq> 0"
  shows "ps ! l \<in> set (nonzero ps)"
proof -
  let ?w = "takeWhile (\<lambda>p. p \<noteq> 0) ps"
  have "l < length ?w"
  proof (rule ccontr)
    assume "\<not> l < length ?w"
    then have le: "length ?w \<le> l" by simp
    then have "ps ! length ?w = 0" using nth_length_takeWhile [of "\<lambda>p. p \<noteq> 0" ps] assms(1) by simp
    then show False using assms(2,3) le by (cases "length ?w = l") (auto simp: less_le)
  qed
  then show ?thesis unfolding nonzero_def using takeWhile_nth [of l "\<lambda>p. p \<noteq> 0" ps] nth_mem [of l ?w] by simp
qed

lemma seen_iff_ptr:
  assumes "length (direct ino) = 5"
  shows "b \<in> seen B ino \<Longrightarrow> \<exists>q \<in> slots. ptr B ino q = b \<and> b \<noteq> 0"
    "no_holes B ino \<Longrightarrow> q \<in> slots \<Longrightarrow> ptr B ino q \<noteq> 0 \<Longrightarrow> ptr B ino q \<in> seen B ino"
proof -
  assume "b \<in> seen B ino"
  then consider p where "p \<in> set (direct ino)" "p \<noteq> 0" "b = sint p" | "indirect ino \<noteq> 0" "b = sint (indirect ino)"
    | p where "indirect ino \<noteq> 0" "p \<in> set (pointers_of (B (sint (indirect ino))))" "p \<noteq> 0" "b = sint p"
    using set_takeWhile_nonzero by (auto simp: seen_def nonzero_def split: if_splits)
  then show "\<exists>q \<in> slots. ptr B ino q = b \<and> b \<noteq> 0"
  proof cases
    case 1
    then show ?thesis using ptr_of_direct [OF 1(1) assms] by (metis sint_eq_0)
  next
    case 2
    then show ?thesis by (intro bexI [of _ "-1"]) (auto simp: ptr_indirect_block slots_def)
  next
    case 3
    then show ?thesis using ptr_of_indirect [where B = B, OF 3(2,1)] by (metis sint_eq_0)
  qed
next
  assume h: "no_holes B ino" and q: "q \<in> slots" and nz: "ptr B ino q \<noteq> 0"
  consider "q = -1" | "0 \<le> q" "q < 5" | "5 \<le> q" "q < 1029" using q by (fastforce simp: slots_def)
  then show "ptr B ino q \<in> seen B ino"
  proof cases
    case 1
    then show ?thesis using nz by (simp add: ptr_indirect_block seen_def)
  next
    case 2
    have p: "ptr B ino (int k) = sint (direct ino ! k)" if "k < 5" for k using that by (simp add: ptr_def)
    have k: "nat q < 5" "ptr B ino q = sint (direct ino ! nat q)" using 2 p [of "nat q"] by simp_all
    have "direct ino ! nat q \<in> set (nonzero (direct ino))"
    proof (rule nonzero_member)
      show "direct ino ! k \<noteq> 0" if "k < nat q" for k
      proof -
        have "0 \<le> int k \<and> int k < q" using that by linarith
        then have "ptr B ino (int k) \<noteq> 0" using h [unfolded no_holes_def, rule_format, of "int k" q] 2 nz by blast
        then show ?thesis using p [of k] that k(1) by simp
      qed
    qed (use k nz assms in auto)
    then show ?thesis using k(2) by (simp add: seen_def)
  next
    case 3
    then have ind: "indirect ino \<noteq> 0" using nz by (auto simp: ptr_def)
    let ?ps = "pointers_of (B (sint (indirect ino)))"
    have p: "ptr B ino (int k + 5) = sint (?ps ! k)" if "k < 1024" for k using that ind by (simp add: ptr_def pointers_of_def)
    have k: "nat (q - 5) < 1024" "ptr B ino q = sint (?ps ! nat (q - 5))" using 3 p [of "nat (q - 5)"] by simp_all
    have "?ps ! nat (q - 5) \<in> set (nonzero ?ps)"
    proof (rule nonzero_member)
      show "?ps ! k \<noteq> 0" if "k < nat (q - 5)" for k
      proof -
        have "5 \<le> int k + 5 \<and> int k + 5 < q" using that by linarith
        then have "ptr B ino (int k + 5) \<noteq> 0" using h [unfolded no_holes_def, rule_format, of "int k + 5" q] 3 nz by blast
        then show ?thesis using p [of k] that k(1) by simp
      qed
    qed (use k nz in \<open>auto simp: pointers_of_def\<close>)
    then show ?thesis using k(2) ind by (simp add: seen_def)
  qed
qed

lemma disk_inv_mountable:
  assumes "disk_inv s"
  shows "mountable s"
proof -
  note d = disk_invD [OF assms]
  have "0 \<le> b \<and> b < nblocks (dev s)" if b: "b \<in> seen_upto s (128 * (1 + nblocks (dev s) div 10))" for b
  proof -
    obtain j where j: "0 \<le> j" "j < 128 * (1 + nblocks (dev s) div 10)" "b \<in> seen (D s) (disk_inode s j)"
      using b by (auto simp: seen_upto_def)
    obtain q where q: "q \<in> slots" "ptr (D s) (disk_inode s j) q = b" "b \<noteq> 0"
      using seen_iff_ptr(1) [OF _ j(3)] by (auto simp: disk_inode_def)
    have "data_block (nblocks (dev s)) b" using pointers_okD(1) [OF d(7) j(1,2) q(1)] q(2,3) by simp
    moreover have "0 \<le> nblocks (dev s) div 10" using layout_sint(4) [OF d(1,2)] by (simp add: pos_imp_zdiv_nonneg_iff)
    ultimately show ?thesis by (auto simp: data_block_def)
  qed
  then show ?thesis using d(1,2,3) by (auto simp: mountable_def)
qed

text \<open>Mounting a file system without holes makes its files visible.\<close>

theorem fs_mount_runs:
  assumes d: "disk_inv s" and h: "\<And>j. 0 \<le> j \<Longrightarrow> j < 128 * (1 + nblocks (dev s) div 10) \<Longrightarrow> no_holes (D s) (disk_inode s j)"
    and cap: "0 \<le> cap" "cap < INT_MAX"
  shows "runs (fs_mount cap s) (\<lambda>(r, u). r = 1 \<and> fs_inv u \<and> room u \<and> cnodes u = [] \<and> mount_of u = (nblocks (dev s), Some cap) \<and> file_at u = file_on_disk s)"
proof -
  note e = disk_invD [OF d]
  let ?n = "nblocks (dev s)"
  let ?ib = "1 + ?n div 10"
  obtain u where u: "fs_mount cap s = Inr (1, u)" "mounting s cap ({0..?ib} \<union> seen_upto s (128 * ?ib)) (valid_upto s (128 * ?ib)) u"
    using fs_mount_marks [OF disk_inv_mountable [OF d], of cap] by (auto simp: runs_iff)
  note m = mountingD [OF u(2)]
  have cn: "cnodes u = []" using m(6) by (simp add: cnodes_def new_cache_def)
  have du: "disk_inode u = disk_inode s" by (intro ext) (simp add: disk_inode_def m(2))
  have t: "table u = disk_inode s" by (rule table_eqI) (simp_all add: cn du)
  have nb: "nib u = ?ib" using m(5) by (simp add: nib_def)
  have dok: "disk_ok u"
    using e(1,2) m(3,5) layout_sint(4) [OF e(1,2)] nb by (simp add: disk_ok_def pos_imp_zdiv_nonneg_iff)
  have "list_ok (new_cache cap)" using cap by (simp add: list_ok_def new_cache_def)
  then have ci: "cache_inv {} u" using m(6,7,8) e(4) dok unfolding cache_inv_def cn by simp
  have io: "inodes_ok u"
    unfolding inodes_ok_def t
  proof (intro allI impI; elim conjE)
    fix j assume j: "0 \<le> j" "j < numinodes u"
    then have j': "j < 128 * ?ib" using m(5) by simp
    have "used u j \<longleftrightarrow> isvalid (disk_inode s j) \<noteq> 0" using m(12) [OF j] j' j(1) by (simp add: valid_upto_def valid_on_disk_def)
    then show "length (direct (disk_inode s j)) = 5 \<and> 0 \<le> sint (i_size (disk_inode s j)) \<and> sint (i_size (disk_inode s j)) \<le> MAX_OFFSET \<and>
      (isvalid (disk_inode s j) = 0 \<and> disk_inode s j = empty_inode \<and> \<not> used u j \<or> isvalid (disk_inode s j) = 1 \<and> used u j \<and> j \<in> reach u)"
      using e(5,6) [OF j(1) j'] j(1) nb length_direct [of "D s (1 + j div 128)" "j mod 128", folded disk_inode_def]
      by (auto simp: reach_def)
  qed
  have "pointers_ok (numblocks u) (numinodes u) (\<lambda>j. ptr (D u) (table u j)) (bmap u)"
    unfolding m(2,4,5) t pointers_ok_def
  proof (intro conjI allI impI; elim conjE)
    fix j q assume j: "0 \<le> j" "j < 128 * ?ib" "q \<in> slots" "ptr (D s) (disk_inode s j) q \<noteq> 0"
    show db: "data_block ?n (ptr (D s) (disk_inode s j) q)" by (rule pointers_okD(1) [OF e(7) j])
    have "disk_inode s j \<noteq> empty_inode" using ptr_new_inode [OF j(3), of "D s" 0] j(4) by (auto simp: empty_inode_def)
    then have v: "isvalid (disk_inode s j) \<noteq> 0" using e(6) [OF j(1,2)] by auto
    have "ptr (D s) (disk_inode s j) q \<in> seen (D s) (disk_inode s j)"
      by (rule seen_iff_ptr(2) [OF _ h [OF j(1,2)] j(3,4)]) (simp add: disk_inode_def)
    then have "ptr (D s) (disk_inode s j) q \<in> seen_upto s (128 * ?ib)"
      using j(1,2) v by (auto simp: seen_upto_def valid_on_disk_def)
    moreover have "0 \<le> ptr (D s) (disk_inode s j) q" "ptr (D s) (disk_inode s j) q < numblocks u"
      using data_block_range [OF m(1), of "ptr (D s) (disk_inode s j) q"] db m(4) by auto
    ultimately show "bmap u ! nat (ptr (D s) (disk_inode s j) q) \<noteq> 0" using m(11) by blast
  next
    fix j q k r assume a: "0 \<le> j" "j < 128 * ?ib" "q \<in> slots" "0 \<le> k" "k < 128 * ?ib" "r \<in> slots"
      and nz: "ptr (D s) (disk_inode s j) q \<noteq> 0" and eq: "ptr (D s) (disk_inode s j) q = ptr (D s) (disk_inode s k) r"
    show "j = k" "q = r" using pointers_okD(3) [OF e(7) a(1-3) nz a(4-6) eq] by simp_all
  qed
  moreover have "numinodes u = 128 * (1 + numblocks u div 10)" "\<exists>im. inode_freemap u = Some im \<and> length im = nat (numinodes u)"
    using m(4,5,9,10) by auto
  ultimately have "fs_inv u" using m(1,2,4) e(3) ci io unfolding fs_inv_def by simp
  moreover have "room u" using m(6) cap by (auto simp: room_def new_cache_def)
  moreover have "file_at u = file_on_disk s" by (intro ext) (simp add: file_at_def file_on_disk_def t m(2,5))
  moreover have "mount_of u = (?n, Some cap)" using m(4,6) by (simp add: mount_of_def new_cache_def)
  ultimately show ?thesis using u(1) cn by simp
qed

section \<open>Unmounting\<close>

text \<open>The same on the file: a byte behind which there is one of the same kind of pointer is there.\<close>

definition gapless :: "(int \<Rightarrow> byte option) \<Rightarrow> bool" where
  "gapless f \<longleftrightarrow> (\<forall>x y. 0 \<le> x \<and> x < y \<and> y < MAX_OFFSET \<and> (y < 5 * 4096 \<or> 5 * 4096 \<le> x) \<and> f y \<noteq> None \<longrightarrow> f x \<noteq> None)"

lemma gapless_no_holes:
  assumes "gapless (content B ino)"
  shows "no_holes B ino"
  unfolding no_holes_def
proof (intro allI impI; elim conjE)
  fix q r assume qr: "0 \<le> q \<and> q < r \<and> r < 5 \<or> 5 \<le> q \<and> q < r \<and> r < 1029" and nz: "ptr B ino r \<noteq> 0"
  have c: "content B ino (k * 4096) = None \<longleftrightarrow> ptr B ino k = 0" if "0 \<le> k" "k < 1029" for k
    using that by (auto simp: content_def MAX_OFFSET_val)
  have "content B ino (r * 4096) \<noteq> None" using c [of r] qr nz by auto
  moreover have "0 \<le> q * 4096 \<and> q * 4096 < r * 4096 \<and> r * 4096 < MAX_OFFSET \<and> (r * 4096 < 5 * 4096 \<or> 5 * 4096 \<le> q * 4096)"
    using qr by (auto simp: MAX_OFFSET_val)
  ultimately have "content B ino (q * 4096) \<noteq> None" using assms unfolding gapless_def by blast
  then show "ptr B ino q \<noteq> 0" using c [of q] qr by auto
qed

text \<open>With all inodes on the disk the disk holds the files.\<close>

lemma disk_inv_synced:
  assumes inv: "fs_inv s" and du: "disk_inode u = table s" and D: "\<And>b. data_block (numblocks s) b \<Longrightarrow> D u b = D s b" "D u 0 = D s 0"
    and n: "nblocks (dev u) = nblocks (dev s)" and h: "\<forall>a. heap_inodes u a \<noteq> None \<longrightarrow> a < next_inode u"
  shows "disk_inv u" "file_on_disk u = file_at s"
proof -
  note s = fs_invD [OF inv] and g = geometryD [OF fs_invD(1) [OF inv]]
  have n: "nblocks (dev u) = numblocks s" using n g(1) by simp
  have n': "128 * (1 + numblocks s div 10) = numinodes s" using s(2) by simp
  note ff = files_frame [OF s(7) D(1)]
  have "pointers_ok (numblocks s) (numinodes s) (\<lambda>j. ptr (D u) (table s j)) (replicate (nat (numblocks s)) 1)"
    unfolding pointers_ok_def
  proof (intro conjI allI impI; elim conjE)
    fix j q assume j: "0 \<le> j" "j < numinodes s" "q \<in> slots" "ptr (D u) (table s j) q \<noteq> 0"
    have p: "ptr (D u) (table s j) = ptr (D s) (table s j)" using ff(1) j(1,2) by blast
    show db: "data_block (numblocks s) (ptr (D u) (table s j) q)" using pointers_okD(1) [OF s(7) j(1-3)] j(4) unfolding p by blast
    show "replicate (nat (numblocks s)) 1 ! nat (ptr (D u) (table s j) q) \<noteq> (0::int)"
      using data_block_range [OF s(1) db] by simp
  next
    fix j q k r assume a: "0 \<le> j" "j < numinodes s" "q \<in> slots" "0 \<le> k" "k < numinodes s" "r \<in> slots"
      and nz: "ptr (D u) (table s j) q \<noteq> 0" and eq: "ptr (D u) (table s j) q = ptr (D u) (table s k) r"
    have p: "ptr (D u) (table s j) = ptr (D s) (table s j)" "ptr (D u) (table s k) = ptr (D s) (table s k)" using ff(1) a by blast+
    show "j = k" "q = r" using pointers_okD(3) [OF s(7) a(1-3) _ a(4-6)] nz eq unfolding p by blast+
  qed
  moreover have "isvalid (table s j) = 0 \<and> table s j = empty_inode \<or> isvalid (table s j) = 1 \<and> j div 128 < numblocks s div 10"
    if "0 \<le> j" "j < numinodes s" for j
    using inodes_okD(4) [OF s(6) that] s(8) by (auto simp: reach_def)
  ultimately show "disk_inv u"
    unfolding disk_inv_def n n' du using g(2,5) g(1) h s(11) D(2) inodes_okD(2,3) [OF s(6)] by simp
  show "file_on_disk u = file_at s"
  proof
    fix i show "file_on_disk u i = file_at s i"
      unfolding file_on_disk_def n n' du file_at_def using ff(2) [of i] by auto
  qed
qed

theorem fs_unmount_runs:
  assumes inv: "fs_inv s"
  shows "runs (fs_unmount s) (\<lambda>(r, u). r = 1 \<and> disk_inv u \<and> file_on_disk u = file_at s \<and> \<not> is_mounted u \<and> nblocks (dev u) = nblocks (dev s) \<and>
    (\<exists>c. the_cache u = Some c \<and> \<not> c_alive c))"
proof -
  note s = fs_invD [OF inv]
  obtain u where u: "destroy_cache s = Inr u" "disk_inode u = table s" "only_inodes s u" "\<forall>a. heap_inodes u a \<noteq> None \<longrightarrow> a < next_inode u"
      "\<exists>c. the_cache u = Some c \<and> \<not> c_alive c"
    using destroy_cache_runs [OF s(5)] by (auto simp: runs_iff)
  let ?u = "u\<lparr>block_freemap := None, numblocks := -1, inode_freemap := None, numinodes := -1\<rparr>"
  have "fs_unmount s = Inr (1, ?u)" using s(10) u(1) by (simp add: fs_unmount_def)
  moreover have "disk_inode ?u = table s" unfolding u(2) [symmetric] by (intro ext) (simp add: disk_inode_def)
  moreover have "D ?u b = D s b" if "data_block (numblocks s) b" for b using only_inodes_data [OF u(3) s(8) that] by simp
  moreover have "D ?u 0 = D s 0" "nblocks (dev ?u) = nblocks (dev s)" using u(3) by (simp_all add: only_inodes_def)
  ultimately show ?thesis using disk_inv_synced [OF inv, of ?u] u(4,5) by (simp add: is_mounted_def)
qed

lemma gapless_disk:
  assumes inv: "disk_inv u" and gap: "\<And>i sz f. file_on_disk u i = Some (sz, f) \<Longrightarrow> gapless f"
    and j: "0 \<le> j" "j < 128 * (1 + nblocks (dev u) div 10)"
  shows "no_holes (D u) (disk_inode u j)"
proof (rule gapless_no_holes)
  show "gapless (content (D u) (disk_inode u j))"
  proof (cases "isvalid (disk_inode u j) = 0")
    case True
    then have "disk_inode u j = empty_inode" using disk_invD(6) [OF inv j] by auto
    then show ?thesis by (simp add: gapless_def)
  next
    case False
    then have "file_on_disk u j = Some (sint (i_size (disk_inode u j)), content (D u) (disk_inode u j))"
      using j by (simp add: file_on_disk_def)
    then show ?thesis by (rule gap)
  qed
qed

text \<open>A file system without gaps survives unmounting and mounting, with any cache size.\<close>

theorem remount_runs:
  assumes inv: "fs_inv s" and gap: "\<And>i sz f. file_at s i = Some (sz, f) \<Longrightarrow> gapless f" and cap: "0 \<le> cap" "cap < INT_MAX"
  shows "runs (bindE (fs_unmount s) (\<lambda>(_, s). fs_mount cap s)) (\<lambda>(r, u). r = 1 \<and> fs_inv u \<and> room u \<and> cnodes u = [] \<and>
    mount_of u = (nblocks (dev s), Some cap) \<and> file_at u = file_at s)"
proof -
  obtain u where u: "fs_unmount s = Inr (1, u)" "disk_inv u" "file_on_disk u = file_at s" "nblocks (dev u) = nblocks (dev s)"
    using fs_unmount_runs [OF inv] by (auto simp: runs_iff)
  have "no_holes (D u) (disk_inode u j)" if j: "0 \<le> j" "j < 128 * (1 + nblocks (dev u) div 10)" for j
    by (rule gapless_disk [OF u(2) _ j]) (use gap u(3) in auto)
  from fs_mount_runs [OF u(2) this cap] show ?thesis using u(1,3,4) by simp
qed

section \<open>Formatting\<close>

lemma zero_blocks_runs:
  assumes "int k + 1 \<le> nblocks (dev s)" "nblocks (dev s) * DISK_BLOCK_SIZE \<le> INT_MAX"
  shows "runs (foldE (\<lambda>i s. write_block (int i + 1) zero_block s) [0..<k] s)
    (\<lambda>u. \<exists>d. u = s\<lparr>dev := d\<rparr> \<and> nblocks d = nblocks (dev s) \<and> blocks d = (\<lambda>b. if 1 \<le> b \<and> b \<le> int k then zero_block else D s b))"
proof (rule runs_foldE_upto [where I = "\<lambda>i u. \<exists>d. u = s\<lparr>dev := d\<rparr> \<and> nblocks d = nblocks (dev s) \<and>
    blocks d = (\<lambda>b. if 1 \<le> b \<and> b \<le> int i then zero_block else D s b)"])
  show "\<exists>d. s = s\<lparr>dev := d\<rparr> \<and> nblocks d = nblocks (dev s) \<and> blocks d = (\<lambda>b. if 1 \<le> b \<and> b \<le> int 0 then zero_block else D s b)"
    by (rule exI [of _ "dev s"]) (auto simp: fun_eq_iff)
next
  fix i u assume i: "i < k" and "\<exists>d. u = s\<lparr>dev := d\<rparr> \<and> nblocks d = nblocks (dev s) \<and> blocks d = (\<lambda>b. if 1 \<le> b \<and> b \<le> int i then zero_block else D s b)"
  then obtain d where d: "u = s\<lparr>dev := d\<rparr>" "nblocks d = nblocks (dev s)" "blocks d = (\<lambda>b. if 1 \<le> b \<and> b \<le> int i then zero_block else D s b)" by blast
  let ?d = "d\<lparr>blocks := (blocks d)(int i + 1 := zero_block), nwrites := nwrites d + 1\<rparr>"
  have "disk_write (int i + 1) zero_block d = Inr ?d" by (rule disk_write_ok) (use i assms d(2) in auto)
  then have "write_block (int i + 1) zero_block u = Inr (s\<lparr>dev := ?d\<rparr>)" by (simp add: write_block_def d(1))
  moreover have "blocks ?d = (\<lambda>b. if 1 \<le> b \<and> b \<le> int (Suc i) then zero_block else D s b)" using d(3) by (auto simp: fun_eq_iff)
  ultimately show "runs (write_block (int i + 1) zero_block u) (\<lambda>u. \<exists>d. u = s\<lparr>dev := d\<rparr> \<and> nblocks d = nblocks (dev s) \<and>
      blocks d = (\<lambda>b. if 1 \<le> b \<and> b \<le> int (Suc i) then zero_block else D s b))"
    using d(2) by (auto intro!: exI [of _ ?d])
qed

lemma pointers_ok_zero: "(\<And>j q. 0 \<le> j \<Longrightarrow> j < ni \<Longrightarrow> q \<in> slots \<Longrightarrow> P j q = 0) \<Longrightarrow> pointers_ok nb ni P bm"
  unfolding pointers_ok_def by blast

theorem fs_format_runs:
  assumes nm: "\<not> is_mounted s" and n: "2 + nblocks (dev s) div 10 \<le> nblocks (dev s)" "nblocks (dev s) * DISK_BLOCK_SIZE \<le> INT_MAX"
    and h: "\<forall>a. heap_inodes s a \<noteq> None \<longrightarrow> a < next_inode s"
  shows "runs (fs_format junk s) (\<lambda>(r, u). r = 1 \<and> disk_inv u \<and> file_on_disk u = (\<lambda>_. None) \<and> nblocks (dev u) = nblocks (dev s) \<and>
    \<not> is_mounted u \<and> the_cache u = the_cache s)"
proof -
  let ?n = "nblocks (dev s)"
  let ?ib = "1 + ?n div 10"
  have n0: "2 \<le> ?n" by (rule layout_sint(4) [OF n])
  then have d0: "0 \<le> ?n div 10" by (simp add: pos_imp_zdiv_nonneg_iff)
  have ib: "NUM_INODE_BLOCKS ?n = ?ib" using NUM_INODE_BLOCKS_nonneg [of ?n] n0 by simp
  obtain d where d: "foldE (\<lambda>i s. write_block (int i + 1) zero_block s) [0..<nat ?ib] s = Inr (s\<lparr>dev := d\<rparr>)" "nblocks d = ?n"
      "blocks d = (\<lambda>b. if 1 \<le> b \<and> b \<le> ?ib then zero_block else D s b)"
    using zero_blocks_runs [of "nat ?ib" s] n d0 by (auto simp: runs_iff)
  let ?x = "put_super junk (layout ?n)"
  let ?d = "d\<lparr>blocks := (blocks d)(0 := ?x), nwrites := nwrites d + 1\<rparr>"
  have "disk_write 0 ?x d = Inr ?d" by (rule disk_write_ok) (use n n0 d(2) in auto)
  then have w: "write_block 0 ?x (s\<lparr>dev := d\<rparr>) = Inr (s\<lparr>dev := ?d\<rparr>)" by (simp add: write_block_def)
  let ?u = "s\<lparr>dev := ?d\<rparr>"
  have "fs_format junk s = Inr (1, ?u)"
    using nm d(1) w by (simp add: fs_format_def Let_def disk_size_def ib layout_def INODES_PER_BLOCK_def mult.commute)
  moreover have e: "disk_inode ?u j = empty_inode" if "0 \<le> j" "j < 128 * ?ib" for j
  proof -
    have "0 \<le> j div 128" "j div 128 < ?ib"
      using that div_above [of 128 j ?ib] by (simp_all only: pos_imp_zdiv_nonneg_iff zero_less_numeral mult.commute)
    then show ?thesis using d(3) by (simp add: disk_inode_def)
  qed
  moreover have "ptr (D ?u) empty_inode q = 0" if "q \<in> slots" for q
    using ptr_new_inode [OF that, of _ 0] by (simp add: empty_inode_def)
  then have "pointers_ok ?n (128 * ?ib) (\<lambda>j. ptr (D ?u) (disk_inode ?u j)) (replicate (nat ?n) 1)"
    by (intro pointers_ok_zero) (simp only: e)
  then have "disk_inv ?u"
    unfolding disk_inv_def using n h d(2) e by (simp add: MAX_OFFSET_val) (simp add: empty_inode_def)
  moreover have "file_on_disk ?u i = None" for i
    using e [of i] d(2) by (simp add: file_on_disk_def empty_inode_def)
  then have "file_on_disk ?u = (\<lambda>_. None)" by (rule ext)
  moreover have "\<not> is_mounted ?u" using nm by (simp add: is_mounted_def)
  ultimately show ?thesis using d(2) by simp
qed

text \<open>Formatting and mounting give the empty file system.\<close>

theorem format_mount_runs:
  assumes "\<not> is_mounted s" "2 + nblocks (dev s) div 10 \<le> nblocks (dev s)" "nblocks (dev s) * DISK_BLOCK_SIZE \<le> INT_MAX"
    "\<forall>a. heap_inodes s a \<noteq> None \<longrightarrow> a < next_inode s" and cap: "0 \<le> cap" "cap < INT_MAX"
  shows "runs (bindE (fs_format junk s) (\<lambda>(_, s). fs_mount cap s)) (\<lambda>(r, u). r = 1 \<and> fs_inv u \<and> room u \<and> cnodes u = [] \<and>
    mount_of u = (nblocks (dev s), Some cap) \<and> file_at u = (\<lambda>_. None))"
proof -
  obtain u where u: "fs_format junk s = Inr (1, u)" "disk_inv u" "file_on_disk u = (\<lambda>_. None)" "nblocks (dev u) = nblocks (dev s)"
    using fs_format_runs [OF assms(1-4)] by (auto simp: runs_iff)
  have "no_holes (D u) (disk_inode u j)" if j: "0 \<le> j" "j < 128 * (1 + nblocks (dev u) div 10)" for j
    by (rule gapless_disk [OF u(2) _ j]) (use u(3) in auto)
  from fs_mount_runs [OF u(2) this cap] show ?thesis using u(1,3,4) by simp
qed

section \<open>Mounting files with gaps\<close>

text \<open>All blocks of file \<open>i\<close> are marked as in use.\<close>

definition blocks_marked :: "fs \<Rightarrow> int \<Rightarrow> bool" where
  "blocks_marked s i \<longleftrightarrow> (\<forall>q \<in> slots. ptr (D s) (table s i) q \<noteq> 0 \<longrightarrow> bmap s ! nat (ptr (D s) (table s i) q) \<noteq> 0)"

text \<open>Mounting shows every file of the disk, and marks all blocks of those without a gap.\<close>

theorem fs_mount_files:
  assumes d: "disk_inv s"
  shows "runs (fs_mount cap s) (\<lambda>(r, u). r = 1 \<and> file_at u = file_on_disk s \<and>
    (\<forall>i sz f. file_at u i = Some (sz, f) \<and> gapless f \<longrightarrow> blocks_marked u i))"
proof -
  note e = disk_invD [OF d]
  let ?n = "nblocks (dev s)"
  let ?ib = "1 + ?n div 10"
  obtain u where u: "fs_mount cap s = Inr (1, u)" "mounting s cap ({0..?ib} \<union> seen_upto s (128 * ?ib)) (valid_upto s (128 * ?ib)) u"
    using fs_mount_marks [OF disk_inv_mountable [OF d], of cap] by (auto simp: runs_iff)
  note m = mountingD [OF u(2)]
  have cn: "cnodes u = []" using m(6) by (simp add: cnodes_def new_cache_def)
  have du: "disk_inode u = disk_inode s" by (intro ext) (simp add: disk_inode_def m(2))
  have t: "table u = disk_inode s" by (rule table_eqI) (simp_all add: cn du)
  have f: "file_at u = file_on_disk s" by (intro ext) (simp add: file_at_def file_on_disk_def t m(2,5))
  have "blocks_marked u i" if i: "file_at u i = Some (sz, g)" and gap: "gapless g" for i sz g
    unfolding blocks_marked_def t m(2)
  proof (intro ballI impI)
    fix q assume q: "q \<in> slots" "ptr (D s) (disk_inode s i) q \<noteq> 0"
    have j: "0 \<le> i" "i < 128 * ?ib" "isvalid (disk_inode s i) \<noteq> 0" "g = content (D s) (disk_inode s i)"
      using i unfolding f by (auto simp: file_on_disk_def split: if_splits)
    have h: "no_holes (D s) (disk_inode s i)" by (rule gapless_no_holes) (use gap j(4) in simp)
    have db: "data_block ?n (ptr (D s) (disk_inode s i) q)" by (rule pointers_okD(1) [OF e(7) j(1,2) q])
    have "ptr (D s) (disk_inode s i) q \<in> seen (D s) (disk_inode s i)"
      by (rule seen_iff_ptr(2) [OF _ h q]) (simp add: disk_inode_def)
    then have "ptr (D s) (disk_inode s i) q \<in> seen_upto s (128 * ?ib)"
      using j(1-3) by (auto simp: seen_upto_def valid_on_disk_def)
    moreover have "0 \<le> ptr (D s) (disk_inode s i) q" "ptr (D s) (disk_inode s i) q < numblocks u"
      using data_block_range [OF m(1), of "ptr (D s) (disk_inode s i) q"] db m(4) by auto
    ultimately show "bmap u ! nat (ptr (D s) (disk_inode s i) q) \<noteq> 0" using m(11) by blast
  qed
  then show ?thesis using u(1) f by auto
qed

lemma remount_files:
  assumes inv: "fs_inv s"
  shows "runs (bindE (fs_unmount s) (\<lambda>(_, s). fs_mount cap s)) (\<lambda>(r, u). r = 1 \<and> file_at u = file_at s \<and>
    (\<forall>i sz f. file_at s i = Some (sz, f) \<and> gapless f \<longrightarrow> blocks_marked u i))"
proof -
  obtain u where u: "fs_unmount s = Inr (1, u)" "disk_inv u" "file_on_disk u = file_at s"
    using fs_unmount_runs [OF inv] by (auto simp: runs_iff)
  obtain v where v: "fs_mount cap u = Inr (1, v)" "file_at v = file_at s"
      "\<forall>i sz f. file_at v i = Some (sz, f) \<and> gapless f \<longrightarrow> blocks_marked v i"
    using fs_mount_files [OF u(2), of cap] u(3) by (auto simp: runs_iff)
  show ?thesis using v(3) unfolding u(1) bindE_simps prod.case v(1) runs_simps v(2) by simp
qed

end
