(* ===== verification/FsShell.thy ===== *)
theory FsShell
  imports FsMount
begin

text \<open>
  The commands of \<open>project_4/shell.c\<close>.  The files of the host are a map from names to
  regions of bytes; \<open>writable\<close> tells which names can be opened for writing.  What a command prints
  is its \<open>reply\<close>.  A command that copies a file out loops until \<open>fs_read\<close> returns nothing, so
  the result of a command is an option, and \<open>None\<close> stands for a command that never returns.
\<close>

definition bindO :: "'a result option \<Rightarrow> ('a \<Rightarrow> 'b result option) \<Rightarrow> 'b result option" where
  "bindO m f = (case m of None \<Rightarrow> None | Some (Inl e) \<Rightarrow> Some (Inl e) | Some (Inr x) \<Rightarrow> f x)"

lemma bindO_simps [simp]:
  "bindO (Some (Inr x)) f = f x"
  "bindO (Some (Inl e)) f = Some (Inl e)"
  by (simp_all add: bindO_def)

lemma bindO_returns: "(\<exists>r. m = Some r) \<Longrightarrow> (\<And>x. m = Some (Inr x) \<Longrightarrow> \<exists>r. f x = Some r) \<Longrightarrow> \<exists>r. bindO m f = Some r"
  by (auto simp: bindO_def split: sum.split)

definition COPY_BUFFER :: int where "COPY_BUFFER = 16384"

section \<open>Copying in\<close>

text \<open>The loop: \<open>pos\<close> is the position in the host file, \<open>offset\<close> the one in the inode.\<close>

function copyin_loop :: "int \<Rightarrow> region \<Rightarrow> int \<Rightarrow> int \<Rightarrow> mem \<Rightarrow> fs \<Rightarrow> (int \<times> fs) result" where
  "copyin_loop inumber host pos offset buffer s =
     (let result = min COPY_BUFFER (reg_len host - pos) in
      if result \<le> 0 then Inr (offset, s)
      else
        let buffer = copy_bytes buffer 0 (reg_data host) pos result in
        bindE (fs_write inumber buffer result offset s) (\<lambda>(actual, s).
        if actual < 0 then Inr (offset, s)
        else
          bindE (int_add offset actual) (\<lambda>offset.
          if actual \<noteq> result then Inr (offset, s)
          else copyin_loop inumber host (pos + result) offset buffer s)))"
  by pat_completeness auto
termination
  by (relation "measure (\<lambda>(i, host, pos, offset, buffer, s). nat (reg_len host - pos))") auto

declare copyin_loop.simps [simp del]

definition do_copyin :: "region option \<Rightarrow> mem \<Rightarrow> int \<Rightarrow> fs \<Rightarrow> (int \<times> int \<times> fs) result" where
  "do_copyin host junk inumber s =
     (case host of None \<Rightarrow> Inr (0, 0, s)
      | Some file_bytes \<Rightarrow> bindE (copyin_loop inumber file_bytes 0 0 junk s) (\<lambda>(n, s). Inr (1, n, s)))"

section \<open>Copying out\<close>

text \<open>\<open>out\<close> is what has been written to the host file.\<close>

partial_function (option) copyout_loop :: "int \<Rightarrow> int \<Rightarrow> mem \<Rightarrow> mem \<Rightarrow> fs \<Rightarrow> (int \<times> mem \<times> fs) result option" where
  "copyout_loop inumber offset buffer out s =
     (case fs_read inumber buffer COPY_BUFFER offset s of
        Inl e \<Rightarrow> Some (Inl e)
      | Inr (result, buffer, s) \<Rightarrow>
          if result \<le> 0 then Some (Inr (offset, out, s))
          else case int_add offset result of
            Inl e \<Rightarrow> Some (Inl e)
          | Inr offset' \<Rightarrow> copyout_loop inumber offset' buffer (copy_bytes out offset buffer 0 result) s)"

definition do_copyout :: "bool \<Rightarrow> mem \<Rightarrow> int \<Rightarrow> fs \<Rightarrow> (int \<times> int \<times> region \<times> fs) result option" where
  "do_copyout open_ok junk inumber s =
     (if \<not> open_ok then Some (Inr (0, 0, \<lparr>reg_len = 0, reg_data = (\<lambda>_. 0)\<rparr>, s))
      else bindO (copyout_loop inumber 0 junk (\<lambda>_. 0) s) (\<lambda>(n, out, s).
        Some (Inr (1, n, \<lparr>reg_len = n, reg_data = out\<rparr>, s))))"

section \<open>Commands\<close>

datatype command =
    Format | Mount | Unmount | Debug | Getsize int | Create | Delete int | Cat int
  | Copyin string int | Copyout int string | Help | Quit | Usage string | Unknown string

datatype reply =
    Done | Failed | Size int int | Created int | Copied int region
  | Listing "debug_line list" | Info string

record shell =
  sh_fs :: fs
  host_file :: "string \<Rightarrow> region option"
  writable :: "string \<Rightarrow> bool"

definition answer :: "(int \<Rightarrow> reply) \<Rightarrow> shell \<Rightarrow> (int \<times> fs) result \<Rightarrow> (reply \<times> shell) result option" where
  "answer f sh m = Some (bindE m (\<lambda>(r, s). Inr (f r, sh\<lparr>sh_fs := s\<rparr>)))"

definition done_if :: "int \<Rightarrow> reply" where
  "done_if r = (if r \<noteq> 0 then Done else Failed)"

text \<open>
  \<open>cap\<close> is what \<open>atoi\<close> makes of the third argument of the program.  Opening a file for writing
  empties it.
\<close>

fun do_command :: "mem \<Rightarrow> int result \<Rightarrow> command \<Rightarrow> shell \<Rightarrow> (reply \<times> shell) result option" where
  "do_command junk cap Format sh = answer done_if sh (fs_format junk (sh_fs sh))"
| "do_command junk cap Mount sh = answer done_if sh (bindE cap (\<lambda>c. fs_mount c (sh_fs sh)))"
| "do_command junk cap Unmount sh = answer done_if sh (fs_unmount (sh_fs sh))"
| "do_command junk cap Debug sh =
     Some (bindE (fs_debug (sh_fs sh)) (\<lambda>(out, s). Inr (Listing out, sh\<lparr>sh_fs := s\<rparr>)))"
| "do_command junk cap (Getsize i) sh =
     answer (\<lambda>r. if r \<ge> 0 then Size i r else Failed) sh (fs_getsize i (sh_fs sh))"
| "do_command junk cap Create sh =
     answer (\<lambda>i. if i \<ge> 0 then Created i else Failed) sh (fs_create (sh_fs sh))"
| "do_command junk cap (Delete i) sh = answer done_if sh (fs_delete i (sh_fs sh))"
| "do_command junk cap (Cat i) sh =
     bindO (do_copyout (writable sh ''/dev/stdout'') junk i (sh_fs sh)) (\<lambda>(r, n, out, s).
     Some (Inr (if r = 0 then Failed else Copied n out, sh\<lparr>sh_fs := s\<rparr>)))"
| "do_command junk cap (Copyin name i) sh =
     Some (bindE (do_copyin (host_file sh name) junk i (sh_fs sh)) (\<lambda>(r, n, s).
     Inr (if r = 0 then Failed else Copied n \<lparr>reg_len = 0, reg_data = (\<lambda>_. 0)\<rparr>, sh\<lparr>sh_fs := s\<rparr>)))"
| "do_command junk cap (Copyout i name) sh =
     bindO (do_copyout (writable sh name) junk i (sh_fs sh)) (\<lambda>(r, n, out, s).
     Some (Inr (if r = 0 then (Failed, sh\<lparr>sh_fs := s\<rparr>)
                else (Copied n \<lparr>reg_len = 0, reg_data = (\<lambda>_. 0)\<rparr>, sh\<lparr>sh_fs := s, host_file := (host_file sh)(name \<mapsto> out)\<rparr>))))"
| "do_command junk cap Quit sh = answer (\<lambda>_. Info ''quit'') sh (fs_unmount (sh_fs sh))"
| "do_command junk cap Help sh = Some (Inr (Info ''help'', sh))"
| "do_command junk cap (Usage c) sh = Some (Inr (Info c, sh))"
| "do_command junk cap (Unknown c) sh = Some (Inr (Info c, sh))"

section \<open>What they do\<close>

lemma overwrite_cong:
  assumes "\<And>x. off \<le> x \<Longrightarrow> x < off + k \<Longrightarrow> data (n + (x - off)) = data' (n' + (x - off))"
  shows "overwrite data n off k f = overwrite data' n' off k f"
  using assms by (auto simp: overwrite_def fun_eq_iff)

theorem copyin_loop_runs:
  assumes "fs_inv s" "room s" "file_at s i = Some (sz, f)" "0 \<le> off" "off mod 4096 = 0" "reg_len host \<le> MAX_OFFSET" "off \<le> sz"
  shows "runs (copyin_loop i host off off buf s) (\<lambda>(n, u). fs_inv u \<and> room u \<and> mount_of u = mount_of s \<and> off \<le> n \<and> n \<le> max off (reg_len host) \<and>
    (n < reg_len host \<longrightarrow> nearly_full u) \<and> file_at u = (file_at s)(i := Some (max sz n, overwrite (reg_data host) off off (n - off) f)))"
  using assms
proof (induction "nat (reg_len host - off)" arbitrary: off buf s sz f rule: less_induct)
  case less
  define k where "k = min COPY_BUFFER (reg_len host - off)"
  show ?case
  proof (cases "k \<le> 0")
    case True
    then have "reg_len host \<le> off" by (auto simp: k_def COPY_BUFFER_def)
    then show ?thesis
      using less.prems True by (subst copyin_loop.simps) (auto simp: k_def Let_def max_def)
  next
    case False
    let ?buf = "copy_bytes buf 0 (reg_data host) off k"
    have k: "0 < k" "off + k \<le> reg_len host" "k = reg_len host - off \<or> k = COPY_BUFFER" using False by (auto simp: k_def)
    obtain n u where w: "fs_write i ?buf k off s = Inr (n, u)" "fs_inv u" "room u" "0 \<le> n" "n \<le> k" "n < k \<longrightarrow> nearly_full u" "mount_of u = mount_of s"
        "file_at u = (file_at s)(i := Some (max sz (off + n), overwrite ?buf 0 off n f))"
      using fs_write_runs [OF less.prems(1-3), of k off ?buf] k less.prems(4,6) by (auto simp: runs_iff)
    have ov: "overwrite ?buf 0 off n f = overwrite (reg_data host) off off n f"
      by (rule overwrite_cong) (use w(5) in \<open>simp add: copy_bytes_def\<close>)
    have add: "int_add off n = Inr (off + n)"
      using w(4,5) k(2) less.prems(4,6) by (intro int_add_ok) (auto simp: MAX_OFFSET_val INT_MAX_def)
    have loop: "copyin_loop i host off off buf s = (if n \<noteq> k then Inr (off + n, u) else copyin_loop i host (off + k) (off + k) ?buf u)"
      using w(1,4) add False by (subst copyin_loop.simps) (simp add: k_def [symmetric] Let_def)
    show ?thesis
    proof (cases "n = k")
      case False
      then show ?thesis using loop w ov k by simp
    next
      case True
      show ?thesis
      proof (cases "off + k = reg_len host")
        case e: True
        have "copyin_loop i host (off + k) (off + k) ?buf u = Inr (off + k, u)"
          using e by (subst copyin_loop.simps) (simp add: Let_def)
        then show ?thesis using loop True w ov k by (simp add: e [symmetric])
      next
        case ne: False
        then have kc: "k = 16384" using k(3) by (auto simp: COPY_BUFFER_def)
        have m: "(off + k) mod 4096 = 0" using less.prems(5) kc by (simp add: mod_add_eq [symmetric, of off])
        have fu: "file_at u i = Some (max sz (off + k), overwrite (reg_data host) off off k f)" using w(8) True ov by simp
        have "runs (copyin_loop i host (off + k) (off + k) ?buf u) (\<lambda>(n, v). fs_inv v \<and> room v \<and> mount_of v = mount_of u \<and> off + k \<le> n \<and> n \<le> max (off + k) (reg_len host) \<and>
            (n < reg_len host \<longrightarrow> nearly_full v) \<and> file_at v = (file_at u)(i := Some (max (max sz (off + k)) n,
              overwrite (reg_data host) (off + k) (off + k) (n - (off + k)) (overwrite (reg_data host) off off k f))))"
          by (rule less.hyps [OF _ w(2,3) fu _ m]) (use k ne less.prems in auto)
        then obtain n' v where v: "copyin_loop i host (off + k) (off + k) ?buf u = Inr (n', v)" "fs_inv v" "room v" "mount_of v = mount_of u" "off + k \<le> n'"
            "n' \<le> max (off + k) (reg_len host)" "n' < reg_len host \<longrightarrow> nearly_full v"
            "file_at v = (file_at u)(i := Some (max (max sz (off + k)) n',
              overwrite (reg_data host) (off + k) (off + k) (n' - (off + k)) (overwrite (reg_data host) off off k f)))"
          by (auto simp: runs_iff)
        have "overwrite (reg_data host) (off + k) (off + k) (n' - (off + k)) (overwrite (reg_data host) off off k f) =
            overwrite (reg_data host) off off (n' - off) f"
          using overwrite_append [of k "n' - (off + k)" off "reg_data host" off f] k(1) v(5) m by simp
        then have "file_at v = (file_at s)(i := Some (max sz n', overwrite (reg_data host) off off (n' - off) f))"
          using v(5,8) w(8) by (simp add: max_def)
        then show ?thesis using loop True v k w(7) by (auto simp: max_def split: if_splits)
      qed
    qed
  qed
qed

text \<open>
  Copying out ends, whatever the state of the file system: the offset grows, and an
  overflow of it ends the program.
\<close>

lemma copyout_loop_returns: "\<exists>r. copyout_loop i off buf out s = Some r"
proof (induction "nat (INT_MAX - off)" arbitrary: off buf out s rule: less_induct)
  case less
  show ?case
  proof (cases "fs_read i buf COPY_BUFFER off s")
    case (Inl e)
    then show ?thesis by (subst copyout_loop.simps) simp
  next
    case (Inr x)
    obtain k buf' u where x: "x = (k, buf', u)" by (cases x) auto
    show ?thesis
    proof (cases "k \<le> 0 \<or> int_add off k = Inl SignedOverflow")
      case True
      then show ?thesis using Inr x by (subst copyout_loop.simps) auto
    next
      case False
      then have k: "0 < k" "int_add off k = Inr (off + k)" "off + k \<le> INT_MAX" by (auto simp: int_add_def split: if_splits)
      then have "nat (INT_MAX - (off + k)) < nat (INT_MAX - off)" by linarith
      then show ?thesis using less [of "off + k"] Inr x k by (subst copyout_loop.simps) simp
    qed
  qed
qed

text \<open>Copying out gives the file up to its first hole.\<close>

theorem copyout_loop_ends:
  assumes "fs_inv s" "room s" "file_at s i = Some (sz, f)" "0 \<le> off" "off \<le> sz"
  shows "\<exists>n out' u. copyout_loop i off buf out s = Some (Inr (n, out', u)) \<and> fs_inv u \<and> room u \<and> mount_of u = mount_of s \<and> file_at u = file_at s \<and>
    off \<le> n \<and> n \<le> sz \<and> (n < sz \<longrightarrow> f n = None) \<and> (\<forall>x. off \<le> x \<and> x < n \<longrightarrow> f x = Some (out' x)) \<and> (\<forall>x. x < off \<or> n \<le> x \<longrightarrow> out' x = out x)"
  using assms
proof (induction "nat (sz - off)" arbitrary: off buf out s rule: less_induct)
  case less
  have szm: "sz \<le> MAX_OFFSET" by (rule file_atD(9) [OF less.prems(1,3)])
  obtain k buf' u where r: "fs_read i buf COPY_BUFFER off s = Inr (k, buf', u)" "fs_inv u" "room u" "file_at u = file_at s"
      "0 \<le> k" "k \<le> max 0 (min (sz - off) COPY_BUFFER)" "k < min (sz - off) COPY_BUFFER \<longrightarrow> f (off + k) = None"
      "\<forall>x. off \<le> x \<and> x < off + k \<longrightarrow> f x \<noteq> None" "buf' = read_into f off 0 k buf" "mount_of u = mount_of s"
    using fs_read_runs [OF less.prems(1-3), of COPY_BUFFER off buf] less.prems(4,5) szm by (auto simp: runs_iff COPY_BUFFER_def)
  have ks: "off + k \<le> sz" using r(6) less.prems(5) by (auto simp: max_def min_def split: if_splits)
  show ?case
  proof (cases "k = 0")
    case True
    have "off < sz \<Longrightarrow> f off = None" using r(7) True by (simp add: COPY_BUFFER_def)
    moreover have "copyout_loop i off buf out s = Some (Inr (off, out, u))" using r(1) True by (subst copyout_loop.simps) simp
    ultimately show ?thesis using r(2-4,10) less.prems by auto
  next
    case False
    then have k: "0 < k" using r(5) by simp
    have add: "int_add off k = Inr (off + k)"
      using ks szm less.prems(4) k by (intro int_add_ok) (auto simp: MAX_OFFSET_val INT_MAX_def)
    let ?out = "copy_bytes out off buf' 0 k"
    have loop: "copyout_loop i off buf out s = copyout_loop i (off + k) buf' ?out u"
      using r(1) k add by (subst copyout_loop.simps) simp
    have fu: "file_at u i = Some (sz, f)" using less.prems(3) r(4) by simp
    obtain n out' v where v: "copyout_loop i (off + k) buf' ?out u = Some (Inr (n, out', v))" "fs_inv v" "room v" "file_at v = file_at u"
        "off + k \<le> n" "n \<le> sz" "n < sz \<longrightarrow> f n = None" "\<forall>x. off + k \<le> x \<and> x < n \<longrightarrow> f x = Some (out' x)" "\<forall>x. x < off + k \<or> n \<le> x \<longrightarrow> out' x = ?out x" "mount_of v = mount_of u"
      using less.hyps [OF _ r(2,3) fu, of "off + k" buf' ?out] k ks less.prems(4) by auto
    have "f x = Some (out' x)" if x: "off \<le> x" "x < n" for x
    proof (cases "x < off + k")
      case True
      then have "out' x = the (f x)" using v(9) x r(9) by (simp add: copy_bytes_def read_into_def)
      then show ?thesis using r(8) x(1) True by auto
    next
      case False
      then show ?thesis using v(8) x(2) by simp
    qed
    moreover have "out' x = out x" if "x < off \<or> n \<le> x" for x using v(5,9) that k by (auto simp: copy_bytes_def)
    ultimately show ?thesis using loop v k r(4,10) by auto
  qed
qed

end
