(* ===== verification/FsDebug.thy ===== *)
theory FsDebug
  imports FsShell
begin

text \<open>
  The calls where there is nothing to do: no file system is mounted, there is no such file, or the
  inode cannot be loaded.  Then \<open>fs_debug\<close>, which prints the inodes and keeps the files.
\<close>

section \<open>Calls that change nothing\<close>

lemma not_mounted_calls:
  assumes "\<not> is_mounted s"
  shows "fs_getsize i s = Inr (-1, s)" "fs_create s = Inr (-1, s)" "fs_delete i s = Inr (0, s)" "fs_unmount s = Inr (0, s)"
    "fs_read i buf len off s = Inr (0, buf, s)" "fs_write i buf len off s = Inr (0, s)"
  using assms by (simp_all add: fs_getsize_def fs_create_def fs_delete_def fs_unmount_def fs_read_def fs_write_def)

lemma is_arg_valid_missing:
  assumes inv: "fs_inv s" and i: "0 \<le> i" and f: "file_at s i = None"
  shows "is_arg_valid i len off s = Inr False"
proof (cases "i < numinodes s")
  case True
  then have "isvalid (table s i) = 0" using f i by (simp add: file_at_def split: if_splits)
  then have "\<not> used s i" using inodes_okD(4) [OF fs_invD(6) [OF inv] i True] by auto
  then show ?thesis using i True fs_invD(3,4) [OF inv] by (auto simp: is_arg_valid_def arr_at_def used_def)
qed (simp add: is_arg_valid_def)

lemma missing_file_calls:
  assumes "fs_inv s" "0 \<le> i" "file_at s i = None"
  shows "fs_read i buf len off s = Inr (0, buf, s)" "fs_write i buf len off s = Inr (0, s)"
  using is_arg_valid_missing [OF assms] fs_invD(10) [OF assms(1)] by (simp_all add: fs_read_def fs_write_def)

text \<open>The number of an inode that cannot be loaded: the cache only counts up its heap.\<close>

lemma get_inode_unreachable:
  assumes inv: "fs_inv s" and i: "0 \<le> i" "i \<notin> reach s"
  shows "get_inode i s = Inr (None, s\<lparr>next_inode := next_inode s + 1\<rparr>)"
proof -
  obtain c where c: "live_cache s = Inr c" "cnodes s = nodes c" "\<And>n. n \<in> set (nodes c) \<Longrightarrow> node_ok {} s n"
    using fs_invD(5) [OF inv] by (elim cache_invE) blast
  have "find_node i (nodes c) = None"
  proof (rule ccontr)
    assume "find_node i (nodes c) \<noteq> None"
    then obtain xs n ys where "nodes c = xs @ n # ys" "n_inumber n = i" using find_node_Some [of i "nodes c"] by auto
    then show False using c(3) [of n] i(2) by (simp add: node_ok_def)
  qed
  moreover have "inode_out_of_range i (s\<lparr>next_inode := next_inode s + 1\<rparr>)"
    using i fs_invD(8,9) [OF inv] trunc_nonneg(1) [of i] trunc_nonneg(1) [of "numinodes s"]
    by (simp add: inode_out_of_range_def INODES_PER_BLOCK_def reach_def nib_def)
  ultimately show ?thesis using c(1) i(1) by (simp add: get_inode_def find_node_with_inumber_def inode_load_def Let_def)
qed

lemma fs_inv_bump:
  assumes inv: "fs_inv s"
  defines "u \<equiv> s\<lparr>next_inode := next_inode s + 1\<rparr>"
  shows "fs_inv u" "file_at u = file_at s" "room u = room s" "mount_of u = mount_of s"
proof -
  have d: "disk_inode u = disk_inode s" by (intro ext) (simp add: disk_inode_def u_def)
  have e: "cnodes u = cnodes s" "heap_inodes u = heap_inodes s" by (simp_all add: cnodes_def u_def)
  have t: "table u = table s" by (intro ext) (simp only: table_def d e)
  have o: "only_inodes s u" by (simp add: only_inodes_def u_def)
  have "cache_inv {} u"
    using fs_invD(5) [OF inv]
    by (auto simp: cache_inv_def u_def disk_ok_def cnodes_def node_ok_def reach_def nib_def disk_inode_def less_Suc_eq)
  then show "fs_inv u" "file_at u = file_at s" using fs_inv_frame [OF inv o _ t] by simp_all
  show "room u = room s" "mount_of u = mount_of s" by (simp_all add: room_def mount_of_def u_def)
qed

lemma unreachable_no_file: "fs_inv s \<Longrightarrow> i \<notin> reach s \<Longrightarrow> file_at s i = None"
  using file_atD(3) by (cases "file_at s i") auto

text \<open>\<open>fs_getsize\<close> and \<open>fs_delete\<close> of a number that is not negative, whether it can be loaded or not.\<close>

lemma fs_getsize_any:
  assumes "fs_inv s" "room s" "0 \<le> i"
  shows "runs (fs_getsize i s) (\<lambda>(r, u). fs_inv u \<and> room u \<and> mount_of u = mount_of s \<and> file_at u = file_at s \<and>
    r = (case file_at s i of None \<Rightarrow> -1 | Some (sz, f) \<Rightarrow> sz))"
proof (cases "i \<in> reach s")
  case True
  then show ?thesis by (rule fs_getsize_runs [OF assms(1,2)])
next
  case False
  then show ?thesis
    using get_inode_unreachable [OF assms(1,3)] fs_inv_bump [OF assms(1)] assms(2) fs_invD(10) [OF assms(1)]
    by (simp add: fs_getsize_def unreachable_no_file [OF assms(1)])
qed

lemma fs_delete_missing_any:
  assumes "fs_inv s" "room s" "0 \<le> i" "file_at s i = None"
  shows "runs (fs_delete i s) (\<lambda>(r, u). r = 0 \<and> fs_inv u \<and> room u \<and> mount_of u = mount_of s \<and> file_at u = file_at s)"
proof (cases "i \<in> reach s")
  case True
  then show ?thesis by (rule fs_delete_missing [OF assms(1,2) _ assms(4)])
next
  case False
  then show ?thesis
    using get_inode_unreachable [OF assms(1,3)] fs_inv_bump [OF assms(1)] assms(2) fs_invD(10) [OF assms(1)]
    by (simp add: fs_delete_def)
qed

section \<open>Debugging output\<close>

lemma foldE_state_runs:
  assumes "\<And>x t. x \<in> set xs \<Longrightarrow> P (snd t) \<Longrightarrow> runs (f x t) (\<lambda>t'. P (snd t'))" "P (snd t)"
  shows "runs (foldE f xs t) (\<lambda>t'. P (snd t'))"
  using runs_foldE [of xs "\<lambda>t. P (snd t)" f t] assms by blast

lemma read_block_kept:
  assumes "fs_inv s" "0 \<le> b" "b < numblocks s"
  shows "runs (read_block b s) (\<lambda>(x, u). x = D s b \<and> fs_inv u \<and> room u = room s \<and> mount_of u = mount_of s \<and> file_at u = file_at s \<and> D u = D s \<and> reads s u)"
proof -
  from read_block_runs [OF fs_invD(1) [OF assms(1)] assms(2,3)] obtain u where u: "read_block b s = Inr (D s b, u)" "reads s u"
    by (auto simp: runs_iff)
  show ?thesis using u fs_inv_reads [OF assms(1) u(2)] mount_of_simps(2) [OF u(2)] readsD(1) [OF u(2)] by simp
qed

text \<open>The lines for inode \<open>j\<close>: nothing for a free one, else its size and its blocks up to the first hole.\<close>

definition debug_of :: "fs \<Rightarrow> int \<Rightarrow> debug_line list" where
  "debug_of s j = (let ino = disk_inode s j in
     if isvalid ino = 0 then []
     else InodeLine j (i_size ino) (nonzero (direct ino)) #
       (if indirect ino = 0 then [] else [IndirectLine (indirect ino) (nonzero (pointers_of (D s (sint (indirect ino)))))]))"

lemma debug_inode_runs:
  assumes r: "reads s u" and g: "geometry s"
    and ib: "isvalid (disk_inode s j) \<noteq> 0 \<Longrightarrow> indirect (disk_inode s j) \<noteq> 0 \<Longrightarrow> data_block (numblocks s) (sint (indirect (disk_inode s j)))"
  shows "runs (debug_inode j (disk_inode s j) u) (\<lambda>(ls, v). ls = debug_of s j \<and> reads s v)"
proof (cases "isvalid (disk_inode s j) = 0 \<or> indirect (disk_inode s j) = 0")
  case True
  then show ?thesis using r by (auto simp: debug_inode_def debug_of_def nonzero_def Let_def)
next
  case False
  note e = readsD [OF r]
  have "geometry u" by (rule geometry_cong [OF g]) (use e in simp_all)
  then obtain v where v: "read_block (sint (indirect (disk_inode s j))) u = Inr (D u (sint (indirect (disk_inode s j))), v)" "reads u v"
    using read_block_runs [of u "sint (indirect (disk_inode s j))"] data_block_range [OF g ib] False e(3) by (auto simp: runs_iff)
  then show ?thesis using False e(1) reads_trans [OF r v(2)] by (simp add: debug_inode_def debug_of_def nonzero_def Let_def)
qed

lemma in_table:
  fixes x y n :: int
  assumes "x < 128" "y < n"
  shows "x + y * 128 < 128 * n"
  using assms by linarith

lemma debug_inode_block_runs:
  assumes inv: "geometry s" and i: "int i < 1 + numblocks s div 10"
    and ib: "\<And>j. 0 \<le> j \<Longrightarrow> j < 128 * (1 + numblocks s div 10) \<Longrightarrow> isvalid (disk_inode s j) \<noteq> 0 \<Longrightarrow> indirect (disk_inode s j) \<noteq> 0 \<Longrightarrow>
      data_block (numblocks s) (sint (indirect (disk_inode s j)))"
    and u: "reads s u" and sb: "sint (sb_nblocks sb) = numblocks s"
  shows "runs (debug_inode_block sb i (out @ concat (map (\<lambda>j. debug_of s (int j)) [0..<128 * i]), u))
    (\<lambda>(ls, v). ls = out @ concat (map (\<lambda>j. debug_of s (int j)) [0..<128 * Suc i]) \<and> reads s v)"
proof -
  note g = geometryD [OF inv] and e = readsD [OF u]
  have gu: "geometry u" by (rule geometry_cong [OF inv]) (use e in simp_all)
  have b: "0 \<le> int i + 1" "int i + 1 < numblocks s" using i g(2) by linarith+
  obtain v where v: "read_block (int i + 1) u = Inr (D s (int i + 1), v)" "reads u v"
    using read_block_runs [OF gu, of "int i + 1"] b e by (auto simp: runs_iff)
  have x: "get_inode_at (D s (int i + 1)) (int j) = disk_inode s (int j + int i * 128)" if "j < 128" for j
  proof -
    have "(int j + int i * 128) div 128 = int i" "(int j + int i * 128) mod 128 = int j" using that by simp_all
    then show ?thesis by (simp only: disk_inode_def) (simp add: add.commute)
  qed
  let ?f = "\<lambda>j (out, s). bindE (debug_inode (int j + int i * INODES_PER_BLOCK) (get_inode_at (D u (int i + 1)) (int j)) s) (\<lambda>(ls, s). Inr (out @ ls, s))"
  let ?I = "\<lambda>k (ls, v). ls = out @ concat (map (\<lambda>j. debug_of s (int j)) [0..<128 * i + k]) \<and> reads s v"
  have "runs (foldE ?f [0..<128] (out @ concat (map (\<lambda>j. debug_of s (int j)) [0..<128 * i]), v)) (?I 128)"
  proof (rule runs_foldE_upto [where I = ?I])
    fix k t assume k: "k < 128" and t: "?I k t"
    obtain w where w: "t = (out @ concat (map (\<lambda>j. debug_of s (int j)) [0..<128 * i + k]), w)" "reads s w" using t by (cases t) auto
    have j: "0 \<le> int k + int i * 128" "int k + int i * 128 < 128 * (1 + numblocks s div 10)"
      using in_table [OF _ i, of "int k"] k by simp_all
    obtain w' where w': "debug_inode (int k + int i * 128) (disk_inode s (int k + int i * 128)) w = Inr (debug_of s (int k + int i * 128), w')" "reads s w'"
      using debug_inode_runs [OF w(2) inv ib [OF j]] by (auto simp: runs_iff)
    show "runs (?f k t) (?I (Suc k))" using w(1) w' x [OF k] e(1) by (simp add: INODES_PER_BLOCK_def add.commute mult.commute)
  qed (use reads_trans [OF u v(2)] in simp)
  moreover have "128 * i + 128 = 128 * Suc i" by simp
  ultimately show ?thesis using v(1) b sb e(1) by (simp add: debug_inode_block_def)
qed

theorem fs_debug_runs:
  assumes inv: "fs_inv s"
  shows "runs (fs_debug s) (\<lambda>(out, u). fs_inv u \<and> room u = room s \<and> mount_of u = mount_of s \<and> file_at u = file_at s \<and>
    out = SuperLine (sb_nblocks (layout (numblocks s))) (ninodeblocks (layout (numblocks s))) (ninodes (layout (numblocks s))) #
      concat (map (\<lambda>j. debug_of u (int j)) [0..<nat (numinodes s)]))"
proof -
  note s = fs_invD [OF inv] and g = geometryD [OF fs_invD(1) [OF inv]]
  have lay: "sint (sb_nblocks (layout (numblocks s))) = numblocks s" "sint (ninodeblocks (layout (numblocks s))) = 1 + numblocks s div 10"
    using layout_sint [OF g(2)] g(1,5) by simp_all
  obtain s1 where r1: "read_block 0 s = Inr (D s 0, s1)" "reads s s1"
    using read_block_runs [OF s(1), of 0] g(3) by (auto simp: runs_iff)
  note i1 = fs_inv_reads [OF inv r1(2)] and e1 = readsD [OF r1(2)]
  obtain s2 where f: "flush_cache s1 = Inr s2" "cache_inv {} s2" "room s2 = room s1" "table s2 = table s1" "disk_inode s2 = table s1" "only_inodes s1 s2"
    using flush_cache_runs [OF fs_invD(5) [OF i1(1)]] by (auto simp: runs_iff)
  note i2 = fs_inv_frame [OF i1(1) f(6,2,4)]
  note g2 = fs_invD [OF i2(1)]
  have n2: "numblocks s2 = numblocks s" "numinodes s2 = numinodes s" using f(6) e1 by (simp_all add: only_inodes_def)
  have n0: "0 \<le> numblocks s div 10" using g(3) by (simp add: pos_imp_zdiv_nonneg_iff)
  have ib: "data_block (numblocks s2) (sint (indirect (disk_inode s2 j)))"
    if "0 \<le> j" "j < 128 * (1 + numblocks s2 div 10)" "indirect (disk_inode s2 j) \<noteq> 0" for j
    using pointers_okD(1) [OF g2(7), of j "-1"] that g2(2) f(4,5) by (simp add: slots_def ptr_indirect_block)
  let ?l = "layout (numblocks s)"
  let ?out = "[SuperLine (sb_nblocks ?l) (ninodeblocks ?l) (ninodes ?l)]"
  have "runs (foldE (debug_inode_block ?l) [0..<nat (1 + numblocks s div 10)] (?out, s2))
    ((\<lambda>i (ls, v). ls = ?out @ concat (map (\<lambda>j. debug_of s2 (int j)) [0..<128 * i]) \<and> reads s2 v) (nat (1 + numblocks s div 10)))"
  proof (rule runs_foldE_upto)
    fix i t assume i: "i < nat (1 + numblocks s div 10)"
      and t: "(\<lambda>i (ls, v). ls = ?out @ concat (map (\<lambda>j. debug_of s2 (int j)) [0..<128 * i]) \<and> reads s2 v) i t"
    obtain v where v: "t = (?out @ concat (map (\<lambda>j. debug_of s2 (int j)) [0..<128 * i]), v)" "reads s2 v" using t by (cases t) auto
    have "int i < 1 + numblocks s2 div 10" using i n2 by linarith
    from debug_inode_block_runs [OF g2(1) this ib v(2), of ?l ?out] show "runs (debug_inode_block ?l i t)
      ((\<lambda>i (ls, v). ls = ?out @ concat (map (\<lambda>j. debug_of s2 (int j)) [0..<128 * i]) \<and> reads s2 v) (Suc i))"
      using lay(1) n2 unfolding v(1) by simp
  qed simp
  then obtain v where v: "foldE (debug_inode_block ?l) [0..<nat (1 + numblocks s div 10)] (?out, s2) =
      Inr (?out @ concat (map (\<lambda>j. debug_of s2 (int j)) [0..<128 * nat (1 + numblocks s div 10)]), v)" "reads s2 v"
    by (auto simp: runs_iff)
  have nn: "128 * nat (1 + numblocks s div 10) = nat (numinodes s)" using s(2) n0 by (simp add: nat_mult_distrib)
  have dv: "debug_of v = debug_of s2" using readsD(1) [OF v(2)] by (intro ext) (simp add: debug_of_def disk_inode_def Let_def)
  have "the_cache s1 \<noteq> None" using fs_invD(5) [OF i1(1)] by (auto simp: cache_inv_def)
  then have "fs_debug s = Inr (?out @ concat (map (\<lambda>j. debug_of v (int j)) [0..<nat (numinodes s)]), v)"
    using r1(1) s(11) f(1) v(1) lay(2) unfolding nn dv by (simp add: fs_debug_def layout_def)
  then show ?thesis
    using fs_inv_reads [OF i2(1) v(2)] i2(2) i1(2,3) f(3) mount_of_simps(2) [OF v(2)] mount_of_simps(1) [OF f(6)] mount_of_simps(2) [OF r1(2)]
    by simp
qed

end
