(* ===== verification/FsStore.thy ===== *)
theory FsStore
  imports FsDebug
begin

text \<open>
  What the shell promises: a store of byte strings under inode numbers, and the simulation
  that shows the commands implement it when the cache has capacity 0.
\<close>

section \<open>The store\<close>

type_synonym store = "int \<Rightarrow> byte list option"

text \<open>The bytes \<open>bs\<close> are in the file: it has their length, no gap, and them from its beginning.\<close>

definition holds :: "contents \<Rightarrow> byte list \<Rightarrow> bool" where
  "holds c bs \<longleftrightarrow> fst c = int (length bs) \<and> (\<forall>k < length bs. snd c (int k) = Some (bs ! k)) \<and> gapless (snd c)"

definition stores :: "(int \<Rightarrow> contents option) \<Rightarrow> store \<Rightarrow> bool" where
  "stores F m \<longleftrightarrow> (\<forall>i. rel_option holds (F i) (m i))"

definition bytes_of :: "region \<Rightarrow> byte list" where
  "bytes_of h = map (\<lambda>k. reg_data h (int k)) [0..<nat (reg_len h)]"

definition region_of :: "byte list \<Rightarrow> region" where
  "region_of bs = \<lparr>reg_len = int (length bs), reg_data = (\<lambda>x. if 0 \<le> x \<and> x < int (length bs) then bs ! nat x else 0)\<rparr>"

lemma storesD:
  assumes "stores F m"
  shows "F i = None \<longleftrightarrow> m i = None" "F i = Some c \<Longrightarrow> \<exists>bs. m i = Some bs \<and> holds c bs"
    "m i = Some bs \<Longrightarrow> \<exists>c. F i = Some c \<and> holds c bs"
proof -
  have "rel_option holds (F i) (m i)" using assms by (simp add: stores_def)
  then show "F i = None \<longleftrightarrow> m i = None" "F i = Some c \<Longrightarrow> \<exists>bs. m i = Some bs \<and> holds c bs"
    "m i = Some bs \<Longrightarrow> \<exists>c. F i = Some c \<and> holds c bs" by (auto elim: option.rel_cases)
qed

lemma stores_upd:
  assumes "stores F m"
  shows "holds c bs \<Longrightarrow> stores (F(i := Some c)) (m(i := Some bs))" "stores (F(i := None)) (m(i := None))"
  using assms by (auto simp: stores_def)

lemma stores_empty [simp]: "stores (\<lambda>_. None) (\<lambda>_. None)"
  by (simp add: stores_def)

lemma holds_nil: "holds (0, \<lambda>_. None) []"
  by (simp add: holds_def gapless_def)

text \<open>Writing from the beginning leaves no gap.\<close>

lemma overwrite_gapless:
  assumes "gapless f" "0 \<le> n"
  shows "gapless (overwrite data d 0 n f)"
  unfolding gapless_def
proof (intro allI impI; elim conjE)
  fix x y assume a: "0 \<le> x" "x < y" "y < MAX_OFFSET" "y < 5 * 4096 \<or> 5 * 4096 \<le> x" and y: "overwrite data d 0 n f y \<noteq> None"
  have s: "slot_of x \<le> slot_of y" "slot_of 0 \<le> slot_of x" using a by (auto intro: slot_of_mono)
  show "overwrite data d 0 n f x \<noteq> None"
  proof (cases "f y = None")
    case True
    then have "0 < n \<and> slot_of y \<le> slot_of (n - 1)"
      using y a slot_of_mono [of y "n - 1"] by (auto simp: overwrite_def split: if_splits)
    then show ?thesis using s a(1) by (simp add: overwrite_def)
  next
    case False
    then have "f x \<noteq> None" using assms(1) a unfolding gapless_def by blast
    then show ?thesis by (simp add: overwrite_def)
  qed
qed

lemma holds_copied:
  assumes h: "holds (sz, f) bs" and n: "0 \<le> n" "n \<le> reg_len r"
  shows "holds (max sz n, overwrite (reg_data r) 0 0 n f) (take (nat n) (bytes_of r) @ drop (nat n) bs)"
proof -
  let ?cs = "take (nat n) (bytes_of r) @ drop (nat n) bs"
  have len: "length (bytes_of r) = nat (reg_len r)" by (simp add: bytes_of_def)
  then have l: "int (length ?cs) = max sz n" using h n by (auto simp: holds_def)
  have "overwrite (reg_data r) 0 0 n f (int k) = Some (?cs ! k)" if k: "k < length ?cs" for k
  proof (cases "int k < n")
    case True
    then have "k < nat n" "k < nat (reg_len r)" using n by linarith+
    then show ?thesis using True len by (simp add: overwrite_def nth_append bytes_of_def)
  next
    case False
    then have "\<not> k < nat n" and "nat n + (k - nat n) = k" and "k < length bs" using k len n by auto
    moreover have "length (take (nat n) (bytes_of r)) = nat n" using len n by simp
    ultimately have "?cs ! k = bs ! k" unfolding nth_append by (simp only: if_False) simp
    then show ?thesis using False h n \<open>k < length bs\<close> by (simp add: overwrite_def holds_def)
  qed
  then show ?thesis using l overwrite_gapless [of f n] h n by (simp add: holds_def)
qed

lemma holds_read:
  assumes h: "holds (sz, f) bs" and n: "0 \<le> n" "n \<le> sz" "n < sz \<longrightarrow> f n = None" and out: "\<forall>x. 0 \<le> x \<and> x < n \<longrightarrow> f x = Some (out x)" "\<forall>x. x < 0 \<or> n \<le> x \<longrightarrow> out x = 0"
  shows "n = int (length bs)" "\<lparr>reg_len = n, reg_data = out\<rparr> = region_of bs"
proof -
  have sz: "sz = int (length bs)" using h by (simp add: holds_def)
  show n: "n = int (length bs)"
  proof (rule ccontr)
    assume "n \<noteq> int (length bs)"
    then have "n < sz" "nat n < length bs" "int (nat n) = n" using n sz by linarith+
    then show False using h n(3) by (auto simp: holds_def)
  qed
  have "out x = reg_data (region_of bs) x" for x
  proof (cases "0 \<le> x \<and> x < n")
    case True
    then have "nat x < length bs" "int (nat x) = x" using n by linarith+
    then have "f x = Some (bs ! nat x)" using h unfolding holds_def by (metis fst_conv snd_conv)
    then show ?thesis using out(1) True n by (auto simp: region_of_def)
  next
    case False
    then show ?thesis using out(2) n by (auto simp: region_of_def)
  qed
  then show "\<lparr>reg_len = n, reg_data = out\<rparr> = region_of bs" using n by (auto simp: region_of_def)
qed

section \<open>The shell as a store\<close>

text \<open>A drive that was never formatted, one formatted and not mounted since the program started, and the rest.\<close>

datatype drive = Blank | Fresh | Unmounted store | Mounted store

fun files :: "drive \<Rightarrow> store" where
  "files (Mounted m) = m"
| "files (Unmounted m) = (\<lambda>_. None)"
| "files Fresh = (\<lambda>_. None)"
| "files Blank = (\<lambda>_. None)"

fun is_in_use :: "drive \<Rightarrow> bool" where
  "is_in_use (Mounted m) = True"
| "is_in_use (Unmounted m) = False"
| "is_in_use Fresh = False"
| "is_in_use Blank = False"

fun formatted :: "drive \<Rightarrow> drive" where
  "formatted (Mounted m) = Mounted m"
| "formatted (Unmounted m) = Unmounted (\<lambda>_. None)"
| "formatted Fresh = Fresh"
| "formatted Blank = Fresh"

text \<open>What mounting finds: \<open>None\<close> without a file system.\<close>

fun on_disk :: "drive \<Rightarrow> store option" where
  "on_disk (Mounted m) = Some m"
| "on_disk (Unmounted m) = Some m"
| "on_disk Fresh = Some (\<lambda>_. None)"
| "on_disk Blank = None"

text \<open>On a disk of \<open>n\<close> blocks inodes below this number can be created.\<close>

definition creatable :: "int \<Rightarrow> int \<Rightarrow> bool" where
  "creatable n i \<longleftrightarrow> 0 \<le> i \<and> i div 128 < n div 10"

definition contents_of :: "drive \<Rightarrow> int \<Rightarrow> byte list" where
  "contents_of d i = (case files d i of None \<Rightarrow> [] | Some bs \<Rightarrow> bs)"

text \<open>
  \<open>answers n w d H c r d' H'\<close>: on a disk of \<open>n\<close> blocks the command \<open>c\<close> may be answered
  by \<open>r\<close>, and takes the drive from \<open>d\<close> to \<open>d'\<close> and the host's files from \<open>H\<close> to \<open>H'\<close>.  How much of a file
  fits on the disk is left open, and so is what \<open>debug\<close> prints.
\<close>

inductive answers :: "int \<Rightarrow> (string \<Rightarrow> bool) \<Rightarrow> drive \<Rightarrow> (string \<Rightarrow> region option) \<Rightarrow> command \<Rightarrow> reply \<Rightarrow> drive \<Rightarrow> (string \<Rightarrow> region option) \<Rightarrow> bool"
  for n :: int and w :: "string \<Rightarrow> bool" where
  formats: "\<not> is_in_use d \<Longrightarrow> answers n w d H Format Done (formatted d) H"
| format_refused: "is_in_use d \<Longrightarrow> answers n w d H Format Failed d H"
| mounts: "on_disk d = Some m \<Longrightarrow> answers n w d H Mount Done (Mounted m) H"
| mount_fails: "on_disk d = None \<Longrightarrow> answers n w d H Mount Failed d H"
| unmounts: "answers n w (Mounted m) H Unmount Done (Unmounted m) H"
| unmount_fails: "\<not> is_in_use d \<Longrightarrow> answers n w d H Unmount Failed d H"
| quits: "answers n w (Mounted m) H Quit (Info ''quit'') (Unmounted m) H"
| quits_unmounted: "\<not> is_in_use d \<Longrightarrow> answers n w d H Quit (Info ''quit'') d H"
| debugs: "answers n w d H Debug (Listing out) d H"
| sizes: "files d i = Some bs \<Longrightarrow> answers n w d H (Getsize i) (Size i (int (length bs))) d H"
| size_fails: "files d i = None \<Longrightarrow> answers n w d H (Getsize i) Failed d H"
| creates: "creatable n i \<Longrightarrow> m i = None \<Longrightarrow> (\<forall>j. 0 \<le> j \<and> j < i \<longrightarrow> m j \<noteq> None) \<Longrightarrow>
    answers n w (Mounted m) H Create (Created i) (Mounted (m(i := Some []))) H"
| create_fails: "\<not> is_in_use d \<or> (\<forall>i. creatable n i \<longrightarrow> files d i \<noteq> None) \<Longrightarrow> answers n w d H Create Failed d H"
| deletes: "m i \<noteq> None \<Longrightarrow> answers n w (Mounted m) H (Delete i) Done (Mounted (m(i := None))) H"
| delete_fails: "files d i = None \<Longrightarrow> answers n w d H (Delete i) Failed d H"
| copies_in: "m i = Some bs \<Longrightarrow> H name = Some h \<Longrightarrow> 0 \<le> k \<Longrightarrow> k \<le> max 0 (reg_len h) \<Longrightarrow>
    answers n w (Mounted m) H (Copyin name i) (Copied k (region_of [])) (Mounted (m(i := Some (take (nat k) (bytes_of h) @ drop (nat k) bs)))) H"
| copies_nothing: "files d i = None \<Longrightarrow> H name \<noteq> None \<Longrightarrow> answers n w d H (Copyin name i) (Copied 0 (region_of [])) d H"
| no_input: "H name = None \<Longrightarrow> answers n w d H (Copyin name i) Failed d H"
| copies_out: "w name \<Longrightarrow> bs = contents_of d i \<Longrightarrow>
    answers n w d H (Copyout i name) (Copied (int (length bs)) (region_of [])) d (H(name := Some (region_of bs)))"
| no_output: "\<not> w name \<Longrightarrow> answers n w d H (Copyout i name) Failed d H"
| cats: "w ''/dev/stdout'' \<Longrightarrow> bs = contents_of d i \<Longrightarrow> answers n w d H (Cat i) (Copied (int (length bs)) (region_of bs)) d H"
| cat_fails: "\<not> w ''/dev/stdout'' \<Longrightarrow> answers n w d H (Cat i) Failed d H"
| informs: "c = Help \<and> t = ''help'' \<or> c = Usage t \<or> c = Unknown t \<Longrightarrow> answers n w d H c (Info t) d H"

text \<open>
  Whether a disk is formatted and mounted depends on the commands alone.  The code is ready for commands
  with no negative inode number, and for \<open>debug\<close> unless the disk has been unmounted.
\<close>

datatype phase = Raw | New | Idle | Live

fun phase_of :: "drive \<Rightarrow> phase" where
  "phase_of Blank = Raw"
| "phase_of Fresh = New"
| "phase_of (Unmounted m) = Idle"
| "phase_of (Mounted m) = Live"

fun after :: "command \<Rightarrow> phase \<Rightarrow> phase" where
  "after Format p = (if p = Raw then New else p)"
| "after Mount p = (if p = Raw then Raw else Live)"
| "after Unmount p = (if p = Live then Idle else p)"
| "after Quit p = (if p = Live then Idle else p)"
| "after c p = p"

fun sane :: "phase \<Rightarrow> command \<Rightarrow> bool" where
  "sane p Debug = (p \<noteq> Idle)"
| "sane p (Getsize i) = (0 \<le> i)"
| "sane p (Delete i) = (0 \<le> i)"
| "sane p (Cat i) = (0 \<le> i)"
| "sane p (Copyin name i) = (0 \<le> i)"
| "sane p (Copyout i name) = (0 \<le> i)"
| "sane p c = True"

lemma answers_phase: "answers n w d H c r d' H' \<Longrightarrow> phase_of d' = after c (phase_of d)"
proof (induction rule: answers.induct)
  case (formats d)
  then show ?case by (cases d) auto
next
  case (format_refused d)
  then show ?case by (cases d) auto
next
  case (mounts d)
  then show ?case by (cases d) auto
next
  case (mount_fails d)
  then show ?case by (cases d) auto
next
  case (unmount_fails d)
  then show ?case by (cases d) auto
next
  case (quits_unmounted d)
  then show ?case by (cases d) auto
qed auto

fun represents :: "int \<Rightarrow> drive \<Rightarrow> fs \<Rightarrow> bool" where
  "represents n (Mounted m) s \<longleftrightarrow> fs_inv s \<and> mount_of s = (n, Some 0) \<and> stores (file_at s) m"
| "represents n (Unmounted m) s \<longleftrightarrow> \<not> is_mounted s \<and> disk_inv s \<and> nblocks (dev s) = n \<and> stores (file_on_disk s) m"
| "represents n Fresh s \<longleftrightarrow> \<not> is_mounted s \<and> disk_inv s \<and> nblocks (dev s) = n \<and> stores (file_on_disk s) (\<lambda>_. None) \<and> the_cache s = None"
| "represents n Blank s \<longleftrightarrow> \<not> is_mounted s \<and> the_cache s = None \<and> magic (get_super (D s 0)) \<noteq> FS_MAGIC \<and> nblocks (dev s) = n \<and>
     2 + n div 10 \<le> n \<and> n * DISK_BLOCK_SIZE \<le> INT_MAX \<and> (\<forall>a. heap_inodes s a \<noteq> None \<longrightarrow> a < next_inode s)"

section \<open>One command\<close>

lemma no_capacity:
  assumes inv: "fs_inv s" and m: "mount_of s = (n, Some 0)"
  shows "cnodes s = []" "room s" "table s = disk_inode s" "numblocks s = n" "nblocks (dev s) = n"
proof -
  obtain c where c: "the_cache s = Some c" "list_ok c" "cnodes s = nodes c"
    using fs_invD(5) [OF inv] by (elim cache_invE) blast
  have "capacity c = 0" and nb: "numblocks s = n" using m c(1) by (simp_all add: mount_of_def)
  moreover have "int (length (nodes c)) \<le> current_size c" "current_size c \<le> capacity c" using c(2) by (simp_all add: list_ok_def)
  ultimately have "length (nodes c) = 0" by linarith
  then show "cnodes s = []" "room s" using c \<open>capacity c = 0\<close> by (simp_all add: room_def)
  then show "table s = disk_inode s" by (intro ext) (simp add: table_out)
  show "numblocks s = n" "nblocks (dev s) = n" using nb geometryD(1) [OF fs_invD(1) [OF inv]] by simp_all
qed

lemma used_iff_file:
  assumes "fs_inv s" "0 \<le> i" "i < numinodes s"
  shows "used s i \<longleftrightarrow> file_at s i \<noteq> None"
  using inodes_okD(4) [OF fs_invD(6) [OF assms(1)] assms(2,3)] assms(2,3) by (auto simp: file_at_def)

lemma reach_creatable: "fs_inv s \<Longrightarrow> mount_of s = (n, Some 0) \<Longrightarrow> reach s = {i. creatable n i}"
  using fs_invD(8) [of s] no_capacity(4) [of s n] by (auto simp: reach_def creatable_def)

lemma reach_numinodes: "fs_inv s \<Longrightarrow> i \<in> reach s \<Longrightarrow> 0 \<le> i \<and> i < numinodes s"
  using fs_invD(2,8) [of s] div_below [of 128 i "1 + numblocks s div 10"] by (simp add: reach_def mult.commute)

lemma stores_gapless: "stores F m \<Longrightarrow> F i = Some (sz, f) \<Longrightarrow> gapless f"
  using storesD(2) [of F m i "(sz, f)"] by (auto simp: holds_def)

lemma disk_of_mounted:
  assumes "represents n (Mounted m) s"
  shows "disk_inv s" "file_on_disk s = file_at s"
proof -
  have inv: "fs_inv s" and m: "mount_of s = (n, Some 0)" using assms by simp_all
  have "disk_inode s = table s" using no_capacity(3) [OF inv m] by simp
  moreover have "\<forall>a. heap_inodes s a \<noteq> None \<longrightarrow> a < next_inode s" using fs_invD(5) [OF inv] by (simp add: cache_inv_def)
  ultimately show "disk_inv s" "file_on_disk s = file_at s" using disk_inv_synced [OF inv, of s] by simp_all
qed

text \<open>Mounting, from either state of a formatted disk.\<close>

lemma mount_represents:
  assumes "disk_inv s" "stores (file_on_disk s) m" "nblocks (dev s) = n"
  shows "runs (fs_mount 0 s) (\<lambda>(r, u). r = 1 \<and> represents n (Mounted m) u)"
proof -
  have "no_holes (D s) (disk_inode s j)" if j: "0 \<le> j" "j < 128 * (1 + nblocks (dev s) div 10)" for j
    by (rule gapless_disk [OF assms(1) stores_gapless [OF assms(2)] j])
  from fs_mount_runs [OF assms(1) this, of 0] show ?thesis using assms(2,3) by (auto simp: runs_iff INT_MAX_def)
qed

lemma unmount_represents:
  assumes "represents n (Mounted m) s"
  shows "runs (fs_unmount s) (\<lambda>(r, u). r = 1 \<and> represents n (Unmounted m) u)"
  using fs_unmount_runs [of s] no_capacity(5) [of s n] assms by (auto simp: runs_iff)

lemma format_represents:
  assumes "represents n d s" "\<not> is_in_use d"
  shows "runs (fs_format junk s) (\<lambda>(r, u). r = 1 \<and> represents n (formatted d) u)"
proof -
  have "\<not> is_mounted s" "2 + nblocks (dev s) div 10 \<le> nblocks (dev s)" "nblocks (dev s) * DISK_BLOCK_SIZE \<le> INT_MAX"
      "\<forall>a. heap_inodes s a \<noteq> None \<longrightarrow> a < next_inode s" "nblocks (dev s) = n"
    using assms disk_invD(1,2,4) [of s] by (cases d; auto)+
  then show ?thesis using fs_format_runs [of s junk] assms by (cases d) (auto simp: runs_iff)
qed

definition small :: "(string \<Rightarrow> region option) \<Rightarrow> bool" where
  "small H \<longleftrightarrow> (\<forall>name h. H name = Some h \<longrightarrow> reg_len h \<le> MAX_OFFSET)"

definition answered :: "int \<Rightarrow> drive \<Rightarrow> shell \<Rightarrow> command \<Rightarrow> (reply \<times> shell) result option \<Rightarrow> bool" where
  "answered n d sh c m \<longleftrightarrow> (\<exists>r sh' d'. m = Some (Inr (r, sh')) \<and> answers n (writable sh) d (host_file sh) c r d' (host_file sh') \<and>
     represents n d' (sh_fs sh') \<and> writable sh' = writable sh \<and> small (host_file sh'))"

lemma answered_call:
  assumes "small (host_file sh)"
    "runs m (\<lambda>(r, u). \<exists>d'. represents n d' u \<and> answers n (writable sh) d (host_file sh) c (f r) d' (host_file sh))"
  shows "answered n d sh c (answer f sh m)"
  using assms by (auto simp: answered_def answer_def runs_iff)

lemma represents_in_use: "represents n d s \<Longrightarrow> is_mounted s \<longleftrightarrow> is_in_use d"
  using fs_invD(10) by (cases d) auto

lemma idle_calls:
  assumes "represents n d s" "\<not> is_in_use d"
  shows "fs_getsize i s = Inr (-1, s)" "fs_create s = Inr (-1, s)" "fs_delete i s = Inr (0, s)" "fs_unmount s = Inr (0, s)"
    "files d = (\<lambda>_. None)"
proof -
  have "\<not> is_mounted s" using represents_in_use [OF assms(1)] assms(2) by simp
  then show "fs_getsize i s = Inr (-1, s)" "fs_create s = Inr (-1, s)" "fs_delete i s = Inr (0, s)" "fs_unmount s = Inr (0, s)"
    by (rule not_mounted_calls)+
  show "files d = (\<lambda>_. None)" using assms(2) by (cases d) auto
qed

text \<open>Reading and writing where there is no file, mounted or not.\<close>

lemma no_file_calls:
  assumes r: "represents n d s" and f: "files d i = None" and i: "0 \<le> i"
  shows "fs_read i buf len off s = Inr (0, buf, s)" "fs_write i buf len off s = Inr (0, s)"
proof -
  show "fs_read i buf len off s = Inr (0, buf, s)"
  proof (cases d)
    case (Mounted m)
    then show ?thesis using missing_file_calls(1) [of s i] storesD(1) [of "file_at s" m i] r f i by simp
  qed (use r not_mounted_calls(5) in auto)
  show "fs_write i buf len off s = Inr (0, s)"
  proof (cases d)
    case (Mounted m)
    then show ?thesis using missing_file_calls(2) [of s i] storesD(1) [of "file_at s" m i] r f i by simp
  qed (use r not_mounted_calls(6) in auto)
qed

lemma representsM_same:
  assumes "represents n (Mounted m) s" "fs_inv u" "mount_of u = mount_of s" "file_at u = file_at s"
  shows "represents n (Mounted m) u"
  using assms by simp

lemma getsize_answers:
  assumes r: "represents n d s" and i: "0 \<le> i"
  shows "runs (fs_getsize i s) (\<lambda>(r, u). represents n d u \<and> r = (case files d i of None \<Rightarrow> -1 | Some bs \<Rightarrow> int (length bs)))"
proof (cases d)
  case (Mounted m)
  have s: "fs_inv s" "mount_of s = (n, Some 0)" "stores (file_at s) m" using r Mounted by simp_all
  have "(case file_at s i of None \<Rightarrow> -1 | Some (sz, f) \<Rightarrow> sz) = (case files d i of None \<Rightarrow> -1 | Some bs \<Rightarrow> int (length bs))"
    using storesD [OF s(3), of i] Mounted by (auto simp: holds_def split: option.splits)
  then show ?thesis using fs_getsize_any [OF s(1) no_capacity(2) [OF s(1,2)] i] s Mounted by (auto simp: runs_iff)
qed (use r not_mounted_calls(1) in auto)

lemma least_int:
  assumes "P x" "0 \<le> (x :: int)"
  shows "\<exists>i. 0 \<le> i \<and> P i \<and> (\<forall>j. 0 \<le> j \<and> j < i \<longrightarrow> \<not> P j)"
  using assms
proof (induction "nat x" arbitrary: x rule: less_induct)
  case less
  show ?case
  proof (cases "\<exists>j. 0 \<le> j \<and> j < x \<and> P j")
    case True
    then obtain j where j: "0 \<le> j" "j < x" "P j" by blast
    then have "nat j < nat x" by simp
    then show ?thesis using less.hyps [of j] j by blast
  next
    case False
    then show ?thesis using less.prems by blast
  qed
qed

lemma creatable_below: "creatable n i \<Longrightarrow> 0 \<le> j \<Longrightarrow> j < i \<Longrightarrow> creatable n j"
  unfolding creatable_def using zdiv_mono1 [of j i 128] by linarith

lemma least_creatable:
  assumes "\<not> (\<forall>i. creatable n i \<longrightarrow> m i \<noteq> None)"
  shows "\<exists>i. creatable n i \<and> m i = None \<and> (\<forall>j. 0 \<le> j \<and> j < i \<longrightarrow> m j \<noteq> None \<and> creatable n j)"
proof -
  from assms obtain x where x: "creatable n x" "m x = None" by auto
  then have "0 \<le> x" by (simp add: creatable_def)
  with x obtain i where i: "creatable n i \<and> m i = None" "\<forall>j. 0 \<le> j \<and> j < i \<longrightarrow> \<not> (creatable n j \<and> m j = None)"
    using least_int [of "\<lambda>x. creatable n x \<and> m x = None" x] by auto
  then show ?thesis using creatable_below [of n i] by auto
qed

lemma create_answers:
  assumes r: "represents n (Mounted m) s"
  shows "runs (fs_create s) (\<lambda>(r, u). (\<forall>i. creatable n i \<longrightarrow> m i \<noteq> None) \<and> r = -1 \<and> represents n (Mounted m) u \<or>
    creatable n r \<and> m r = None \<and> (\<forall>j. 0 \<le> j \<and> j < r \<longrightarrow> m j \<noteq> None) \<and> represents n (Mounted (m(r := Some []))) u)"
proof -
  have s: "fs_inv s" "mount_of s = (n, Some 0)" "stores (file_at s) m" using r by simp_all
  note re = reach_creatable [OF s(1,2)]
  have us: "used s i \<longleftrightarrow> m i \<noteq> None" if "creatable n i" for i
  proof -
    have "i \<in> reach s" using that re by simp
    then have "used s i \<longleftrightarrow> file_at s i \<noteq> None" using used_iff_file [OF s(1)] reach_numinodes [OF s(1)] by simp
    then show ?thesis using storesD(1) [OF s(3), of i] by simp
  qed
  show ?thesis
  proof (cases "\<forall>i. creatable n i \<longrightarrow> m i \<noteq> None")
    case True
    have "fs_create s = Inr (-1, s)"
    proof (rule fs_create_full [OF s(1)])
      fix j assume "j \<in> reach s"
      then have "creatable n j" using re by simp
      then show "used s j" using True us by simp
    qed
    then show ?thesis using True r by simp
  next
    case False
    from least_creatable [OF this] obtain i where i: "creatable n i" "m i = None" and below: "\<forall>j. 0 \<le> j \<and> j < i \<longrightarrow> m j \<noteq> None \<and> creatable n j"
      by (elim exE conjE)
    have "runs (fs_create s) (\<lambda>(r, u). r = i \<and> fs_inv u \<and> room u = room s \<and> mount_of u = mount_of s \<and> file_at u = (file_at s)(i := Some (0, \<lambda>_. None)))"
    proof (rule fs_create_runs [OF s(1)])
      show "i \<in> reach s" using i(1) re by simp
      show "\<not> used s i" using us [OF i(1)] i(2) by simp
      show "used s j" if "0 \<le> j" "j < i" for j using us [of j] below that by simp
      show "i \<notin> n_inumber ` set (cnodes s)" using no_capacity(1) [OF s(1,2)] by simp
    qed
    then obtain u where u: "fs_create s = Inr (i, u)" "fs_inv u" "mount_of u = mount_of s" "file_at u = (file_at s)(i := Some (0, \<lambda>_. None))"
      by (auto simp: runs_iff)
    have "represents n (Mounted (m(i := Some []))) u" using u(2-4) s(2) stores_upd(1) [OF s(3) holds_nil] by simp
    moreover have "\<forall>j. 0 \<le> j \<and> j < i \<longrightarrow> m j \<noteq> None" using below by simp
    ultimately show ?thesis using i unfolding u(1) runs_simps prod.case by simp
  qed
qed

lemma delete_answers:
  assumes r: "represents n (Mounted m) s" and i: "0 \<le> i"
  shows "runs (fs_delete i s) (\<lambda>(r, u). if m i = None then r = 0 \<and> represents n (Mounted m) u
    else r = 1 \<and> represents n (Mounted (m(i := None))) u)"
proof -
  have s: "fs_inv s" "mount_of s = (n, Some 0)" "stores (file_at s) m" using r by simp_all
  note ro = no_capacity(2) [OF s(1,2)]
  show ?thesis
  proof (cases "file_at s i")
    case None
    then show ?thesis using fs_delete_missing_any [OF s(1) ro i None] storesD(1) [OF s(3), of i] s by (auto simp: runs_iff)
  next
    case (Some c)
    then obtain sz f where f: "file_at s i = Some (sz, f)" by (cases c) auto
    then show ?thesis using fs_delete_runs [OF s(1) ro f] storesD(1) [OF s(3), of i] s stores_upd(2) [OF s(3), of i] by (auto simp: runs_iff)
  qed
qed

text \<open>Copying into and out of a file, and where there is none.\<close>

lemma copyin_answers:
  assumes r: "represents n (Mounted m) s" and m: "m i = Some bs" and h: "reg_len h \<le> MAX_OFFSET"
  shows "runs (do_copyin (Some h) junk i s) (\<lambda>(r, k, u). r = 1 \<and> 0 \<le> k \<and> k \<le> max 0 (reg_len h) \<and> (k < reg_len h \<longrightarrow> nearly_full u) \<and>
    represents n (Mounted (m(i := Some (take (nat k) (bytes_of h) @ drop (nat k) bs)))) u)"
proof -
  have s: "fs_inv s" "mount_of s = (n, Some 0)" "stores (file_at s) m" using r by simp_all
  obtain sz f where f: "file_at s i = Some (sz, f)" "holds (sz, f) bs" using storesD(3) [OF s(3) m] by auto
  have sz: "0 \<le> sz" by (rule file_atD(8) [OF s(1) f(1)])
  obtain k u where u: "copyin_loop i h 0 0 junk s = Inr (k, u)" "fs_inv u" "mount_of u = mount_of s" "0 \<le> k" "k \<le> max 0 (reg_len h)"
      "k < reg_len h \<longrightarrow> nearly_full u" "file_at u = (file_at s)(i := Some (max sz k, overwrite (reg_data h) 0 0 k f))"
    using copyin_loop_runs [OF s(1) no_capacity(2) [OF s(1,2)] f(1) _ _ h sz, of junk] by (auto simp: runs_iff)
  have "holds (max sz k, overwrite (reg_data h) 0 0 k f) (take (nat k) (bytes_of h) @ drop (nat k) bs)"
  proof (cases "k = 0")
    case True
    then show ?thesis using f(2) sz by simp
  next
    case False
    then show ?thesis using holds_copied [OF f(2) u(4), of h] u(4,5) by simp
  qed
  then have "represents n (Mounted (m(i := Some (take (nat k) (bytes_of h) @ drop (nat k) bs)))) u"
    using u(2,3,7) s(2) stores_upd(1) [OF s(3)] by simp
  then show ?thesis using u(1,4,5,6) unfolding do_copyin_def by simp
qed

lemma copyin_nothing:
  assumes r: "represents n d s" and f: "files d i = None" and i: "0 \<le> i"
  shows "do_copyin (Some h) junk i s = Inr (1, 0, s)"
proof -
  have "copyin_loop i h 0 0 junk s = Inr (0, s)"
    using no_file_calls(2) [OF r f i] int_add_ok [of 0 0] by (subst copyin_loop.simps) (simp add: Let_def INT_MAX_def)
  then show ?thesis by (simp add: do_copyin_def)
qed

lemma copyout_answers:
  assumes r: "represents n d s" and i: "0 \<le> i"
  shows "\<exists>u. do_copyout True junk i s = Some (Inr (1, int (length (contents_of d i)), region_of (contents_of d i), u)) \<and> represents n d u"
proof (cases "files d i")
  case None
  then have "copyout_loop i 0 junk (\<lambda>_. 0) s = Some (Inr (0, \<lambda>_. 0, s))"
    using no_file_calls(1) [OF r None i] by (subst copyout_loop.simps) simp
  then show ?thesis using r None by (auto simp: do_copyout_def contents_of_def region_of_def fun_eq_iff)
next
  case (Some bs)
  then obtain m where d: "d = Mounted m" "m i = Some bs" by (cases d) auto
  have s: "fs_inv s" "mount_of s = (n, Some 0)" "stores (file_at s) m" using r d by simp_all
  obtain sz f where f: "file_at s i = Some (sz, f)" "holds (sz, f) bs" using storesD(3) [OF s(3) d(2)] by auto
  have sz: "0 \<le> sz" by (rule file_atD(8) [OF s(1) f(1)])
  obtain k out u where u: "copyout_loop i 0 junk (\<lambda>_. 0) s = Some (Inr (k, out, u))" "fs_inv u" "mount_of u = mount_of s" "file_at u = file_at s"
      "0 \<le> k" "k \<le> sz" "k < sz \<longrightarrow> f k = None" "\<forall>x. 0 \<le> x \<and> x < k \<longrightarrow> f x = Some (out x)" "\<forall>x. x < 0 \<or> k \<le> x \<longrightarrow> out x = 0"
    using copyout_loop_ends [OF s(1) no_capacity(2) [OF s(1,2)] f(1) order_refl sz, of junk "\<lambda>_. 0"] by auto
  note k = holds_read [OF f(2) u(5-9)]
  have "contents_of d i = bs" using Some by (simp add: contents_of_def)
  then show ?thesis using u(1-4) k s d(1) by (simp add: do_copyout_def)
qed

lemma small_upd: "small H \<Longrightarrow> reg_len h \<le> MAX_OFFSET \<Longrightarrow> small (H(name := Some h))"
  by (simp add: small_def)

lemma contents_small:
  assumes "represents n d s"
  shows "int (length (contents_of d i)) \<le> MAX_OFFSET"
proof (cases "files d i")
  case (Some bs)
  then obtain m where d: "d = Mounted m" "m i = Some bs" by (cases d) auto
  have s: "fs_inv s" "stores (file_at s) m" using assms d by simp_all
  obtain sz f where f: "file_at s i = Some (sz, f)" "holds (sz, f) bs" using storesD(3) [OF s(2) d(2)] by auto
  have "int (length bs) = sz" using f(2) by (simp add: holds_def)
  also have "\<dots> \<le> MAX_OFFSET" by (rule file_atD(9) [OF s(1) f(1)])
  finally show ?thesis using Some by (simp add: contents_of_def)
qed (simp add: contents_of_def MAX_OFFSET_val)

text \<open>The commands that do not touch the host's files.\<close>

lemma answeredI:
  assumes "small (host_file sh)" "m = Inr (r, u)" "represents n d' u" "answers n (writable sh) d (host_file sh) c (f r) d' (host_file sh)"
  shows "answered n d sh c (answer f sh m)"
  using assms by (auto simp: answered_def answer_def)

lemma shell_unchanged [simp]:
  "sh\<lparr>sh_fs := u, host_file := host_file sh\<rparr> = sh\<lparr>sh_fs := u\<rparr>" "sh\<lparr>sh_fs := sh_fs sh\<rparr> = (sh :: shell)"
  by simp_all

lemma answeredM:
  assumes "answers n (writable sh) d (host_file sh) c r d' H'" "represents n d' u" "small H'"
    "m = Some (Inr (r, sh\<lparr>sh_fs := u, host_file := H'\<rparr>))"
  shows "answered n d sh c m"
  using assms by (auto simp: answered_def)

lemma format_answered:
  assumes "represents n d (sh_fs sh)" "small (host_file sh)"
  shows "answered n d sh Format (do_command junk (Inr 0) Format sh)"
proof (cases "is_in_use d")
  case True
  then have "fs_format junk (sh_fs sh) = Inr (0, sh_fs sh)" using represents_in_use [OF assms(1)] by (simp add: fs_format_def)
  from answeredI [OF assms(2) this assms(1)] show ?thesis using format_refused [OF True] by (simp add: done_if_def)
next
  case False
  obtain u where "fs_format junk (sh_fs sh) = Inr (1, u)" "represents n (formatted d) u"
    using format_represents [OF assms(1) False, of junk] by (auto simp: runs_iff)
  from answeredI [OF assms(2) this] show ?thesis using formats [OF False] by (simp add: done_if_def)
qed

text \<open>A disk that has not been formatted is not mounted.\<close>

lemma mount_blank:
  assumes "represents n Blank s"
  shows "runs (fs_mount 0 s) (\<lambda>(r, u). r = 0 \<and> represents n Blank u)"
proof -
  have n: "0 < nblocks (dev s)" using assms layout_sint(4) [of "nblocks (dev s)"] by simp
  then have "disk_read 0 (dev s) = Inr (D s 0, (dev s)\<lparr>nreads := nreads (dev s) + 1\<rparr>)"
    using assms by (intro disk_read_ok) simp_all
  then show ?thesis using assms by (simp add: fs_mount_def read_block_def is_mounted_def)
qed

lemma mount_answered:
  assumes r: "represents n d (sh_fs sh)" and small: "small (host_file sh)"
  shows "answered n d sh Mount (do_command junk (Inr 0) Mount sh)"
proof (cases "on_disk d")
  case None
  then have d: "d = Blank" by (cases d) auto
  obtain u where "bindE (Inr 0) (\<lambda>c. fs_mount c (sh_fs sh)) = Inr (0, u)" "represents n Blank u"
    using mount_blank [of n "sh_fs sh"] r d by (auto simp: runs_iff)
  from answeredI [OF small this] show ?thesis using mount_fails [OF None] d by (simp add: done_if_def)
next
  case d: (Some m)
  have "disk_inv (sh_fs sh) \<and> stores (file_on_disk (sh_fs sh)) m \<and> nblocks (dev (sh_fs sh)) = n"
  proof (cases d)
    case (Mounted m')
    then show ?thesis using disk_of_mounted [of n m "sh_fs sh"] no_capacity(5) [of "sh_fs sh" n] r d by simp
  qed (use r d in auto)
  then obtain u where "bindE (Inr 0) (\<lambda>c. fs_mount c (sh_fs sh)) = Inr (1, u)" "represents n (Mounted m) u"
    using mount_represents [of "sh_fs sh" m n] by (auto simp: runs_iff)
  from answeredI [OF small this] show ?thesis using mounts [OF d] by (simp add: done_if_def)
qed

lemma unmount_answered:
  assumes r: "represents n d (sh_fs sh)" and small: "small (host_file sh)"
  shows "answered n d sh Unmount (do_command junk (Inr 0) Unmount sh)" "answered n d sh Quit (do_command junk (Inr 0) Quit sh)"
proof -
  have "\<exists>k u d'. fs_unmount (sh_fs sh) = Inr (k, u) \<and> represents n d' u \<and>
      answers n (writable sh) d (host_file sh) Unmount (done_if k) d' (host_file sh) \<and>
      answers n (writable sh) d (host_file sh) Quit (Info ''quit'') d' (host_file sh)"
  proof (cases "is_in_use d")
    case True
    then obtain m where d: "d = Mounted m" by (cases d) auto
    obtain u where "fs_unmount (sh_fs sh) = Inr (1, u)" "represents n (Unmounted m) u"
      using unmount_represents [of n m "sh_fs sh"] r d by (auto simp: runs_iff)
    then show ?thesis using d unmounts quits by (auto simp: done_if_def simp del: represents.simps)
  next
    case False
    then show ?thesis using idle_calls(4) [OF r False] r unmount_fails [OF False] quits_unmounted [OF False] by (auto simp: done_if_def)
  qed
  then obtain k u d' where m: "fs_unmount (sh_fs sh) = Inr (k, u)" "represents n d' u"
      and a: "answers n (writable sh) d (host_file sh) Unmount (done_if k) d' (host_file sh)"
        "answers n (writable sh) d (host_file sh) Quit (Info ''quit'') d' (host_file sh)" by (elim exE conjE)
  show "answered n d sh Unmount (do_command junk (Inr 0) Unmount sh)" unfolding do_command.simps by (rule answeredI [OF small m], rule a(1))
  show "answered n d sh Quit (do_command junk (Inr 0) Quit sh)" unfolding do_command.simps by (rule answeredI [OF small m], rule a(2))
qed

lemma getsize_answered:
  assumes r: "represents n d (sh_fs sh)" and small: "small (host_file sh)" and i: "0 \<le> i"
  shows "answered n d sh (Getsize i) (do_command junk (Inr 0) (Getsize i) sh)"
proof -
  obtain k u where m: "fs_getsize i (sh_fs sh) = Inr (k, u)" "represents n d u" "k = (case files d i of None \<Rightarrow> -1 | Some bs \<Rightarrow> int (length bs))"
    using getsize_answers [OF r i] by (auto simp: runs_iff)
  have "answers n (writable sh) d (host_file sh) (Getsize i) (if k \<ge> 0 then Size i k else Failed) d (host_file sh)"
    using m(3) sizes [of d i] size_fails [of d i] by (cases "files d i") auto
  from answeredI [OF small m(1,2), of d "Getsize i" "\<lambda>k. if k \<ge> 0 then Size i k else Failed"] this show ?thesis by simp
qed


lemma create_answered:
  assumes r: "represents n d (sh_fs sh)" and small: "small (host_file sh)"
  shows "answered n d sh Create (do_command junk (Inr 0) Create sh)"
proof -
  have "\<exists>k u d'. fs_create (sh_fs sh) = Inr (k, u) \<and> represents n d' u \<and>
      answers n (writable sh) d (host_file sh) Create (if k \<ge> 0 then Created k else Failed) d' (host_file sh)"
  proof (cases "is_in_use d")
    case True
    then obtain m where d: "d = Mounted m" by (cases d) auto
    obtain k u where "fs_create (sh_fs sh) = Inr (k, u)"
        "(\<forall>i. creatable n i \<longrightarrow> m i \<noteq> None) \<and> k = -1 \<and> represents n (Mounted m) u \<or>
         creatable n k \<and> m k = None \<and> (\<forall>j. 0 \<le> j \<and> j < k \<longrightarrow> m j \<noteq> None) \<and> represents n (Mounted (m(k := Some []))) u"
      using create_answers [of n m "sh_fs sh"] r d by (auto simp: runs_iff simp del: represents.simps)
    then show ?thesis using d create_fails [of d n] creates [of n k m]
      by (elim disjE conjE) (auto simp: creatable_def simp del: represents.simps)
  next
    case False
    then show ?thesis using idle_calls(2) [OF r False] r create_fails [of d] by auto
  qed
  then obtain k u d' where m: "fs_create (sh_fs sh) = Inr (k, u)" "represents n d' u"
      and a: "answers n (writable sh) d (host_file sh) Create (if k \<ge> 0 then Created k else Failed) d' (host_file sh)" by (elim exE conjE)
  show ?thesis unfolding do_command.simps by (rule answeredI [OF small m], rule a)
qed

lemma delete_answered:
  assumes r: "represents n d (sh_fs sh)" and small: "small (host_file sh)" and i: "0 \<le> i"
  shows "answered n d sh (Delete i) (do_command junk (Inr 0) (Delete i) sh)"
proof -
  have "\<exists>k u d'. fs_delete i (sh_fs sh) = Inr (k, u) \<and> represents n d' u \<and>
      answers n (writable sh) d (host_file sh) (Delete i) (done_if k) d' (host_file sh)"
  proof (cases "is_in_use d")
    case True
    then obtain m where d: "d = Mounted m" by (cases d) auto
    obtain k u where "fs_delete i (sh_fs sh) = Inr (k, u)"
        "if m i = None then k = 0 \<and> represents n (Mounted m) u else k = 1 \<and> represents n (Mounted (m(i := None))) u"
      using delete_answers [OF _ i, of n m "sh_fs sh"] r d by (auto simp: runs_iff simp del: represents.simps)
    then show ?thesis using d deletes [of m i] delete_fails [of d i]
      by (cases "m i = None") (auto simp: done_if_def simp del: represents.simps)
  next
    case False
    then show ?thesis using idle_calls(3,5) [OF r False] r delete_fails [of d i] by (auto simp: done_if_def)
  qed
  then obtain k u d' where m: "fs_delete i (sh_fs sh) = Inr (k, u)" "represents n d' u"
      and a: "answers n (writable sh) d (host_file sh) (Delete i) (done_if k) d' (host_file sh)" by (elim exE conjE)
  show ?thesis unfolding do_command.simps by (rule answeredI [OF small m], rule a)
qed


text \<open>\<open>fs_debug\<close> on an empty file system that has not been mounted since the program started.\<close>

lemma debug_inode_block_fresh:
  assumes d: "disk_inv s" "file_on_disk s = (\<lambda>_. None)" and i: "int i < 1 + nblocks (dev s) div 10" and u: "reads s u"
  shows "runs (debug_inode_block (layout (nblocks (dev s))) i (out, u)) (\<lambda>(ls, v). ls = out \<and> reads s v)"
proof -
  let ?n = "nblocks (dev s)"
  note e = disk_invD [OF d(1)] and ru = readsD [OF u]
  have b: "0 \<le> int i + 1" "int i + 1 < ?n" using i e(1) by linarith+
  let ?v = "u\<lparr>dev := (dev u)\<lparr>nreads := nreads (dev u) + 1\<rparr>\<rparr>"
  have "disk_read (int i + 1) (dev u) = Inr (D u (int i + 1), (dev u)\<lparr>nreads := nreads (dev u) + 1\<rparr>)"
    by (rule disk_read_ok) (use b e(2) ru(2) in auto)
  then have r: "read_block (int i + 1) u = Inr (D s (int i + 1), ?v)" using ru(1) by (simp add: read_block_def)
  have "reads u ?v" unfolding reads_def by blast
  then have v: "reads s ?v" by (rule reads_trans [OF u])
  have x: "isvalid (get_inode_at (D s (int i + 1)) (int j)) = 0" if j: "j < 128" for j
  proof -
    let ?k = "int j + int i * 128"
    have k: "?k div 128 = int i" "?k mod 128 = int j" "0 \<le> ?k" using j by simp_all
    moreover have "?k < 128 * (1 + ?n div 10)" by (rule in_table) (use j i in simp_all)
    ultimately have "isvalid (disk_inode s ?k) = 0" using d(2) by (auto simp: file_on_disk_def fun_eq_iff split: if_splits)
    then show ?thesis using k by (simp only: disk_inode_def) (simp add: add.commute)
  qed
  have "runs (foldE (\<lambda>j (out, s). bindE (debug_inode (int j + int i * INODES_PER_BLOCK) (get_inode_at (D s0 (int i + 1)) (int j)) s)
      (\<lambda>(ls, s). Inr (out @ ls, s))) [0..<128] (out, ?v)) (\<lambda>t. t = (out, ?v))" if "D s0 = D s" for s0
    by (rule runs_foldE_upto [where I = "\<lambda>_ t. t = (out, ?v)"]) (auto simp: debug_inode_def x that)
  from this [of s] show ?thesis
    using r b v layout_sint(1) [OF e(1,2)] by (auto simp: debug_inode_block_def runs_iff)
qed

lemma fs_debug_fresh:
  assumes d: "disk_inv s" "stores (file_on_disk s) (\<lambda>_. None)" "the_cache s = None" and nm: "\<not> is_mounted s"
  shows "runs (fs_debug s) (\<lambda>(out, u). represents (nblocks (dev s)) Fresh u)"
proof -
  let ?n = "nblocks (dev s)" and ?l = "layout (nblocks (dev s))"
  note e = disk_invD [OF d(1)]
  note l = layout_sint [OF e(1,2)]
  have f: "file_on_disk s = (\<lambda>_. None)" using storesD(1) [OF d(2)] by auto
  let ?v = "s\<lparr>dev := (dev s)\<lparr>nreads := nreads (dev s) + 1\<rparr>\<rparr>"
  have "disk_read 0 (dev s) = Inr (D s 0, (dev s)\<lparr>nreads := nreads (dev s) + 1\<rparr>)"
    by (rule disk_read_ok) (use l(4) e(2) in auto)
  then have r: "read_block 0 s = Inr (D s 0, ?v)" by (simp add: read_block_def)
  have v: "reads s ?v" unfolding reads_def by blast
  let ?out = "[SuperLine (sb_nblocks ?l) (ninodeblocks ?l) (ninodes ?l)]"
  have "runs (foldE (debug_inode_block ?l) [0..<nat (1 + ?n div 10)] (?out, ?v)) (\<lambda>(ls, u). ls = ?out \<and> reads s u)"
  proof (rule runs_foldE_upto [where I = "\<lambda>_ (ls, u). ls = ?out \<and> reads s u"])
    fix i t assume i: "i < nat (1 + ?n div 10)" and t: "case t of (ls, u) \<Rightarrow> ls = ?out \<and> reads s u"
    obtain u where u: "t = (?out, u)" "reads s u" using t by (cases t) auto
    have "int i < 1 + ?n div 10" using i by linarith
    from debug_inode_block_fresh [OF d(1) f this u(2)] show "runs (debug_inode_block ?l i t) (\<lambda>(ls, u). ls = ?out \<and> reads s u)"
      unfolding u(1) by blast
  qed (use v in simp)
  then obtain u where u: "foldE (debug_inode_block ?l) [0..<nat (1 + ?n div 10)] (?out, ?v) = Inr (?out, u)" "reads s u" by (auto simp: runs_iff)
  have "fs_debug s = Inr (?out, u)" using r e(3) d(3) u(1) l(2) by (simp add: fs_debug_def layout_def)
  moreover have "represents ?n Fresh u"
  proof -
    note ru = readsD [OF u(2)]
    have di: "disk_inode u = disk_inode s" by (intro ext) (simp add: disk_inode_def ru(1))
    have "disk_inv u" using d(1) unfolding disk_inv_def di ru by simp
    moreover have "file_on_disk u = file_on_disk s" by (intro ext) (simp add: file_on_disk_def di ru)
    moreover have "\<not> is_mounted u" using nm ru(5,6) by (simp add: is_mounted_def)
    ultimately show ?thesis using d ru by simp
  qed
  ultimately show ?thesis by simp
qed

lemma debug_answered:
  assumes r: "represents n d (sh_fs sh)" and small: "small (host_file sh)" and sane: "sane (phase_of d) Debug"
  shows "answered n d sh Debug (do_command junk (Inr 0) Debug sh)"
proof -
  have "\<exists>out u. fs_debug (sh_fs sh) = Inr (out, u) \<and> represents n d u"
  proof (cases d)
    case Blank
    have "0 < nblocks (dev (sh_fs sh))" using r Blank layout_sint(4) [of n] by simp
    then have "disk_read 0 (dev (sh_fs sh)) = Inr (D (sh_fs sh) 0, (dev (sh_fs sh))\<lparr>nreads := nreads (dev (sh_fs sh)) + 1\<rparr>)"
      using r Blank by (intro disk_read_ok) simp_all
    then show ?thesis using r Blank by (simp add: fs_debug_def read_block_def is_mounted_def)
  next
    case Fresh
    then show ?thesis using fs_debug_fresh [of "sh_fs sh"] r by (auto simp: runs_iff)
  next
    case (Unmounted m)
    then show ?thesis using sane by simp
  next
    case (Mounted m)
    then have s: "fs_inv (sh_fs sh)" using r by simp
    show ?thesis using fs_debug_runs [OF s] r Mounted by (auto simp: runs_iff)
  qed
  then obtain out u where u: "fs_debug (sh_fs sh) = Inr (out, u)" "represents n d u" by (elim exE conjE)
  show ?thesis by (rule answeredM [OF debugs u(2) small]) (simp add: u(1))
qed

lemma no_region: "\<lparr>reg_len = 0, reg_data = (\<lambda>_. 0)\<rparr> = region_of []"
  by (auto simp: region_of_def fun_eq_iff)

lemma cat_answered:
  assumes r: "represents n d (sh_fs sh)" and small: "small (host_file sh)" and i: "0 \<le> i"
  shows "answered n d sh (Cat i) (do_command junk (Inr 0) (Cat i) sh)"
proof (cases "writable sh ''/dev/stdout''")
  case True
  from copyout_answers [OF r i, of junk] obtain u where
    u: "do_copyout True junk i (sh_fs sh) = Some (Inr (1, int (length (contents_of d i)), region_of (contents_of d i), u))" "represents n d u" by (elim exE conjE)
  have a: "answers n (writable sh) d (host_file sh) (Cat i) (Copied (int (length (contents_of d i))) (region_of (contents_of d i))) d (host_file sh)"
    by (rule cats) (use True in simp_all)
  show ?thesis by (rule answeredM [OF a u(2) small]) (simp add: u(1) True)
next
  case False
  then show ?thesis using cat_fails [of "writable sh" n d] r small by (auto simp: answered_def do_copyout_def simp del: represents.simps)
qed

lemma copyout_answered:
  assumes r: "represents n d (sh_fs sh)" and small: "small (host_file sh)" and i: "0 \<le> i"
  shows "answered n d sh (Copyout i name) (do_command junk (Inr 0) (Copyout i name) sh)"
proof (cases "writable sh name")
  case True
  from copyout_answers [OF r i, of junk] obtain u where
    u: "do_copyout True junk i (sh_fs sh) = Some (Inr (1, int (length (contents_of d i)), region_of (contents_of d i), u))" "represents n d u" by (elim exE conjE)
  have "small ((host_file sh)(name := Some (region_of (contents_of d i))))"
    by (rule small_upd [OF small]) (use contents_small [OF r] in \<open>simp add: region_of_def\<close>)
  moreover have "answers n (writable sh) d (host_file sh) (Copyout i name) (Copied (int (length (contents_of d i))) (region_of [])) d
      ((host_file sh)(name := Some (region_of (contents_of d i))))"
    by (rule copies_out) (use True in simp_all)
  ultimately show ?thesis by (intro answeredM [OF _ u(2)]) (simp_all add: u(1) True no_region)
next
  case False
  then show ?thesis using no_output [of "writable sh" name n d] r small by (auto simp: answered_def do_copyout_def simp del: represents.simps)
qed

lemma copyin_answered:
  assumes r: "represents n d (sh_fs sh)" and small: "small (host_file sh)" and i: "0 \<le> i"
  shows "answered n d sh (Copyin name i) (do_command junk (Inr 0) (Copyin name i) sh)"
proof (cases "host_file sh name")
  case None
  then show ?thesis using no_input [of "host_file sh" name n "writable sh" d i] r small
    by (auto simp: answered_def do_copyin_def simp del: represents.simps)
next
  case (Some h)
  have len: "reg_len h \<le> MAX_OFFSET" using small Some unfolding small_def by blast
  show ?thesis
  proof (cases "files d i")
    case None
    have "host_file sh name \<noteq> None" using Some by simp
    then have "answers n (writable sh) d (host_file sh) (Copyin name i) (Copied 0 (region_of [])) d (host_file sh)"
      by (intro copies_nothing None)
    then show ?thesis
      by (rule answeredM [OF _ r small]) (use copyin_nothing [OF r None i, of h junk] Some in \<open>simp add: no_region\<close>)
  next
    case f: (Some bs)
    then obtain m where d: "d = Mounted m" "m i = Some bs" by (cases d) auto
    obtain k u where u: "do_copyin (Some h) junk i (sh_fs sh) = Inr (1, k, u)" "0 \<le> k" "k \<le> max 0 (reg_len h)"
        "represents n (Mounted (m(i := Some (take (nat k) (bytes_of h) @ drop (nat k) bs)))) u"
      using copyin_answers [of n m "sh_fs sh" i bs h junk] d r len by (auto simp: runs_iff simp del: represents.simps)
    have "answers n (writable sh) d (host_file sh) (Copyin name i) (Copied k (region_of []))
        (Mounted (m(i := Some (take (nat k) (bytes_of h) @ drop (nat k) bs)))) (host_file sh)"
      unfolding d(1) by (rule copies_in [where h = h]) (use d(2) Some u(2,3) in simp_all)
    then show ?thesis
      by (rule answeredM [OF _ u(4) small]) (use u(1) Some in \<open>simp add: no_region\<close>)
  qed
qed

text \<open>Every command is answered as the store answers.\<close>

theorem command_answered:
  assumes "represents n d (sh_fs sh)" "small (host_file sh)" "sane (phase_of d) c"
  shows "answered n d sh c (do_command junk (Inr 0) c sh)"
proof (cases c)
  case Help
  have "answers n (writable sh) d (host_file sh) c (Info ''help'') d (host_file sh)" by (rule informs) (simp add: Help)
  then show ?thesis by (rule answeredM [OF _ assms(1,2)]) (simp add: Help)
next
  case (Usage t)
  have "answers n (writable sh) d (host_file sh) c (Info t) d (host_file sh)" by (rule informs) (simp add: Usage)
  then show ?thesis by (rule answeredM [OF _ assms(1,2)]) (simp add: Usage)
next
  case (Unknown t)
  have "answers n (writable sh) d (host_file sh) c (Info t) d (host_file sh)" by (rule informs) (simp add: Unknown)
  then show ?thesis by (rule answeredM [OF _ assms(1,2)]) (simp add: Unknown)
qed (use assms format_answered mount_answered unmount_answered getsize_answered create_answered delete_answered debug_answered
    cat_answered copyout_answered copyin_answered in simp_all)

end
