(* ===== verification/FsMain.thy ===== *)
theory FsMain
  imports FsStore
begin

text \<open>
  \<open>main\<close> of \<open>project_4/shell.c\<close>: reading a line, splitting it into words, the commands, and the loop.
  The standard input is a list of characters.  What \<open>sscanf\<close> leaves alone keeps its value from the
  line before; before the first line it has none.
\<close>

section \<open>Lines\<close>

definition char_code :: "char \<Rightarrow> int" where
  "char_code c = of_char c"

text \<open>\<open>fgets\<close> with room for \<open>n\<close> characters, then the rest of the input.\<close>

fun fgets :: "nat \<Rightarrow> string \<Rightarrow> string \<times> string" where
  "fgets 0 xs = ([], xs)"
| "fgets (Suc n) [] = ([], [])"
| "fgets (Suc n) (x # xs) = (if char_code x = 10 then ([x], xs) else (let (l, r) = fgets n xs in (x # l, r)))"

lemma fgets_length: "length (snd (fgets n xs)) \<le> length xs"
  by (induction n xs rule: fgets.induct) (auto split: prod.splits)

lemma fgets_consumes: "xs \<noteq> [] \<Longrightarrow> length (snd (fgets (Suc n) xs)) < length xs"
  using fgets_length [of n "tl xs"] by (cases xs) (auto split: prod.splits simp: less_Suc_eq_le)

function lines_of :: "string \<Rightarrow> string list" where
  "lines_of xs = (if xs = [] then [] else let (l, r) = fgets 1023 xs in l # lines_of r)"
  by pat_completeness auto
termination
proof (relation "measure length", goal_cases)
  case (2 xs p l r)
  have "r = snd (fgets 1023 xs)" using 2(2,3) by (metis snd_conv)
  moreover have "length (snd (fgets 1023 xs)) < length xs" using fgets_consumes [OF 2(1), of 1022] by simp
  ultimately show ?case by simp
qed simp

declare lines_of.simps [simp del]

text \<open>\<open>line[strlen(line)-1] = 0\<close>: a C string ends at its first null character.\<close>

definition chop :: "string \<Rightarrow> string result" where
  "chop line = (let t = takeWhile (\<lambda>c. char_code c \<noteq> 0) line in if t = [] then Inl OutOfBounds else Inr (butlast t))"

definition is_space :: "char \<Rightarrow> bool" where
  "is_space c \<longleftrightarrow> char_code c = 32 \<or> 9 \<le> char_code c \<and> char_code c \<le> 13"

function tokens :: "string \<Rightarrow> string list" where
  "tokens s = (let t = dropWhile is_space s in
     if t = [] then [] else takeWhile (\<lambda>c. \<not> is_space c) t # tokens (dropWhile (\<lambda>c. \<not> is_space c) t))"
  by pat_completeness auto
termination
proof (relation "measure length", goal_cases)
  case (2 s t)
  then have "\<not> is_space (hd t)" using hd_dropWhile by blast
  then have "length (dropWhile (\<lambda>c. \<not> is_space c) t) < length t"
    using 2(2) by (cases t) (auto simp: le_imp_less_Suc length_dropWhile_le)
  also have "\<dots> \<le> length s" unfolding 2(1) by (rule length_dropWhile_le)
  finally show ?case by simp
qed simp

declare tokens.simps [simp del]

section \<open>Numbers\<close>

definition is_digit :: "char \<Rightarrow> bool" where
  "is_digit c \<longleftrightarrow> 48 \<le> char_code c \<and> char_code c \<le> 57"

definition number :: "string \<Rightarrow> int" where
  "number ds = foldl (\<lambda>n c. 10 * n + (char_code c - 48)) 0 (takeWhile is_digit ds)"

text \<open>A number that does not fit is undefined behaviour.\<close>

definition atoi :: "string \<Rightarrow> int result" where
  "atoi s = (let t = dropWhile is_space s;
       n = (if t \<noteq> [] \<and> hd t = CHR ''-'' then - number (tl t)
            else if t \<noteq> [] \<and> hd t = CHR ''+'' then number (tl t) else number t)
     in if - INT_MAX - 1 \<le> n \<and> n \<le> INT_MAX then Inr n else Inl SignedOverflow)"

section \<open>Commands\<close>

record buffers =
  cmd :: "string option"
  arg1 :: "string option"
  arg2 :: "string option"

definition no_buffers :: buffers where
  "no_buffers = \<lparr>cmd = None, arg1 = None, arg2 = None\<rparr>"

definition filled :: "string option \<Rightarrow> string result" where
  "filled b = (case b of None \<Rightarrow> Inl Uninitialised | Some s \<Rightarrow> Inr s)"

text \<open>\<open>sscanf(line, "%s %s %s", cmd, arg1, arg2)\<close>; it returns -1 on a line without a word.\<close>

definition scan :: "string \<Rightarrow> buffers \<Rightarrow> int \<times> buffers" where
  "scan line b = (case tokens line of
     [] \<Rightarrow> (-1, b)
   | [c] \<Rightarrow> (1, b\<lparr>cmd := Some c\<rparr>)
   | [c, x] \<Rightarrow> (2, b\<lparr>cmd := Some c, arg1 := Some x\<rparr>)
   | c # x # y # _ \<Rightarrow> (3, b\<lparr>cmd := Some c, arg1 := Some x, arg2 := Some y\<rparr>))"

definition with_number :: "string option \<Rightarrow> (int \<Rightarrow> command) \<Rightarrow> command result" where
  "with_number a f = bindE (filled a) (\<lambda>s. bindE (atoi s) (\<lambda>i. Inr (f i)))"

definition parse_command :: "int \<Rightarrow> buffers \<Rightarrow> command result" where
  "parse_command args b =
     bindE (filled (cmd b)) (\<lambda>c.
     if c = ''format'' then Inr (if args = 1 then Format else Usage c)
     else if c = ''mount'' then Inr (if args = 1 then Mount else Usage c)
     else if c = ''unmount'' then Inr (if args = 1 then Unmount else Usage c)
     else if c = ''debug'' then Inr (if args = 1 then Debug else Usage c)
     else if c = ''getsize'' then (if args = 2 then with_number (arg1 b) Getsize else Inr (Usage c))
     else if c = ''create'' then Inr (if args = 1 then Create else Usage c)
     else if c = ''delete'' then (if args = 2 then with_number (arg1 b) Delete else Inr (Usage c))
     else if c = ''cat'' then (if args = 2 then with_number (arg1 b) Cat else Inr (Usage c))
     else if c = ''copyin'' then
       (if args = 3 then bindE (filled (arg1 b)) (\<lambda>name. with_number (arg2 b) (Copyin name)) else Inr (Usage c))
     else if c = ''copyout'' then
       (if args = 3 then bindE (filled (arg2 b)) (\<lambda>name. with_number (arg1 b) (\<lambda>i. Copyout i name)) else Inr (Usage c))
     else if c = ''help'' then Inr Help
     else if c = ''quit'' \<or> c = ''exit'' then Inr Quit
     else Inr (Unknown c))"

text \<open>One line: \<open>None\<close> when it is passed over.\<close>

definition read_command :: "string \<Rightarrow> buffers \<Rightarrow> (command option \<times> buffers) result" where
  "read_command line b =
     (if line \<noteq> [] \<and> char_code (hd line) = 10 then Inr (None, b)
      else bindE (chop line) (\<lambda>line.
        let (args, b) = scan line b in
        if args = 0 then Inr (None, b) else bindE (parse_command args b) (\<lambda>c. Inr (Some c, b))))"

section \<open>The loop\<close>

fun shell_loop :: "(nat \<Rightarrow> mem) \<Rightarrow> int result \<Rightarrow> string list \<Rightarrow> buffers \<Rightarrow> shell \<Rightarrow> (reply list \<times> shell) result option" where
  "shell_loop junk cap [] b sh = Some (Inr ([], sh))"
| "shell_loop junk cap (l # ls) b sh =
     bindO (Some (read_command l b)) (\<lambda>(c, b).
     case c of
       None \<Rightarrow> shell_loop junk cap ls b sh
     | Some c \<Rightarrow>
         bindO (do_command (junk (length ls)) cap c sh) (\<lambda>(r, sh).
         if c = Quit then Some (Inr ([r], sh))
         else bindO (shell_loop junk cap ls b sh) (\<lambda>(rs, sh). Some (Inr (r # rs, sh)))))"

text \<open>
  The exit code, the replies, the disk and the files of the host.  \<open>st\<close> and \<open>junk\<close> are what uninitialised
  memory holds, \<open>open_ok\<close> and \<open>old\<close> the disk image as \<open>disk_init\<close> finds it.
\<close>

definition shell_main :: "(nat \<Rightarrow> mem) \<Rightarrow> (nat \<Rightarrow> bool) \<Rightarrow> bool \<Rightarrow> region \<Rightarrow> (string \<Rightarrow> region option) \<Rightarrow> (string \<Rightarrow> bool) \<Rightarrow>
    string list \<Rightarrow> string \<Rightarrow> (int \<times> reply list \<times> fs_disk \<times> (string \<Rightarrow> region option)) result option" where
  "shell_main junk st open_ok old H w argv input =
     (if length argv \<noteq> 4 then Some (Inr (1, [], no_disk, H))
      else bindO (Some (bindE (atoi (argv ! 2)) (\<lambda>n. disk_init open_ok old n no_disk))) (\<lambda>(r, d).
        if r = 0 then Some (Inr (1, [], d, H))
        else bindO (shell_loop junk (atoi (argv ! 3)) (lines_of input) no_buffers
                     \<lparr>sh_fs = fs_init d st, host_file = H, writable = w\<rparr>)
               (\<lambda>(rs, sh). Some (Inr (0, rs, dev (sh_fs sh), host_file sh)))))"

section \<open>The shell ends\<close>

lemma do_command_returns: "\<exists>r. do_command junk cap c sh = Some r"
proof -
  have "\<exists>r. do_copyout ok junk i s = Some r" for ok i s
    unfolding do_copyout_def using copyout_loop_returns by (auto intro!: bindO_returns)
  then show ?thesis by (cases c) (auto simp: answer_def intro!: bindO_returns)
qed

lemma shell_loop_returns: "\<exists>r. shell_loop junk cap ls b sh = Some r"
proof (induction ls arbitrary: b sh)
  case (Cons l ls)
  show ?case
  proof (simp only: shell_loop.simps, rule bindO_returns)
    fix x assume "Some (read_command l b) = Some (Inr x)"
    show "\<exists>r. (case x of (c, b) \<Rightarrow> case c of None \<Rightarrow> shell_loop junk cap ls b sh | Some c \<Rightarrow>
        bindO (do_command (junk (length ls)) cap c sh) (\<lambda>(r, sh). if c = Quit then Some (Inr ([r], sh))
         else bindO (shell_loop junk cap ls b sh) (\<lambda>(rs, sh). Some (Inr (r # rs, sh))))) = Some r"
      using Cons do_command_returns by (auto split: option.split prod.split intro!: bindO_returns)
  qed simp
qed simp

lemma shell_main_returns: "\<exists>r. shell_main junk st open_ok old H w argv input = Some r"
  unfolding shell_main_def using shell_loop_returns by (auto intro!: bindO_returns split: prod.split)

section \<open>A session\<close>

text \<open>The commands of the input, up to the first that quits.\<close>

fun commands_of :: "string list \<Rightarrow> buffers \<Rightarrow> command list result" where
  "commands_of [] b = Inr []"
| "commands_of (l # ls) b =
     bindE (read_command l b) (\<lambda>(c, b).
     case c of
       None \<Rightarrow> commands_of ls b
     | Some c \<Rightarrow> if c = Quit then Inr [c] else bindE (commands_of ls b) (\<lambda>cs. Inr (c # cs)))"

inductive session :: "int \<Rightarrow> (string \<Rightarrow> bool) \<Rightarrow> drive \<Rightarrow> (string \<Rightarrow> region option) \<Rightarrow> command list \<Rightarrow> reply list \<Rightarrow>
    drive \<Rightarrow> (string \<Rightarrow> region option) \<Rightarrow> bool" for n :: int and w :: "string \<Rightarrow> bool" where
  session_end: "session n w d H [] [] d H"
| session_step: "answers n w d H c r d' H' \<Longrightarrow> session n w d' H' cs rs d'' H'' \<Longrightarrow> session n w d H (c # cs) (r # rs) d'' H''"

fun orderly :: "phase \<Rightarrow> command list \<Rightarrow> bool" where
  "orderly p [] = True"
| "orderly p (c # cs) = (sane p c \<and> orderly (after c p) cs)"

theorem shell_loop_session:
  assumes "represents n d (sh_fs sh)" "small (host_file sh)" "commands_of ls b = Inr cs" "orderly (phase_of d) cs"
  shows "\<exists>rs sh' d'. shell_loop junk (Inr 0) ls b sh = Some (Inr (rs, sh')) \<and>
    session n (writable sh) d (host_file sh) cs rs d' (host_file sh') \<and> represents n d' (sh_fs sh')"
  using assms
proof (induction ls arbitrary: d sh b cs)
  case Nil
  have "session n (writable sh) d (host_file sh) [] [] d (host_file sh)" by (rule session_end)
  then show ?case using Nil by auto
next
  case (Cons l ls)
  obtain c b' where rc: "read_command l b = Inr (c, b')" using Cons.prems(3) by (cases "read_command l b") auto
  show ?case
  proof (cases c)
    case None
    then have "commands_of ls b' = Inr cs" using Cons.prems(3) rc by simp
    from Cons.IH [OF Cons.prems(1,2) this Cons.prems(4)] show ?thesis using rc None by simp
  next
    case (Some k)
    obtain cs' where cs: "cs = k # cs'" "k = Quit \<and> cs' = [] \<or> k \<noteq> Quit \<and> commands_of ls b' = Inr cs'"
      using Cons.prems(3) rc Some by (cases "commands_of ls b'") (auto split: if_splits)
    have "sane (phase_of d) k" using Cons.prems(4) cs(1) by simp
    from command_answered [OF Cons.prems(1,2) this] obtain r sh1 d1 where
      do_k: "do_command (junk (length ls)) (Inr 0) k sh = Some (Inr (r, sh1))" and
      a: "answers n (writable sh) d (host_file sh) k r d1 (host_file sh1)" and
      r1: "represents n d1 (sh_fs sh1)" "writable sh1 = writable sh" "small (host_file sh1)"
      unfolding answered_def by blast
    show ?thesis
    proof (cases "k = Quit")
      case True
      have "session n (writable sh) d (host_file sh) cs [r] d1 (host_file sh1)"
        using cs True session_step [OF a session_end] by simp
      then show ?thesis using rc Some do_k r1 True by auto
    next
      case False
      then have ls: "commands_of ls b' = Inr cs'" using cs(2) by simp
      have "orderly (phase_of d1) cs'" using Cons.prems(4) cs(1) answers_phase [OF a] by simp
      from Cons.IH [OF r1(1,3) ls this] obtain rs sh2 d2 where
        l: "shell_loop junk (Inr 0) ls b' sh1 = Some (Inr (rs, sh2))" and
        s: "session n (writable sh1) d1 (host_file sh1) cs' rs d2 (host_file sh2)" and r2: "represents n d2 (sh_fs sh2)"
        by blast
      have "session n (writable sh) d (host_file sh) cs (r # rs) d2 (host_file sh2)"
        unfolding cs(1) by (rule session_step [OF a]) (use s r1(2) in simp)
      then show ?thesis using rc Some do_k False l r2 by auto
    qed
  qed
qed

text \<open>The whole program, on a new disk image.\<close>

lemma new_disk_blank:
  assumes "2 + n div 10 \<le> n" "n * DISK_BLOCK_SIZE \<le> INT_MAX"
  shows "\<exists>d. disk_init True \<lparr>reg_len = 0, reg_data = z\<rparr> n no_disk = Inr (1, d) \<and> represents n Blank (fs_init d st)"
proof -
  have "2 \<le> n" by (rule layout_sint(4) [OF assms])
  then have "int_mul n DISK_BLOCK_SIZE = Inr (n * DISK_BLOCK_SIZE)"
    using assms(2) by (simp add: int_mul_def DISK_BLOCK_SIZE_def INT_MAX_def)
  moreover have "(\<lambda>i. if i < 0 then z i else 0) 0 = (0 :: byte)" by simp
  ultimately show ?thesis using assms
    by (simp add: disk_init_def fs_init_def is_mounted_def get_super_def get_int_def FS_MAGIC_def)
qed

theorem shell_main_session:
  assumes n: "atoi (argv ! 2) = Inr n" "2 + n div 10 \<le> n" "n * DISK_BLOCK_SIZE \<le> INT_MAX"
    and argv: "length argv = 4" "atoi (argv ! 3) = Inr 0" and small: "small H"
    and cs: "commands_of (lines_of input) no_buffers = Inr cs" "orderly Raw cs"
  shows "\<exists>rs d u H'. shell_main junk st True \<lparr>reg_len = 0, reg_data = z\<rparr> H w argv input = Some (Inr (0, rs, dev u, H')) \<and>
    session n w Blank H cs rs d H' \<and> represents n d u"
proof -
  obtain dk where dk: "disk_init True \<lparr>reg_len = 0, reg_data = z\<rparr> n no_disk = Inr (1, dk)" "represents n Blank (fs_init dk st)"
    using new_disk_blank [OF n(2,3), of z st] by (elim exE conjE)
  let ?sh = "\<lparr>sh_fs = fs_init dk st, host_file = H, writable = w\<rparr>"
  have "\<exists>rs sh' d'. shell_loop junk (Inr 0) (lines_of input) no_buffers ?sh = Some (Inr (rs, sh')) \<and>
      session n (writable ?sh) Blank (host_file ?sh) cs rs d' (host_file sh') \<and> represents n d' (sh_fs sh')"
    by (rule shell_loop_session [OF _ _ cs(1)]) (use dk(2) small cs(2) in simp_all)
  then obtain rs sh' d' where l: "shell_loop junk (Inr 0) (lines_of input) no_buffers ?sh = Some (Inr (rs, sh'))"
      and s: "session n w Blank H cs rs d' (host_file sh')" "represents n d' (sh_fs sh')" by auto
  have "shell_main junk st True \<lparr>reg_len = 0, reg_data = z\<rparr> H w argv input = Some (Inr (0, rs, dev (sh_fs sh'), host_file sh'))"
    using n(1) argv dk(1) l by (simp add: shell_main_def)
  then show ?thesis using s by blast
qed

end
