(* ===== verification/FsTyped.thy ===== *)
theory FsTyped
  imports FsMain
begin

text \<open>
  Every command can be typed: the line that spells it is read back as the command, and
  a file of such lines as their list.
\<close>

section \<open>Numbers in decimal\<close>

definition digit :: "nat \<Rightarrow> char" where
  "digit k = char_of (48 + int k)"

fun decimal :: "nat \<Rightarrow> string" where
  "decimal n = (if n < 10 then [digit n] else decimal (n div 10) @ [digit (n mod 10)])"

declare decimal.simps [simp del]

lemma char_code_digit: "k < 10 \<Longrightarrow> char_code (digit k) = 48 + int k"
  by (simp add: char_code_def digit_def of_char_of)

lemma digit_props:
  assumes "k < 10"
  shows "is_digit (digit k)" "\<not> is_space (digit k)" "digit k \<noteq> CHR ''-''" "digit k \<noteq> CHR ''+''" "char_code (digit k) \<noteq> 0"
proof -
  note c = char_code_digit [OF assms]
  show "is_digit (digit k)" "\<not> is_space (digit k)" "char_code (digit k) \<noteq> 0" using assms c by (simp_all add: is_digit_def is_space_def)
  have "char_code (CHR ''-'') = 45" "char_code (CHR ''+'') = 43" by (simp_all add: char_code_def)
  then show "digit k \<noteq> CHR ''-''" "digit k \<noteq> CHR ''+''" using c by auto
qed

lemma decimal_digits: "c \<in> set (decimal n) \<Longrightarrow> \<exists>k < 10. c = digit k"
proof (induction n rule: decimal.induct)
  case (1 n)
  show ?case
  proof (cases "n < 10")
    case True
    then show ?thesis using 1(2) by (subst (asm) decimal.simps) auto
  next
    case False
    then have "c \<in> set (decimal (n div 10)) \<or> c = digit (n mod 10)" using 1(2) by (subst (asm) decimal.simps) auto
    then show ?thesis
    proof
      assume "c = digit (n mod 10)"
      then show ?thesis by (intro exI [of _ "n mod 10"]) simp
    qed (rule 1(1) [OF False])
  qed
qed

lemma decimal_nonempty: "decimal n \<noteq> []"
  by (subst decimal.simps) simp

lemma number_digits: "\<forall>c \<in> set ds. is_digit c \<Longrightarrow> number (ds @ [c]) = (if is_digit c then 10 * number ds + (char_code c - 48) else number ds)"
  by (simp add: number_def takeWhile_append takeWhile_eq_all_conv [THEN iffD2])

lemma number_decimal: "number (decimal n) = int n"
proof (induction n rule: decimal.induct)
  case (1 n)
  show ?case
  proof (cases "n < 10")
    case True
    then show ?thesis using digit_props(1) [OF True] char_code_digit [OF True] by (subst decimal.simps) (simp add: number_def)
  next
    case False
    have "\<forall>c \<in> set (decimal (n div 10)). is_digit c" using decimal_digits digit_props(1) by blast
    moreover have "is_digit (digit (n mod 10))" "char_code (digit (n mod 10)) = 48 + int (n mod 10)"
      using digit_props(1) [of "n mod 10"] char_code_digit [of "n mod 10"] by simp_all
    ultimately have "number (decimal n) = 10 * number (decimal (n div 10)) + int (n mod 10)"
      using False number_digits [of "decimal (n div 10)" "digit (n mod 10)"] by (subst decimal.simps) simp
    also have "\<dots> = 10 * int (n div 10) + int (n mod 10)" using 1 [OF False] by simp
    also have "\<dots> = int n" using mult_div_mod_eq [of 10 n] by linarith
    finally show ?thesis .
  qed
qed

lemma atoi_decimal: "int n \<le> INT_MAX \<Longrightarrow> atoi (decimal n) = Inr (int n)"
proof -
  assume n: "int n \<le> INT_MAX"
  obtain k ds where d: "decimal n = digit k # ds" "k < 10"
    using decimal_nonempty [of n] decimal_digits [of _ n] by (cases "decimal n") auto
  have "dropWhile is_space (decimal n) = decimal n" using d digit_props(2) by simp
  moreover have "hd (decimal n) \<noteq> CHR ''-''" "hd (decimal n) \<noteq> CHR ''+''" using d digit_props(3,4) by simp_all
  moreover have "- INT_MAX - 1 \<le> int n" by (simp add: INT_MAX_def)
  ultimately show ?thesis using n number_decimal [of n] by (simp add: atoi_def Let_def)
qed

section \<open>Words\<close>

text \<open>A name that can be typed: no white space, no null character.\<close>

definition word :: "string \<Rightarrow> bool" where
  "word s \<longleftrightarrow> s \<noteq> [] \<and> (\<forall>c \<in> set s. \<not> is_space c \<and> char_code c \<noteq> 0)"

fun spaced :: "string list \<Rightarrow> string" where
  "spaced [] = []"
| "spaced [s] = s"
| "spaced (s # ss) = s @ CHR '' '' # spaced ss"

lemma space_is_space: "is_space (CHR '' '')"
  by (simp add: is_space_def char_code_def)

lemma wordD: "word s \<Longrightarrow> \<exists>c t. s = c # t \<and> \<not> is_space c" "word s \<Longrightarrow> \<forall>c \<in> set s. \<not> is_space c"
  by (cases s; auto simp: word_def)+

lemma tokens_word:
  assumes "word s" "rest = [] \<or> (\<exists>r. rest = CHR '' '' # r)"
  shows "tokens (s @ rest) = s # tokens rest"
proof -
  obtain c t where s: "s = c # t" "\<not> is_space c" using wordD(1) [OF assms(1)] by auto
  have "dropWhile is_space (s @ rest) = s @ rest" using s by simp
  moreover have "takeWhile (\<lambda>c. \<not> is_space c) (s @ rest) = s" "dropWhile (\<lambda>c. \<not> is_space c) (s @ rest) = rest"
    using wordD(2) [OF assms(1)] assms(2) space_is_space by (auto simp: takeWhile_append dropWhile_append)
  ultimately show ?thesis using s by (subst tokens.simps) (simp add: Let_def)
qed

lemma tokens_nil [simp]: "tokens [] = []"
  by (subst tokens.simps) simp

lemma tokens_space: "tokens (CHR '' '' # s) = tokens s"
  using space_is_space by (subst (1 2) tokens.simps) simp

lemma tokens_spaced: "\<forall>s \<in> set ss. word s \<Longrightarrow> tokens (spaced ss) = ss"
proof (induction ss rule: spaced.induct)
  case (2 s)
  then show ?case using tokens_word [of s "[]"] by simp
next
  case (3 s t ss)
  then show ?case using tokens_word [of s "CHR '' '' # spaced (t # ss)"] tokens_space by simp
qed simp

lemma spaced_chars: "c \<in> set (spaced ss) \<Longrightarrow> c = CHR '' '' \<or> (\<exists>s \<in> set ss. c \<in> set s)"
  by (induction ss rule: spaced.induct) auto

section \<open>Lines\<close>

fun spelling :: "command \<Rightarrow> string list" where
  "spelling Format = [''format'']"
| "spelling Mount = [''mount'']"
| "spelling Unmount = [''unmount'']"
| "spelling Debug = [''debug'']"
| "spelling (Getsize i) = [''getsize'', decimal (nat i)]"
| "spelling Create = [''create'']"
| "spelling (Delete i) = [''delete'', decimal (nat i)]"
| "spelling (Cat i) = [''cat'', decimal (nat i)]"
| "spelling (Copyin name i) = [''copyin'', name, decimal (nat i)]"
| "spelling (Copyout i name) = [''copyout'', decimal (nat i), name]"
| "spelling Help = [''help'']"
| "spelling Quit = [''quit'']"
| "spelling (Usage c) = []"
| "spelling (Unknown c) = []"

text \<open>The commands there is a line for.\<close>

definition number_ok :: "int \<Rightarrow> bool" where
  "number_ok i \<longleftrightarrow> 0 \<le> i \<and> i \<le> INT_MAX"

fun typable :: "command \<Rightarrow> bool" where
  "typable (Getsize i) = number_ok i"
| "typable (Delete i) = number_ok i"
| "typable (Cat i) = number_ok i"
| "typable (Copyin name i) = (word name \<and> number_ok i)"
| "typable (Copyout i name) = (word name \<and> number_ok i)"
| "typable (Usage c) = False"
| "typable (Unknown c) = False"
| "typable c = True"

definition newline :: char where "newline = CHR 0x0A"

definition typed :: "command \<Rightarrow> string" where
  "typed c = spaced (spelling c) @ [newline]"

lemma word_decimal: "word (decimal n)"
  using decimal_nonempty decimal_digits [of _ n] digit_props(2,5) by (auto simp: word_def)

lemma word_names:
  "word ''format''" "word ''mount''" "word ''unmount''" "word ''debug''" "word ''getsize''" "word ''create''"
  "word ''delete''" "word ''cat''" "word ''copyin''" "word ''copyout''" "word ''help''" "word ''quit''"
  by (simp_all add: word_def is_space_def char_code_def)

lemma words_spelled: "typable c \<Longrightarrow> \<forall>s \<in> set (spelling c). word s"
  by (cases c) (simp_all add: word_decimal word_names)

lemma typed_chars:
  assumes "typable c"
  shows "\<forall>x \<in> set (spaced (spelling c)). char_code x \<noteq> 0 \<and> char_code x \<noteq> 10"
proof
  fix x assume "x \<in> set (spaced (spelling c))"
  then consider "x = CHR '' ''" | s where "s \<in> set (spelling c)" "x \<in> set s" using spaced_chars by blast
  then show "char_code x \<noteq> 0 \<and> char_code x \<noteq> 10"
  proof cases
    case 2
    then have "\<not> is_space x \<and> char_code x \<noteq> 0" using words_spelled [OF assms] unfolding word_def by blast
    then show ?thesis by (auto simp: is_space_def)
  qed (simp add: char_code_def)
qed

lemma number_ok_atoi: "number_ok i \<Longrightarrow> atoi (decimal (nat i)) = Inr i"
  using atoi_decimal [of "nat i"] by (simp add: number_ok_def)

theorem typed_read:
  assumes "typable c"
  shows "\<exists>b'. read_command (typed c) b = Inr (Some c, b')"
proof -
  let ?l = "spaced (spelling c)"
  obtain s ss where sp: "spelling c = s # ss" "word s" using words_spelled [OF assms] assms by (cases "spelling c"; cases c) auto
  then obtain x xs where x: "?l = x # xs" by (cases ss) (auto simp: word_def neq_Nil_conv)
  have "char_code (hd (typed c)) \<noteq> 10" using typed_chars [OF assms] x by (simp add: typed_def)
  moreover have "takeWhile (\<lambda>c. char_code c \<noteq> 0) (typed c) = typed c"
    using typed_chars [OF assms] by (auto simp: typed_def takeWhile_eq_all_conv newline_def char_code_def)
  then have "chop (typed c) = Inr ?l" by (simp add: chop_def typed_def Let_def)
  moreover have "tokens ?l = spelling c" by (rule tokens_spaced [OF words_spelled [OF assms]])
  ultimately show ?thesis
    using assms number_ok_atoi
    by (cases c) (auto simp: read_command_def typed_def scan_def parse_command_def with_number_def filled_def)
qed

section \<open>Files of commands\<close>

lemma fgets_line:
  assumes "\<forall>x \<in> set l. char_code x \<noteq> 10" "length l < n"
  shows "fgets n (l @ newline # rest) = (l @ [newline], rest)"
  using assms
proof (induction l arbitrary: n)
  case Nil
  then obtain k where "n = Suc k" by (cases n) auto
  then show ?case by (simp add: newline_def char_code_def)
next
  case (Cons x l)
  then obtain k where k: "n = Suc k" "length l < k" by (cases n) auto
  then show ?case using Cons by simp
qed

lemma lines_of_typed:
  assumes "\<forall>c \<in> set cs. typable c \<and> length (typed c) \<le> 1023"
  shows "lines_of (concat (map typed cs)) = map typed cs"
  using assms
proof (induction cs)
  case Nil
  then show ?case by (subst lines_of.simps) simp
next
  case (Cons c cs)
  have "\<forall>x \<in> set (spaced (spelling c)). char_code x \<noteq> 10" using typed_chars [of c] Cons.prems by simp
  moreover have "length (spaced (spelling c)) < 1023" using Cons.prems by (simp add: typed_def)
  ultimately have "fgets 1023 (typed c @ concat (map typed cs)) = (typed c, concat (map typed cs))"
    using fgets_line [of "spaced (spelling c)" 1023 "concat (map typed cs)"] by (simp add: typed_def)
  moreover have "typed c \<noteq> []" by (simp add: typed_def)
  moreover have "lines_of (concat (map typed cs)) = map typed cs" by (rule Cons.IH) (use Cons.prems in simp)
  ultimately show ?case by (subst lines_of.simps) simp
qed

theorem typed_commands:
  assumes "\<forall>c \<in> set cs. typable c \<and> length (typed c) \<le> 1023" "Quit \<notin> set (butlast cs)"
  shows "commands_of (lines_of (concat (map typed cs))) b = Inr cs"
proof -
  have "commands_of (map typed cs) b = Inr cs"
    using assms
  proof (induction cs arbitrary: b)
    case (Cons c cs)
    obtain b' where b: "read_command (typed c) b = Inr (Some c, b')" using typed_read [of c b] Cons.prems(1) by auto
    have q: "c = Quit \<longrightarrow> cs = []" "Quit \<notin> set (butlast cs)" using Cons.prems(2) by (cases cs; auto)+
    have "commands_of (map typed cs) b' = Inr cs" by (rule Cons.IH) (use Cons.prems(1) q(2) in auto)
    then show ?case using b q(1) by auto
  qed simp
  then show ?thesis using lines_of_typed [OF assms(1)] by simp
qed

end
