(* ===== verification/FsSample.thy ===== *)
theory FsSample
  imports FsTyped
begin

text \<open>
  A new disk of 20 blocks, formatted and mounted with an inode cache of any capacity, on which the properties of the file system
  have their witnesses: empty, and with one empty file.
\<close>

section \<open>A mounted disk\<close>

definition the_state :: "(int \<times> fs) result \<Rightarrow> fs" where
  "the_state m = (case m of Inl e \<Rightarrow> fs_init no_disk (\<lambda>_. False) | Inr (r, s) \<Rightarrow> s)"

lemma the_state_runs: "runs m P \<Longrightarrow> \<exists>r. m = Inr (r, the_state m) \<and> P (r, the_state m)"
  by (auto simp: runs_iff the_state_def)

definition new_disk :: fs_disk where
  "new_disk = \<lparr>nblocks = 20, nreads = 0, nwrites = 0, blocks = (\<lambda>_. zero_block)\<rparr>"

definition sample :: "int \<Rightarrow> fs" where
  "sample cap = the_state (bindE (fs_format zero_block (fs_init new_disk (\<lambda>_. False))) (\<lambda>(_, s). fs_mount cap s))"

lemma sample_props:
  assumes "0 \<le> cap" "cap < INT_MAX"
  shows "fs_inv (sample cap)" "room (sample cap)" "cnodes (sample cap) = []" "mount_of (sample cap) = (20, Some cap)"
    "file_at (sample cap) = (\<lambda>_. None)"
proof -
  have "runs (bindE (fs_format zero_block (fs_init new_disk (\<lambda>_. False))) (\<lambda>(_, s). fs_mount cap s))
      (\<lambda>(r, u). r = 1 \<and> fs_inv u \<and> room u \<and> cnodes u = [] \<and> mount_of u = (nblocks (dev (fs_init new_disk (\<lambda>_. False))), Some cap) \<and> file_at u = (\<lambda>_. None))"
    by (rule format_mount_runs) (use assms in \<open>simp_all add: fs_init_def new_disk_def is_mounted_def DISK_BLOCK_SIZE_def INT_MAX_def\<close>)
  from the_state_runs [OF this] show "fs_inv (sample cap)" "room (sample cap)" "cnodes (sample cap) = []" "mount_of (sample cap) = (20, Some cap)"
    "file_at (sample cap) = (\<lambda>_. None)" by (simp_all add: sample_def fs_init_def new_disk_def)
qed

text \<open>The same disk with one empty file, of number 0.\<close>

definition sample1 :: "int \<Rightarrow> fs" where
  "sample1 cap = the_state (fs_create (sample cap))"

lemma sample_numbers:
  assumes "0 \<le> cap" "cap < INT_MAX"
  shows "numblocks (sample cap) = 20" "numinodes (sample cap) = 384" "reach (sample cap) = {i. 0 \<le> i \<and> i div 128 < 2}"
proof -
  show n: "numblocks (sample cap) = 20" using sample_props(4) [OF assms] by (simp add: mount_of_def)
  show "numinodes (sample cap) = 384" "reach (sample cap) = {i. 0 \<le> i \<and> i div 128 < 2}"
    using fs_invD(2,8) [OF sample_props(1) [OF assms]] n by (simp_all add: reach_def)
qed

lemma sample1_props:
  assumes "0 \<le> cap" "cap < INT_MAX"
  shows "fs_inv (sample1 cap)" "room (sample1 cap)" "mount_of (sample1 cap) = (20, Some cap)"
    "file_at (sample1 cap) = (\<lambda>i. if i = 0 then Some (0, \<lambda>_. None) else None)" "numinodes (sample1 cap) = 384"
proof -
  note s = sample_props [OF assms] and n = sample_numbers [OF assms]
  have "\<not> used (sample cap) 0" using used_iff_file [OF s(1), of 0] s(5) n(2) by simp
  then have "runs (fs_create (sample cap)) (\<lambda>(r, u). r = 0 \<and> fs_inv u \<and> room u = room (sample cap) \<and>
      mount_of u = mount_of (sample cap) \<and> file_at u = (file_at (sample cap))(0 := Some (0, \<lambda>_. None)))"
    by (intro fs_create_runs s(1)) (use s(3) n(3) in auto)
  from the_state_runs [OF this] have a: "fs_inv (sample1 cap)" "room (sample1 cap)" "mount_of (sample1 cap) = (20, Some cap)"
    "file_at (sample1 cap) = (file_at (sample cap))(0 := Some (0, \<lambda>_. None))" using s by (auto simp: sample1_def)
  then show "fs_inv (sample1 cap)" "room (sample1 cap)" "mount_of (sample1 cap) = (20, Some cap)"
    "file_at (sample1 cap) = (\<lambda>i. if i = 0 then Some (0, \<lambda>_. None) else None)" using s(5) by (auto simp: fun_eq_iff)
  have "numblocks (sample1 cap) = 20" using a(3) by (simp add: mount_of_def)
  then show "numinodes (sample1 cap) = 384" using fs_invD(2) [OF a(1)] by simp
qed

end
