(* ===== verification/FsProperties.thy ===== *)
theory FsProperties
  imports FsSample
begin

text \<open>
  What the file system (\<open>project_4\<close>) guarantees: reading and writing, mounting, creating, and the shell as a
  store of byte strings.
\<close>

section \<open>Reading and writing\<close>

text \<open>
  C6.  Writing \<open>len\<close> bytes at offset \<open>off\<close> of a file stores the first \<open>n\<close> of them, where \<open>n < len\<close>
  only on a disk with at most one block to spare, and the result is \<open>n\<close>.  The file grows to \<open>off + n\<close> if it was
  shorter, bytes of new blocks that are not written are 0, and no other file and no other byte changes, for every size of the
  inode cache.
\<close>

theorem write_changes_one_file:
  assumes "fs_inv s" "room s" "file_at s i = Some (sz, f)" "0 \<le> len" "0 \<le> off" "off + len \<le> MAX_OFFSET"
  shows "runs (fs_write i data len off s) (\<lambda>(n, u). fs_inv u \<and> room u \<and> 0 \<le> n \<and> n \<le> len \<and> (n < len \<longrightarrow> nearly_full u) \<and>
    file_at u = (file_at s)(i := Some (max sz (off + n), overwrite data 0 off n f)))"
  by (rule runs_mono [OF fs_write_runs [OF assms]]) auto

theorem write_changes_one_file_witness:
  "runs (fs_write 0 (\<lambda>x. of_int x) 5000 100 (sample1 1)) (\<lambda>(n, u). fs_inv u \<and> room u \<and> 0 \<le> n \<and> n \<le> 5000 \<and> (n < 5000 \<longrightarrow> nearly_full u) \<and>
    file_at u = (file_at (sample1 1))(0 := Some (max 0 (100 + n), overwrite (\<lambda>x. of_int x) 0 100 n (\<lambda>_. None))))"
  by (rule write_changes_one_file) (use sample1_props [of 1] in \<open>simp_all add: MAX_OFFSET_val INT_MAX_def\<close>)

text \<open>
  C9.  Reading \<open>len\<close> bytes at offset \<open>off\<close> of a file gives the bytes of the file from there on, up to its size or to
  the first byte that was never given a block.  No file changes.
\<close>

theorem read_returns_file:
  assumes "fs_inv s" "room s" "file_at s i = Some (sz, f)" "0 \<le> len" "0 \<le> off" "off \<le> MAX_OFFSET"
  shows "runs (fs_read i buf len off s) (\<lambda>(n, buf', u). fs_inv u \<and> room u \<and> file_at u = file_at s \<and>
    0 \<le> n \<and> n \<le> max 0 (min (sz - off) len) \<and> (n < min (sz - off) len \<longrightarrow> f (off + n) = None) \<and>
    (\<forall>x. 0 \<le> x \<and> x < n \<longrightarrow> f (off + x) = Some (buf' x)) \<and> (\<forall>x. x < 0 \<or> n \<le> x \<longrightarrow> buf' x = buf x))"
proof -
  obtain n buf' u where r: "fs_read i buf len off s = Inr (n, buf', u)" "fs_inv u" "room u" "file_at u = file_at s" "0 \<le> n"
      "n \<le> max 0 (min (sz - off) len)" "n < min (sz - off) len \<longrightarrow> f (off + n) = None" and buf': "buf' = read_into f off 0 n buf"
      and f: "\<forall>x. off \<le> x \<and> x < off + n \<longrightarrow> f x \<noteq> None"
    using fs_read_runs [OF assms, of buf] by (auto simp: runs_iff)
  have "f (off + x) = Some (buf' x)" if "0 \<le> x" "x < n" for x
    using f [rule_format, of "off + x"] that by (auto simp: buf' read_into_def)
  moreover have "buf' x = buf x" if "x < 0 \<or> n \<le> x" for x using that by (auto simp: buf' read_into_def)
  ultimately show ?thesis using r by simp
qed

theorem read_returns_file_witness:
  "runs (fs_read 0 (\<lambda>_. 7) 10 0 (sample1 1)) (\<lambda>(n, buf', u). fs_inv u \<and> room u \<and> file_at u = file_at (sample1 1) \<and>
    0 \<le> n \<and> n \<le> max 0 (min (0 - 0) 10) \<and> (n < min (0 - 0) 10 \<longrightarrow> (\<lambda>_. None :: byte option) (0 + n) = None) \<and>
    (\<forall>x. 0 \<le> x \<and> x < n \<longrightarrow> (\<lambda>_. None) (0 + x) = Some (buf' x)) \<and> (\<forall>x. x < 0 \<or> n \<le> x \<longrightarrow> buf' x = 7))"
  by (rule read_returns_file) (use sample1_props [of 1] in \<open>simp_all add: MAX_OFFSET_val INT_MAX_def\<close>)

text \<open>C8.  What was written is read back, with any cache and whatever was in the file.\<close>

theorem write_then_read:
  assumes "fs_inv s" "room s" "file_at s i = Some (sz, f)" "0 \<le> len" "0 \<le> off" "off + len \<le> MAX_OFFSET"
  shows "runs (bindE (fs_write i data len off s) (\<lambda>(n, u). bindE (fs_read i buf n off u) (\<lambda>(k, buf', v). Inr (n, u, k, buf'))))
    (\<lambda>(n, u, k, buf'). k = n \<and> n \<le> len \<and> (n = len \<or> nearly_full u) \<and> (\<forall>x. 0 \<le> x \<and> x < n \<longrightarrow> buf' x = data x))"
proof -
  obtain n u where w: "fs_write i data len off s = Inr (n, u)" "fs_inv u" "room u" "0 \<le> n" "n \<le> len" "n < len \<longrightarrow> nearly_full u"
      "file_at u = (file_at s)(i := Some (max sz (off + n), overwrite data 0 off n f))"
    using fs_write_runs [OF assms, of data] by (auto simp: runs_iff)
  have fu: "file_at u i = Some (max sz (off + n), overwrite data 0 off n f)" using w(7) by simp
  have off: "off \<le> MAX_OFFSET" using assms(4,6) by linarith
  obtain k buf' v where r: "fs_read i buf n off u = Inr (k, buf', v)" "0 \<le> k" "k \<le> max 0 (min (max sz (off + n) - off) n)"
      "k < min (max sz (off + n) - off) n \<longrightarrow> overwrite data 0 off n f (off + k) = None" "buf' = read_into (overwrite data 0 off n f) off 0 k buf"
      "mount_of v = mount_of u"
    using fs_read_runs [OF w(2,3) fu w(4) assms(5) off, of buf] by (auto simp: runs_iff)
  have "min (max sz (off + n) - off) n = n" by simp
  then have k: "k = n" using r(2-4) w(4) by (cases "k < n") (auto simp: overwrite_def)
  then have "\<forall>x. 0 \<le> x \<and> x < n \<longrightarrow> buf' x = data x" using r(5) by (simp add: read_into_def overwrite_def)
  then show ?thesis using w(1,5,6) r(1) k by auto
qed

theorem write_then_read_witness:
  "runs (bindE (fs_write 0 (\<lambda>x. of_int x) 9000 300 (sample1 2)) (\<lambda>(n, u). bindE (fs_read 0 (\<lambda>_. 0) n 300 u) (\<lambda>(k, buf', v). Inr (n, u, k, buf'))))
    (\<lambda>(n, u, k, buf'). k = n \<and> n \<le> 9000 \<and> (n = 9000 \<or> nearly_full u) \<and> (\<forall>x. 0 \<le> x \<and> x < n \<longrightarrow> buf' x = of_int x))"
  by (rule write_then_read) (use sample1_props [of 2] in \<open>simp_all add: MAX_OFFSET_val INT_MAX_def\<close>)

text \<open>
  C10.  What a read returns depends on the file alone: two file systems that hold the same file answer alike, whatever
  their caches, free lists and the places of the blocks are.
\<close>

theorem reads_depend_on_file_only:
  assumes "fs_inv s" "room s" "fs_inv t" "room t" "file_at s i = Some c" "file_at t i = Some c" "0 \<le> len" "0 \<le> off" "off \<le> MAX_OFFSET"
  shows "\<exists>n buf' u v. fs_read i buf len off s = Inr (n, buf', u) \<and> fs_read i buf len off t = Inr (n, buf', v)"
proof -
  obtain sz f where c: "c = (sz, f)" by (cases c)
  let ?ok = "\<lambda>n buf'. 0 \<le> n \<and> n \<le> max 0 (min (sz - off) len) \<and> (n < min (sz - off) len \<longrightarrow> f (off + n) = None) \<and>
    (\<forall>x. off \<le> x \<and> x < off + n \<longrightarrow> f x \<noteq> None) \<and> buf' = read_into f off 0 n buf"
  have once: "n = k" if "?ok n b" "?ok k b'" for n k b b'
  proof (rule linorder_cases [of n k])
    assume "n < k"
    then have "f (off + n) = None" "off \<le> off + n" "off + n < off + k" using that by auto
    then show ?thesis using that(2) by blast
  next
    assume "k < n"
    then have "f (off + k) = None" "off \<le> off + k" "off + k < off + n" using that by auto
    then show ?thesis using that(1) by blast
  qed
  obtain n b u where s: "fs_read i buf len off s = Inr (n, b, u)" "?ok n b"
    using fs_read_runs [OF assms(1,2) assms(5) [unfolded c] assms(7-9), of buf] by (auto simp: runs_iff)
  obtain k b' v where t: "fs_read i buf len off t = Inr (k, b', v)" "?ok k b'"
    using fs_read_runs [OF assms(3,4) assms(6) [unfolded c] assms(7-9), of buf] by (auto simp: runs_iff)
  show ?thesis using s t once [OF s(2) t(2)] by auto
qed

theorem reads_depend_on_file_only_witness:
  "\<exists>n buf' u v. fs_read 0 (\<lambda>_. 0) 10 0 (sample1 0) = Inr (n, buf', u) \<and> fs_read 0 (\<lambda>_. 0) 10 0 (sample1 5) = Inr (n, buf', v)"
  by (rule reads_depend_on_file_only [where c = "(0, \<lambda>_. None)"])
    (use sample1_props [of 0] sample1_props [of 5] in \<open>simp_all add: MAX_OFFSET_val INT_MAX_def\<close>)

section \<open>Mounting\<close>

text \<open>
  C7.  Unmounting and mounting again, with an inode cache of any size before and after, succeeds and keeps the size and
  the contents of every file, cached changes included. All blocks of a file without a gap are marked as in use
  again, whatever the other files are like; if no file has a gap the whole file system is in order again.
\<close>

theorem remount_keeps_files:
  assumes "fs_inv s" "0 \<le> cap" "cap < INT_MAX"
  shows "runs (bindE (fs_unmount s) (\<lambda>(_, s). fs_mount cap s)) (\<lambda>(r, u). r = 1 \<and> file_at u = file_at s \<and>
    (\<forall>i sz f. file_at s i = Some (sz, f) \<and> gapless f \<longrightarrow> blocks_marked u i) \<and>
    ((\<forall>i sz f. file_at s i = Some (sz, f) \<longrightarrow> gapless f) \<longrightarrow> fs_inv u \<and> room u))"
proof (cases "\<forall>i sz f. file_at s i = Some (sz, f) \<longrightarrow> gapless f")
  case True
  then have "runs (bindE (fs_unmount s) (\<lambda>(_, s). fs_mount cap s)) (\<lambda>(r, u). r = 1 \<and> fs_inv u \<and> room u \<and> cnodes u = [] \<and>
    mount_of u = (nblocks (dev s), Some cap) \<and> file_at u = file_at s)" by (intro remount_runs [OF assms(1) _ assms(2,3)]) blast
  then show ?thesis using remount_files [OF assms(1), of cap] by (fastforce simp: runs_iff)
next
  case False
  show ?thesis by (rule runs_mono [OF remount_files [OF assms(1), of cap]]) (use False in auto)
qed

theorem remount_keeps_files_witness:
  "runs (bindE (fs_unmount (sample1 3)) (\<lambda>(_, s). fs_mount 0 s)) (\<lambda>(r, u). r = 1 \<and> fs_inv u \<and> file_at u = file_at (sample1 3))"
proof -
  have "\<forall>i sz f. file_at (sample1 3) i = Some (sz, f) \<longrightarrow> gapless f"
    using sample1_props [of 3] by (simp add: INT_MAX_def gapless_def split: if_splits)
  moreover have "fs_inv (sample1 3)" using sample1_props [of 3] by (simp add: INT_MAX_def)
  ultimately show ?thesis using remount_keeps_files [of "sample1 3" 0] by (auto simp: INT_MAX_def runs_iff)
qed

section \<open>Creating files\<close>

text \<open>
  C33.  Creation gives the file the least free inode number and it is empty; it fails, changing nothing, when all inodes that
  can be reached are in use. Those are the ones of all inode blocks but the last, so on a disk of less than 10 blocks
  no file can be created. It needs that the inode cache holds no free inode.
\<close>

theorem create_least_free:
  assumes inv: "fs_inv s" and cached: "\<And>n. n \<in> set (cnodes s) \<Longrightarrow> file_at s (n_inumber n) \<noteq> None"
  shows "runs (fs_create s) (\<lambda>(r, u). if \<forall>j. creatable (numblocks s) j \<longrightarrow> file_at s j \<noteq> None then r = -1 \<and> u = s
    else creatable (numblocks s) r \<and> file_at s r = None \<and> (\<forall>j. 0 \<le> j \<and> j < r \<longrightarrow> file_at s j \<noteq> None) \<and>
      fs_inv u \<and> file_at u = (file_at s)(r := Some (0, \<lambda>_. None)))"
proof -
  have re: "reach s = {j. creatable (numblocks s) j}" using fs_invD(8) [OF inv] by (auto simp: reach_def creatable_def)
  have us: "used s j \<longleftrightarrow> file_at s j \<noteq> None" if "creatable (numblocks s) j" for j
    using used_iff_file [OF inv] reach_numinodes [OF inv, of j] that re by simp
  show ?thesis
  proof (cases "\<forall>j. creatable (numblocks s) j \<longrightarrow> file_at s j \<noteq> None")
    case True
    have "fs_create s = Inr (-1, s)"
    proof (rule fs_create_full [OF inv])
      fix j assume "j \<in> reach s"
      then show "used s j" using True us re by simp
    qed
    then show ?thesis using True by simp
  next
    case False
    from least_creatable [OF this] obtain i where i: "creatable (numblocks s) i" "file_at s i = None"
        and below: "\<forall>j. 0 \<le> j \<and> j < i \<longrightarrow> file_at s j \<noteq> None \<and> creatable (numblocks s) j" by (elim exE conjE)
    have "runs (fs_create s) (\<lambda>(r, u). r = i \<and> fs_inv u \<and> room u = room s \<and> mount_of u = mount_of s \<and> file_at u = (file_at s)(i := Some (0, \<lambda>_. None)))"
    proof (rule fs_create_runs [OF inv])
      show "i \<in> reach s" using i(1) re by simp
      show "\<not> used s i" using us [OF i(1)] i(2) by simp
      show "used s j" if "0 \<le> j" "j < i" for j using us [of j] below that by simp
      show "i \<notin> n_inumber ` set (cnodes s)" using cached i(2) by blast
    qed
    then obtain u where u: "fs_create s = Inr (i, u)" "fs_inv u" "file_at u = (file_at s)(i := Some (0, \<lambda>_. None))"
      by (auto simp: runs_iff)
    have "\<forall>j. 0 \<le> j \<and> j < i \<longrightarrow> file_at s j \<noteq> None" using below by simp
    then show ?thesis unfolding u(1) runs_simps prod.case if_not_P [OF False] using u(2,3) i by simp
  qed
qed

theorem create_least_free_witness:
  "runs (fs_create (sample 4)) (\<lambda>(r, u). if \<forall>j. creatable (numblocks (sample 4)) j \<longrightarrow> file_at (sample 4) j \<noteq> None then r = -1 \<and> u = sample 4
    else creatable (numblocks (sample 4)) r \<and> file_at (sample 4) r = None \<and> (\<forall>j. 0 \<le> j \<and> j < r \<longrightarrow> file_at (sample 4) j \<noteq> None) \<and>
      fs_inv u \<and> file_at u = (file_at (sample 4))(r := Some (0, \<lambda>_. None)))"
  by (rule create_least_free) (use sample_props [of 4] in \<open>simp_all add: INT_MAX_def\<close>)

section \<open>The shell\<close>

text \<open>
  C30.  Copying a host file, no longer than a file can be, into a file of size \<open>sz\<close> and out again.  The first \<open>k\<close> bytes of the host file come back, all of
  them unless the disk is full, then what the file held behind them, bytes of a block that it did not have being 0;
  the output stops before \<open>max sz k\<close> only at a block that the file does not have. So a file that was empty gives
  exactly the \<open>k\<close> bytes, and nothing is lost or added on the way through blocks and cache.
\<close>

theorem copy_in_and_out:
  assumes "fs_inv s" "room s" "file_at s i = Some (sz, f)" "reg_len h \<le> MAX_OFFSET" "0 \<le> reg_len h"
  shows "\<exists>k n u out v. do_copyin (Some h) junk i s = Inr (1, k, u) \<and> do_copyout True junk' i u = Some (Inr (1, n, out, v)) \<and>
    (k = reg_len h \<or> nearly_full u) \<and> k \<le> reg_len h \<and> reg_len out = n \<and> 0 \<le> k \<and> k \<le> n \<and> n \<le> max sz k \<and>
    (n < max sz k \<longrightarrow> f n = None) \<and> (\<forall>x. 0 \<le> x \<and> x < k \<longrightarrow> reg_data out x = reg_data h x) \<and>
    (\<forall>x. k \<le> x \<and> x < n \<longrightarrow> reg_data out x = (case f x of None \<Rightarrow> 0 | Some b \<Rightarrow> b))"
proof -
  have sz: "0 \<le> sz" by (rule file_atD(8) [OF assms(1,3)])
  obtain k u where u: "copyin_loop i h 0 0 junk s = Inr (k, u)" "fs_inv u" "room u" "0 \<le> k" "k \<le> max 0 (reg_len h)"
      "k < reg_len h \<longrightarrow> nearly_full u" "file_at u = (file_at s)(i := Some (max sz k, overwrite (reg_data h) 0 0 k f))"
    using copyin_loop_runs [OF assms(1-3) _ _ assms(4) sz, of junk] by (auto simp: runs_iff)
  let ?g = "overwrite (reg_data h) 0 0 k f"
  have fu: "file_at u i = Some (max sz k, ?g)" using u(7) by simp
  have "(0::int) \<le> max sz k" using sz by simp
  from copyout_loop_ends [OF u(2,3) fu order_refl this, of junk' "\<lambda>_. 0"] obtain n out v where
    v: "copyout_loop i 0 junk' (\<lambda>_. 0) u = Some (Inr (n, out, v))" "0 \<le> n" "n \<le> max sz k"
      "n < max sz k \<longrightarrow> ?g n = None" "\<forall>x. 0 \<le> x \<and> x < n \<longrightarrow> ?g x = Some (out x)" by auto
  have head: "?g x = Some (reg_data h x)" if "0 \<le> x" "x < k" for x using that by (simp add: overwrite_def)
  have tail: "?g x = f x \<or> f x = None \<and> ?g x = Some 0" if "k \<le> x" for x using that by (auto simp: overwrite_def)
  have kn: "k \<le> n" using head [of n] v(2-4) u(4) by (cases "n < k") auto
  have "out x = reg_data h x" if "0 \<le> x" "x < k" for x using head [OF that] v(5) that kn by simp
  moreover have "out x = (case f x of None \<Rightarrow> 0 | Some b \<Rightarrow> b)" if "k \<le> x" "x < n" for x
    using tail [OF that(1)] v(5) [rule_format, of x] that u(4) by (cases "f x") auto
  moreover have "n < max sz k \<longrightarrow> f n = None" using tail [OF kn] v(4) by auto
  ultimately show ?thesis using u(1,4,5,6) v(1,3) kn assms(5) by (auto simp: do_copyin_def do_copyout_def)
qed

definition sample_host :: region where
  "sample_host = \<lparr>reg_len = 30000, reg_data = (\<lambda>x. of_int (x div 7))\<rparr>"

theorem copy_in_and_out_witness:
  "\<exists>k n u out v. do_copyin (Some sample_host) (\<lambda>_. 1) 0 (sample1 3) = Inr (1, k, u) \<and> do_copyout True (\<lambda>_. 2) 0 u = Some (Inr (1, n, out, v)) \<and>
    (k = reg_len sample_host \<or> nearly_full u) \<and> k = n \<and> (\<forall>x. 0 \<le> x \<and> x < k \<longrightarrow> reg_data out x = reg_data sample_host x)"
proof -
  have "fs_inv (sample1 3)" "room (sample1 3)" "file_at (sample1 3) 0 = Some (0, \<lambda>_. None)"
    using sample1_props [of 3] by (simp_all add: INT_MAX_def)
  from copy_in_and_out [OF this, of sample_host "\<lambda>_. 1" "\<lambda>_. 2"] show ?thesis
    by (fastforce simp: MAX_OFFSET_val sample_host_def)
qed

text \<open>
  C2.  The program on a new disk image without an inode cache (capacity 0), for a disk with room for its inode blocks and
  of at most \<open>INT_MAX\<close> bytes. Whatever commands are typed, if they can be read, inode numbers are not negative,
  \<open>debug\<close> is not used between an \<open>unmount\<close> that succeeded and the next \<open>mount\<close>, and the files of the host are no
  longer than a file can be, the program ends with exit code 0, and its replies are those of a store of byte strings
  (\<open>session\<close>): creation gives the least free number, \<open>getsize\<close> the length, \<open>copyin\<close> replaces the beginning, \<open>cat\<close> and
  \<open>copyout\<close> give all bytes, \<open>delete\<close> removes, \<open>format\<close> empties, and unmounting and mounting keep every file. How much of a
  host file fits is left open, and so is what \<open>debug\<close> prints.
\<close>

theorem shell_is_a_store:
  assumes "atoi (argv ! 2) = Inr n" "2 + n div 10 \<le> n" "n * DISK_BLOCK_SIZE \<le> INT_MAX"
    "length argv = 4" "atoi (argv ! 3) = Inr 0" "small H"
    "commands_of (lines_of input) no_buffers = Inr cs" "orderly Raw cs"
  shows "\<exists>rs d u H'. shell_main junk st True \<lparr>reg_len = 0, reg_data = z\<rparr> H w argv input = Some (Inr (0, rs, dev u, H')) \<and>
    session n w Blank H cs rs d H' \<and> represents n d u"
  by (rule shell_main_session [OF assms])

definition sample_session :: "command list" where
  "sample_session = [Format, Debug, Mount, Create, Copyin ''f'' 0, Cat 0, Unmount, Mount, Debug, Copyout 0 ''g'', Delete 0, Getsize 0, Quit]"

lemma sample_session_typed: "commands_of (lines_of (concat (map typed sample_session))) b = Inr sample_session"
proof (rule typed_commands)
  have d: "decimal (nat 0) = [digit 0]" by (subst decimal.simps) simp
  have w: "word ''f''" "word ''g''" by (simp_all add: word_def is_space_def char_code_def)
  show "\<forall>c \<in> set sample_session. typable c \<and> length (typed c) \<le> 1023"
    using d w by (simp add: sample_session_def typed_def number_ok_def INT_MAX_def)
qed (simp add: sample_session_def)

lemma atoi_20: "atoi ''20'' = Inr 20" "atoi ''0'' = Inr 0"
  by (simp_all add: atoi_def number_def is_space_def is_digit_def char_code_def INT_MAX_def)

theorem shell_is_a_store_witness:
  "\<exists>rs d u H'. shell_main (\<lambda>_ _. 1) (\<lambda>_. True) True \<lparr>reg_len = 0, reg_data = (\<lambda>_. 0)\<rparr> [''f'' \<mapsto> sample_host] (\<lambda>_. True)
      [''simplefs'', ''image'', ''20'', ''0''] (concat (map typed sample_session)) = Some (Inr (0, rs, dev u, H')) \<and>
    session 20 (\<lambda>_. True) Blank [''f'' \<mapsto> sample_host] sample_session rs d H' \<and> represents 20 d u"
proof (rule shell_is_a_store)
  show "commands_of (lines_of (concat (map typed sample_session))) no_buffers = Inr sample_session" by (rule sample_session_typed)
  show "small [''f'' \<mapsto> sample_host]" by (auto simp: small_def sample_host_def MAX_OFFSET_val)
  show "orderly Raw sample_session" by (simp add: sample_session_def)
qed (simp_all add: atoi_20 DISK_BLOCK_SIZE_def INT_MAX_def)

text \<open>
  C31.  The shell always ends: whatever the arguments, the disk image, the input, the files of the host and the
  state of the file system, no command loops for ever.
\<close>

theorem shell_ends: "\<exists>r. shell_main junk st open_ok old H w argv input = Some r"
  by (rule shell_main_returns)

text \<open>
  C32.  Any list of commands can be typed: the input that spells them is read as these commands. Names must have
  no white space or null character, numbers must fit an \<open>int\<close>, and a line takes at most 1023 characters.
\<close>

theorem typed_commands_are_read:
  assumes "\<forall>c \<in> set cs. typable c \<and> length (typed c) \<le> 1023" "Quit \<notin> set (butlast cs)"
  shows "commands_of (lines_of (concat (map typed cs))) b = Inr cs"
  by (rule typed_commands [OF assms])

theorem typed_commands_are_read_witness:
  "commands_of (lines_of (concat (map typed [Getsize 2147483647, Copyout 42 ''out.txt'', Quit]))) no_buffers =
    Inr [Getsize 2147483647, Copyout 42 ''out.txt'', Quit]"
proof (rule typed_commands_are_read)
  have d: "length (decimal (nat 2147483647)) = 10" "length (decimal (nat 42)) = 2" by (simp_all add: decimal.simps)
  have "word ''out.txt''" by (simp add: word_def is_space_def char_code_def)
  then show "\<forall>c \<in> set [Getsize 2147483647, Copyout 42 ''out.txt'', Quit]. typable c \<and> length (typed c) \<le> 1023"
    using d by (simp add: typed_def number_ok_def INT_MAX_def)
qed simp

end
