(* ===== verification/FsFaults.thy ===== *)
theory FsFaults
  imports FsSample
begin

text \<open>
  Where the file system (\<open>project_4\<close>) does not do what it means to: blocks behind holes, free inodes in the
  cache, deletion with a small cache, and arguments at the edge.
\<close>

section \<open>Blocks behind holes\<close>

text \<open>Pointer \<open>r\<close> of an inode comes behind a zero pointer of its list.\<close>

definition behind_hole :: "(int \<Rightarrow> block) \<Rightarrow> fs_inode \<Rightarrow> int \<Rightarrow> bool" where
  "behind_hole B ino r \<longleftrightarrow> ptr B ino r \<noteq> 0 \<and> (\<exists>q. ptr B ino q = 0 \<and> (0 \<le> q \<and> q < r \<and> r < 5 \<or> 5 \<le> q \<and> q < r \<and> r < 1029))"

lemma take_nonzero_index:
  assumes "p \<in> set (nonzero ps)"
  shows "\<exists>k < length ps. ps ! k = p \<and> (\<forall>j \<le> k. ps ! j \<noteq> 0)"
proof -
  obtain k where k: "k < length (takeWhile (\<lambda>p. p \<noteq> 0) ps)" "takeWhile (\<lambda>p. p \<noteq> 0) ps ! k = p"
    using assms by (auto simp: nonzero_def in_set_conv_nth)
  then have "ps ! k = p" by (simp add: takeWhile_nth)
  moreover have "ps ! j \<noteq> 0" if "j \<le> k" for j
  proof -
    have j: "j < length (takeWhile (\<lambda>p. p \<noteq> 0) ps)" using that k(1) by simp
    from nth_mem [OF j] show ?thesis using takeWhile_nth [OF j] set_takeWhileD by fastforce
  qed
  moreover have "k < length ps" using k(1) length_takeWhile_le [of "\<lambda>p. p \<noteq> 0" ps] by linarith
  ultimately show ?thesis by blast
qed

text \<open>What is seen of an inode: the pointers before its holes.\<close>

lemma seen_before_hole:
  assumes len: "length (direct ino) = 5" and b: "b \<in> seen B ino"
  shows "\<exists>q \<in> slots. ptr B ino q = b \<and> b \<noteq> 0 \<and> \<not> behind_hole B ino q"
proof -
  from b consider p where "p \<in> set (nonzero (direct ino))" "b = sint p" | "indirect ino \<noteq> 0" "b = sint (indirect ino)"
    | p where "indirect ino \<noteq> 0" "p \<in> set (nonzero (pointers_of (B (sint (indirect ino)))))" "b = sint p"
    by (auto simp: seen_def split: if_splits)
  then show ?thesis
  proof cases
    case 1
    obtain k where k: "k < 5" "direct ino ! k = p" "\<forall>j \<le> k. direct ino ! j \<noteq> 0" using take_nonzero_index [OF 1(1)] len by auto
    have pos: "ptr B ino q \<noteq> 0" if "0 \<le> q" "q \<le> int k" for q
    proof -
      have "nat q \<le> k" "q < 5" using that k(1) by linarith+
      then show ?thesis using k(3) that(1) by (simp add: ptr_direct)
    qed
    have "\<not> behind_hole B ino (int k)" unfolding behind_hole_def using pos k(1) by force
    moreover have "ptr B ino (int k) = b" using k 1 by (simp add: ptr_direct)
    moreover have "int k \<in> slots" using k(1) by (simp add: slots_def)
    ultimately show ?thesis using pos [of "int k"] by force
  next
    case 2
    have "\<not> behind_hole B ino (-1)" by (simp add: behind_hole_def)
    then show ?thesis using 2 by (intro bexI [of _ "-1"]) (simp_all add: ptr_indirect_block slots_def)
  next
    case 3
    let ?x = "B (sint (indirect ino))"
    obtain k where k: "k < 1024" "pointers_of ?x ! k = p" "\<forall>j \<le> k. pointers_of ?x ! j \<noteq> 0"
      using take_nonzero_index [OF 3(2)] by (auto simp: pointers_of_def)
    have at: "pointers_of ?x ! j = get_int ?x (int j)" if "j \<le> k" for j using that k(1) by (simp add: pointers_of_def)
    have ind: "ptr B ino (5 + int j) = sint (get_int ?x (int j))" for j using 3(1) by (simp add: ptr_def)
    have pos: "ptr B ino q \<noteq> 0" if q: "5 \<le> q" "q \<le> 5 + int k" for q
    proof -
      obtain j where j: "q = 5 + int j" using q(1) zle_iff_zadd by auto
      then have "j \<le> k" using q(2) by simp
      then show ?thesis unfolding j ind using k(3) at by auto
    qed
    have "\<not> behind_hole B ino (5 + int k)" unfolding behind_hole_def using pos by force
    moreover have "ptr B ino (5 + int k) = b" using ind at k 3(3) by simp
    moreover have "5 + int k \<in> slots" using k(1) by (simp add: slots_def)
    ultimately show ?thesis using pos [of "5 + int k"] by force
  qed
qed

text \<open>
  C34.  A file may have a hole, a block that was never written, in front of a block it has.  \<open>fs_mount\<close> marks
  the blocks of an inode up to the first hole only, so after mounting a block behind one still belongs to the file,
  and is free for another.
\<close>

theorem mount_frees_blocks_behind_holes:
  assumes d: "disk_inv s" and j: "0 \<le> j" "j < 128 * (1 + nblocks (dev s) div 10)" and r: "0 \<le> r" "r < 1029"
    and hole: "behind_hole (D s) (disk_inode s j) r"
  shows "runs (fs_mount cap s) (\<lambda>(k, u). k = 1 \<and> ptr (D u) (table u j) r = ptr (D s) (disk_inode s j) r \<and>
    data_block (numblocks u) (ptr (D u) (table u j) r) \<and> bmap u ! nat (ptr (D u) (table u j) r) = 0)"
proof -
  note e = disk_invD [OF d]
  let ?ib = "1 + nblocks (dev s) div 10" and ?p = "ptr (D s) (disk_inode s j) r"
  obtain u where u: "fs_mount cap s = Inr (1, u)" "mounting s cap ({0..?ib} \<union> seen_upto s (128 * ?ib)) (valid_upto s (128 * ?ib)) u"
    using fs_mount_marks [OF disk_inv_mountable [OF d], of cap] by (auto simp: runs_iff)
  note m = mountingD [OF u(2)]
  have cn: "cnodes u = []" using m(6) by (simp add: cnodes_def new_cache_def)
  have du: "disk_inode u = disk_inode s" by (intro ext) (simp add: disk_inode_def m(2))
  have t: "table u = disk_inode s" by (rule table_eqI) (simp_all add: cn du)
  have rs: "r \<in> slots" using r by (simp add: slots_def)
  have nz: "?p \<noteq> 0" using hole by (simp add: behind_hole_def)
  have db: "data_block (nblocks (dev s)) ?p" by (rule pointers_okD(1) [OF e(7) j rs nz])
  have "?p \<notin> seen_upto s (128 * ?ib)"
  proof
    assume "?p \<in> seen_upto s (128 * ?ib)"
    then obtain k where k: "0 \<le> k" "k < 128 * ?ib" "?p \<in> seen (D s) (disk_inode s k)" by (auto simp: seen_upto_def)
    have "length (direct (disk_inode s k)) = 5" by (simp add: disk_inode_def)
    from seen_before_hole [OF this k(3)] obtain q where q: "q \<in> slots" "ptr (D s) (disk_inode s k) q = ?p" "\<not> behind_hole (D s) (disk_inode s k) q" by blast
    have "j = k \<and> r = q" by (rule pointers_okD(3) [OF e(7) j rs nz k(1,2) q(1) q(2) [symmetric]])
    then show False using q(3) hole by simp
  qed
  moreover have "?p \<notin> {0..?ib}" using db by (simp add: data_block_def)
  moreover have "0 \<le> ?p" "?p < numblocks u" using data_block_range [OF m(1), of ?p] db m(4) by auto
  ultimately have "bmap u ! nat ?p = 0" using m(11) by blast
  then show ?thesis using u(1) db m(2,4) t by simp
qed

text \<open>A disk of 20 blocks with one file, whose second block is block 4 and which has no first block.\<close>

definition holey_inode :: fs_inode where
  "holey_inode = \<lparr>isvalid = 1, i_size = 8192, direct = [0, 4, 0, 0, 0], indirect = 0\<rparr>"

definition holey :: fs where
  "holey = fs_init \<lparr>nblocks = 20, nreads = 0, nwrites = 0,
     blocks = (\<lambda>_. zero_block)(0 := put_super zero_block (layout 20), 1 := put_inode_at zero_block 0 holey_inode)\<rparr> (\<lambda>_. False)"

lemma holey_table:
  assumes "0 \<le> j"
  shows "disk_inode holey j = (if j = 0 then holey_inode else empty_inode)"
proof (cases "j div 128 = 0")
  case True
  then have j: "j < 128" using assms by (auto simp: zdiv_eq_0_iff)
  then have m: "j mod 128 = j" using assms by simp
  have "D holey (1 + j div 128) = put_inode_at zero_block 0 holey_inode" using True by (simp add: holey_def fs_init_def)
  moreover have "length (direct holey_inode) = 5" by (simp add: holey_inode_def)
  ultimately show ?thesis
    using get_put_inode_same [of holey_inode zero_block 0] get_put_inode_other [of 0 j zero_block holey_inode] m by (simp add: disk_inode_def)
next
  case False
  moreover have "0 \<le> j div 128" using assms by (simp add: pos_imp_zdiv_nonneg_iff)
  ultimately have "D holey (1 + j div 128) = zero_block" by (simp add: holey_def fs_init_def)
  moreover have "j \<noteq> 0" using False by auto
  ultimately show ?thesis by (simp add: disk_inode_def)
qed

lemma holey_ptr:
  assumes "0 \<le> j" "q \<in> slots"
  shows "ptr (D holey) (disk_inode holey j) q = (if j = 0 \<and> q = 1 then 4 else 0)"
proof (cases "j = 0")
  case True
  have "q = 0 \<or> q = 1 \<or> q = 2 \<or> q = 3 \<or> q = 4" if "0 \<le> q" "q < 5" using that by auto
  then show ?thesis using True assms by (auto simp: holey_table holey_inode_def ptr_def slots_def)
next
  case False
  then show ?thesis using assms ptr_new_inode [of q "D holey" 0] by (simp add: holey_table) (simp add: empty_inode_def)
qed

lemma holey_disk_inv: "disk_inv holey"
proof -
  have n: "nblocks (dev holey) = 20" "heap_inodes holey = (\<lambda>_. None)" by (simp_all add: holey_def fs_init_def)
  have "get_super (D holey 0) = layout 20" by (simp add: holey_def fs_init_def)
  moreover have "pointers_ok 20 384 (\<lambda>j. ptr (D holey) (disk_inode holey j)) (replicate 20 1)"
    unfolding pointers_ok_def
  proof (intro conjI allI impI; elim conjE)
    fix j q assume a: "0 \<le> j" "q \<in> slots" "ptr (D holey) (disk_inode holey j) q \<noteq> 0"
    have "ptr (D holey) (disk_inode holey j) q = 4" using a(3) unfolding holey_ptr [OF a(1,2)] by (simp split: if_splits)
    then show "data_block 20 (ptr (D holey) (disk_inode holey j) q)" "replicate 20 1 ! nat (ptr (D holey) (disk_inode holey j) q) \<noteq> (0::int)"
      by (simp_all add: data_block_def)
  next
    fix j q k r assume a: "0 \<le> j" "q \<in> slots" "0 \<le> k" "r \<in> slots" "ptr (D holey) (disk_inode holey j) q \<noteq> 0"
      "ptr (D holey) (disk_inode holey j) q = ptr (D holey) (disk_inode holey k) r"
    then show "j = k" "q = r" unfolding holey_ptr [OF a(1,2)] holey_ptr [OF a(3,4)] by (auto split: if_splits)
  qed
  moreover have "0 \<le> sint (i_size (disk_inode holey j)) \<and> sint (i_size (disk_inode holey j)) \<le> MAX_OFFSET \<and>
      (isvalid (disk_inode holey j) = 0 \<and> disk_inode holey j = empty_inode \<or> isvalid (disk_inode holey j) = 1 \<and> j div 128 < 2)"
    if "0 \<le> j" for j
    using that by (simp add: holey_table holey_inode_def empty_inode_def MAX_OFFSET_val)
  ultimately show ?thesis unfolding disk_inv_def n by (simp add: DISK_BLOCK_SIZE_def INT_MAX_def)
qed

theorem mount_frees_blocks_behind_holes_witness:
  "runs (fs_mount 0 holey) (\<lambda>(k, u). k = 1 \<and> ptr (D u) (table u 0) 1 = ptr (D holey) (disk_inode holey 0) 1 \<and>
    data_block (numblocks u) (ptr (D u) (table u 0) 1) \<and> bmap u ! nat (ptr (D u) (table u 0) 1) = 0)"
proof (rule mount_frees_blocks_behind_holes [OF holey_disk_inv])
  show "0 < 128 * (1 + nblocks (dev holey) div 10)" by (simp add: holey_def fs_init_def)
  have "ptr (D holey) (disk_inode holey 0) 0 = 0" "ptr (D holey) (disk_inode holey 0) 1 = 4" by (simp_all add: holey_ptr slots_def)
  then show "behind_hole (D holey) (disk_inode holey 0) 1" unfolding behind_hole_def by (auto intro: exI [of _ 0])
qed simp_all

section \<open>Free inodes in the cache\<close>

text \<open>
  C36.  When the inode cache does hold the free inode that is least, the new file is lost: \<open>fs_create\<close> writes it to the
  disk behind the back of the cache, so it returns the number, and \<open>fs_getsize\<close> finds no file there.
\<close>

theorem created_file_hidden_by_cache:
  assumes inv: "fs_inv s" and i: "i \<in> reach s" "file_at s i = None" "\<And>j. 0 \<le> j \<Longrightarrow> j < i \<Longrightarrow> file_at s j \<noteq> None"
    and cached: "i \<in> n_inumber ` set (cnodes s)"
  shows "\<exists>u v. fs_create s = Inr (i, u) \<and> fs_getsize i u = Inr (-1, v)"
proof -
  note s = fs_invD [OF inv]
  have ri: "0 \<le> i" "i < numinodes s" using reach_numinodes [OF inv i(1)] by simp_all
  have us: "used s j \<longleftrightarrow> file_at s j \<noteq> None" if "0 \<le> j" "j \<le> i" for j
    using used_iff_file [OF inv, of j] that ri by simp
  have "disk_ok s" using s(5) by (simp add: cache_inv_def)
  then obtain w where w: "inode_save i (Inr (empty_inode\<lparr>isvalid := 1\<rparr>)) s = Inr (True, w)" "saved i (empty_inode\<lparr>isvalid := 1\<rparr>) s w"
    using inode_save_runs [OF _ i(1), of "empty_inode\<lparr>isvalid := 1\<rparr>"] by (auto simp: runs_iff empty_inode_def)
  obtain d where d: "w = s\<lparr>dev := d\<rparr>" using w(2) by (auto simp: saved_def)
  let ?u = "w\<lparr>inode_freemap := Some ((the (inode_freemap s))[nat i := 1])\<rparr>"
  have "mark_inode i 1 w = Inr ?u" using s(3,4) ri by (auto simp: d mark_inode_def arr_set_def vec_set_def)
  moreover have "fs_create s = bindE (inode_save i (Inr (empty_inode\<lparr>isvalid := 1\<rparr>)) s) (\<lambda>(res, s).
       if \<not> res then Inr (-1, s) else bindE (mark_inode i 1 s) (\<lambda>s. Inr (i, s)))"
    by (rule create_search [OF inv ri]) (use us i(2,3) ri in auto)
  ultimately have c: "fs_create s = Inr (i, ?u)" using w(1) by simp
  obtain c where cc: "the_cache s = Some c" "list_ok c" "cnodes s = nodes c" "live_cache s = Inr c" "\<And>n. n \<in> set (nodes c) \<Longrightarrow> node_ok {} s n"
    using s(5) by (elim cache_invE) blast
  obtain n where n: "n \<in> set (nodes c)" "n_inumber n = i" using cached cc(3) by auto
  from handle_found [OF cc(2) n] obtain xs ys where f: "find_node i (nodes c) = Some (xs, n, ys)" by metis
  obtain ino where ino: "heap_inodes s (n_inode n) = Some ino" using cc(5) [OF n(1)] by (auto simp: node_ok_def)
  have "table s i = ino" using table_in [of s n] cc(2,3) n ino by (simp add: list_ok_def)
  moreover have "isvalid (table s i) = 0" using i(2) ri by (simp add: file_at_def split: if_splits)
  ultimately have v: "isvalid ino = 0" by simp
  have "live_cache ?u = Inr c" using cc(4) by (simp add: live_cache_def d)
  then have "get_inode i ?u = Inr (Some (n_inode n), ?u\<lparr>the_cache := Some (c\<lparr>nodes := xs @ ys @ [n]\<rparr>)\<rparr>)"
    using find_node_found [OF i(1) f] by (simp add: get_inode_def)
  then have "fs_getsize i ?u = Inr (-1, ?u\<lparr>the_cache := Some (c\<lparr>nodes := xs @ ys @ [n]\<rparr>)\<rparr>)"
    using ino v s(10) by (simp add: fs_getsize_def inode_ptr_def is_mounted_def d)
  then show ?thesis using c by blast
qed

text \<open>Asking for the size of a free inode puts it into the cache.\<close>

lemma getsize_caches:
  assumes inv: "fs_inv s" and room: "room s" and i: "i \<in> reach s" and cap: "mount_of s = (n, Some cap)" "cap \<noteq> 0"
  shows "runs (fs_getsize i s) (\<lambda>(r, u). fs_inv u \<and> file_at u = file_at s \<and> reach u = reach s \<and> i \<in> n_inumber ` set (cnodes u))"
proof -
  note s = fs_invD [OF inv]
  obtain a u where g: "get_inode i s = Inr (Some a, u)" "cache_inv {} u" "room u" "table u = table s"
      "heap_inodes u a = Some (table s i)" "handle i a u" "only_inodes s u"
    using get_inode_runs [OF s(5) i room] by (auto simp: runs_iff)
  have "map_option capacity (the_cache u) = Some cap" using g(7) cap(1) by (simp add: only_inodes_def mount_of_def)
  then have "i \<in> n_inumber ` set (cnodes u)" using g(6) cap(2) by (auto simp: handle_def)
  moreover have "reach u = reach s" using g(7) by (simp add: reach_def nib_def only_inodes_def)
  ultimately show ?thesis using g(1,5) s(10) fs_inv_frame [OF inv g(7,2,4)] by (simp add: fs_getsize_def inode_ptr_def)
qed

definition sample_asked :: "int \<Rightarrow> fs" where
  "sample_asked cap = the_state (fs_getsize 0 (sample cap))"

theorem created_file_hidden_by_cache_witness:
  "\<exists>u v. fs_create (sample_asked 4) = Inr (0, u) \<and> fs_getsize 0 u = Inr (-1, v)"
proof (rule created_file_hidden_by_cache)
  have c: "(0::int) \<le> 4" "4 < INT_MAX" by (simp_all add: INT_MAX_def)
  note s = sample_props [OF c] and n = sample_numbers [OF c]
  have r: "0 \<in> reach (sample 4)" using n(3) by simp
  from the_state_runs [OF getsize_caches [OF s(1,2) r s(4)]] have
    u: "fs_inv (sample_asked 4)" "file_at (sample_asked 4) = file_at (sample 4)" "reach (sample_asked 4) = reach (sample 4)"
      "0 \<in> n_inumber ` set (cnodes (sample_asked 4))" by (simp_all add: sample_asked_def)
  then show "fs_inv (sample_asked 4)" "0 \<in> reach (sample_asked 4)" "file_at (sample_asked 4) 0 = None" "0 \<in> n_inumber ` set (cnodes (sample_asked 4))"
    using r s(5) by simp_all
qed simp

section \<open>Deleting with a cache of one inode\<close>

text \<open>
  C35.  \<open>remove_if_present\<close> does not give back the place of the inode it takes out of the cache.  So with a cache of
  capacity 1 the first deletion makes every later look at an inode read memory that has been freed.
\<close>

theorem delete_poisons_small_cache:
  assumes inv: "fs_inv s" and room: "room s" and f: "file_at s i = Some (sz, f)" and cap: "map_option capacity (the_cache s) = Some 1" and j: "j \<in> reach s"
  shows "\<exists>u. fs_delete i s = Inr (1, u) \<and> fs_getsize j u = Inl UseAfterFree"
proof -
  obtain u where u: "fs_delete i s = Inr (1, u)" "fs_inv u" "mount_of u = mount_of s" "cnodes u = []" "map_option current_size (the_cache u) = Some 1"
    using fs_delete_runs [OF inv room f] cap by (auto simp: runs_iff)
  note s = fs_invD [OF u(2)]
  have ju: "j \<in> reach u" using j u(3) fs_invD(8) [OF inv] s(8) by (simp add: reach_def mount_of_def)
  obtain c where c: "the_cache u = Some c" "cnodes u = nodes c" "live_cache u = Inr c"
    using s(5) by (elim cache_invE) blast
  have cc: "nodes c = []" "current_size c = 1" "capacity c = 1" using u(3-5) c(1,2) cap by (auto simp: mount_of_def)
  let ?a = "next_inode u" and ?u = "u\<lparr>next_inode := next_inode u + 1\<rparr>"
  have ok: "disk_ok ?u" "j \<in> reach ?u" using s(5) ju by (simp_all add: cache_inv_def disk_ok_def reach_def nib_def)
  obtain v where v: "inode_load j ?u = Inr (Some (disk_inode ?u j), v)" "reads ?u v"
    using inode_load_runs [OF ok] by (auto simp: runs_iff)
  let ?v = "v\<lparr>heap_inodes := (heap_inodes v)(?a := Some (disk_inode ?u j))\<rparr>"
  let ?n = "\<lparr>n_inumber = j, n_inode = ?a, n_dirty = stale v ?a\<rparr>"
  have okv: "disk_ok ?v" "j \<in> reach ?v" using ok readsD [OF v(2)] by (simp_all add: disk_ok_def reach_def nib_def)
  have len: "length (direct (disk_inode ?u j)) = 5" by (simp add: disk_inode_def)
  obtain w where w: "save_if_dirty ?n ?v = Inr w" "heap_inodes w = heap_inodes ?v" "inode_freemap w = inode_freemap ?v"
  proof (cases "stale v ?a")
    case True
    then show ?thesis using inode_save_runs [OF okv len] that by (auto simp: runs_iff save_if_dirty_def inode_ptr_def saved_def)
  next
    case False
    then show ?thesis using that by (simp add: save_if_dirty_def)
  qed
  have "get_inode j u = Inr (Some ?a, w\<lparr>heap_inodes := (heap_inodes w)(?a := None), the_cache := Some (c\<lparr>nodes := []\<rparr>)\<rparr>)"
    using c(3) cc v(1) w(1,2) find_node_found [OF ju, of c None]
    by (simp add: get_inode_def Let_def evict_lru_def free_inode_def inode_ptr_def int_inc_def INT_MAX_def)
  then have "fs_getsize j u = Inl UseAfterFree" using s(10) by (simp add: fs_getsize_def inode_ptr_def)
  then show ?thesis using u(1) by blast
qed

theorem delete_poisons_small_cache_witness:
  "\<exists>u. fs_delete 0 (sample1 1) = Inr (1, u) \<and> fs_getsize 5 u = Inl UseAfterFree"
proof (rule delete_poisons_small_cache)
  have c: "(0::int) \<le> 1" "1 < INT_MAX" by (simp_all add: INT_MAX_def)
  note s = sample1_props [OF c]
  show "fs_inv (sample1 1)" "room (sample1 1)" "file_at (sample1 1) 0 = Some (0, \<lambda>_. None)"
    "map_option capacity (the_cache (sample1 1)) = Some 1" using s by (simp_all add: mount_of_def)
  show "5 \<in> reach (sample1 1)" using s(5) by (simp add: reach_def nib_def)
qed

section \<open>Further observations\<close>

text \<open>\<open>fs_unmount\<close> destroys the cache but leaves its pointer, which \<open>fs_debug\<close> follows.\<close>

theorem debug_after_unmount:
  assumes "fs_inv s"
  shows "\<exists>u. fs_unmount s = Inr (1, u) \<and> fs_debug u = Inl UseAfterFree"
proof -
  obtain u c where u: "fs_unmount s = Inr (1, u)" "disk_inv u" "the_cache u = Some c" "\<not> c_alive c"
    using fs_unmount_runs [OF assms] by (auto simp: runs_iff)
  note d = disk_invD [OF u(2)]
  have "0 < nblocks (dev u)" using layout_sint(4) [OF d(1,2)] by simp
  then have "disk_read 0 (dev u) = Inr (D u 0, (dev u)\<lparr>nreads := nreads (dev u) + 1\<rparr>)" by (intro disk_read_ok d(2)) simp_all
  then show ?thesis using u d(3)
    by (simp add: fs_debug_def read_block_def layout_def flush_cache_def live_cache_def)
qed

text \<open>The number of the sentinel, and one that falls into the superblock.\<close>

theorem negative_number_uninitialised:
  assumes "fs_inv s"
  shows "fs_getsize (-1) s = Inl Uninitialised" "fs_delete (-1) s = Inl Uninitialised"
proof -
  obtain c where "live_cache s = Inr c" using fs_invD(5) [OF assms] by (elim cache_invE) blast
  then show "fs_getsize (-1) s = Inl Uninitialised" "fs_delete (-1) s = Inl Uninitialised"
    using fs_invD(10) [OF assms] by (simp_all add: fs_getsize_def fs_delete_def get_inode_def find_node_with_inumber_def)
qed

theorem negative_number_out_of_bounds:
  assumes inv: "fs_inv s" and a: "0 \<le> len" "i < 0"
  shows "fs_read i buf len 0 s = Inl OutOfBounds" "fs_write i buf len 0 s = Inl OutOfBounds"
  using fs_invD(3,9,10) [OF inv] a
  by (auto simp: fs_read_def fs_write_def is_arg_valid_def arr_at_def vec_at_def MAX_OFFSET_val)

text \<open>An offset of \<open>MAX_OFFSET\<close> is accepted, and is one block behind the last pointer.\<close>

theorem max_offset_out_of_bounds:
  assumes inv: "fs_inv s" and f: "file_at s i = Some c" and h: "heap_inodes s a = Some (table s i)" and ind: "indirect (table s i) \<noteq> 0" and len: "0 \<le> len"
  shows "is_arg_valid i len MAX_OFFSET s = Inr True" "get_block_number_for_offset a MAX_OFFSET s = Inl OutOfBounds"
proof -
  obtain sz g where c: "file_at s i = Some (sz, g)" using f by (cases c) auto
  note fd = file_atD [OF inv c]
  show "is_arg_valid i len MAX_OFFSET s = Inr True" by (rule is_arg_valid_ok [OF inv fd(1,2,4) len]) (simp_all add: MAX_OFFSET_val)
  have "data_block (numblocks s) (sint (indirect (table s i)))"
    using pointers_okD(1) [OF fs_invD(7) [OF inv] fd(1,2), of "-1"] ind by (simp add: slots_def ptr_indirect_block)
  note b = data_block_range(1,2) [OF fs_invD(1) [OF inv] this]
  have "0 \<le> sint (indirect (table s i))" using b(1) by linarith
  from read_block_runs [OF fs_invD(1) [OF inv] this b(2)]
  obtain u where "read_block (sint (indirect (table s i))) s = Inr (D s (sint (indirect (table s i))), u)" by (auto simp: runs_iff)
  moreover have "MAX_OFFSET sdiv 4096 = 1029" by (simp add: MAX_OFFSET_val signed_divide_int_def)
  ultimately show "get_block_number_for_offset a MAX_OFFSET s = Inl OutOfBounds"
    using h ind by (simp add: get_block_number_for_offset_def inode_ptr_def pointer_at_def fs_sizes)
qed

text \<open>Writing nothing behind the end makes the file longer.\<close>

theorem empty_write_grows_file:
  assumes "fs_inv s" "room s" "file_at s i = Some (sz, f)" "0 \<le> off" "off \<le> MAX_OFFSET"
  shows "runs (fs_write i data 0 off s) (\<lambda>(n, u). n = 0 \<and> file_at u = (file_at s)(i := Some (max sz off, f)))"
  using fs_write_runs [OF assms(1-3), of 0 off data] assms(4,5) by (auto simp: runs_iff)

text \<open>A line of blanks runs the previous command name again, or what is in the buffer before there is one.\<close>

theorem blank_line_first: "read_command ('' '' @ [newline]) no_buffers = Inl Uninitialised"
  by (simp add: read_command_def chop_def scan_def tokens.simps newline_def is_space_def char_code_def no_buffers_def parse_command_def filled_def)

theorem blank_line_repeats: "read_command ('' '' @ [newline]) \<lparr>cmd = Some ''quit'', arg1 = None, arg2 = None\<rparr> =
    Inr (Some Quit, \<lparr>cmd = Some ''quit'', arg1 = None, arg2 = None\<rparr>)"
  by (simp add: read_command_def chop_def scan_def tokens.simps newline_def is_space_def char_code_def parse_command_def filled_def)

end
