(* ===== verification/OtThreads.thy ===== *)
theory OtThreads
  imports Prelude
begin

text \<open>
  The first thread library, \<open>project_1\<close>: round robin over one ready queue, with joining, suspending and resuming.
  Control blocks are never deleted, so a pointer to one is always good.  The entries of the
  join and finished queues are local variables of \<open>uthread_join\<close> and \<open>uthread_exit\<close>: an entry of the join
  queue whose call has returned is \<open>None\<close>, and looking at it is \<open>UseAfterFree\<close>.  A thread that has been
  switched away from goes on as its \<open>ot_cont\<close> says.  Timer signals arrive between calls.
\<close>

section \<open>The state\<close>

datatype ot_status = Ready | Running | Block

record ot_tcb =
  ot_tid :: int
  ot_quantum :: int
  ot_status :: ot_status

datatype ot_cont = OtUser | OtStart | OtYield | OtJoin int bool | OtExit | OtSuspend

text \<open>
  \<open>fresh_quantum a\<close> is what \<open>new\<close> leaves in \<open>_quantum\<close>, which the constructors do not set.
\<close>

record ot =
  ot_heap :: "nat \<Rightarrow> ot_tcb"
  ot_next :: nat
  ot_ready :: "nat list"
  ot_finished :: "(nat \<times> int) list"
  ot_join :: "(nat \<times> int) option list"
  ot_ids :: "int list"
  ot_map :: "(int \<times> nat) list"
  ot_usecs :: int
  ot_running :: nat
  ot_enabled :: bool
  ot_conts :: "nat \<Rightarrow> ot_cont"
  fresh_quantum :: "nat \<Rightarrow> int"

datatype ot_ret = OtRet int | OtJoined int int | OtSwitched

definition tid_of :: "ot \<Rightarrow> nat \<Rightarrow> int" where
  "tid_of s a = ot_tid (ot_heap s a)"

definition set_status :: "nat \<Rightarrow> ot_status \<Rightarrow> ot \<Rightarrow> ot" where
  "set_status a st s = s\<lparr>ot_heap := (ot_heap s)(a := (ot_heap s a)\<lparr>ot_status := st\<rparr>)\<rparr>"

definition ot_increaseQuantum :: "int \<Rightarrow> ot_tcb \<Rightarrow> ot_tcb result" where
  "ot_increaseQuantum delta t = bindE (int_add (ot_quantum t) delta) (\<lambda>q. Inr (t\<lparr>ot_quantum := q\<rparr>))"

section \<open>Queues\<close>

text \<open>\<open>removeFromQueue\<close>: the first thread with the id goes.\<close>

fun remove_tid :: "ot \<Rightarrow> int \<Rightarrow> nat list \<Rightarrow> nat list" where
  "remove_tid s tid [] = []"
| "remove_tid s tid (a # q) = (if tid = tid_of s a then q else a # remove_tid s tid q)"

fun remove_finished :: "ot \<Rightarrow> int \<Rightarrow> (nat \<times> int) list \<Rightarrow> (nat \<times> int) list" where
  "remove_finished s tid [] = []"
| "remove_finished s tid (e # q) = (if tid = tid_of s (fst e) then q else e # remove_finished s tid q)"

definition present_in_finished :: "ot \<Rightarrow> int \<Rightarrow> (nat \<times> int) option" where
  "present_in_finished s tid = find (\<lambda>e. tid = tid_of s (fst e)) (ot_finished s)"

text \<open>\<open>getThreadWaitingOn\<close> and \<open>removeFromJoinQueue\<close> look at every entry up to the one they want.\<close>

fun waiting_on :: "int \<Rightarrow> (nat \<times> int) option list \<Rightarrow> (nat \<times> int) option result" where
  "waiting_on tid [] = Inr None"
| "waiting_on tid (None # q) = Inl UseAfterFree"
| "waiting_on tid (Some (a, w) # q) = (if tid = w then Inr (Some (a, w)) else waiting_on tid q)"

fun remove_join :: "ot \<Rightarrow> int \<Rightarrow> (nat \<times> int) option list \<Rightarrow> (nat \<times> int) option list result" where
  "remove_join s tid [] = Inr []"
| "remove_join s tid (None # q) = Inl UseAfterFree"
| "remove_join s tid (Some (a, w) # q) =
     (if tid = tid_of s a then Inr q else bindE (remove_join s tid q) (\<lambda>q. Inr (Some (a, w) # q)))"

section \<open>Switching\<close>

lemma length_remove_tid: "length (remove_tid s tid q) \<le> length q"
  by (induction q) auto

text \<open>Threads that have finished are skipped.\<close>

function next_thread :: "ot \<Rightarrow> nat list \<Rightarrow> (nat \<times> nat list) result" where
  "next_thread s [] = Inl AssertFail"
| "next_thread s (a # q) =
     (if present_in_finished s (tid_of s a) \<noteq> None then next_thread s (remove_tid s (tid_of s a) q) else Inr (a, q))"
  by pat_completeness auto
termination by (relation "measure (\<lambda>(s, q). length q)") (auto simp: le_imp_less_Suc length_remove_tid)

definition ot_switchThreads :: "ot_cont \<Rightarrow> ot \<Rightarrow> ot result" where
  "ot_switchThreads k s =
     (let s = s\<lparr>ot_conts := (ot_conts s)(ot_running s := k), ot_enabled := False\<rparr>;
          s = (if ot_status (ot_heap s (ot_running s)) = Running
               then (set_status (ot_running s) Ready s)\<lparr>ot_ready := ot_ready s @ [ot_running s]\<rparr> else s)
      in bindE (next_thread s (ot_ready s)) (\<lambda>(a, q).
         Inr (set_status a Running (s\<lparr>ot_ready := q, ot_running := a\<rparr>))))"

definition ot_back :: "ot_ret \<Rightarrow> ot \<Rightarrow> ot_ret \<times> ot" where
  "ot_back r s = (r, s\<lparr>ot_enabled := True, ot_conts := (ot_conts s)(ot_running s := OtUser)\<rparr>)"

section \<open>Calls\<close>

definition ot_init :: "int \<Rightarrow> (nat \<Rightarrow> int) \<Rightarrow> ot result" where
  "ot_init usecs fq =
     bindE (ot_increaseQuantum usecs \<lparr>ot_tid = 0, ot_quantum = fq 0, ot_status = Running\<rparr>) (\<lambda>t.
     Inr \<lparr>ot_heap = (\<lambda>_. t), ot_next = 1, ot_ready = [], ot_finished = [], ot_join = [], ot_ids = [100..199], ot_map = [(0, 0)],
       ot_usecs = usecs, ot_running = 0, ot_enabled = True, ot_conts = (\<lambda>_. OtUser), fresh_quantum = fq\<rparr>)"

definition map_insert :: "int \<Rightarrow> nat \<Rightarrow> (int \<times> nat) list \<Rightarrow> (int \<times> nat) list" where
  "map_insert tid a m = (if map_of m tid = None then (tid, a) # m else m)"

definition map_erase :: "int \<Rightarrow> (int \<times> nat) list \<Rightarrow> (int \<times> nat) list" where
  "map_erase tid m = filter (\<lambda>(k, a). k \<noteq> tid) m"

definition ot_create :: "ot \<Rightarrow> (ot_ret \<times> ot) result" where
  "ot_create s =
     (case ot_ids s of
        [] \<Rightarrow> Inl AssertFail
      | tid # ids \<Rightarrow>
          let a = ot_next s in
          bindE (ot_increaseQuantum (ot_usecs s) \<lparr>ot_tid = tid, ot_quantum = fresh_quantum s a, ot_status = Ready\<rparr>) (\<lambda>t.
          Inr (ot_back (OtRet tid) (s\<lparr>ot_ids := ids, ot_next := a + 1, ot_heap := (ot_heap s)(a := t), ot_conts := (ot_conts s)(a := OtStart),
            ot_map := map_insert tid a (ot_map s), ot_ready := ot_ready s @ [a]\<rparr>))))"

text \<open>\<open>uthread_join\<close> once the thread has finished; \<open>want\<close> tells whether \<open>retval\<close> is not null.\<close>

definition join_end :: "int \<Rightarrow> bool \<Rightarrow> ot \<Rightarrow> (ot_ret \<times> ot) result" where
  "join_end tid want s =
     bindE (case present_in_finished s tid of
              None \<Rightarrow> if want then Inl NullDeref else Inr 0
            | Some (a, v) \<Rightarrow> Inr v) (\<lambda>v.
     Inr (ot_back (if want then OtJoined 1 v else OtRet 1)
       (s\<lparr>ot_finished := remove_finished s tid (ot_finished s), ot_ready := remove_tid s tid (ot_ready s),
          ot_map := map_erase tid (ot_map s), ot_ids := ot_ids s @ [tid]\<rparr>)))"

definition ot_switch :: "ot_cont \<Rightarrow> ot \<Rightarrow> (ot_ret \<times> ot) result" where
  "ot_switch k s = bindE (ot_switchThreads k s) (\<lambda>s. Inr (OtSwitched, s))"

definition ot_join_call :: "int \<Rightarrow> bool \<Rightarrow> ot \<Rightarrow> (ot_ret \<times> ot) result" where
  "ot_join_call tid want s =
     (if present_in_finished s tid \<noteq> None then join_end tid want s
      else ot_switch (OtJoin tid want) ((set_status (ot_running s) Block s)\<lparr>ot_join := ot_join s @ [Some (ot_running s, tid)]\<rparr>))"

definition ot_yield :: "ot \<Rightarrow> (ot_ret \<times> ot) result" where
  "ot_yield s = ot_switch OtYield s"

definition ot_exit :: "int \<Rightarrow> ot \<Rightarrow> (ot_ret \<times> ot) result" where
  "ot_exit retval s =
     (let me = ot_running s; s = set_status me Block (s\<lparr>ot_finished := ot_finished s @ [(me, retval)]\<rparr>) in
      bindE (waiting_on (tid_of s me) (ot_join s)) (\<lambda>w.
      bindE (case w of
               None \<Rightarrow> Inr s
             | Some (a, _) \<Rightarrow>
                 let s = (set_status a Ready s)\<lparr>ot_ready := ot_ready s @ [a]\<rparr> in
                 bindE (remove_join s (tid_of s a) (ot_join s)) (\<lambda>q. Inr (s\<lparr>ot_join := q\<rparr>))) (\<lambda>s.
      ot_switch OtExit s)))"

definition ot_suspend :: "int \<Rightarrow> ot \<Rightarrow> (ot_ret \<times> ot) result" where
  "ot_suspend tid s =
     (case map_of (ot_map s) tid of
        None \<Rightarrow> Inr (OtRet (-1), s)
      | Some a \<Rightarrow>
          if present_in_finished s tid \<noteq> None then Inr (OtRet (-1), s)
          else
            let s' = (set_status a Block s)\<lparr>ot_ready := remove_tid s tid (ot_ready s)\<rparr> in
            if tid_of s (ot_running s) = tid then ot_switch OtSuspend s' else Inr (ot_back (OtRet 1) s'))"

definition ot_resume :: "int \<Rightarrow> ot \<Rightarrow> (ot_ret \<times> ot) result" where
  "ot_resume tid s =
     (case map_of (ot_map s) tid of
        None \<Rightarrow> Inr (OtRet (-1), s)
      | Some a \<Rightarrow>
          if ot_status (ot_heap s a) \<noteq> Block then Inr (OtRet (-1), s)
          else Inr (ot_back (OtRet 1) ((set_status a Ready s)\<lparr>ot_ready := ot_ready s @ [a]\<rparr>)))"

definition ot_self :: "ot \<Rightarrow> int" where
  "ot_self s = tid_of s (ot_running s)"

text \<open>\<open>size_t\<close> times \<open>int\<close>, in 64 bits, cut to an \<open>int\<close>.\<close>

definition ot_get_total_quantums :: "ot \<Rightarrow> int" where
  "ot_get_total_quantums s =
     sint (ucast ((of_nat (length (ot_map s)) * word_of_int (ot_usecs s)) :: 64 word) :: 32 word)"

text \<open>\<open>idToTcb[tid]\<close> puts a null pointer into the map when there is no entry.\<close>

definition ot_get_quantums :: "int \<Rightarrow> ot \<Rightarrow> int result" where
  "ot_get_quantums tid s = (case map_of (ot_map s) tid of None \<Rightarrow> Inl NullDeref | Some a \<Rightarrow> Inr (ot_quantum (ot_heap s a)))"

section \<open>Steps\<close>

text \<open>
  Coming back from a switch.  \<open>uthread_yield\<close> tells whether other threads are ready.  A
  thread that comes back in \<open>uthread_exit\<close> returns from it: \<open>main\<close>, control block 0, into its own code, any other
  from its first function into the context \<open>uc_link\<close>, which is never set.
\<close>

definition ot_continue :: "ot \<Rightarrow> (ot_ret \<times> ot) result" where
  "ot_continue s =
     (case ot_conts s (ot_running s) of
        OtUser \<Rightarrow> Inr (OtSwitched, s)
      | OtStart \<Rightarrow> Inr (ot_back OtSwitched s)
      | OtYield \<Rightarrow> Inr (ot_back (OtRet (if ot_ready s = [] then 0 else 1)) s)
      | OtJoin tid want \<Rightarrow>
          join_end tid want (s\<lparr>ot_join := map (\<lambda>e. if e = Some (ot_running s, tid) then None else e) (ot_join s)\<rparr>)
      | OtExit \<Rightarrow> if ot_running s = 0 then Inr (ot_back OtSwitched s) else Inl Uninitialised
      | OtSuspend \<Rightarrow> Inr (ot_back (OtRet 1) s))"

datatype ot_call = OCreate | OJoin int bool | OYield | OExit int | OSuspend int | OResume int

fun ot_exec :: "ot_call \<Rightarrow> ot \<Rightarrow> (ot_ret \<times> ot) result" where
  "ot_exec OCreate s = ot_create s"
| "ot_exec (OJoin tid want) s = ot_join_call tid want s"
| "ot_exec OYield s = ot_yield s"
| "ot_exec (OExit v) s = ot_exit v s"
| "ot_exec (OSuspend tid) s = ot_suspend tid s"
| "ot_exec (OResume tid) s = ot_resume tid s"

text \<open>A call of the running thread, the timer signal being \<open>OYield\<close>; before it a thread just switched to goes on.\<close>

definition ot_step :: "ot_call \<Rightarrow> ot \<Rightarrow> (ot_ret \<times> ot) result" where
  "ot_step c s = (if ot_conts s (ot_running s) = OtUser then ot_exec c s else ot_continue s)"

fun ot_run :: "ot_call list \<Rightarrow> ot \<Rightarrow> (ot_ret list \<times> ot) result" where
  "ot_run [] s = Inr ([], s)"
| "ot_run (c # cs) s =
     bindE (ot_step c s) (\<lambda>(r, s). bindE (ot_run cs s) (\<lambda>(rs, s). Inr (r # rs, s)))"

end
