(* ===== verification/OtInvariant.thy ===== *)
theory OtInvariant
  imports OtThreads
begin

text \<open>
  The bookkeeping of the first thread library.  \<open>ot_wf R s\<close> says that every thread of the map is in exactly one
  place, the threads \<open>R\<close> being in the hands of the code: ready, finished, joining, or suspended, which is
  nowhere; that states, ids and the places where threads go on agree; and that nobody joins a
  thread another one joins.
\<close>

section \<open>The invariant\<close>

definition members :: "ot \<Rightarrow> nat set" where
  "members s = snd ` set (ot_map s)"

definition fins :: "ot \<Rightarrow> nat list" where
  "fins s = map fst (ot_finished s)"

definition joiners :: "ot \<Rightarrow> nat list" where
  "joiners s = map (\<lambda>e. fst (the e)) (ot_join s)"

definition joins :: "ot \<Rightarrow> nat \<Rightarrow> int \<Rightarrow> bool" where
  "joins s a w \<longleftrightarrow> (\<exists>want. ot_conts s a = OtJoin w want)"

definition ids_ok :: "ot \<Rightarrow> bool" where
  "ids_ok s \<longleftrightarrow> distinct (ot_ids s @ map fst (ot_map s)) \<and> set (ot_ids s) \<union> fst ` set (ot_map s) = insert 0 {100..199} \<and>
     (\<forall>k a. (k, a) \<in> set (ot_map s) \<longrightarrow> tid_of s a = k \<and> a < ot_next s)"

definition places_ok :: "nat set \<Rightarrow> ot \<Rightarrow> bool" where
  "places_ok R s \<longleftrightarrow> None \<notin> set (ot_join s) \<and> distinct (ot_ready s @ fins s @ joiners s) \<and>
     R \<inter> set (ot_ready s @ fins s @ joiners s) = {} \<and> R \<union> set (ot_ready s @ fins s @ joiners s) \<subseteq> members s \<and>
     (\<forall>a \<in> members s. ot_status (ot_heap s a) = (if a \<in> R then Running else if a \<in> set (ot_ready s) then Ready else Block)) \<and>
     (\<forall>a \<in> members s. ot_conts s a = OtUser \<longrightarrow> a \<in> R)"

definition joins_ok :: "ot \<Rightarrow> bool" where
  "joins_ok s \<longleftrightarrow> (\<forall>a w. Some (a, w) \<in> set (ot_join s) \<longrightarrow> joins s a w) \<and>
     (\<forall>a \<in> members s. \<forall>w. joins s a w \<longrightarrow> Some (a, w) \<in> set (ot_join s) \<or> w \<in> tid_of s ` set (fins s)) \<and>
     (\<forall>a \<in> members s. \<forall>b \<in> members s. \<forall>w. joins s a w \<longrightarrow> joins s b w \<longrightarrow> a = b) \<and>
     (\<forall>a \<in> members s. ot_conts s a = OtExit \<longleftrightarrow> a \<in> set (fins s))"

definition ot_wf :: "nat set \<Rightarrow> ot \<Rightarrow> bool" where
  "ot_wf R s \<longleftrightarrow> ids_ok s \<and> places_ok R s \<and> joins_ok s"

definition ot_inv :: "ot \<Rightarrow> bool" where
  "ot_inv s \<longleftrightarrow> ot_wf {ot_running s} s \<and> (ot_enabled s \<longleftrightarrow> ot_conts s (ot_running s) = OtUser)"

lemmas ot_defs = members_def fins_def joiners_def joins_def

lemma tid_of_set_status [simp]: "tid_of (set_status a st s) b = tid_of s b"
  by (simp add: tid_of_def set_status_def)

lemma set_status_fields [simp]:
  "ot_next (set_status a st s) = ot_next s" "ot_ready (set_status a st s) = ot_ready s" "ot_finished (set_status a st s) = ot_finished s"
  "ot_join (set_status a st s) = ot_join s" "ot_ids (set_status a st s) = ot_ids s" "ot_map (set_status a st s) = ot_map s"
  "ot_usecs (set_status a st s) = ot_usecs s" "ot_running (set_status a st s) = ot_running s" "ot_enabled (set_status a st s) = ot_enabled s"
  "ot_conts (set_status a st s) = ot_conts s" "ot_status (ot_heap (set_status a st s) b) = (if b = a then st else ot_status (ot_heap s b))"
  by (simp_all add: set_status_def)

lemma ids_inj:
  assumes "ids_ok s" "a \<in> members s" "b \<in> members s" "tid_of s a = tid_of s b"
  shows "a = b"
proof -
  obtain k l where k: "(k, a) \<in> set (ot_map s)" "(l, b) \<in> set (ot_map s)" using assms(2,3) by (auto simp: members_def)
  then have "k = l" using assms(1,4) by (auto simp: ids_ok_def)
  moreover have "distinct (map fst (ot_map s))" using assms(1) by (simp add: ids_ok_def)
  ultimately show ?thesis using k by (metis eq_key_imp_eq_value)
qed

lemma map_of_members:
  assumes "ids_ok s"
  shows "map_of (ot_map s) tid = Some a \<longleftrightarrow> a \<in> members s \<and> tid_of s a = tid"
proof -
  have d: "distinct (map fst (ot_map s))" and t: "\<And>k a. (k, a) \<in> set (ot_map s) \<Longrightarrow> tid_of s a = k" using assms by (auto simp: ids_ok_def)
  then show ?thesis using t by (force simp: members_def map_of_eq_Some_iff [OF d])
qed

lemma wfD:
  assumes "ot_wf R s"
  shows "ids_ok s" "places_ok R s" "joins_ok s"
  using assms by (simp_all add: ot_wf_def)

text \<open>Who is in the finished queue.\<close>

lemma present_tid: "present_in_finished s tid \<noteq> None \<longleftrightarrow> tid \<in> tid_of s ` set (fins s)"
  by (force simp: present_in_finished_def find_None_iff fins_def)

lemma present_iff:
  assumes "ot_wf R s" "a \<in> members s"
  shows "present_in_finished s (tid_of s a) = None \<longleftrightarrow> a \<notin> set (fins s)"
proof -
  have f: "set (fins s) \<subseteq> members s" using assms(1) by (auto simp: ot_wf_def places_ok_def)
  have "tid_of s a \<in> tid_of s ` set (fins s) \<longleftrightarrow> a \<in> set (fins s)"
  proof
    assume "tid_of s a \<in> tid_of s ` set (fins s)"
    then obtain b where b: "b \<in> set (fins s)" "tid_of s a = tid_of s b" by blast
    then show "a \<in> set (fins s)" using ids_inj [OF wfD(1) [OF assms(1)] assms(2) _ b(2)] f by blast
  qed simp
  then show ?thesis using present_tid [of s "tid_of s a"] by blast
qed

section \<open>Elementary changes\<close>

lemma wf_conts:
  assumes "ot_wf R s" "a \<notin> set (fins s)" "a \<notin> set (joiners s)" "k \<in> {OtUser, OtStart, OtYield, OtSuspend}" "k = OtUser \<Longrightarrow> a \<in> R"
  shows "ot_wf R (s\<lparr>ot_conts := (ot_conts s)(a := k)\<rparr>)"
proof -
  let ?s = "s\<lparr>ot_conts := (ot_conts s)(a := k)\<rparr>"
  have t: "tid_of ?s = tid_of s" by (simp add: tid_of_def fun_eq_iff)
  have j: "joins ?s b w \<longleftrightarrow> b \<noteq> a \<and> joins s b w" for b w using assms(4) by (auto simp: joins_def)
  have e: "members ?s = members s" "fins ?s = fins s" "joiners ?s = joiners s" "ot_join ?s = ot_join s" by (simp_all add: ot_defs)
  have n: "Some (a, w) \<notin> set (ot_join s)" for w using assms(3) by (force simp: joiners_def)
  have x: "ot_conts ?s b = OtExit \<longleftrightarrow> b \<noteq> a \<and> ot_conts s b = OtExit" for b using assms(4) by auto
  have "ids_ok ?s" "places_ok R ?s" using wfD(1,2) [OF assms(1)] assms(5) by (auto simp: ids_ok_def places_ok_def e t)
  moreover have "joins_ok ?s" using wfD(3) [OF assms(1)] assms(2) n unfolding joins_ok_def e j x t by blast
  ultimately show ?thesis by (simp add: ot_wf_def)
qed

lemma wf_cong:
  assumes "ot_wf R s" "ot_ready u = ot_ready s" "ot_finished u = ot_finished s" "ot_join u = ot_join s" "ot_ids u = ot_ids s"
    "ot_map u = ot_map s" "ot_conts u = ot_conts s" "ot_next u = ot_next s" "ot_heap u = ot_heap s"
  shows "ot_wf R u"
  using assms by (simp add: ot_wf_def ids_ok_def places_ok_def joins_ok_def ot_defs tid_of_def)

text \<open>A change of ready queue and states.\<close>

lemma wf_ready:
  assumes wf: "ot_wf R s" and q: "distinct q" "set q \<inter> (set (fins s) \<union> set (joiners s) \<union> R') = {}" "set q \<subseteq> members s"
    and R': "R' \<subseteq> members s" "R' \<inter> (set (fins s) \<union> set (joiners s)) = {}"
    and h: "\<And>b. b \<in> members s \<Longrightarrow> ot_status (h b) = (if b \<in> R' then Running else if b \<in> set q then Ready else Block)" "\<And>b. ot_tid (h b) = tid_of s b"
    and u: "\<And>b. b \<in> members s \<Longrightarrow> ot_conts s b = OtUser \<Longrightarrow> b \<in> R'"
  shows "ot_wf R' (s\<lparr>ot_heap := h, ot_ready := q\<rparr>)"
proof -
  let ?s = "s\<lparr>ot_heap := h, ot_ready := q\<rparr>"
  have t: "tid_of ?s = tid_of s" using h(2) by (simp add: tid_of_def fun_eq_iff)
  have e: "members ?s = members s" "fins ?s = fins s" "joiners ?s = joiners s" "joins ?s = joins s" by (simp_all add: ot_defs fun_eq_iff)
  have "ids_ok ?s" using wfD(1) [OF wf] by (simp add: ids_ok_def t)
  moreover have "joins_ok ?s" using wfD(3) [OF wf] by (simp add: joins_ok_def e t)
  moreover have "places_ok R' ?s" using wfD(2) [OF wf] q R' h(1) u by (auto simp: places_ok_def e)
  ultimately show ?thesis by (simp add: ot_wf_def)
qed

lemma set_status_heap: "set_status a st s = s\<lparr>ot_heap := (ot_heap s)(a := (ot_heap s a)\<lparr>ot_status := st\<rparr>)\<rparr>"
  by (simp add: set_status_def)

lemma placesD:
  assumes "ot_wf R s"
  shows "distinct (ot_ready s)" "set (ot_ready s) \<inter> (set (fins s) \<union> set (joiners s) \<union> R) = {}" "set (ot_ready s) \<subseteq> members s"
    "R \<subseteq> members s" "R \<inter> (set (fins s) \<union> set (joiners s)) = {}" "set (fins s) \<subseteq> members s" "set (joiners s) \<subseteq> members s"
    "distinct (fins s)" "distinct (joiners s)" "set (fins s) \<inter> set (joiners s) = {}"
    "\<And>a. a \<in> members s \<Longrightarrow> ot_status (ot_heap s a) = (if a \<in> R then Running else if a \<in> set (ot_ready s) then Ready else Block)"
    "\<And>a. a \<in> members s \<Longrightarrow> ot_conts s a = OtUser \<Longrightarrow> a \<in> R"
  using wfD(2) [OF assms] by (auto simp: places_ok_def)

lemma wf_push:
  assumes wf: "ot_wf R s" and a: "a \<in> members s" "a \<notin> set (ot_ready s)" "a \<notin> set (fins s)" "a \<notin> set (joiners s)" "ot_conts s a \<noteq> OtUser"
  shows "ot_wf (R - {a}) ((set_status a Ready s)\<lparr>ot_ready := ot_ready s @ [a]\<rparr>)"
proof -
  note p = placesD [OF wf]
  have "ot_wf (R - {a}) (s\<lparr>ot_heap := (ot_heap s)(a := (ot_heap s a)\<lparr>ot_status := Ready\<rparr>), ot_ready := ot_ready s @ [a]\<rparr>)"
    by (rule wf_ready [OF wf]) (use p a in \<open>auto simp: tid_of_def\<close>)
  then show ?thesis by (simp add: set_status_heap)
qed

lemma wf_pop:
  assumes wf: "ot_wf R s" and a: "ot_ready s = a # q"
  shows "ot_wf (insert a R) (set_status a Running (s\<lparr>ot_ready := q\<rparr>))"
proof -
  note p = placesD [OF wf]
  have "ot_wf (insert a R) (s\<lparr>ot_heap := (ot_heap s)(a := (ot_heap s a)\<lparr>ot_status := Running\<rparr>), ot_ready := q\<rparr>)"
    by (rule wf_ready [OF wf]) (use p a in \<open>auto simp: tid_of_def\<close>)
  then show ?thesis by (rule wf_cong) (simp_all add: set_status_heap)
qed

lemma wf_block:
  assumes wf: "ot_wf R s" and q: "q = filter (\<lambda>b. b \<noteq> a) (ot_ready s)" and a: "ot_conts s a \<noteq> OtUser"
  shows "ot_wf (R - {a}) ((set_status a Block s)\<lparr>ot_ready := q\<rparr>)"
proof -
  note p = placesD [OF wf]
  have "ot_wf (R - {a}) (s\<lparr>ot_heap := (ot_heap s)(a := (ot_heap s a)\<lparr>ot_status := Block\<rparr>), ot_ready := q\<rparr>)"
    by (rule wf_ready [OF wf]) (use p a in \<open>auto simp: tid_of_def q\<close>)
  then show ?thesis by (simp add: set_status_heap)
qed


text \<open>A thread in no place starts to join, finishes, or is woken.\<close>

definition nowhere :: "nat set \<Rightarrow> ot \<Rightarrow> nat \<Rightarrow> bool" where
  "nowhere R s a \<longleftrightarrow> a \<in> members s \<and> a \<notin> R \<and> a \<notin> set (ot_ready s) \<and> a \<notin> set (fins s) \<and> a \<notin> set (joiners s)"

lemma wf_join:
  assumes wf: "ot_wf R s" and a: "nowhere R s a" and w: "\<And>b. b \<in> members s \<Longrightarrow> b \<noteq> a \<Longrightarrow> \<not> joins s b w"
  shows "ot_wf R (s\<lparr>ot_conts := (ot_conts s)(a := OtJoin w want), ot_join := ot_join s @ [Some (a, w)]\<rparr>)"
proof -
  let ?s = "s\<lparr>ot_conts := (ot_conts s)(a := OtJoin w want), ot_join := ot_join s @ [Some (a, w)]\<rparr>"
  note p = placesD [OF wf]
  have t: "tid_of ?s = tid_of s" by (simp add: tid_of_def fun_eq_iff)
  have e: "members ?s = members s" "fins ?s = fins s" "joiners ?s = joiners s @ [a]" by (simp_all add: ot_defs)
  have j: "joins ?s b v \<longleftrightarrow> (if b = a then v = w else joins s b v)" for b v by (auto simp: joins_def)
  have n: "Some (a, v) \<notin> set (ot_join s)" for v using a by (force simp: joiners_def nowhere_def)
  have "ids_ok ?s" using wfD(1) [OF wf] by (simp add: ids_ok_def t)
  moreover have "places_ok R ?s" using wfD(2) [OF wf] a by (auto simp: places_ok_def e nowhere_def)
  moreover have "joins_ok ?s"
    unfolding joins_ok_def e t j
  proof (intro conjI)
    show "\<forall>b v. Some (b, v) \<in> set (ot_join ?s) \<longrightarrow> (if b = a then v = w else joins s b v)"
      using wfD(3) [OF wf] n by (auto simp: joins_ok_def)
    show "\<forall>b \<in> members s. \<forall>v. (if b = a then v = w else joins s b v) \<longrightarrow> Some (b, v) \<in> set (ot_join ?s) \<or> v \<in> tid_of s ` set (fins s)"
      using wfD(3) [OF wf] by (auto simp: joins_ok_def)
    show "\<forall>b \<in> members s. \<forall>c \<in> members s. \<forall>v. (if b = a then v = w else joins s b v) \<longrightarrow> (if c = a then v = w else joins s c v) \<longrightarrow> b = c"
      using wfD(3) [OF wf] w unfolding joins_ok_def by (metis (full_types))
    show "\<forall>b \<in> members s. (ot_conts ?s b = OtExit) = (b \<in> set (fins s))" using wfD(3) [OF wf] a by (auto simp: joins_ok_def nowhere_def)
  qed
  ultimately show ?thesis by (simp add: ot_wf_def)
qed

lemma wf_finish:
  assumes wf: "ot_wf R s" and a: "nowhere R s a"
  shows "ot_wf R (s\<lparr>ot_conts := (ot_conts s)(a := OtExit), ot_finished := ot_finished s @ [(a, v)]\<rparr>)"
proof -
  let ?s = "s\<lparr>ot_conts := (ot_conts s)(a := OtExit), ot_finished := ot_finished s @ [(a, v)]\<rparr>"
  have t: "tid_of ?s = tid_of s" by (simp add: tid_of_def fun_eq_iff)
  have e: "members ?s = members s" "fins ?s = fins s @ [a]" "joiners ?s = joiners s" "ot_join ?s = ot_join s" by (simp_all add: ot_defs)
  have j: "joins ?s b w \<longleftrightarrow> b \<noteq> a \<and> joins s b w" for b w by (auto simp: joins_def)
  have n: "Some (a, w) \<notin> set (ot_join s)" for w using a by (force simp: joiners_def nowhere_def)
  have "ids_ok ?s" using wfD(1) [OF wf] by (simp add: ids_ok_def t)
  moreover have "places_ok R ?s" using wfD(2) [OF wf] a by (auto simp: places_ok_def e nowhere_def)
  moreover have "joins_ok ?s" using wfD(3) [OF wf] n unfolding joins_ok_def e t j by auto
  ultimately show ?thesis by (simp add: ot_wf_def)
qed

lemma wf_wake:
  assumes wf: "ot_wf R s" and a: "Some (a, w) \<in> set (ot_join s)" and w: "w \<in> tid_of s ` set (fins s)"
  shows "ot_wf R (s\<lparr>ot_join := remove1 (Some (a, w)) (ot_join s)\<rparr>)" "nowhere R (s\<lparr>ot_join := remove1 (Some (a, w)) (ot_join s)\<rparr>) a"
proof -
  let ?s = "s\<lparr>ot_join := remove1 (Some (a, w)) (ot_join s)\<rparr>"
  note p = placesD [OF wf]
  have t: "tid_of ?s = tid_of s" by (simp add: tid_of_def fun_eq_iff)
  have e: "members ?s = members s" "fins ?s = fins s" "joins ?s = joins s" by (simp_all add: ot_defs fun_eq_iff)
  have d: "distinct (ot_join s)" using p(9) by (auto simp: joiners_def distinct_map)
  have set_j: "set (ot_join ?s) = set (ot_join s) - {Some (a, w)}" using d by (simp add: set_remove1_eq)
  have aj: "a \<in> set (joiners s)" using a by (force simp: joiners_def)
  have inj: "inj_on (\<lambda>e. fst (the e)) (set (ot_join s))" using p(9) by (simp add: joiners_def distinct_map)
  have jn: "set (joiners ?s) = set (joiners s) - {a}"
  proof -
    have "set (joiners ?s) = (\<lambda>e. fst (the e)) ` (set (ot_join s) - {Some (a, w)})" by (simp only: joiners_def set_map set_j)
    also have "\<dots> = (\<lambda>e. fst (the e)) ` set (ot_join s) - (\<lambda>e. fst (the e)) ` {Some (a, w)}"
      by (rule inj_on_image_set_diff [OF inj]) (use a in auto)
    finally show ?thesis by (simp add: joiners_def)
  qed
  have dj: "distinct (joiners ?s)" using d inj set_j by (auto simp: joiners_def distinct_map inj_on_diff)
  have "ids_ok ?s" using wfD(1) [OF wf] by (simp add: ids_ok_def t)
  moreover have "places_ok R ?s" using wfD(2) [OF wf] dj unfolding places_ok_def e set_append jn distinct_append set_j by auto
  moreover have "joins_ok ?s"
    unfolding joins_ok_def e t set_j
  proof (intro conjI)
    show "\<forall>b \<in> members s. \<forall>v. joins s b v \<longrightarrow> Some (b, v) \<in> set (ot_join s) - {Some (a, w)} \<or> v \<in> tid_of s ` set (fins s)"
    proof (intro ballI allI impI)
      fix b v assume "b \<in> members s" "joins s b v"
      then have "Some (b, v) \<in> set (ot_join s) \<or> v \<in> tid_of s ` set (fins s)" using wfD(3) [OF wf] unfolding joins_ok_def by blast
      then show "Some (b, v) \<in> set (ot_join s) - {Some (a, w)} \<or> v \<in> tid_of s ` set (fins s)" using w by (cases "Some (b, v) = Some (a, w)") simp_all
    qed
  qed (use wfD(3) [OF wf] in \<open>simp_all add: joins_ok_def\<close>)
  ultimately show "ot_wf R ?s" by (simp add: ot_wf_def)
  show "nowhere R ?s a" using p(2,5,7,10) aj jn e unfolding nowhere_def by auto
qed

section \<open>Reaping and creating\<close>

lemma members_iff: "a \<in> members s \<longleftrightarrow> (\<exists>k. (k, a) \<in> set (ot_map s))"
  by (force simp: members_def)

lemma remove_finished_filter:
  assumes "distinct (map fst q)" "inj_on (tid_of s) (fst ` set q)"
  shows "remove_finished s tid q = filter (\<lambda>e. tid_of s (fst e) \<noteq> tid) q"
  using assms
proof (induction q)
  case (Cons e q)
  have "inj_on (tid_of s) (fst ` set q)" using Cons.prems(2) by (simp add: inj_on_def)
  then have ih: "remove_finished s tid q = filter (\<lambda>e. tid_of s (fst e) \<noteq> tid) q" using Cons by simp
  show ?case
  proof (cases "tid = tid_of s (fst e)")
    case True
    have "tid_of s (fst x) \<noteq> tid" if "x \<in> set q" for x
    proof
      assume "tid_of s (fst x) = tid"
      then have "fst x = fst e" using Cons.prems(2) True that by (auto simp: inj_on_def)
      then show False using Cons.prems(1) that by (auto simp: image_iff)
    qed
    then show ?thesis using True by simp
  qed (use ih in simp)
qed simp

lemma remove_tid_filter:
  assumes "distinct q" "inj_on (tid_of s) (set q)"
  shows "remove_tid s tid q = filter (\<lambda>a. tid_of s a \<noteq> tid) q"
  using assms
proof (induction q)
  case (Cons a q)
  show ?case
  proof (cases "tid = tid_of s a")
    case True
    have "tid_of s x \<noteq> tid" if "x \<in> set q" for x
      using Cons.prems True that by (auto simp: inj_on_def)
    then show ?thesis using True by simp
  qed (use Cons in simp)
qed simp

lemma members_inj:
  assumes "ot_wf R s" "A \<subseteq> members s"
  shows "inj_on (tid_of s) A"
proof (rule inj_onI)
  fix a b assume "a \<in> A" "b \<in> A" "tid_of s a = tid_of s b"
  then show "a = b" using ids_inj [OF wfD(1) [OF assms(1)], of a b] assms(2) by auto
qed

lemma ready_filter:
  assumes "ot_wf R s" "a \<in> members s"
  shows "remove_tid s (tid_of s a) (ot_ready s) = filter (\<lambda>b. b \<noteq> a) (ot_ready s)"
proof -
  note p = placesD [OF assms(1)]
  have "remove_tid s (tid_of s a) (ot_ready s) = filter (\<lambda>b. tid_of s b \<noteq> tid_of s a) (ot_ready s)"
    by (rule remove_tid_filter [OF p(1) members_inj [OF assms(1) p(3)]])
  also have "\<dots> = filter (\<lambda>b. b \<noteq> a) (ot_ready s)"
  proof (rule filter_cong [OF refl])
    fix b assume "b \<in> set (ot_ready s)"
    then have b: "b \<in> members s" using p(3) by auto
    show "tid_of s b \<noteq> tid_of s a \<longleftrightarrow> b \<noteq> a"
    proof (cases "tid_of s b = tid_of s a")
      case True
      then show ?thesis using ids_inj [OF wfD(1) [OF assms(1)] b assms(2) True] by simp
    qed auto
  qed
  finally show ?thesis .
qed

lemma wf_reap:
  assumes wf: "ot_wf R s" and f: "f \<in> set (fins s)" "tid = tid_of s f" and j: "\<And>a. a \<in> members s \<Longrightarrow> \<not> joins s a tid"
  shows "ot_wf R (s\<lparr>ot_finished := remove_finished s tid (ot_finished s), ot_ready := remove_tid s tid (ot_ready s),
    ot_map := map_erase tid (ot_map s), ot_ids := ot_ids s @ [tid]\<rparr>)"
proof -
  let ?s = "s\<lparr>ot_finished := remove_finished s tid (ot_finished s), ot_ready := remove_tid s tid (ot_ready s),
    ot_map := map_erase tid (ot_map s), ot_ids := ot_ids s @ [tid]\<rparr>"
  note p = placesD [OF wf] and ids = wfD(1) [OF wf]
  have fm: "f \<in> members s" using f(1) p(6) by blast
  have only: "tid_of s a = tid \<longleftrightarrow> a = f" if "a \<in> members s" for a using ids_inj [OF ids that fm] f(2) by blast
  have fr: "f \<notin> set (ot_ready s)" using p(2) f(1) by blast
  have r: "remove_tid s tid (ot_ready s) = ot_ready s"
    unfolding f(2) ready_filter [OF wf fm] using fr by (intro filter_True) auto
  have fi: "fins ?s = filter (\<lambda>a. a \<noteq> f) (fins s)"
  proof -
    have "remove_finished s tid (ot_finished s) = filter (\<lambda>e. tid_of s (fst e) \<noteq> tid) (ot_finished s)"
      by (rule remove_finished_filter) (use p(8) members_inj [OF wf p(6)] in \<open>simp_all add: fins_def\<close>)
    also have "\<dots> = filter (\<lambda>e. fst e \<noteq> f) (ot_finished s)"
      by (rule filter_cong [OF refl]) (use only p(6) in \<open>auto simp: fins_def\<close>)
    finally show ?thesis by (simp add: fins_def filter_map comp_def)
  qed
  have m: "(k, a) \<in> set (map_erase tid (ot_map s)) \<longleftrightarrow> (k, a) \<in> set (ot_map s) \<and> a \<noteq> f" for k a
  proof -
    have "k = tid \<longleftrightarrow> a = f" if "(k, a) \<in> set (ot_map s)"
    proof -
      have "a \<in> members s" "tid_of s a = k" using that ids unfolding members_iff ids_ok_def by blast+
      then show ?thesis using only by blast
    qed
    then show ?thesis by (auto simp: map_erase_def)
  qed
  have mem: "members ?s = members s - {f}" by (intro set_eqI) (auto simp: members_iff m)
  have t: "tid_of ?s = tid_of s" by (simp add: tid_of_def fun_eq_iff)
  have e: "joiners ?s = joiners s" "joins ?s = joins s" "ot_join ?s = ot_join s" by (simp_all add: ot_defs fun_eq_iff)
  have tin: "tid \<in> fst ` set (ot_map s)"
  proof -
    obtain k where k: "(k, f) \<in> set (ot_map s)" using fm unfolding members_iff by blast
    then have "k = tid" using ids f(2) unfolding ids_ok_def by blast
    then show ?thesis using k by force
  qed
  have keys: "fst ` set (map_erase tid (ot_map s)) = fst ` set (ot_map s) - {tid}" by (force simp: map_erase_def)
  have dk: "distinct (map fst (map_erase tid (ot_map s)))" using ids by (simp add: ids_ok_def map_erase_def distinct_map_filter)
  have i: "distinct (ot_ids s)" "set (ot_ids s) \<inter> fst ` set (ot_map s) = {}" "set (ot_ids s) \<union> fst ` set (ot_map s) = insert 0 {100..199}"
      "\<And>k a. (k, a) \<in> set (ot_map s) \<Longrightarrow> tid_of s a = k \<and> a < ot_next s" using ids by (simp_all add: ids_ok_def)
  have "ids_ok ?s"
    unfolding ids_ok_def t
  proof (intro conjI allI impI)
    show "distinct (ot_ids ?s @ map fst (ot_map ?s))" using i(1,2) dk keys tin by (simp del: set_map add: set_map [symmetric]) (auto simp: keys)
    show "set (ot_ids ?s) \<union> fst ` set (ot_map ?s) = insert 0 {100..199}" using i(3) keys tin by auto
    show "tid_of s a = k" "a < ot_next ?s" if "(k, a) \<in> set (ot_map ?s)" for k a using i(4) [of k a] that m [of k a] by simp_all
  qed
  moreover have "places_ok R ?s"
  proof -
    have fj: "f \<notin> set (joiners s)" "f \<notin> R" using p(5,10) f(1) by blast+
    have st: "ot_ready ?s = ot_ready s" "ot_heap ?s = ot_heap s" "ot_conts ?s = ot_conts s" by (simp_all add: r)
    show ?thesis using wfD(2) [OF wf] fj fr unfolding places_ok_def mem fi e st by auto
  qed
  moreover have "joins_ok ?s"
    unfolding joins_ok_def mem fi e t
  proof (intro conjI)
    show "\<forall>a \<in> members s - {f}. \<forall>w. joins s a w \<longrightarrow> Some (a, w) \<in> set (ot_join s) \<or> w \<in> tid_of s ` set (filter (\<lambda>a. a \<noteq> f) (fins s))"
    proof (intro ballI allI impI)
      fix a w assume a: "a \<in> members s - {f}" "joins s a w"
      then have "w \<noteq> tid" using j by blast
      moreover have "Some (a, w) \<in> set (ot_join s) \<or> w \<in> tid_of s ` set (fins s)" using wfD(3) [OF wf] a unfolding joins_ok_def by blast
      ultimately show "Some (a, w) \<in> set (ot_join s) \<or> w \<in> tid_of s ` set (filter (\<lambda>a. a \<noteq> f) (fins s))" using f(2) by auto
    qed
  qed (use wfD(3) [OF wf] in \<open>auto simp: joins_ok_def\<close>)
  ultimately show ?thesis by (simp add: ot_wf_def)
qed

lemma wf_create:
  assumes wf: "ot_wf R s" and i: "ot_ids s = tid # ids" and t: "ot_tid t = tid" "ot_status t = Ready"
  shows "ot_wf R (s\<lparr>ot_ids := ids, ot_next := ot_next s + 1, ot_heap := (ot_heap s)(ot_next s := t),
    ot_conts := (ot_conts s)(ot_next s := OtStart), ot_map := map_insert tid (ot_next s) (ot_map s), ot_ready := ot_ready s @ [ot_next s]\<rparr>)"
proof -
  let ?a = "ot_next s"
  let ?s = "s\<lparr>ot_ids := ids, ot_next := ot_next s + 1, ot_heap := (ot_heap s)(ot_next s := t),
    ot_conts := (ot_conts s)(ot_next s := OtStart), ot_map := map_insert tid (ot_next s) (ot_map s), ot_ready := ot_ready s @ [ot_next s]\<rparr>"
  note p = placesD [OF wf] and iok = wfD(1) [OF wf]
  have "tid \<notin> fst ` set (ot_map s)" using iok i by (auto simp: ids_ok_def)
  then have m: "map_insert tid (ot_next s) (ot_map s) = (tid, ?a) # ot_map s" by (simp add: map_insert_def map_of_eq_None_iff)
  have new: "?a \<notin> members s"
  proof
    assume "?a \<in> members s"
    then obtain k where "(k, ?a) \<in> set (ot_map s)" unfolding members_iff by blast
    then have "?a < ?a" using iok unfolding ids_ok_def by blast
    then show False by simp
  qed
  have mem: "members ?s = insert ?a (members s)" by (simp add: members_def m)
  have e: "fins ?s = fins s" "joiners ?s = joiners s" "ot_join ?s = ot_join s" by (simp_all add: ot_defs)
  have tid: "tid_of ?s b = (if b = ?a then tid else tid_of s b)" for b using t by (simp add: tid_of_def)
  have tf: "tid_of ?s ` set (fins s) = tid_of s ` set (fins s)" using p(6) new by (intro image_cong refl) (simp only: tid, auto)
  have j: "joins ?s b w \<longleftrightarrow> b \<noteq> ?a \<and> joins s b w" for b w by (auto simp: joins_def)
  have nj: "Some (?a, w) \<notin> set (ot_join s)" for w using p(7) new by (force simp: joiners_def)
  have "ids_ok ?s" using iok i unfolding ids_ok_def tid by (auto simp: less_Suc_eq m)
  moreover have "places_ok R ?s" using wfD(2) [OF wf] new p t(2) unfolding places_ok_def mem e by auto
  moreover have "joins_ok ?s" using wfD(3) [OF wf] new p(6) nj unfolding joins_ok_def mem e tf j by auto
  ultimately show ?thesis by (simp add: ot_wf_def)
qed

end
