(* ===== verification/OtCalls.thy ===== *)
theory OtCalls
  imports OtInvariant
begin

text \<open>
  Every call of the first thread library keeps the invariant \<open>ot_inv\<close>, as long as a thread
  has at most one joiner and only suspended threads are resumed (\<open>polite\<close>).
\<close>

section \<open>Switching keeps the invariant\<close>

lemma next_thread_first:
  assumes "ot_wf R s" "ot_ready s = a # q"
  shows "next_thread s (ot_ready s) = Inr (a, q)"
proof -
  note p = placesD [OF assms(1)]
  have "a \<in> members s" "a \<notin> set (fins s)" using p(2,3) assms(2) by auto
  then show ?thesis using present_iff [OF assms(1), of a] assms(2) by simp
qed

lemma switch_inv:
  assumes wf: "ot_wf R (s\<lparr>ot_conts := (ot_conts s)(ot_running s := k)\<rparr>)" and R: "R \<subseteq> {ot_running s}" and r: "ot_running s \<in> members s"
    and k: "k \<noteq> OtUser"
  shows "case ot_switchThreads k s of Inl e \<Rightarrow> e = AssertFail | Inr u \<Rightarrow> ot_inv u"
proof -
  let ?r = "ot_running s"
  let ?s = "s\<lparr>ot_conts := (ot_conts s)(?r := k), ot_enabled := False\<rparr>"
  let ?t = "if ot_status (ot_heap ?s ?r) = Running then (set_status ?r Ready ?s)\<lparr>ot_ready := ot_ready ?s @ [?r]\<rparr> else ?s"
  have wf1: "ot_wf R ?s" by (rule wf_cong [OF wf]) simp_all
  note p = placesD [OF wf1]
  have rm: "?r \<in> members ?s" using r by (simp add: members_def)
  have st: "ot_status (ot_heap ?s ?r) = Running \<longleftrightarrow> R = {?r}" using p(11) [OF rm] R by (auto split: if_splits)
  have wf2: "ot_wf {} ?t"
  proof (cases "R = {?r}")
    case True
    then have "ot_wf (R - {?r}) ((set_status ?r Ready ?s)\<lparr>ot_ready := ot_ready ?s @ [?r]\<rparr>)"
      by (intro wf_push [OF wf1 rm]) (use p(2,5) k in auto)
    then show ?thesis using True st by simp
  next
    case False
    then have "R = {}" using R by auto
    then show ?thesis using wf1 st False by simp
  qed
  define t where "t = ?t"
  have sw: "ot_switchThreads k s = bindE (next_thread t (ot_ready t)) (\<lambda>(a, q). Inr (set_status a Running (t\<lparr>ot_ready := q, ot_running := a\<rparr>)))"
    by (simp add: ot_switchThreads_def Let_def t_def)
  have wft: "ot_wf {} t" and en: "\<not> ot_enabled t" using wf2 by (simp_all add: t_def)
  show ?thesis
  proof (cases "ot_ready t")
    case Nil
    then show ?thesis unfolding sw by simp
  next
    case (Cons a q)
    let ?u = "set_status a Running (t\<lparr>ot_ready := q, ot_running := a\<rparr>)"
    have "ot_switchThreads k s = Inr ?u" unfolding sw next_thread_first [OF wft Cons] by simp
    moreover have "ot_wf {a} ?u" by (rule wf_cong [OF wf_pop [OF wft Cons]]) (simp_all add: set_status_heap)
    moreover have "ot_conts t a \<noteq> OtUser" using placesD(12) [OF wft, of a] placesD(3) [OF wft] Cons by auto
    ultimately show ?thesis using en by (simp add: ot_inv_def)
  qed
qed

section \<open>The calls keep the invariant\<close>

definition kept :: "(ot_ret \<times> ot) result \<Rightarrow> bool" where
  "kept m = (case m of Inl e \<Rightarrow> e = AssertFail \<or> e = SignedOverflow | Inr (r, u) \<Rightarrow> ot_inv u)"

lemma ot_switch_kept:
  assumes "ot_wf R (s\<lparr>ot_conts := (ot_conts s)(ot_running s := k)\<rparr>)" "R \<subseteq> {ot_running s}" "ot_running s \<in> members s" "k \<noteq> OtUser"
  shows "kept (ot_switch k s)"
  using switch_inv [OF assms] by (auto simp: kept_def ot_switch_def split: sum.splits)

lemma back_inv:
  assumes "ot_wf {ot_running s} (s\<lparr>ot_conts := (ot_conts s)(ot_running s := OtUser)\<rparr>)"
  shows "kept (Inr (ot_back r s))"
proof -
  have "ot_wf {ot_running s} (s\<lparr>ot_enabled := True, ot_conts := (ot_conts s)(ot_running s := OtUser)\<rparr>)"
    by (rule wf_cong [OF assms]) simp_all
  then show ?thesis by (simp add: kept_def ot_back_def ot_inv_def)
qed

lemma ot_invD:
  assumes "ot_inv s"
  shows "ot_wf {ot_running s} s" "ot_running s \<in> members s" "ot_running s \<notin> set (fins s)" "ot_running s \<notin> set (joiners s)"
    "ot_running s \<notin> set (ot_ready s)" "ot_enabled s \<longleftrightarrow> ot_conts s (ot_running s) = OtUser"
  using assms placesD(2,4,5) [of "{ot_running s}" s] by (auto simp: ot_inv_def)

text \<open>The running thread is as good as a thread that has just called \<open>uthread_yield\<close>.\<close>

lemma inv_conts:
  assumes "ot_inv s" "k \<in> {OtUser, OtStart, OtYield, OtSuspend}"
  shows "ot_wf {ot_running s} (s\<lparr>ot_conts := (ot_conts s)(ot_running s := k)\<rparr>)"
  by (rule wf_conts) (use ot_invD [OF assms(1)] assms(2) in auto)

lemma conts_again: "s\<lparr>ot_conts := c, ot_conts := d\<rparr> = s\<lparr>ot_conts := d\<rparr>"
  by simp

lemma ot_yield_kept: "ot_inv s \<Longrightarrow> kept (ot_yield s)"
  unfolding ot_yield_def by (rule ot_switch_kept [OF inv_conts]) (use ot_invD in auto)

text \<open>The running thread, blocked and in no queue.\<close>

lemma inv_block:
  assumes "ot_inv s"
  defines "u \<equiv> (set_status (ot_running s) Block s)\<lparr>ot_conts := (ot_conts s)(ot_running s := OtSuspend)\<rparr>"
  shows "ot_wf {} u" "nowhere {} u (ot_running s)"
proof -
  let ?r = "ot_running s" and ?s = "s\<lparr>ot_conts := (ot_conts s)(ot_running s := OtSuspend)\<rparr>"
  have f: "ot_ready ?s = filter (\<lambda>b. b \<noteq> ?r) (ot_ready ?s)" using ot_invD(5) [OF assms(1)] by (auto intro: filter_True [symmetric])
  have "ot_wf ({?r} - {?r}) ((set_status ?r Block ?s)\<lparr>ot_ready := ot_ready ?s\<rparr>)"
    by (rule wf_block [OF inv_conts [OF assms(1)] f]) simp_all
  then have "ot_wf {} ((set_status ?r Block ?s)\<lparr>ot_ready := ot_ready ?s\<rparr>)" by simp
  then show "ot_wf {} u" by (rule wf_cong) (simp_all add: u_def set_status_heap)
  show "nowhere {} u ?r" using ot_invD(2-5) [OF assms(1)] by (simp add: nowhere_def u_def ot_defs)
qed

lemma ot_create_kept:
  assumes "ot_inv s"
  shows "kept (ot_create s)"
proof (cases "ot_ids s")
  case Nil
  then show ?thesis by (simp add: ot_create_def kept_def)
next
  case (Cons tid ids)
  let ?a = "ot_next s"
  show ?thesis
  proof (cases "ot_increaseQuantum (ot_usecs s) \<lparr>ot_tid = tid, ot_quantum = fresh_quantum s ?a, ot_status = Ready\<rparr>")
    case (Inl e)
    then show ?thesis using Cons by (auto simp: ot_create_def kept_def ot_increaseQuantum_def int_add_def split: if_splits)
  next
    case (Inr t)
    then have t: "ot_tid t = tid" "ot_status t = Ready" by (auto simp: ot_increaseQuantum_def int_add_def split: if_splits)
    let ?s = "s\<lparr>ot_conts := (ot_conts s)(ot_running s := OtUser)\<rparr>"
    have ra: "ot_running s \<noteq> ?a"
    proof -
      obtain k where "(k, ot_running s) \<in> set (ot_map s)" using ot_invD(2) [OF assms] unfolding members_iff by auto
      moreover have "ids_ok s" using ot_invD(1) [OF assms] by (simp add: ot_wf_def)
      ultimately have "ot_running s < ?a" unfolding ids_ok_def by auto
      then show ?thesis by simp
    qed
    have "ot_wf {ot_running s} (?s\<lparr>ot_ids := ids, ot_next := ot_next ?s + 1, ot_heap := (ot_heap ?s)(ot_next ?s := t),
        ot_conts := (ot_conts ?s)(ot_next ?s := OtStart), ot_map := map_insert tid (ot_next ?s) (ot_map ?s), ot_ready := ot_ready ?s @ [ot_next ?s]\<rparr>)"
      by (rule wf_create [OF inv_conts [OF assms]]) (use Cons t in simp_all)
    then have "kept (Inr (ot_back (OtRet tid) (s\<lparr>ot_ids := ids, ot_next := ?a + 1, ot_heap := (ot_heap s)(?a := t), ot_conts := (ot_conts s)(?a := OtStart),
        ot_map := map_insert tid ?a (ot_map s), ot_ready := ot_ready s @ [?a]\<rparr>)))"
      by (intro back_inv) (simp, erule wf_cong, simp_all add: fun_upd_twist [OF ra])
    then show ?thesis using Cons Inr by (simp add: ot_create_def Let_def)
  qed
qed

text \<open>Taking the result of a thread that has finished.\<close>

lemma remove_same:
  assumes "tid_of s' = tid_of s"
  shows "remove_finished s' tid q = remove_finished s tid q" "remove_tid s' tid q' = remove_tid s tid q'"
  by (induction q, simp_all add: assms) (induction q', simp_all add: assms)

lemma ot_join_end_kept:
  assumes wf: "ot_wf {ot_running s} (s\<lparr>ot_conts := (ot_conts s)(ot_running s := OtUser)\<rparr>)" and f: "f \<in> set (fins s)" "tid = tid_of s f"
    and others: "\<And>b. b \<in> members s \<Longrightarrow> b \<noteq> ot_running s \<Longrightarrow> \<not> joins s b tid"
  shows "kept (join_end tid want s)"
proof -
  let ?s = "s\<lparr>ot_conts := (ot_conts s)(ot_running s := OtUser)\<rparr>"
  have e: "members ?s = members s" "fins ?s = fins s" "tid_of ?s = tid_of s" by (simp_all add: ot_defs tid_of_def fun_eq_iff)
  have j: "\<not> joins ?s b tid" if "b \<in> members ?s" for b using others [of b] that e by (auto simp: joins_def)
  note same = remove_same [OF e(3)]
  have w: "ot_wf {ot_running s} (?s\<lparr>ot_finished := remove_finished ?s tid (ot_finished ?s), ot_ready := remove_tid ?s tid (ot_ready ?s),
      ot_map := map_erase tid (ot_map ?s), ot_ids := ot_ids ?s @ [tid]\<rparr>)"
    by (rule wf_reap [OF wf, of f]) (use f e j in simp_all)
  have "kept (Inr (ot_back r (s\<lparr>ot_finished := remove_finished s tid (ot_finished s), ot_ready := remove_tid s tid (ot_ready s),
      ot_map := map_erase tid (ot_map s), ot_ids := ot_ids s @ [tid]\<rparr>)))" for r
    using w by (intro back_inv) (simp, erule wf_cong, simp_all add: same)
  moreover obtain a v where "present_in_finished s tid = Some (a, v)" using present_tid [of s tid] f by auto
  ultimately show ?thesis by (simp add: join_end_def)
qed

lemma not_joiner: "a \<notin> set (joiners s) \<Longrightarrow> Some (a, w) \<notin> set (ot_join s)"
  by (force simp: joiners_def)

lemma ot_join_kept:
  assumes inv: "ot_inv s" and polite: "\<And>b. b \<in> members s \<Longrightarrow> b \<noteq> ot_running s \<Longrightarrow> \<not> joins s b tid"
  shows "kept (ot_join_call tid want s)"
proof (cases "present_in_finished s tid")
  case None
  let ?u = "(set_status (ot_running s) Block s)\<lparr>ot_conts := (ot_conts s)(ot_running s := OtSuspend)\<rparr>"
  have m: "members ?u = members s" by (simp add: members_def)
  have "ot_wf {} (?u\<lparr>ot_conts := (ot_conts ?u)(ot_running s := OtJoin tid want), ot_join := ot_join ?u @ [Some (ot_running s, tid)]\<rparr>)"
    by (rule wf_join [OF inv_block [OF inv]]) (use polite in \<open>simp add: m, auto simp: joins_def\<close>)
  then have w: "ot_wf {} (s'\<lparr>ot_conts := (ot_conts s')(ot_running s' := OtJoin tid want)\<rparr>)"
    if "s' = (set_status (ot_running s) Block s)\<lparr>ot_join := ot_join s @ [Some (ot_running s, tid)]\<rparr>" for s'
    unfolding that by (rule wf_cong) (simp_all add: set_status_heap)
  have "kept (ot_switch (OtJoin tid want) ((set_status (ot_running s) Block s)\<lparr>ot_join := ot_join s @ [Some (ot_running s, tid)]\<rparr>))"
    by (rule ot_switch_kept [OF w [OF refl]]) (use ot_invD(2) [OF inv] in \<open>simp_all add: members_def\<close>)
  then show ?thesis using None by (simp add: ot_join_call_def)
next
  case (Some e)
  then obtain f where f: "f \<in> set (fins s)" "tid = tid_of s f" using present_tid [of s tid] by auto
  have "kept (join_end tid want s)" by (rule ot_join_end_kept [OF inv_conts [OF inv] f]) (use polite in simp_all)
  then show ?thesis using Some by (simp add: ot_join_call_def)
qed

lemma waiting_on_cases:
  assumes "None \<notin> set q"
  shows "waiting_on tid q = Inr None \<or> (\<exists>a. waiting_on tid q = Inr (Some (a, tid)) \<and> Some (a, tid) \<in> set q)"
  using assms by (induction tid q rule: waiting_on.induct) auto

lemma remove_join_remove1:
  assumes "None \<notin> set q" "distinct (map (\<lambda>e. fst (the e)) q)" "inj_on (tid_of s) (set (map (\<lambda>e. fst (the e)) q))" "Some (a, w) \<in> set q"
  shows "remove_join s (tid_of s a) q = Inr (remove1 (Some (a, w)) q)"
  using assms
proof (induction q)
  case (Cons e q)
  obtain b v where e: "e = Some (b, v)" using Cons.prems(1) by (cases e) auto
  show ?case
  proof (cases "e = Some (a, w)")
    case False
    then have q: "Some (a, w) \<in> set q" using Cons.prems(4) by simp
    then have "a \<in> set (map (\<lambda>e. fst (the e)) q)" by force
    then have "b \<noteq> a" "tid_of s b \<noteq> tid_of s a" using Cons.prems(2,3) e by (auto simp: inj_on_def)
    moreover have "remove_join s (tid_of s a) q = Inr (remove1 (Some (a, w)) q)"
      using Cons.prems q by (intro Cons.IH) (simp_all add: inj_on_def)
    ultimately show ?thesis using e by simp
  qed (simp)
qed simp

text \<open>The exiting thread, finished and not yet switched away from.\<close>

definition exited :: "int \<Rightarrow> ot \<Rightarrow> ot" where
  "exited v s = set_status (ot_running s) Block (s\<lparr>ot_finished := ot_finished s @ [(ot_running s, v)]\<rparr>)"

lemma exited_simps [simp]:
  "ot_join (exited v s) = ot_join s" "ot_ready (exited v s) = ot_ready s" "ot_running (exited v s) = ot_running s" "members (exited v s) = members s"
  "tid_of (exited v s) = tid_of s" "ot_map (exited v s) = ot_map s" "ot_conts (exited v s) = ot_conts s"
  "ot_finished (exited v s) = ot_finished s @ [(ot_running s, v)]" "ot_status (ot_heap (exited v s) (ot_running s)) = Block"
  by (simp_all add: exited_def members_def tid_of_def set_status_heap fun_eq_iff)

lemma exit_shape:
  "ot_exit v s = bindE (waiting_on (tid_of s (ot_running s)) (ot_join s)) (\<lambda>w. bindE (case w of
     None \<Rightarrow> Inr (exited v s)
   | Some (a, _) \<Rightarrow> bindE (remove_join s (tid_of s a) (ot_join s)) (\<lambda>q.
       Inr ((set_status a Ready (exited v s))\<lparr>ot_ready := ot_ready s @ [a], ot_join := q\<rparr>))) (ot_switch OtExit))"
proof -
  have t: "tid_of ((set_status a Ready (exited v s))\<lparr>ot_ready := q\<rparr>) = tid_of s" for a q
    by (simp add: exited_def tid_of_def set_status_heap fun_eq_iff)
  have rj: "remove_join ((set_status a Ready (exited v s))\<lparr>ot_ready := q\<rparr>) tid js = remove_join s tid js" for a q tid js
    by (induction s tid js rule: remove_join.induct) (simp_all add: exited_def tid_of_def set_status_heap)
  show ?thesis unfolding ot_exit_def Let_def exited_def [symmetric] exited_simps set_status_fields t rj by (simp cong: option.case_cong)
qed

lemma wf_exited:
  assumes inv: "ot_inv s"
  shows "ot_wf {} ((exited v s)\<lparr>ot_conts := (ot_conts s)(ot_running s := OtExit)\<rparr>)"
  by (rule wf_cong [OF wf_finish [OF inv_block [OF inv], where v = v]]) (simp_all add: exited_def set_status_heap)

lemma exit_wakes:
  fixes v :: int
  assumes inv: "ot_inv s" and w: "waiting_on (tid_of s (ot_running s)) (ot_join s) = Inr (Some (a, tid_of s (ot_running s)))"
    "Some (a, tid_of s (ot_running s)) \<in> set (ot_join s)"
  defines "x \<equiv> (set_status a Ready (exited v s))\<lparr>ot_ready := ot_ready s @ [a], ot_join := remove1 (Some (a, tid_of s (ot_running s))) (ot_join s)\<rparr>"
  shows "ot_exit v s = ot_switch OtExit x" "ot_wf {} (x\<lparr>ot_conts := (ot_conts s)(ot_running s := OtExit)\<rparr>)" "a \<noteq> ot_running s"
proof -
  let ?r = "ot_running s" and ?w = "tid_of s (ot_running s)"
  let ?t = "(exited v s)\<lparr>ot_conts := (ot_conts s)(?r := OtExit)\<rparr>"
  let ?x = "?t\<lparr>ot_join := remove1 (Some (a, ?w)) (ot_join ?t)\<rparr>"
  note wt = wf_exited [OF inv, of v]
  have fins: "fins ?t = fins s @ [?r]" by (simp add: fins_def)
  have tidt: "tid_of ?t = tid_of s" by (simp add: tid_of_def exited_def set_status_heap fun_eq_iff)
  have wake: "ot_wf {} ?x" "nowhere {} ?x a"
    using wf_wake [OF wt, of a ?w] w(2) fins tidt by simp_all
  have "ot_conts ?x a \<noteq> OtUser" using placesD(12) [OF wake(1), of a] wake(2) by (auto simp: nowhere_def)
  then have "ot_wf ({} - {a}) ((set_status a Ready ?x)\<lparr>ot_ready := ot_ready ?x @ [a]\<rparr>)"
    by (intro wf_push [OF wake(1)]) (use wake(2) in \<open>auto simp: nowhere_def\<close>)
  then have wy: "ot_wf {} ((set_status a Ready ?x)\<lparr>ot_ready := ot_ready ?x @ [a]\<rparr>)" by simp
  show "ot_wf {} (x\<lparr>ot_conts := (ot_conts s)(?r := OtExit)\<rparr>)" by (rule wf_cong [OF wy]) (simp_all add: x_def set_status_heap)
  show "a \<noteq> ?r" using w(2) not_joiner [OF ot_invD(4) [OF inv]] by auto
  note p = placesD [OF wt]
  have "remove_join s (tid_of s a) (ot_join s) = Inr (remove1 (Some (a, ?w)) (ot_join s))"
  proof (rule remove_join_remove1)
    show "None \<notin> set (ot_join s)" using wfD(2) [OF wt] by (simp add: places_ok_def)
    show "distinct (map (\<lambda>e. fst (the e)) (ot_join s))" using p(9) by (simp add: joiners_def)
    show "inj_on (tid_of s) (set (map (\<lambda>e. fst (the e)) (ot_join s)))"
      using members_inj [OF ot_invD(1) [OF inv], of "set (joiners s)"] placesD(7) [OF ot_invD(1) [OF inv]] by (simp add: joiners_def)
  qed (use w in simp)
  then show "ot_exit v s = ot_switch OtExit x" using w(1) by (simp add: exit_shape x_def)
qed

lemma ot_exit_kept:
  assumes inv: "ot_inv s"
  shows "kept (ot_exit v s)"
proof -
  let ?r = "ot_running s"
  have nN: "None \<notin> set (ot_join s)" using wfD(2) [OF ot_invD(1) [OF inv]] by (simp add: places_ok_def)
  have rm: "?r \<in> members s" using ot_invD(2) [OF inv] .
  consider "waiting_on (tid_of s ?r) (ot_join s) = Inr None"
    | a where "waiting_on (tid_of s ?r) (ot_join s) = Inr (Some (a, tid_of s ?r))" "Some (a, tid_of s ?r) \<in> set (ot_join s)"
    using waiting_on_cases [OF nN] by blast
  then show ?thesis
  proof cases
    case 1
    have "kept (ot_switch OtExit (exited v s))"
      by (rule ot_switch_kept [of "{}"]) (use rm wf_exited [OF inv] in simp_all)
    then show ?thesis using 1 by (simp add: exit_shape)
  next
    case (2 a)
    show ?thesis unfolding exit_wakes(1) [OF inv 2, of v]
      by (rule ot_switch_kept [of "{}"]) (use exit_wakes(2) [OF inv 2, of v] rm in \<open>simp_all add: members_def\<close>)
  qed
qed

lemma ot_resume_kept:
  assumes inv: "ot_inv s" and polite: "\<And>a. map_of (ot_map s) tid = Some a \<Longrightarrow> a \<notin> set (fins s) \<union> set (joiners s)"
  shows "kept (ot_resume tid s)"
proof (cases "\<exists>a. map_of (ot_map s) tid = Some a \<and> ot_status (ot_heap s a) = Block")
  case True
  then obtain a where a: "map_of (ot_map s) tid = Some a" "ot_status (ot_heap s a) = Block" by blast
  note wf = ot_invD(1) [OF inv] and p = placesD [OF ot_invD(1) [OF inv]]
  have am: "a \<in> members s" using a(1) map_of_members [OF wfD(1) [OF wf]] by simp
  have ar: "a \<noteq> ot_running s" "a \<notin> set (ot_ready s)" using p(11) [OF am] a(2) by (auto split: if_splits)
  let ?s = "s\<lparr>ot_conts := (ot_conts s)(ot_running s := OtUser)\<rparr>"
  have u: "ot_conts s a \<noteq> OtUser" using p(12) [OF am] ar by auto
  have "ot_wf ({ot_running s} - {a}) ((set_status a Ready ?s)\<lparr>ot_ready := ot_ready ?s @ [a]\<rparr>)"
    by (rule wf_push [OF inv_conts [OF inv]]) (use am ar u polite [OF a(1)] in \<open>simp_all add: ot_defs\<close>)
  moreover have "{ot_running s} - {a} = {ot_running s}" using ar by auto
  ultimately have w: "ot_wf {ot_running s} ((set_status a Ready ?s)\<lparr>ot_ready := ot_ready ?s @ [a]\<rparr>)" by simp
  have "kept (Inr (ot_back (OtRet 1) ((set_status a Ready s)\<lparr>ot_ready := ot_ready s @ [a]\<rparr>)))"
    by (rule back_inv) (simp, rule wf_cong [OF w], simp_all add: set_status_heap)
  then show ?thesis using a by (simp add: ot_resume_def)
next
  case False
  then show ?thesis using inv by (auto simp: ot_resume_def kept_def split: option.splits)
qed

lemma ot_suspend_kept:
  assumes inv: "ot_inv s"
  shows "kept (ot_suspend tid s)"
proof (cases "\<exists>a. map_of (ot_map s) tid = Some a \<and> present_in_finished s tid = None")
  case True
  then obtain a where a: "map_of (ot_map s) tid = Some a" "present_in_finished s tid = None" by blast
  note wf = ot_invD(1) [OF inv] and p = placesD [OF ot_invD(1) [OF inv]]
  let ?r = "ot_running s"
  have am: "a \<in> members s" "tid_of s a = tid" using a(1) map_of_members [OF wfD(1) [OF wf]] by simp_all
  have q: "remove_tid s tid (ot_ready s) = filter (\<lambda>b. b \<noteq> a) (ot_ready s)" using ready_filter [OF wf am(1)] am(2) by simp
  show ?thesis
  proof (cases "a = ?r")
    case True
    have "remove_tid s tid (ot_ready s) = ot_ready s" unfolding q using True ot_invD(5) [OF inv] by (intro filter_True) auto
    moreover have "kept (ot_switch OtSuspend ((set_status a Block s)\<lparr>ot_ready := ot_ready s\<rparr>))"
      by (rule ot_switch_kept [of "{}"], rule wf_cong [OF inv_block(1) [OF inv]]) (use True am(1) in \<open>simp_all add: set_status_heap members_def\<close>)
    ultimately show ?thesis using a am True by (simp add: ot_suspend_def Let_def)
  next
    case False
    then have nt: "tid_of s ?r \<noteq> tid" using ids_inj [OF wfD(1) [OF wf] am(1) ot_invD(2) [OF inv]] am(2) by auto
    let ?s = "s\<lparr>ot_conts := (ot_conts s)(?r := OtUser)\<rparr>"
    have u: "ot_conts ?s a \<noteq> OtUser" using p(12) [OF am(1)] False by auto
    have "ot_wf ({?r} - {a}) ((set_status a Block ?s)\<lparr>ot_ready := remove_tid s tid (ot_ready s)\<rparr>)"
      by (rule wf_block [OF inv_conts [OF inv] _ u]) (simp_all add: q)
    moreover have "{?r} - {a} = {?r}" using False by auto
    ultimately have w: "ot_wf {?r} ((set_status a Block ?s)\<lparr>ot_ready := remove_tid s tid (ot_ready s)\<rparr>)" by simp
    have "kept (Inr (ot_back (OtRet 1) ((set_status a Block s)\<lparr>ot_ready := remove_tid s tid (ot_ready s)\<rparr>)))"
      by (rule back_inv) (simp, rule wf_cong [OF w], simp_all add: set_status_heap)
    then show ?thesis using a nt by (simp add: ot_suspend_def Let_def)
  qed
next
  case False
  then show ?thesis using inv by (auto simp: ot_suspend_def kept_def split: option.splits)
qed

lemma ot_continue_kept:
  assumes inv: "ot_inv s"
  shows "kept (ot_continue s)"
proof (cases "ot_conts s (ot_running s)")
  case OtUser
  then show ?thesis using inv by (simp add: ot_continue_def kept_def)
next
  case OtExit
  have "joins_ok s" "ot_running s \<notin> set (fins s)" "ot_running s \<in> members s" using ot_invD [OF inv] by (auto dest: wfD(3))
  then show ?thesis using OtExit unfolding joins_ok_def by blast
next
  case (OtJoin tid want)
  let ?r = "ot_running s"
  have j: "joins_ok s" using ot_invD(1) [OF inv] by (rule wfD)
  have jr: "joins s ?r tid" using OtJoin by (simp add: joins_def)
  have nj: "Some (?r, tid) \<notin> set (ot_join s)" by (rule not_joiner [OF ot_invD(4) [OF inv]])
  then have m: "map (\<lambda>e. if e = Some (?r, tid) then None else e) (ot_join s) = ot_join s" by (intro map_idI) auto
  have "tid \<in> tid_of s ` set (fins s)" using j jr nj ot_invD(2) [OF inv] unfolding joins_ok_def by blast
  then obtain f where f: "f \<in> set (fins s)" "tid = tid_of s f" by blast
  have "kept (join_end tid want s)"
  proof (rule ot_join_end_kept [OF inv_conts [OF inv] f])
    show "\<not> joins s b tid" if "b \<in> members s" "b \<noteq> ?r" for b using j jr that ot_invD(2) [OF inv] unfolding joins_ok_def by blast
  qed simp
  then show ?thesis using OtJoin by (simp add: ot_continue_def m)
qed (use back_inv [OF inv_conts [OF inv, of OtUser]] in \<open>simp_all add: ot_continue_def\<close>)

section \<open>A step keeps the invariant\<close>

text \<open>The calls the library is made for: a thread has one joiner, and only suspended threads are resumed.\<close>

fun polite :: "ot \<Rightarrow> ot_call \<Rightarrow> bool" where
  "polite s (OJoin tid want) \<longleftrightarrow> (\<forall>b \<in> members s. b \<noteq> ot_running s \<longrightarrow> \<not> joins s b tid)"
| "polite s (OResume tid) \<longleftrightarrow> (case map_of (ot_map s) tid of None \<Rightarrow> True | Some a \<Rightarrow> a \<notin> set (fins s) \<union> set (joiners s))"
| "polite s c \<longleftrightarrow> True"

lemma ot_step_kept:
  assumes "ot_inv s" "polite s c"
  shows "kept (ot_step c s)"
proof (cases "ot_conts s (ot_running s) = OtUser")
  case True
  have "kept (ot_exec c s)"
  proof (cases c)
    case (OResume tid)
    have "kept (ot_resume tid s)" by (rule ot_resume_kept [OF assms(1)]) (use assms(2) OResume in simp)
    then show ?thesis using OResume by simp
  qed (use assms in \<open>simp_all add: ot_create_kept ot_join_kept ot_yield_kept ot_exit_kept ot_suspend_kept\<close>)
  then show ?thesis using True by (simp add: ot_step_def)
qed (simp add: ot_step_def ot_continue_kept assms(1))

end
