(* ===== verification/OtRuns.thy ===== *)
theory OtRuns
  imports OtCalls
begin

text \<open>
  Runs of the first thread library: polite runs keep the bookkeeping, and a thread that waits for a finished thread
  finds it, and its result, when it goes on.
\<close>

section \<open>What a step leaves alone\<close>

text \<open>
  \<open>untouched b s s'\<close>: thread \<open>b\<close> still waits where it waited, ids and the entry of \<open>b\<close> in the map stay, and the finished threads with id \<open>w\<close> are still there.
\<close>

definition untouched :: "nat \<Rightarrow> int \<Rightarrow> ot \<Rightarrow> ot \<Rightarrow> bool" where
  "untouched b w s s' \<longleftrightarrow> ot_conts s' b = ot_conts s b \<and> (\<forall>k. (k, b) \<in> set (ot_map s) \<longrightarrow> (k, b) \<in> set (ot_map s')) \<and> (\<forall>a < ot_next s. tid_of s' a = tid_of s a) \<and>
     (\<forall>f v. (f, v) \<in> set (ot_finished s) \<longrightarrow> tid_of s f = w \<longrightarrow> (f, v) \<in> set (ot_finished s'))"

lemma untouched_switch:
  assumes "ot_switch k s = Inr (r, s')" "b \<noteq> ot_running s"
  shows "untouched b w s s'"
proof -
  let ?s = "s\<lparr>ot_conts := (ot_conts s)(ot_running s := k), ot_enabled := False\<rparr>"
  define t where "t = (if ot_status (ot_heap ?s (ot_running ?s)) = Running
    then (set_status (ot_running ?s) Ready ?s)\<lparr>ot_ready := ot_ready ?s @ [ot_running ?s]\<rparr> else ?s)"
  have sw: "ot_switchThreads k s = bindE (next_thread t (ot_ready t)) (\<lambda>(a, q). Inr (set_status a Running (t\<lparr>ot_ready := q, ot_running := a\<rparr>)))"
    by (simp add: ot_switchThreads_def Let_def t_def)
  have "untouched b w s t" using assms(2) by (simp add: t_def untouched_def tid_of_def set_status_heap)
  moreover obtain a q where "s' = set_status a Running (t\<lparr>ot_ready := q, ot_running := a\<rparr>)"
    using assms(1) unfolding ot_switch_def sw by (auto simp: bindE_eq_Inr)
  ultimately show ?thesis by (simp add: untouched_def tid_of_def set_status_heap)
qed

lemma untouched_back: "ot_back x s = (r, s') \<Longrightarrow> b \<noteq> ot_running s \<Longrightarrow> untouched b w s s'"
  by (auto simp: ot_back_def untouched_def tid_of_def)

lemma untouched_trans:
  assumes "untouched b w s t" "untouched b w t u" "ot_next s = ot_next t" "\<And>f v. (f, v) \<in> set (ot_finished s) \<Longrightarrow> f < ot_next s"
  shows "untouched b w s u"
  using assms by (auto simp: untouched_def)

lemma finished_members:
  assumes "ot_wf R s" "(f, v) \<in> set (ot_finished s)"
  shows "f \<in> members s" "f < ot_next s"
proof -
  show f: "f \<in> members s" using placesD(6) [OF assms(1)] assms(2) by (auto simp: fins_def)
  then show "f < ot_next s" using wfD(1) [OF assms(1)] unfolding members_iff ids_ok_def by blast
qed

lemma remove_finished_keeps: "e \<in> set q \<Longrightarrow> tid_of s (fst e) \<noteq> tid \<Longrightarrow> e \<in> set (remove_finished s tid q)"
  by (induction q) auto

lemma untouched_join_end:
  assumes "join_end tid want s = Inr (r, s')" "b \<noteq> ot_running s" "w \<noteq> tid" "(tid, b) \<notin> set (ot_map s)"
  shows "untouched b w s s'"
proof -
  let ?t = "s\<lparr>ot_finished := remove_finished s tid (ot_finished s), ot_ready := remove_tid s tid (ot_ready s),
    ot_map := map_erase tid (ot_map s), ot_ids := ot_ids s @ [tid]\<rparr>"
  obtain x where "ot_back x ?t = (r, s')" using assms(1) by (auto simp: join_end_def bindE_eq_Inr)
  moreover have "untouched b w s ?t" using remove_finished_keeps [of _ "ot_finished s" s tid] assms(3,4) by (auto simp: untouched_def tid_of_def map_erase_def)
  ultimately show ?thesis using assms(2) by (auto simp: ot_back_def untouched_def tid_of_def)
qed

lemma step_untouched:
  assumes inv: "ot_inv s" and p: "polite s c" and b: "b \<in> members s" "b \<noteq> ot_running s" "joins s b w" and st: "ot_step c s = Inr (r, s')"
  shows "untouched b w s s'"
proof -
  have bn: "b < ot_next s" using b(1) wfD(1) [OF ot_invD(1) [OF inv]] unfolding members_iff ids_ok_def by blast
  have fn: "f < ot_next s" if "(f, v) \<in> set (ot_finished s)" for f v using finished_members [OF ot_invD(1) [OF inv] that] by simp
  have one: "ot_running s \<in> members s" "joins_ok s" using ot_invD(1,2) [OF inv] by (auto dest: wfD)
  have bf: "(tid, b) \<notin> set (ot_map s)" if "tid \<in> tid_of s ` set (fins s)" for tid
  proof
    assume m: "(tid, b) \<in> set (ot_map s)"
    have wf: "ot_wf {ot_running s} s" by (rule ot_invD(1) [OF inv])
    then have "tid_of s b = tid" using m by (auto simp: ot_wf_def ids_ok_def)
    moreover from that obtain f where f: "f \<in> set (fins s)" "tid = tid_of s f" by blast
    ultimately have "b = f" using ids_inj [OF wfD(1) [OF wf] b(1), of f] placesD(6) [OF wf] by auto
    then have "ot_conts s b = OtExit" using one(2) b(1) f(1) unfolding joins_ok_def by blast
    then show False using b(3) by (simp add: joins_def)
  qed
  show ?thesis
  proof (cases "ot_conts s (ot_running s) = OtUser")
    case True
    then have ex: "ot_exec c s = Inr (r, s')" using st by (simp add: ot_step_def)
    show ?thesis
    proof (cases c)
      case OCreate
      then show ?thesis using ex bn b(2) by (auto simp: map_insert_def ot_create_def ot_back_def untouched_def tid_of_def Let_def bindE_eq_Inr split: list.splits)
    next
      case (OJoin tid want)
      have "w \<noteq> tid" using p b OJoin by auto
      show ?thesis
      proof (cases "present_in_finished s tid = None")
        case True
        let ?t = "(set_status (ot_running s) Block s)\<lparr>ot_join := ot_join s @ [Some (ot_running s, tid)]\<rparr>"
        have "ot_switch (OtJoin tid want) ?t = Inr (r, s')" using ex OJoin True by (simp add: ot_join_call_def)
        then have "untouched b w ?t s'" by (rule untouched_switch) (simp add: b)
        moreover have "untouched b w s ?t" by (simp add: untouched_def tid_of_def set_status_heap)
        ultimately show ?thesis by (intro untouched_trans [of b w s ?t s']) (simp_all add: fn)
      next
        case False
        then have "join_end tid want s = Inr (r, s')" using ex OJoin by (auto simp: ot_join_call_def)
        moreover have "(tid, b) \<notin> set (ot_map s)" using False present_tid [of s tid] bf by auto
        ultimately show ?thesis using b(2) \<open>w \<noteq> tid\<close> by (intro untouched_join_end)
      qed
    next
      case OYield
      then show ?thesis using ex untouched_switch b(2) by (auto simp: ot_yield_def)
    next
      case (OExit v)
      let ?t = "set_status (ot_running s) Block (s\<lparr>ot_finished := ot_finished s @ [(ot_running s, v)]\<rparr>)"
      have fin: ?thesis if "ot_switch OtExit x = Inr (r, s')" "untouched b w s x" "ot_next s = ot_next x" "ot_running x = ot_running s" for x
        by (rule untouched_trans [OF that(2) untouched_switch [OF that(1)] that(3) fn]) (simp_all add: that b)
      consider "ot_switch OtExit ?t = Inr (r, s')" | a q where "ot_switch OtExit ((set_status a Ready ?t)\<lparr>ot_ready := ot_ready s @ [a], ot_join := q\<rparr>) = Inr (r, s')"
        using ex OExit by (auto simp: ot_exit_def Let_def bindE_eq_Inr split: option.splits)
      then show ?thesis
      proof cases
        case 1
        then show ?thesis by (rule fin) (simp_all add: untouched_def tid_of_def set_status_heap)
      next
        case 2
        then show ?thesis by (rule fin) (simp_all add: untouched_def tid_of_def set_status_heap)
      qed
    next
      case (OSuspend tid)
      consider "s' = s"
        | a x where "ot_back x ((set_status a Block s)\<lparr>ot_ready := remove_tid s tid (ot_ready s)\<rparr>) = (r, s')"
        | a where "ot_switch OtSuspend ((set_status a Block s)\<lparr>ot_ready := remove_tid s tid (ot_ready s)\<rparr>) = Inr (r, s')"
        using ex OSuspend by (auto simp: ot_suspend_def Let_def split: option.splits if_splits)
      then show ?thesis
      proof cases
        case (3 a)
        let ?t = "(set_status a Block s)\<lparr>ot_ready := remove_tid s tid (ot_ready s)\<rparr>"
        have "untouched b w ?t s'" by (rule untouched_switch [OF 3]) (simp add: b)
        moreover have "untouched b w s ?t" by (simp add: untouched_def tid_of_def set_status_heap)
        ultimately show ?thesis by (intro untouched_trans [of b w s ?t s']) (simp_all add: fn)
      qed (use b in \<open>auto simp: ot_back_def untouched_def tid_of_def set_status_heap\<close>)
    next
      case (OResume tid)
      show ?thesis using ex b(2) by (auto simp: OResume ot_resume_def ot_back_def untouched_def tid_of_def set_status_heap split: option.splits if_splits)
    qed
  next
    case False
    then have ct: "ot_continue s = Inr (r, s')" using st by (simp add: ot_step_def)
    show ?thesis
    proof (cases "ot_conts s (ot_running s)")
      case (OtJoin tid want)
      let ?t = "s\<lparr>ot_join := map (\<lambda>e. if e = Some (ot_running s, tid) then None else e) (ot_join s)\<rparr>"
      have "joins s (ot_running s) tid" using OtJoin by (simp add: joins_def)
      then have "w \<noteq> tid" using one b unfolding joins_ok_def by blast
      moreover have "(tid, b) \<notin> set (ot_map s)"
      proof (rule bf)
        have "Some (ot_running s, tid) \<notin> set (ot_join s)" by (rule not_joiner [OF ot_invD(4) [OF inv]])
        then show "tid \<in> tid_of s ` set (fins s)" using one \<open>joins s (ot_running s) tid\<close> unfolding joins_ok_def by blast
      qed
      moreover have "join_end tid want ?t = Inr (r, s')" using ct OtJoin by (simp add: ot_continue_def)
      ultimately have "untouched b w ?t s'" by (intro untouched_join_end) (use b in simp_all)
      then show ?thesis by (simp add: untouched_def tid_of_def)
    qed (use ct False untouched_back [of _ s r s' b w] b(2) in \<open>auto simp: ot_continue_def split: if_splits\<close>)
  qed
qed

section \<open>Runs\<close>

text \<open>Every call of a run is made in a state with the property \<open>p\<close>.\<close>

fun ot_along :: "(ot \<Rightarrow> ot_call \<Rightarrow> bool) \<Rightarrow> ot_call list \<Rightarrow> ot \<Rightarrow> bool" where
  "ot_along p [] s \<longleftrightarrow> True"
| "ot_along p (c # cs) s \<longleftrightarrow> p s c \<and> (case ot_step c s of Inl e \<Rightarrow> True | Inr (r, s') \<Rightarrow> ot_along p cs s')"

lemma ot_run_kept:
  assumes "ot_inv s" "ot_along polite cs s"
  shows "case ot_run cs s of Inl e \<Rightarrow> e = AssertFail \<or> e = SignedOverflow | Inr (rs, s') \<Rightarrow> ot_inv s'"
  using assms
proof (induction cs arbitrary: s)
  case (Cons c cs)
  have k: "kept (ot_step c s)" by (rule ot_step_kept) (use Cons.prems in simp_all)
  show ?case
  proof (cases "ot_step c s")
    case (Inr x)
    obtain r s' where x: "x = (r, s')" by (cases x)
    have "case ot_run cs s' of Inl e \<Rightarrow> e = AssertFail \<or> e = SignedOverflow | Inr (rs, s') \<Rightarrow> ot_inv s'"
      by (rule Cons.IH) (use k Inr x Cons.prems in \<open>simp_all add: kept_def\<close>)
    then show ?thesis using Inr x by (auto split: sum.splits)
  qed (use k in \<open>simp add: kept_def\<close>)
qed simp

lemma init_inv:
  assumes "ot_init usecs fq = Inr s"
  shows "ot_inv s"
proof -
  obtain q where s: "s = \<lparr>ot_heap = (\<lambda>_. \<lparr>ot_tid = 0, ot_quantum = q, ot_status = Running\<rparr>), ot_next = 1, ot_ready = [], ot_finished = [], ot_join = [], ot_ids = [100..199], ot_map = [(0, 0)],
       ot_usecs = usecs, ot_running = 0, ot_enabled = True, ot_conts = (\<lambda>_. OtUser), fresh_quantum = fq\<rparr>"
    using assms by (auto simp: ot_init_def bindE_eq_Inr ot_increaseQuantum_def)
  have "ids_ok s" by (simp del: upto_rec_numeral add: ids_ok_def s tid_of_def)
  moreover have "places_ok {0} s" by (simp add: places_ok_def s ot_defs)
  moreover have "joins_ok s" by (simp add: joins_ok_def s ot_defs)
  ultimately show ?thesis by (simp add: ot_inv_def ot_wf_def s)
qed

text \<open>A thread that waits for a finished thread goes on waiting for it as long as it does not run.\<close>

lemma run_untouched:
  assumes "ot_inv s" "ot_along (\<lambda>s c. polite s c \<and> ot_running s \<noteq> b) cs s" "ot_run cs s = Inr (rs, s')"
    "b \<in> members s" "ot_conts s b = OtJoin w want" "(f, v) \<in> set (ot_finished s)" "tid_of s f = w" "b \<noteq> f"
  shows "ot_inv s' \<and> ot_conts s' b = OtJoin w want \<and> (f, v) \<in> set (ot_finished s') \<and> tid_of s' f = w"
  using assms
proof (induction cs arbitrary: s rs)
  case (Cons c cs)
  obtain r t rs' where st: "ot_step c s = Inr (r, t)" "ot_run cs t = Inr (rs', s')"
    using Cons.prems(3) by (auto simp: bindE_eq_Inr)
  have p: "polite s c" "ot_running s \<noteq> b" "ot_along (\<lambda>s c. polite s c \<and> ot_running s \<noteq> b) cs t" using Cons.prems(2) st(1) by simp_all
  have inv: "ot_inv t" using ot_step_kept [OF Cons.prems(1) p(1)] st(1) by (simp add: kept_def)
  have u: "untouched b w s t"
    by (rule step_untouched [OF Cons.prems(1) p(1) Cons.prems(4) _ _ st(1)]) (use p Cons.prems in \<open>auto simp: joins_def\<close>)
  have ft: "(f, v) \<in> set (ot_finished t)" "tid_of t f = w" "ot_conts t b = OtJoin w want"
    using u Cons.prems(5-7) finished_members(2) [OF ot_invD(1) [OF Cons.prems(1)] Cons.prems(6)] by (auto simp: untouched_def)
  have bt: "b \<in> members t" using u Cons.prems(4) unfolding members_iff untouched_def by blast
  show ?case by (rule Cons.IH [OF inv p(3) st(2) bt ft(3,1,2) Cons.prems(8)])
qed simp

section \<open>Exiting with a joiner\<close>

lemma waiting_on_some: "Some (b, w) \<in> set q \<Longrightarrow> None \<notin> set q \<Longrightarrow> waiting_on w q \<noteq> Inr None"
  by (induction w q rule: waiting_on.induct) auto

lemma exit_hands_over:
  assumes inv: "ot_inv s" and b: "b \<in> members s" "ot_conts s b = OtJoin (tid_of s (ot_running s)) want"
  shows "\<exists>s'. ot_exit v s = Inr (OtSwitched, s') \<and> (ot_running s, v) \<in> set (ot_finished s') \<and> tid_of s' (ot_running s) = tid_of s (ot_running s) \<and>
    ot_conts s' b = ot_conts s b \<and> b \<in> members s' \<and> b \<in> insert (ot_running s') (set (ot_ready s')) \<and> b \<noteq> ot_running s"
proof -
  let ?r = "ot_running s" and ?w = "tid_of s (ot_running s)"
  note wf = ot_invD(1) [OF inv] and p = placesD [OF ot_invD(1) [OF inv]]
  have J: "joins_ok s" by (rule wfD [OF wf])
  have jb: "joins s b ?w" using b(2) by (simp add: joins_def)
  have "?w \<notin> tid_of s ` set (fins s)"
    using present_tid [of s ?w] present_iff [OF wf ot_invD(2) [OF inv]] ot_invD(3) [OF inv] by simp
  then have sj: "Some (b, ?w) \<in> set (ot_join s)" using J jb b(1) unfolding joins_ok_def by blast
  have nN: "None \<notin> set (ot_join s)" using wfD(2) [OF wf] by (simp add: places_ok_def)
  have "waiting_on ?w (ot_join s) \<noteq> Inr None" by (rule waiting_on_some [OF sj nN])
  then obtain a where a: "waiting_on ?w (ot_join s) = Inr (Some (a, ?w))" "Some (a, ?w) \<in> set (ot_join s)" using waiting_on_cases [OF nN] by blast
  have ab: "a = b"
  proof -
    have "a \<in> members s" using a(2) p(7) by (force simp: joiners_def)
    moreover have "joins s a ?w" using J a(2) unfolding joins_ok_def by blast
    ultimately show ?thesis using J jb b(1) unfolding joins_ok_def by blast
  qed
  note x = exit_wakes(1,2) [OF inv a, of v] exit_wakes(3) [OF inv a]
  define x where "x = (set_status a Ready (exited v s))\<lparr>ot_ready := ot_ready s @ [a], ot_join := remove1 (Some (a, ?w)) (ot_join s)\<rparr>"
  let ?t = "x\<lparr>ot_conts := (ot_conts x)(?r := OtExit), ot_enabled := False\<rparr>"
  have xs: "ot_running x = ?r" "ot_status (ot_heap x ?r) = Block" "ot_ready x = ot_ready s @ [a]" "ot_conts x = ot_conts s" "ot_map x = ot_map s"
      "ot_finished x = ot_finished s @ [(?r, v)]" "\<And>y. ot_tid (ot_heap x y) = ot_tid (ot_heap s y)"
    using x(3) by (simp_all add: x_def exited_def tid_of_def set_status_heap fun_eq_iff)
  have wt: "ot_wf {} ?t" by (rule wf_cong [OF x(2)]) (simp_all add: x_def)
  obtain c q where c: "ot_ready ?t = c # q" using xs(3) by (cases "ot_ready ?t") auto
  have "ot_switchThreads OtExit x = Inr (set_status c Running (?t\<lparr>ot_ready := q, ot_running := c\<rparr>))"
    using next_thread_first [OF wt c] xs(1,2) by (simp add: ot_switchThreads_def Let_def)
  then have e: "ot_exit v s = Inr (OtSwitched, set_status c Running (?t\<lparr>ot_ready := q, ot_running := c\<rparr>))"
    using x(1) by (simp add: x_def [symmetric] ot_switch_def)
  have "b \<in> insert c (set q)" 
  proof -
    have "c # q = ot_ready s @ [b]" using c xs(3) ab by simp
    then have "b \<in> set (c # q)" by simp
    then show ?thesis by simp
  qed
  then show ?thesis using e xs x(3) ab b(1) by (auto simp: members_def tid_of_def set_status_heap)
qed

text \<open>A joiner that goes on takes the result.\<close>

lemma find_SomeD: "find p xs = Some x \<Longrightarrow> p x \<and> x \<in> set xs"
  by (induction xs) (auto split: if_splits)

lemma present_unique:
  assumes wf: "ot_wf R s" and f: "(f, v) \<in> set (ot_finished s)"
  shows "present_in_finished s (tid_of s f) = Some (f, v)"
proof -
  have "present_in_finished s (tid_of s f) \<noteq> None" using present_tid [of s "tid_of s f"] f by (force simp: fins_def)
  then obtain g w where g: "present_in_finished s (tid_of s f) = Some (g, w)" by auto
  then have gw: "(g, w) \<in> set (ot_finished s)" "tid_of s f = tid_of s g" by (auto simp: present_in_finished_def dest: find_SomeD)
  then have "f = g" using ids_inj [OF wfD(1) [OF wf] finished_members(1) [OF wf f] finished_members(1) [OF wf gw(1)]] by simp
  then show ?thesis using g gw(1) f placesD(8) [OF wf] by (auto simp: fins_def dest: eq_key_imp_eq_value)
qed

lemma joined_result:
  assumes inv: "ot_inv s" and k: "ot_conts s (ot_running s) = OtJoin w want" and f: "(f, v) \<in> set (ot_finished s)" "tid_of s f = w"
  shows "\<exists>s'. ot_step c s = Inr (if want then OtJoined 1 v else OtRet 1, s') \<and> map_of (ot_map s') w = None \<and> ot_ids s' = ot_ids s @ [w]"
proof -
  let ?s = "s\<lparr>ot_join := map (\<lambda>e. if e = Some (ot_running s, w) then None else e) (ot_join s)\<rparr>"
  have "present_in_finished s w = Some (f, v)" using present_unique [OF ot_invD(1) [OF inv] f(1)] f(2) by simp
  then have "present_in_finished ?s w = Some (f, v)" by (simp add: present_in_finished_def tid_of_def)
  moreover have "map_of (map_erase w m) w = None" for m :: "(int \<times> nat) list" by (induction m) (auto simp: map_erase_def)
  ultimately show ?thesis using k by (auto simp: ot_step_def ot_continue_def join_end_def ot_back_def)
qed

section \<open>Round robin\<close>

lemma remove_tid_absent: "\<forall>a \<in> set q. tid_of s a \<noteq> tid \<Longrightarrow> remove_tid s tid q = q"
  by (induction q) auto

lemma ready_not_finished:
  assumes wf: "ot_wf R s" and f: "f \<in> set (fins s)"
  shows "remove_tid s (tid_of s f) (ot_ready s) = ot_ready s"
proof (rule remove_tid_absent, rule ballI, rule notI)
  note p = placesD [OF wf]
  fix a assume a: "a \<in> set (ot_ready s)" "tid_of s a = tid_of s f"
  then have "a = f" using ids_inj [OF wfD(1) [OF wf], of a f] p(3,6) f by blast
  then show False using a(1) f p(2) by blast
qed

text \<open>A thread that is switched to comes back from its call, and everybody stays in place.\<close>

lemma continue_in_place:
  assumes inv: "ot_inv s"
  shows "\<exists>r u. ot_continue s = Inr (r, u) \<and> ot_inv u \<and> ot_conts u (ot_running u) = OtUser \<and> ot_running u = ot_running s \<and> ot_ready u = ot_ready s"
proof -
  have ex: "\<exists>r u. ot_continue s = Inr (r, u) \<and> ot_conts u (ot_running u) = OtUser \<and> ot_running u = ot_running s \<and> ot_ready u = ot_ready s"
  proof (cases "ot_conts s (ot_running s)")
    case OtUser
    then show ?thesis by (simp add: ot_continue_def)
  next
    case OtExit
    have "joins_ok s" "ot_running s \<notin> set (fins s)" "ot_running s \<in> members s" using ot_invD [OF inv] by (auto dest: wfD(3))
    then show ?thesis using OtExit unfolding joins_ok_def by blast
  next
    case (OtJoin tid want)
    let ?r = "ot_running s"
    let ?s = "s\<lparr>ot_join := map (\<lambda>e. if e = Some (?r, tid) then None else e) (ot_join s)\<rparr>"
    have j: "joins_ok s" using ot_invD(1) [OF inv] by (rule wfD)
    moreover have "joins s ?r tid" using OtJoin by (simp add: joins_def)
    moreover have "Some (?r, tid) \<notin> set (ot_join s)" by (rule not_joiner [OF ot_invD(4) [OF inv]])
    ultimately have t: "tid \<in> tid_of s ` set (fins s)" using ot_invD(2) [OF inv] unfolding joins_ok_def by blast
    then obtain e where "present_in_finished s tid = Some e" using present_tid [of s tid] by auto
    then have "present_in_finished ?s tid = Some e" by (simp add: present_in_finished_def tid_of_def)
    moreover have "remove_tid ?s tid (ot_ready s) = ot_ready s"
    proof -
      have "remove_tid s tid (ot_ready s) = ot_ready s" using ready_not_finished [OF ot_invD(1) [OF inv]] t by auto
      then show ?thesis using remove_same(2) [of ?s s] by (simp add: tid_of_def fun_eq_iff)
    qed
    ultimately show ?thesis using OtJoin by (auto simp: ot_continue_def join_end_def ot_back_def split: prod.splits)
  qed (simp_all add: ot_continue_def ot_back_def)
  then show ?thesis using ot_continue_kept [OF inv] by (auto simp: kept_def)
qed

text \<open>A thread in user code yields: it goes to the end of the ready queue and the first thread runs.\<close>

lemma yield_turns:
  assumes inv: "ot_inv s" and u: "ot_conts s (ot_running s) = OtUser"
  shows "\<exists>u. ot_yield s = Inr (OtSwitched, u) \<and> ot_inv u \<and> ot_running u # ot_ready u = ot_ready s @ [ot_running s] \<and> ot_conts u (ot_running u) \<noteq> OtUser"
proof -
  let ?r = "ot_running s"
  let ?s = "s\<lparr>ot_conts := (ot_conts s)(?r := OtYield), ot_enabled := False\<rparr>"
  let ?t = "(set_status ?r Ready ?s)\<lparr>ot_ready := ot_ready ?s @ [?r]\<rparr>"
  note wf = ot_invD(1) [OF inv]
  have "ot_wf {?r} (s\<lparr>ot_conts := (ot_conts s)(?r := OtYield)\<rparr>)" by (rule inv_conts [OF inv]) simp
  then have w: "ot_wf {?r} ?s" by (rule wf_cong) simp_all
  have "ot_wf ({?r} - {?r}) ?t" by (rule wf_push [OF w]) (use ot_invD(2-5) [OF inv] in \<open>simp_all add: ot_defs\<close>)
  then have wt: "ot_wf {} ?t" by simp
  have st: "ot_status (ot_heap s ?r) = Running" using placesD(11) [OF wf ot_invD(2) [OF inv]] by simp
  obtain a q where c: "ot_ready s @ [?r] = a # q" by (cases "ot_ready s @ [?r]") auto
  have rt: "ot_ready ?t = a # q" using c by simp
  from next_thread_first [OF wt this] have "ot_switchThreads OtYield s = Inr (set_status a Running (?t\<lparr>ot_ready := q, ot_running := a\<rparr>))"
    using st c by (simp add: ot_switchThreads_def Let_def)
  then have y: "ot_yield s = Inr (OtSwitched, set_status a Running (?t\<lparr>ot_ready := q, ot_running := a\<rparr>))" by (simp add: ot_yield_def ot_switch_def)
  then have "ot_inv (set_status a Running (?t\<lparr>ot_ready := q, ot_running := a\<rparr>))" using ot_yield_kept [OF inv] by (simp add: kept_def)
  moreover have "ot_conts ?t a \<noteq> OtUser"
  proof
    assume "ot_conts ?t a = OtUser"
    moreover have "a \<in> set (ot_ready ?t)" unfolding rt by simp
    then have "a \<in> members ?t" using placesD(3) [OF wt] by blast
    ultimately show False using placesD(12) [OF wt] by blast
  qed
  ultimately show ?thesis using y c by (simp)
qed

lemma round_robin_runs:
  assumes "ot_inv s" "ot_conts s (ot_running s) = OtUser"
  shows "\<exists>rs u. ot_run (replicate (2 * n) OYield) s = Inr (rs, u) \<and> ot_inv u \<and> ot_conts u (ot_running u) = OtUser \<and>
    ot_running u # ot_ready u = rotate n (ot_running s # ot_ready s)"
  using assms
proof (induction n arbitrary: s)
  case (Suc n)
  obtain t where t: "ot_yield s = Inr (OtSwitched, t)" "ot_inv t" "ot_running t # ot_ready t = ot_ready s @ [ot_running s]" "ot_conts t (ot_running t) \<noteq> OtUser"
    using yield_turns [OF Suc.prems] by blast
  obtain r v where v: "ot_continue t = Inr (r, v)" "ot_inv v" "ot_conts v (ot_running v) = OtUser" "ot_running v = ot_running t" "ot_ready v = ot_ready t"
    using continue_in_place [OF t(2)] by blast
  obtain rs u where u: "ot_run (replicate (2 * n) OYield) v = Inr (rs, u)" "ot_inv u" "ot_conts u (ot_running u) = OtUser"
    "ot_running u # ot_ready u = rotate n (ot_running v # ot_ready v)" using Suc.IH [OF v(2,3)] by blast
  have "ot_step OYield s = Inr (OtSwitched, t)" "ot_step OYield t = Inr (r, v)" using Suc.prems(2) t(1,4) v(1) by (simp_all add: ot_step_def)
  moreover have "replicate (2 * Suc n) OYield = OYield # OYield # replicate (2 * n) OYield" by simp
  moreover have "rotate n (ot_running v # ot_ready v) = rotate (Suc n) (ot_running s # ot_ready s)"
    using t(3) v(4,5) by (simp add: rotate1_rotate_swap)
  ultimately show ?case using u by simp
qed simp

end
