(* ===== verification/OtProperties.thy ===== *)
theory OtProperties
  imports OtRuns
begin

text \<open>
  What the first thread library (\<open>project_1\<close>) guarantees, and where it fails.
\<close>

section \<open>Guarantees\<close>

text \<open>
  C11.  The first thread library never loses a thread.  From \<open>uthread_init\<close> on, whatever
  sequence of calls and timer switches runs, as long as a thread has at most one joiner and only
  suspended threads are resumed: every thread of the map is in exactly one of running, ready, finished, joining and
  suspended, with the state that goes with it, all 100 ids and the id of \<open>main\<close> are either free or taken by one thread,
  and the only ways to stop are a failed assertion (no ready thread, no free id) and overflow of a quantum; in
  particular no dead queue entry or null pointer is looked at.
\<close>

theorem first_library_keeps_threads:
  assumes "ot_init usecs fq = Inr s" "ot_along polite cs s"
  shows "case ot_run cs s of Inl e \<Rightarrow> e = AssertFail \<or> e = SignedOverflow | Inr (rs, s') \<Rightarrow> ot_inv s'"
  by (rule ot_run_kept [OF init_inv [OF assms(1)] assms(2)])

text \<open>The calls of a small program: \<open>main\<close> creates a thread and joins it, and the thread exits with 7.\<close>

definition first_state :: ot where
  "first_state = (case ot_init 1 (\<lambda>_. 0) of Inr s \<Rightarrow> s)"

lemma first_state: "ot_init 1 (\<lambda>_. 0) = Inr first_state"
  by (simp add: first_state_def ot_init_def ot_increaseQuantum_def int_add_def INT_MAX_def)

lemmas ot_eval = first_state_def ot_init_def ot_increaseQuantum_def int_add_def ot_step_def ot_create_def ot_join_call_def join_end_def ot_exit_def
  ot_switch_def ot_switchThreads_def ot_back_def ot_continue_def present_in_finished_def tid_of_def set_status_def map_insert_def map_erase_def
  ot_yield_def ot_resume_def INT_MAX_def ot_self_def ot_suspend_def Let_def

lemmas places_eval = members_def joins_def fins_def joiners_def

definition hand_over :: "ot_call list" where
  "hand_over = [OCreate, OJoin 100 True, OYield, OExit 7, OYield]"

lemma first_library_keeps_threads_witness:
  "\<exists>s. ot_run hand_over first_state = Inr ([OtRet 100, OtSwitched, OtSwitched, OtSwitched, OtJoined 1 7], s) \<and> ot_inv s"
proof -
  obtain s where s: "ot_run hand_over first_state = Inr ([OtRet 100, OtSwitched, OtSwitched, OtSwitched, OtJoined 1 7], s)"
    by (simp add: hand_over_def ot_eval)
  have "ot_along polite hand_over first_state" by (simp add: hand_over_def ot_eval places_eval)
  then show ?thesis using first_library_keeps_threads [OF first_state, of hand_over] s by simp
qed






text \<open>
  C13.  Scheduling is round robin: while the threads do nothing but yield (a timer signal is a yield), running thread and ready queue
  rotate by one with every turn, whatever the threads come back to, so every ready thread runs after at most as many turns as there are ready threads.
\<close>

theorem yields_go_round:
  assumes "ot_inv s" "ot_conts s (ot_running s) = OtUser"
  shows "(\<forall>n. \<exists>rs u. ot_run (replicate (2 * n) OYield) s = Inr (rs, u) \<and> ot_running u # ot_ready u = rotate n (ot_running s # ot_ready s)) \<and>
    (\<forall>a \<in> set (ot_ready s). \<exists>k \<le> length (ot_ready s). \<exists>rs u. ot_run (replicate (2 * k) OYield) s = Inr (rs, u) \<and> ot_running u = a)"
proof -
  have turn: "\<exists>rs u. ot_run (replicate (2 * n) OYield) s = Inr (rs, u) \<and> ot_running u # ot_ready u = rotate n (ot_running s # ot_ready s)" for n
    using round_robin_runs [OF assms, of n] by blast
  have "\<forall>a \<in> set (ot_ready s). \<exists>k \<le> length (ot_ready s). \<exists>rs u. ot_run (replicate (2 * k) OYield) s = Inr (rs, u) \<and> ot_running u = a"
  proof
    fix a assume "a \<in> set (ot_ready s)"
    then obtain i where i: "i < length (ot_ready s)" "ot_ready s ! i = a" by (auto simp: in_set_conv_nth)
    obtain rs u where u: "ot_run (replicate (2 * Suc i) OYield) s = Inr (rs, u)" "ot_running u # ot_ready u = rotate (Suc i) (ot_running s # ot_ready s)"
      using turn by blast
    have "rotate (Suc i) (ot_running s # ot_ready s) ! 0 = (ot_running s # ot_ready s) ! Suc i" using i(1) by (subst nth_rotate) simp_all
    then have "ot_running u = a" using u(2) i(2) by (metis nth_Cons_0 nth_Cons_Suc)
    then show "\<exists>k \<le> length (ot_ready s). \<exists>rs u. ot_run (replicate (2 * k) OYield) s = Inr (rs, u) \<and> ot_running u = a"
      using u(1) i(1) by (intro exI [of _ "Suc i"]) auto
  qed
  then show ?thesis using turn by blast
qed

lemma yields_go_round_witness:
  "\<exists>s rs u. ot_run [OCreate, OCreate] first_state = Inr ([OtRet 100, OtRet 101], s) \<and> ot_run (replicate 4 OYield) s = Inr (rs, u) \<and>
     ot_running u = 2 \<and> ot_ready u = [0, 1]"
proof -
  define s where "s = (case ot_run [OCreate, OCreate] first_state of Inr (rs, s) \<Rightarrow> s)"
  have s: "ot_run [OCreate, OCreate] first_state = Inr ([OtRet 100, OtRet 101], s)" by (simp add: s_def ot_eval)
  have "ot_inv s" using ot_run_kept [OF init_inv [OF first_state], of "[OCreate, OCreate]"] s by (simp add: ot_eval)
  moreover have q: "ot_conts s (ot_running s) = OtUser" "ot_running s # ot_ready s = [0, 1, 2]" by (simp_all add: s_def ot_eval)
  ultimately show ?thesis using conjunct1 [OF yields_go_round [of s], THEN spec, of 2] s by (auto simp: numeral_eq_Suc)
qed

section \<open>Faults\<close>

text \<open>
  C40.  Resuming a thread that waits in \<open>uthread_join\<close> crashes the program: \<open>uthread_resume\<close> takes it for a suspended
  thread and succeeds, and as soon as it runs it dereferences the entry of a finished thread that is not there.
\<close>

theorem resumed_joiner_crashes:
  assumes "ot_inv s" "ot_conts s (ot_running s) = OtUser" "b \<in> members s" "ot_conts s b = OtJoin w True"
    "w \<notin> tid_of s ` set (fins s)" "ot_ready s = []"
  shows "\<exists>s1 s2. ot_step (OResume (tid_of s b)) s = Inr (OtRet 1, s1) \<and> ot_step OYield s1 = Inr (OtSwitched, s2) \<and>
    ot_running s2 = b \<and> ot_step c s2 = Inl NullDeref"
proof -
  let ?r = "ot_running s"
  note wf = ot_invD(1) [OF assms(1)] and p = placesD [OF ot_invD(1) [OF assms(1)]]
  have "ot_conts s b = OtExit \<longleftrightarrow> b \<in> set (fins s)" using wfD(3) [OF wf] assms(3) unfolding joins_ok_def by blast
  then have b: "b \<noteq> ?r" "b \<notin> set (fins s)" using assms(2,4) by auto
  have m: "map_of (ot_map s) (tid_of s b) = Some b" using map_of_members [OF wfD(1) [OF wf]] assms(3) by simp
  have st: "ot_status (ot_heap s b) = Block" "ot_status (ot_heap s ?r) = Running"
    using p(11) [OF assms(3)] p(11) [OF ot_invD(2) [OF assms(1)]] b(1) assms(6) by simp_all
  define s1 where "s1 = snd (ot_back (OtRet 1) ((set_status b Ready s)\<lparr>ot_ready := [b]\<rparr>))"
  have r: "ot_step (OResume (tid_of s b)) s = Inr (OtRet 1, s1)"
    using assms(2,6) m st by (simp add: ot_step_def ot_resume_def s1_def ot_back_def)
  have s1: "ot_running s1 = ?r" "ot_ready s1 = [b]" "ot_status (ot_heap s1 ?r) = Running" "ot_conts s1 ?r = OtUser" "ot_conts s1 b = OtJoin w True"
    "ot_finished s1 = ot_finished s" "\<And>a. ot_tid (ot_heap s1 a) = tid_of s a"
    using st b assms(4) by (simp_all add: s1_def ot_back_def tid_of_def set_status_heap)
  have pres: "present_in_finished t tid = present_in_finished s tid" if "ot_finished t = ot_finished s" "\<And>a. ot_tid (ot_heap t a) = tid_of s a" for t tid
    using that by (simp add: present_in_finished_def tid_of_def)
  have nb: "present_in_finished s (tid_of s b) = None" using present_iff [OF wf assms(3)] b(2) by simp
  have nw: "present_in_finished s w = None" using present_tid [of s w] assms(5) by auto
  let ?t = "(set_status ?r Ready (s1\<lparr>ot_conts := (ot_conts s1)(?r := OtYield), ot_enabled := False\<rparr>))\<lparr>ot_ready := [b, ?r]\<rparr>"
  have "present_in_finished ?t (tid_of ?t b) = present_in_finished s (tid_of ?t b)" by (rule pres) (simp_all add: s1 set_status_heap)
  then have nt: "present_in_finished ?t (tid_of ?t b) = None" using nb b(1) s1 by (simp add: tid_of_def set_status_heap)
  define s2 where "s2 = set_status b Running ((set_status ?r Ready (s1\<lparr>ot_conts := (ot_conts s1)(?r := OtYield), ot_enabled := False\<rparr>))\<lparr>ot_ready := [?r], ot_running := b\<rparr>)"
  have "ot_yield s1 = Inr (OtSwitched, s2)"
    using s1 nt b(1) by (simp add: ot_yield_def ot_switch_def ot_switchThreads_def Let_def s2_def tid_of_def set_status_heap)
  then have y: "ot_step OYield s1 = Inr (OtSwitched, s2)" using s1 by (simp add: ot_step_def)
  have s2: "ot_running s2 = b" "ot_conts s2 b = OtJoin w True" "ot_finished s2 = ot_finished s" "\<And>a. ot_tid (ot_heap s2 a) = tid_of s a"
    using s1 b(1) by (simp_all add: s2_def set_status_heap)
  let ?u = "s2\<lparr>ot_join := map (\<lambda>e. if e = Some (b, w) then None else e) (ot_join s2)\<rparr>"
  have "present_in_finished ?u w = present_in_finished s w" by (rule pres) (simp_all add: s2)
  then have "ot_step c s2 = Inl NullDeref"
    using nw s2 by (simp add: ot_step_def ot_continue_def join_end_def)
  then show ?thesis using r y s2(1) by blast
qed

lemma resumed_joiner_crashes_witness:
  "\<exists>s1 s2. ot_step (OResume 0) (case ot_run [OCreate, OJoin 100 True, OYield] first_state of Inr (rs, s) \<Rightarrow> s) = Inr (OtRet 1, s1) \<and>
     ot_step OYield s1 = Inr (OtSwitched, s2) \<and> ot_step OYield s2 = Inl NullDeref"
proof -
  define s where "s = (case ot_run [OCreate, OJoin 100 True, OYield] first_state of Inr (rs, s) \<Rightarrow> s)"
  have "ot_inv s" using ot_run_kept [OF init_inv [OF first_state], of "[OCreate, OJoin 100 True, OYield]"]
    by (simp add: s_def ot_eval places_eval)
  moreover have "ot_conts s (ot_running s) = OtUser" "0 \<in> members s" "ot_conts s 0 = OtJoin 100 True" "100 \<notin> tid_of s ` set (fins s)" "ot_ready s = []"
    "tid_of s 0 = 0" by (simp_all add: s_def ot_eval places_eval)
  ultimately show ?thesis using resumed_joiner_crashes [of s 0 100 OYield] unfolding s_def [symmetric] by auto
qed

text \<open>
  Of two threads that join the same thread only one is woken: the other is left blocked in the join queue, although
  the thread it waits for is gone.  Here \<open>main\<close> and thread 101 join 100; \<open>main\<close> gets the result and then goes on alone.
\<close>

lemma second_joiner_left_behind:
  "\<exists>s. ot_run [OCreate, OCreate, OJoin 100 True, OYield, OYield, OYield, OJoin 100 True, OYield, OExit 7, OYield, OYield, OYield] first_state =
     Inr ([OtRet 100, OtRet 101, OtSwitched, OtSwitched, OtSwitched, OtSwitched, OtSwitched, OtRet 0, OtSwitched, OtJoined 1 7, OtSwitched, OtRet 0], s) \<and>
     ot_join s = [Some (2, 100)] \<and> map_of (ot_map s) 100 = None \<and> ot_ready s = [] \<and> ot_conts s 2 = OtJoin 100 True"
  by (simp add: ot_eval)

text \<open>The exit of \<open>main\<close> does not end the program while another thread is ready.\<close>

lemma main_exit_goes_on:
  "\<exists>s. ot_run [OCreate, OExit 0, OYield] first_state = Inr ([OtRet 100, OtSwitched, OtSwitched], s) \<and> ot_running s = 1"
  by (simp add: ot_eval)

text \<open>A successful join returns 1, not 0.\<close>

lemma join_returns_one:
  assumes "present_in_finished s tid \<noteq> None"
  shows "\<exists>s'. ot_join_call tid False s = Inr (OtRet 1, s')"
  using assms by (auto simp: ot_join_call_def join_end_def ot_back_def)

text \<open>The quantum of a new thread is \<open>quantum_usecs\<close> more than what \<open>new\<close> left behind, which may overflow.\<close>

lemma quantum_uninitialised:
  "ot_init 1 (\<lambda>_. INT_MAX) = Inl SignedOverflow"
  by (simp add: ot_init_def ot_increaseQuantum_def int_add_def)

end
