(* ===== verification/Spec2Isabelle.thy ===== *)
theory Spec2Isabelle
  imports VmProperties UtProperties FsProperties FsFaults OtProperties
begin

text \<open>
  A verification development for the projects of an operating systems course: a
  paged virtual memory (\<open>src/project_3\<close>), a user-level thread library
  (\<open>src/project_2\<close>), a file system with its shell (\<open>src/project_4\<close>), and an earlier version of the
  thread library (\<open>src/project_1\<close>).  They are separate programs that share only the prelude; their
  theories start with \<open>Vm\<close>, \<open>Ut\<close>, \<open>Fs\<close> and \<open>Ot\<close>.

  \<^bold>\<open>Prelude.\<close>  \<open>Prelude\<close> holds what both models use: the result type
  \<open>crash + 'a\<close>, whose left side says why the process died (abort, failed assertion,
  uncaught exception, use after free, erased iterator, signed overflow, exit ...),
  its bind \<open>bindE\<close>, the loop \<open>foldE\<close>, the predicates \<open>runs\<close> (a result is reached and
  satisfies) and \<open>safe\<close> (if a result is reached it satisfies), checked \<open>int\<close>
  arithmetic, vectors that are read and written within bounds, and regions of bytes.

  \<^bold>\<open>Virtual memory.\<close>  A user program touches virtual memory; the processor faults
  when the page's protection forbids the access; the signal handler dispatches to
  the page fault handler, which changes the page table, moves pages between the
  physical frames and the disk, and returns; the access is tried again.  A timer
  signal runs the clock algorithm, before an access or between a fault and the retry.

  \<^item> \<open>VmDisk\<close> (\<open>disk.cpp\<close>): the record \<open>vm_disk\<close> is \<open>struct disk\<close>, its file a region;
    \<open>vm_disk_open\<close>, \<open>vm_disk_write\<close>, \<open>vm_disk_read\<close> on the system calls as POSIX describes them.
  \<^item> \<open>VmPageTable\<close> (\<open>page_table.cpp\<close>): \<open>page_table_create\<close>, \<open>page_table_set_entry\<close>,
    \<open>page_table_get_entry\<close> and printing.  Next to the table's own arrays the record has
    \<open>mmu_frame\<close> and \<open>mmu_prot\<close>, what \<open>remap_file_pages\<close> and \<open>mprotect\<close> set up in the hardware.
  \<^item> \<open>VmCoreMap\<close> (\<open>coremap.cpp\<close>): \<open>core_map_entry\<close> with 64-bit time stamps that wrap.
  \<^item> \<open>VmPolicy\<close> (\<open>main.cpp\<close>): the globals \<open>vm_state\<close> and the three replacement policies.
  \<^item> \<open>VmHandlers\<close> (\<open>main.cpp\<close>, and \<open>internal_fault_handler\<close> of \<open>page_table.cpp\<close>): eviction,
    the timer handler, the page fault handlers, and the machine that runs accesses and
    timer signals (\<open>attempt\<close>, \<open>run_access\<close>, \<open>vm_step\<close>, \<open>vm_run\<close>).  \<open>arrive k\<close> is the arrival of \<open>k\<close> timer signals, which
    have no effect while the signal is blocked; \<open>custom_handler_with_signals sig\<close> is the custom handler with \<open>sig i\<close> of them at the
    \<open>i\<close>-th point between its statements, and \<open>run_access\<close> has some before every attempt at an access.
  \<^item> \<open>VmMain\<close> (\<open>main\<close>): arguments, start-up, the initial globals.
  \<^item> \<open>VmPrograms\<close> (\<open>program.cpp\<close>): the scan and focus programs over any memory with a
    load and a store.  Their correctness is proved once in the locale \<open>byte_memory\<close>;
    \<open>paged\<close> interprets it on the paging machine, \<open>flat\<close> on an array of bytes.
  \<^item> \<open>VmSort\<close> (\<open>program.cpp\<close>): the sort program, in \<open>budget_memory\<close>, which extends \<open>byte_memory\<close> and has the
    program's own array (\<open>own\<close>) as an instance.  \<open>qsort\<close> is an argument, a tree of \<open>accesses\<close>; \<open>sorts\<close> is what is
    asked of it, and \<open>insertion_qsort\<close> has it.
  \<^item> \<open>VmWhole\<close> (\<open>main\<close>): the paging machine with timer signals before each attempt at an access (\<open>timed\<close>, the third
    instance) and the whole program, \<open>vm_main\<close>.  \<open>ticks j i\<close> signals come before attempt \<open>i\<close> of the \<open>j\<close>-th access, and every access has
    \<open>K\<close> attempts.  \<open>lets_finish K (ticks j)\<close> says that at least three of them are the first or come right after
    the fault; that is enough, and without a condition of this kind an access may never complete
    (\<open>signals_starve_access\<close>).  \<open>cost\<close> is what attempts and signals can add to the counters.

  The abstract specification is a flat array of bytes, \<open>m\<close>.  \<open>vm_inv h s m\<close> says that
  state \<open>s\<close> under policy \<open>h\<close> is well formed and shows the memory \<open>m\<close>: \<open>paging\<close> (\<open>VmInvariant\<close>)
  is the part the policies share, that core map and page table agree and that each
  byte is in its frame if its page is resident and on the disk otherwise, a clean
  frame being equal to its disk block; \<open>VmSafety\<close> adds the counters, the time stamps and
  the policy's own data (queue, used counters, set of resident pages).
  \<open>VmSafety\<close> shows what each helper does, \<open>VmTransparency\<close> that a fault is served under each
  policy, \<open>VmMachine\<close> that accesses behave as on \<open>m\<close> and that timer signals are one
  turn of the clock, \<open>VmSystem\<close> that whole runs refine flat memory and that retried accesses
  complete: \<open>fault_rank\<close> of the page's bits falls with each fault, so three attempts are
  enough, and one more for every retry that signals precede.  The bound \<open>within n h s\<close> says that \<open>n\<close> more events cannot overflow the
  \<open>int\<close> counters.

  \<^bold>\<open>Threads.\<close>  Threads run one at a time.  \<open>running\<close> is the current one, all others wait in
  the ready queues, the blocked list, the join or finished queue, or a queue of
  a lock or condition variable.  A context switch changes \<open>running\<close> and saves where the
  old thread stopped as a \<open>cont\<close>; switching back continues there.

  \<^item> \<open>UtThreads\<close> (\<open>TCB.cpp\<close>, first half of \<open>uthread.cpp\<close>): control blocks in a heap, the state
    \<open>uthreads\<close>, the queues, \<open>switchToThread\<close>, \<open>switchThreads\<close>, interrupts.
  \<^item> \<open>UtCalls\<close> (\<open>uthread.cpp\<close>, \<open>Lock.cpp\<close>, \<open>CondVar.cpp\<close>): priority boosting and every call up
    to its return or its context switch (the iterator of the boosting loop is \<open>Valid\<close> or \<open>Erased\<close>, and to increment
    an erased one is a crash); \<open>resume\<close> is the rest of the calls, by \<open>cont\<close>;
    \<open>ut_step\<close> is one step of the running thread and \<open>ut_run\<close> a program given by
    the calls in the order in which they happen.  The timer signal is a \<open>Yield\<close>.
  \<^item> \<open>UtSpin\<close> (\<open>SpinLock.cpp\<close>, \<open>async_io.cpp\<close>): the spin lock as a step relation, asynchronous
    input and output over the answers of the operating system.

  \<open>UtInvariant\<close> defines \<open>ut_inv\<close>: the running thread and all queues hold every allocated control
  block exactly once, ready queues hold threads of their priority, and ids, map and
  heap agree.  \<open>UtConserve\<close> shows that each call and each continuation keeps it; the
  exception is a wait on a lock that still has somebody to wake (\<open>orderly\<close>, and \<open>orderly_rest\<close> for the rest of such a wait), shown
  to fail in \<open>waiting_again_duplicates_thread\<close>.  \<open>UtLibrary\<close> is the contract of the library as a locale: what a property has to
  satisfy on entering the library, inside, at a switch and on leaving, so that all calls
  keep it; \<open>UtExclusion\<close> interprets it for the interrupt flag (\<open>signals\<close>) and for the frame of
  the calls that touch no lock (\<open>calmly\<close>), and shows mutual exclusion for programs that use locks
  and condition variables as Hoare monitors: \<open>proper\<close> says what such a program does, \<open>H\<close>
  collects who holds what.  \<open>UtBehaviour\<close> says what the calls do: switching, locks, condition
  variables, boosting (\<open>boosted\<close> is the effect on the thread chosen) and joining on every branch (\<open>has_finished\<close>, \<open>took_result\<close>).
  \<open>settle\<close> continues threads until one is in user code; only the first half of a wait
  switches again and it does so at most once per thread, so the number of threads plus
  one is enough fuel.

  \<^bold>\<open>File system.\<close>  The shell reads commands and runs them on the file system; its calls go
  through a write-back cache of inodes to a disk of blocks.  The state \<open>fs\<close> has the device, the free maps, the cache and
  a heap of inodes, so that an inode that has been freed is noticed.

  \<^item> \<open>FsDisk\<close> (\<open>disk.c\<close>, \<open>data_structures.h\<close>): the device \<open>fs_disk\<close> and the views of a block, as bytes, as pointers, as inodes
    and as superblock, with the laws of reading after writing each of them.
  \<^item> \<open>FsCache\<close> (\<open>cache.c\<close>, \<open>inode_utilities.h\<close>): the LRU list without its two sentinels, whose nodes point to inodes of the heap.
  \<^item> \<open>FsCore\<close> (\<open>fs.c\<close>): every call with its helpers.  Buffers are byte memories.
  \<^item> \<open>FsShell\<close>, \<open>FsMain\<close> (\<open>shell.c\<close>): the copy loops and the commands over the files of the host; lines, words,
    numbers, the loop and \<open>main\<close>.  The loop of \<open>do_copyout\<close> may be endless as far as its text goes, so it is a partial function;
    \<open>copyout_loop_ends\<close> shows that it returns in every state.

  \<open>FsCacheProps\<close> shows that the cache is invisible: \<open>table s i\<close> is inode \<open>i\<close>, from the cache or from the disk, and no cache operation
  changes it but the one meant to.  \<open>FsFiles\<close> defines what a file holds, a map from offsets to bytes behind the pointers
  of the inode, and \<open>pointers_ok\<close>, that no two pointers share a block and that every block in use is marked.  \<open>FsWrites\<close> follows the
  loops of reading and writing; \<open>FsSystem\<close> has the invariant \<open>fs_inv\<close> and the abstract state \<open>file_at\<close>, from numbers
  to sizes and bytes, and shows reading and writing on it; \<open>FsCalls\<close> creation, deletion and size; \<open>FsMount\<close>
  formatting, mounting and unmounting over \<open>disk_inv\<close>, the part of the invariant that the disk alone has, and which blocks
  mounting marks (\<open>blocks_marked\<close>), since it stops at gaps; \<open>FsDebug\<close> the calls that find
  nothing to do.  \<open>FsStore\<close> is the specification of the shell, a store of byte strings with the answers \<open>answers\<close>
  allows, and the simulation, for a drive that is blank, formatted and never mounted, unmounted or mounted (\<open>drive\<close>); \<open>FsMain\<close> lifts it to the program, and \<open>FsTyped\<close> shows that any list of commands can be
  typed.  \<open>room s\<close> says that the count the cache keeps is not wrong yet: deletion leaves it
  too high, and when it reaches the capacity with an empty list the cache evicts the inode it hands out.  This
  is why the refinement of the whole shell is stated without a cache, while each call has its
  theorem for every cache that has room.  \<open>nearly_full\<close> says that at most one block is free.

  \<^bold>\<open>The first thread library.\<close>  One ready queue, and join and finished queues whose entries are local variables of
  the calls.  \<open>OtThreads\<close> is the model, with the same treatment of switches as above: \<open>ot_cont\<close> says where a thread goes on,
  \<open>ot_step\<close> is one call or continuation, \<open>ot_run\<close> a sequence of them.  \<open>OtInvariant\<close> defines \<open>ot_inv\<close>: each thread is in one place, with the
  state and continuation that belong there.  \<open>OtCalls\<close> shows that every call keeps it if at most one thread joins another and only
  suspended threads are resumed (\<open>polite\<close>); \<open>OtRuns\<close> extends this to runs, follows a joiner until it gets its result, and
  shows that yielding goes round robin.

  \<^bold>\<open>Properties.\<close>  \<open>VmProperties\<close>, \<open>UtProperties\<close>, \<open>FsProperties\<close>, \<open>FsFaults\<close> and \<open>OtProperties\<close> have C1 to C40, in the order of their
  importance, each with a witness on a concrete machine where it has hypotheses (\<open>FsSample\<close> has the disk for those of the
  file system).  C1 to C21, C23 to C33 and C38 are what the programs guarantee; C22, C34 to C37, C39 and C40 also show where the code does
  not do what it means to, and so do further lemmas in these theories.

  \<^bold>\<open>Outside the model.\<close>  \<open>rand\<close>, \<open>atoi\<close> in the paging program, what \<open>open\<close> returns, fresh and uninitialised memory and the answers of the
  asynchronous calls are arguments.  In the file system \<open>malloc\<close> and \<open>calloc\<close> never fail, \<open>= {0}\<close> on a union clears all of it (as GCC does), what
  \<open>malloc\<close> leaves in \<open>is_dirty\<close> is an argument, and printing is the reply of a command.  Stacks, registers, the interval timer, printing
  of statistics, and releasing resources at exit are left out, and so is a timer signal in the
  middle of a call of a thread library, where the code blocks it but for a few instructions, and in the middle of the timer handler.

  \<^bold>\<open>Not modelled.\<close>  \<open>page_table_delete\<close>, \<open>disk_close\<close> and \<open>free_up_core_map\<close>, which give resources back at exit; the two functions that print free maps;
  and the programs that only test or time the libraries (\<open>main.cpp\<close> and the tests of \<open>project_1\<close> and \<open>project_2\<close>, \<open>ucontext-demo.cpp\<close>).
\<close>

end
